(* ===== verification/GR_Prelude.thy ===== *)
theory GR_Prelude
  imports Main "HOL-Library.Word"
begin

text \<open>
  Shared material of the development: names for the C integer types, the conversion of a wide
  value to a C \<open>int\<close>, the array updates the sources use (\<open>memmove\<close>, indexed stores) and
  generic lemmas on lists, folds and bitwise operations.  The collection \<open>c_simps\<close> gathers
  the equations that evaluate the C-level helpers.
\<close>

unbundle bit_operations_syntax

named_theorems c_simps

type_synonym u8 = "8 word"
type_synonym u16 = "16 word"
type_synonym u32 = "32 word"
type_synonym u64 = "64 word"

declare One_nat_def [simp del]

text \<open>Evaluation of word numerals with the index one written as \<open>1\<close>.\<close>

lemma take_bit_num_1 [simp]:
  "take_bit_num 1 num.One = Some num.One"
  "take_bit_num 1 (num.Bit0 n) = None"
  "take_bit_num 1 (num.Bit1 n) = Some num.One"
  by (simp_all add: One_nat_def)

section \<open>C integers\<close>

text \<open>The value a wider integer has after conversion to a 32-bit two's complement \<open>int\<close>.\<close>

definition c_int :: "int \<Rightarrow> int" where
  "c_int x = signed_take_bit 31 x"

lemma c_int_id [c_simps]: "- (2 ^ 31) \<le> x \<Longrightarrow> x < 2 ^ 31 \<Longrightarrow> c_int x = x"
  by (simp add: c_int_def signed_take_bit_int_eq_self)

text \<open>The value of a 16-bit \<open>short\<close> after an assignment.\<close>

definition c_short :: "int \<Rightarrow> int" where
  "c_short x = signed_take_bit 15 x"

lemma c_short_id [c_simps]: "- 32768 \<le> x \<Longrightarrow> x < 32768 \<Longrightarrow> c_short x = x"
  by (simp add: c_short_def signed_take_bit_int_eq_self)

lemma c_short_range: "- 32768 \<le> c_short x" "c_short x < 32768"
  using signed_take_bit_int_greater_eq_minus_exp [of 15 x] signed_take_bit_int_less_exp [of 15 x]
  by (simp_all add: c_short_def)

text \<open>Shifts of a signed integer; \<open>>>\<close> is arithmetic.\<close>

abbreviation shr :: "int \<Rightarrow> nat \<Rightarrow> int" where "shr x n \<equiv> drop_bit n x"
abbreviation shl :: "int \<Rightarrow> nat \<Rightarrow> int" where "shl x n \<equiv> push_bit n x"

section \<open>Exclusive or\<close>

lemma xor_nat_cancel [simp]:
  fixes a b :: nat
  shows "(a XOR b) XOR b = a" "a XOR (a XOR b) = b" "a XOR (b XOR a) = b"
  by (auto intro: bit_eqI simp: bit_simps)

lemma xor_nat_eq_0_iff [simp]:
  fixes a b :: nat
  shows "a XOR b = 0 \<longleftrightarrow> a = b"
proof
  assume "a XOR b = 0"
  then have "(a XOR b) XOR b = b" by simp
  then show "a = b" by simp
qed simp

lemma xor_nat_less_exp:
  fixes a b :: nat
  assumes "a < 2 ^ m" "b < 2 ^ m"
  shows "a XOR b < 2 ^ m"
proof -
  have "take_bit m (a XOR b) = a XOR b"
    using assms by (simp add: take_bit_nat_eq_self)
  then show ?thesis by (metis take_bit_nat_less_exp)
qed

lemma unat_xor: "unat (a XOR b) = unat a XOR unat b"
  for a b :: "'a::len word"
  by (rule bit_eqI) (auto simp: bit_simps unsigned_xor_eq)

lemma push_bit_1_nat [c_simps]: "push_bit 1 (x::nat) = 2 * x"
  by (simp add: push_bit_eq_mult)

lemma unat_of_nat_id [c_simps]:
  "x < 2 ^ LENGTH('a) \<Longrightarrow> unat (of_nat x :: 'a::len word) = x"
  by (simp add: unat_of_nat take_bit_nat_eq_self)

lemma unat_u8_less [simp]: "unat (w :: u8) < 256"
  using unsigned_less [of w] by simp

section \<open>Powers of a function\<close>

lemma funpow_add_apply: "(f ^^ (a + b)) x = (f ^^ a) ((f ^^ b) x)"
  by (simp add: funpow_add)

lemma funpow_swap: "(f ^^ a) ((f ^^ b) x) = (f ^^ b) ((f ^^ a) x)"
  by (metis add.commute funpow_add_apply)

lemma funpow_periodic:
  assumes "(f ^^ n) x = x"
  shows "(f ^^ (n * k)) x = x" "(f ^^ (k mod n)) x = (f ^^ k) x"
proof -
  have per: "(f ^^ (n * k)) x = x" for k
    using assms by (induction k) (simp_all add: funpow_add_apply)
  show "(f ^^ (n * k)) x = x" by (rule per)
  have "(f ^^ k) x = (f ^^ (k mod n + n * (k div n))) x" by simp
  also have "\<dots> = (f ^^ (k mod n)) x" by (simp only: funpow_add_apply per)
  finally show "(f ^^ (k mod n)) x = (f ^^ k) x" by simp
qed

text \<open>A list of successive values of \<open>f\<close>, as a check that evaluates step by step.\<close>

fun iterates :: "('a \<Rightarrow> 'a) \<Rightarrow> 'a list \<Rightarrow> bool" where
  "iterates f (x # y # xs) \<longleftrightarrow> f x = y \<and> iterates f (y # xs)"
| "iterates f xs \<longleftrightarrow> True"

lemma iterates_nth:
  "iterates f xs \<Longrightarrow> i < length xs \<Longrightarrow> xs ! i = (f ^^ i) (xs ! 0)"
proof (induction f xs arbitrary: i rule: iterates.induct)
  case (1 f x y xs)
  then show ?case
    by (cases i) (auto simp: funpow_swap1)
qed auto

section \<open>Residues\<close>

lemma mod_add_right_cancel_nat:
  fixes a b k n :: nat
  shows "(a + k) mod n = (b + k) mod n \<longleftrightarrow> a mod n = b mod n"
proof -
  have "(a + k) mod n = (b + k) mod n
      \<longleftrightarrow> (int a + int k) mod int n = (int b + int k) mod int n"
    by (metis of_nat_add of_nat_eq_iff zmod_int)
  also have "\<dots> \<longleftrightarrow> int a mod int n = int b mod int n"
    by (simp add: mod_eq_dvd_iff)
  finally show ?thesis by (metis of_nat_eq_iff zmod_int)
qed

section \<open>Lists as arrays\<close>

lemma take_drop_1 [simp]: "take 1 (x # xs) = [x]" "drop 1 (x # xs) = xs"
  by (simp_all add: One_nat_def)

lemma foldl_preserves:
  assumes "P s" and "\<And>s x. P s \<Longrightarrow> x \<in> set xs \<Longrightarrow> P (f s x)"
  shows "P (foldl f s xs)"
  using assms by (induction xs arbitrary: s) auto

lemma foldl_upt_invariant:
  assumes "I a s" and "a \<le> b"
    and "\<And>i s. a \<le> i \<Longrightarrow> i < b \<Longrightarrow> I i s \<Longrightarrow> I (Suc i) (f s i)"
  shows "I b (foldl f s [a..<b])"
  using assms
proof (induction b)
  case 0
  then show ?case by simp
next
  case (Suc b)
  show ?case
  proof (cases "a = Suc b")
    case True
    with Suc.prems show ?thesis by simp
  next
    case False
    with Suc.prems have "a \<le> b" by simp
    with Suc have "I b (foldl f s [a..<b])" by simp
    with \<open>a \<le> b\<close> Suc.prems(3) show ?thesis by simp
  qed
qed

text \<open>An in-place pass over part of an array, by index.\<close>

lemma foldl_update_nth:
  assumes "b \<le> length g"
  shows "length (foldl (\<lambda>g j. g[j := h j (g ! j)]) g [a..<b]) = length g"
    and "i < length g \<Longrightarrow> foldl (\<lambda>g j. g[j := h j (g ! j)]) g [a..<b] ! i
           = (if a \<le> i \<and> i < b then h i (g ! i) else g ! i)"
proof -
  have "length (foldl (\<lambda>g j. g[j := h j (g ! j)]) g [a..<b]) = length g
      \<and> (\<forall>i < length g. foldl (\<lambda>g j. g[j := h j (g ! j)]) g [a..<b] ! i
           = (if a \<le> i \<and> i < b then h i (g ! i) else g ! i))"
    using assms by (induction b) (auto simp: nth_list_update less_Suc_eq le_less)
  then show "length (foldl (\<lambda>g j. g[j := h j (g ! j)]) g [a..<b]) = length g"
    and "i < length g \<Longrightarrow> foldl (\<lambda>g j. g[j := h j (g ! j)]) g [a..<b] ! i
           = (if a \<le> i \<and> i < b then h i (g ! i) else g ! i)"
    by auto
qed

text \<open>An in-place pass over an array is a \<open>map\<close>.\<close>

lemma foldl_update_map:
  "foldl (\<lambda>g i. g[i := h (g ! i)]) g [0..<length g] = map h g"
proof -
  have "length (foldl (\<lambda>g i. g[i := h (g ! i)]) g [0..<k]) = length g
      \<and> (\<forall>j < length g. foldl (\<lambda>g i. g[i := h (g ! i)]) g [0..<k] ! j
            = (if j < k then h (g ! j) else g ! j))" if "k \<le> length g" for k
    using that by (induction k) (auto simp: nth_list_update)
  from this [of "length g"] show ?thesis by (intro nth_equalityI) auto
qed

lemma foldl_index_take:
  "k \<le> length xs \<Longrightarrow> foldl (\<lambda>s i. f s (xs ! i)) a [0..<k] = foldl f a (take k xs)"
  by (induction k) (simp_all add: take_Suc_conv_app_nth)

lemma foldl_index_drop:
  "foldl (\<lambda>s i. f s (xs ! i)) a [k..<length xs] = foldl f a (drop k xs)"
proof -
  have "map ((!) xs) [k..<length xs] = drop k xs"
    by (intro nth_equalityI) simp_all
  then show ?thesis by (metis foldl_map)
qed

text \<open>\<open>memmove (&a[dst], &a[src], n)\<close> within one array.\<close>

definition c_memmove :: "nat \<Rightarrow> nat \<Rightarrow> nat \<Rightarrow> 'a list \<Rightarrow> 'a list" where
  "c_memmove dst src n a = take dst a @ take n (drop src a) @ drop (dst + n) a"

lemma length_c_memmove [simp]:
  "dst + n \<le> length a \<Longrightarrow> src + n \<le> length a \<Longrightarrow> length (c_memmove dst src n a) = length a"
  by (simp add: c_memmove_def)

end
