(* ===== verification/RS_Char.thy ===== *)
theory RS_Char
  imports GR_Prelude
begin

text \<open>
  The Reed-Solomon control block of \<open>reed-solomon/char.h\<close> and the construction of it by
  \<open>init_rs.c\<close>, for the 8-bit symbol configuration (the only one the build compiles):
  the record \<open>rs\<close>, the reduction \<open>modnn\<close>, the logarithm tables, the generator polynomial
  and \<open>init_rs\<close> with each of its error returns.  C \<open>int\<close> variables that never go negative
  are natural numbers; \<open>unsigned char\<close> arrays are lists of bytes.
\<close>

section \<open>The control block\<close>

record rs =
  mm :: nat
  nn :: nat
  alpha_to :: "u8 list"
  index_of :: "u8 list"
  genpoly :: "u8 list"
  nroots :: nat
  fcr :: u8
  prim :: u8
  iprim :: u8

text \<open>
  \<open>modnn\<close>: the loop subtracts \<open>nn\<close> and folds the high bits down until the value is below
  \<open>nn\<close>.  A value \<open>x\<close> needs at most \<open>x\<close> rounds when \<open>nn = 2 ^ mm - 1\<close> is positive
  (\<open>modnn_mod\<close> in \<open>RS_Field\<close>), so the loop gets \<open>x\<close> units of fuel.
\<close>

fun modnn_loop :: "nat \<Rightarrow> nat \<Rightarrow> nat \<Rightarrow> nat \<Rightarrow> nat" where
  "modnn_loop 0 m n x = x"
| "modnn_loop (Suc fuel) m n x =
     (if x \<ge> n
      then let x = x - n in modnn_loop fuel m n (drop_bit m x + (x AND n))
      else x)"

definition modnn :: "rs \<Rightarrow> nat \<Rightarrow> nat" where
  "modnn rs x = modnn_loop x (mm rs) (nn rs) x"

text \<open>\<open>A0\<close> is the logarithm that stands for zero.\<close>

definition A0 :: "rs \<Rightarrow> u8" where
  "A0 rs = of_nat (nn rs)"

section \<open>Building the control block\<close>

text \<open>
  What \<open>init_rs\<close> gets from the allocator: whether each of the three \<open>malloc\<close> calls
  succeeds, and the indeterminate bytes the arrays hold before they are written.
\<close>

record alloc =
  malloc_ok :: "nat \<Rightarrow> bool"
  junk :: "nat \<Rightarrow> nat \<Rightarrow> u8"

definition malloc_bytes :: "alloc \<Rightarrow> nat \<Rightarrow> nat \<Rightarrow> u8 list" where
  "malloc_bytes m k n = map (junk m k) [0..<n]"

text \<open>One step of the shift register that enumerates the powers of the primitive element.\<close>

definition gf_step :: "nat \<Rightarrow> nat \<Rightarrow> nat \<Rightarrow> nat" where
  "gf_step symsize gfpoly sr =
     (let sr = push_bit 1 sr;
          sr = (if sr AND 2 ^ symsize \<noteq> 0 then sr XOR gfpoly else sr)
      in sr AND (2 ^ symsize - 1))"

text \<open>The loop that fills the two logarithm tables; its state is \<open>(sr, index_of, alpha_to)\<close>.\<close>

definition gf_tables ::
  "nat \<Rightarrow> nat \<Rightarrow> u8 list \<Rightarrow> u8 list \<Rightarrow> nat \<times> u8 list \<times> u8 list" where
  "gf_tables symsize gfpoly index alpha =
     (let n = 2 ^ symsize - 1 in
      foldl (\<lambda>(sr, index, alpha) i.
               (gf_step symsize gfpoly sr, index[sr := of_nat i], alpha[i := of_nat sr]))
        (1, index[0 := of_nat n], alpha[n := 0]) [0..<n])"

text \<open>
  The search for the \<open>prim\<close>-th root of one: \<open>iprim\<close> walks through \<open>1, 1 + nn, 1 + 2 nn, ...\<close>
  until it is a multiple of \<open>prim\<close>.  The \<open>int\<close> is converted to \<open>unsigned\<close> by both operations, so
  the sum wraps modulo \<open>2 ^ 32\<close>.  \<open>None\<close> would be a search without end; there is none, as is proved
  in \<open>RS_Init\<close>.
\<close>

partial_function (option) iprim_loop :: "u32 \<Rightarrow> u32 \<Rightarrow> u32 \<Rightarrow> u32 option" where
  "iprim_loop n p x = (if x mod p \<noteq> 0 then iprim_loop n p (x + n) else Some x)"

text \<open>
  Multiplying the generator polynomial by \<open>(x + \<alpha>^root)\<close>: the inner loop over \<open>j\<close> runs
  downwards from \<open>i\<close> to \<open>1\<close>, after \<open>genpoly[i+1]\<close> has been set to one; the last line
  updates \<open>genpoly[0]\<close>.
\<close>

definition gen_coeff :: "rs \<Rightarrow> nat \<Rightarrow> u8 list \<Rightarrow> nat \<Rightarrow> u8" where
  "gen_coeff rs root g j =
     (if g ! j \<noteq> 0
      then g ! (j - 1) XOR alpha_to rs ! modnn rs (unat (index_of rs ! unat (g ! j)) + root)
      else g ! (j - 1))"

definition gen_mult :: "rs \<Rightarrow> nat \<Rightarrow> nat \<Rightarrow> u8 list \<Rightarrow> u8 list" where
  "gen_mult rs root i g =
     (let g = g[i + 1 := 1];
          g = foldl (\<lambda>g j. g[j := gen_coeff rs root g j]) g (rev [1..<i + 1])
      in g[0 := alpha_to rs ! modnn rs (unat (index_of rs ! unat (g ! 0)) + root)])"

definition gen_poly :: "rs \<Rightarrow> nat \<Rightarrow> nat \<Rightarrow> u8 list \<Rightarrow> u8 list" where
  "gen_poly rs f p g =
     foldl (\<lambda>g i. gen_mult rs (f * p + i * p) i g) (g[0 := 1]) [0..<nroots rs]"

text \<open>Conversion of the generator polynomial to index form.\<close>

definition gen_to_index :: "rs \<Rightarrow> u8 list \<Rightarrow> u8 list" where
  "gen_to_index rs g =
     foldl (\<lambda>g i. g[i := index_of rs ! unat (g ! i)]) g [0..<nroots rs + 1]"

text \<open>
  The outcomes of \<open>init_rs\<close>: a null pointer, a loop for \<open>iprim\<close> that never ends (which \<open>RS_Init\<close>
  rules out), or a control block.
\<close>

datatype init_result = RS_null | RS_hang | RS_ok rs

definition init_rs ::
  "alloc \<Rightarrow> nat \<Rightarrow> nat \<Rightarrow> nat \<Rightarrow> nat \<Rightarrow> nat \<Rightarrow> init_result" where
  "init_rs mem symsize gfpoly f p nr =
     (if symsize > 8 then RS_null
      else if f \<ge> 2 ^ symsize then RS_null
      else if p = 0 \<or> p \<ge> 2 ^ symsize then RS_null
      else if nr \<ge> 2 ^ symsize then RS_null
      else let n = 2 ^ symsize - 1 in
        if \<not> malloc_ok mem 0 then RS_null
        else if \<not> malloc_ok mem 1 then RS_null
        else (case gf_tables symsize gfpoly (malloc_bytes mem 1 (n + 1)) (malloc_bytes mem 0 (n + 1))
          of (sr, index, alpha) \<Rightarrow>
            if sr \<noteq> 1 then RS_null
            else if \<not> malloc_ok mem 2 then RS_null
            else (case iprim_loop (of_nat n) (of_nat p) 1 of
                None \<Rightarrow> RS_hang
              | Some ip \<Rightarrow>
                 (let r = \<lparr> mm = symsize, nn = n, alpha_to = alpha, index_of = index,
                            genpoly = [], nroots = nr, fcr = of_nat f, prim = of_nat p,
                            iprim = ucast (ip div of_nat p) \<rparr>;
                      g = gen_poly r f p (malloc_bytes mem 2 (nr + 1))
                  in RS_ok (r\<lparr> genpoly := gen_to_index r g \<rparr>)))))"

end
