(* ===== verification/RS_Field.thy ===== *)
theory RS_Field
  imports RS_Char
begin

text \<open>
  The arithmetic behind the Reed-Solomon codec.  Multiplying a symbol by \<open>\<alpha>^r\<close> is \<open>r\<close> steps
  of the shift register \<open>gf_step\<close>, a map that is linear over exclusive or; the locale
  \<open>xor_linear\<close> states what the polynomial evaluations need of it, and \<open>gf_cycle\<close> adds what the
  distance of the code needs: the register runs through all nonzero symbols.  Both are
  interpreted on \<open>gf_step\<close>, and the logarithm tables that \<open>init_rs\<close> builds are proved to
  compute those steps.
\<close>

section \<open>Linear maps and polynomial evaluation\<close>

text \<open>
  The value of a polynomial (coefficients in order of increasing degree) at the point
  that \<open>r\<close> steps of \<open>T\<close> multiply by.
\<close>

fun peval :: "(nat \<Rightarrow> nat) \<Rightarrow> nat \<Rightarrow> nat list \<Rightarrow> nat" where
  "peval T r [] = 0"
| "peval T r (c # cs) = c XOR (T ^^ r) (peval T r cs)"

definition xor_lists :: "nat list \<Rightarrow> nat list \<Rightarrow> nat list" where
  "xor_lists xs ys = map2 (XOR) xs ys"

text \<open>The exclusive or of \<open>c\<close> moved by \<open>e * s\<close> steps, over a list of pairs \<open>(e, c)\<close>.\<close>

fun xor_terms :: "(nat \<Rightarrow> nat) \<Rightarrow> nat \<Rightarrow> (nat \<times> nat) list \<Rightarrow> nat" where
  "xor_terms T s [] = 0"
| "xor_terms T s ((e, c) # ps) = (T ^^ (e * s)) c XOR xor_terms T s ps"

locale xor_linear =
  fixes T :: "nat \<Rightarrow> nat"
  assumes T_xor: "T (x XOR y) = T x XOR T y"
begin

lemma T_0 [simp]: "T 0 = 0"
  using T_xor [of 0 0] by simp

lemma pow_xor [simp]: "(T ^^ k) (x XOR y) = (T ^^ k) x XOR (T ^^ k) y"
  by (induction k) (simp_all add: T_xor)

lemma pow_0 [simp]: "(T ^^ k) 0 = 0"
  by (induction k) simp_all

lemma peval_append:
  "peval T r (xs @ ys) = peval T r xs XOR (T ^^ (r * length xs)) (peval T r ys)"
  by (induction xs) (simp_all add: funpow_add_apply xor.assoc)

lemma peval_xor_lists:
  "length xs = length ys \<Longrightarrow> peval T r (xor_lists xs ys) = peval T r xs XOR peval T r ys"
  by (induction xs ys rule: list_induct2) (simp_all add: xor_lists_def ac_simps)

lemma peval_map_pow: "peval T r (map (T ^^ e) cs) = (T ^^ e) (peval T r cs)"
  by (induction cs) (simp_all add: funpow_swap [where a = r])

lemma peval_zeros: "(\<And>c. c \<in> set cs \<Longrightarrow> c = 0) \<Longrightarrow> peval T r cs = 0"
  by (induction cs) auto

lemma foldl_horner:
  "foldl (\<lambda>s d. d XOR (T ^^ r) s) a cs = peval T r (rev cs) XOR (T ^^ (r * length cs)) a"
proof (induction cs arbitrary: a)
  case Nil
  then show ?case by simp
next
  case (Cons c cs)
  then show ?case
    by (simp add: peval_append funpow_add_apply funpow_swap [where a = r] ac_simps
        flip: funpow_add_apply)
qed

text \<open>Multiplication by \<open>x + \<alpha>^e\<close> adds \<open>e\<close> to the roots and keeps the ones there are.\<close>

lemma peval_times_root:
  assumes "length xs = length ys" "peval T r xs = (T ^^ r) (peval T r g)"
    "peval T r ys = (T ^^ e) (peval T r g)" "e = r \<or> peval T r g = 0"
  shows "peval T r (xor_lists xs ys) = 0"
  using assms by (auto simp: peval_xor_lists)

lemma xor_terms_zeros: "(\<And>e c. (e, c) \<in> set ps \<Longrightarrow> c = 0) \<Longrightarrow> xor_terms T s ps = 0"
proof (induction ps)
  case (Cons p ps)
  then have "snd p = 0" "xor_terms T s ps = 0" by (cases p; auto)+
  then show ?case by (cases p) simp
qed simp

text \<open>The combination of two consecutive sums that cancels the term with exponent \<open>e0\<close>.\<close>

lemma xor_terms_cancel:
  "xor_terms T (Suc s) ps XOR (T ^^ e0) (xor_terms T s ps)
   = xor_terms T s (map (\<lambda>(e, c). (e, (T ^^ e) c XOR (T ^^ e0) c)) ps)"
proof (induction ps)
  case Nil
  then show ?case by simp
next
  case (Cons p ps)
  obtain e c where p: "p = (e, c)" by (cases p)
  let ?u = "(T ^^ (e * s)) ((T ^^ e) c)" and ?v = "(T ^^ (e * s)) ((T ^^ e0) c)"
  have u: "(T ^^ (e * Suc s)) c = ?u"
    by (simp add: funpow_swap flip: funpow_add_apply)
  have v: "(T ^^ e0) ((T ^^ (e * s)) c) = ?v"
    by (rule funpow_swap)
  have "xor_terms T (Suc s) (p # ps) XOR (T ^^ e0) (xor_terms T s (p # ps))
      = (?u XOR xor_terms T (Suc s) ps) XOR (?v XOR (T ^^ e0) (xor_terms T s ps))"
    by (simp only: p xor_terms.simps pow_xor u v)
  also have "\<dots> = (?u XOR ?v) XOR (xor_terms T (Suc s) ps XOR (T ^^ e0) (xor_terms T s ps))"
    by (simp only: ac_simps)
  also have "\<dots> = xor_terms T s (map (\<lambda>(e, c). (e, (T ^^ e) c XOR (T ^^ e0) c)) (p # ps))"
    by (simp add: Cons.IH p)
  finally show ?case .
qed

end

section \<open>A map that cycles through the nonzero symbols\<close>

locale gf_cycle = xor_linear +
  fixes V :: "nat \<Rightarrow> bool" and n :: nat
  assumes V_xor: "V x \<Longrightarrow> V y \<Longrightarrow> V (x XOR y)"
    and V_T: "V x \<Longrightarrow> V (T x)"
    and cycle: "V x \<Longrightarrow> x \<noteq> 0 \<Longrightarrow> (T ^^ a) x = (T ^^ b) x \<longleftrightarrow> a mod n = b mod n"
    and n_pos: "0 < n"
begin

lemma V_pow: "V x \<Longrightarrow> V ((T ^^ k) x)"
  by (induction k) (simp_all add: V_T)

lemma pow_eq_0_iff [simp]:
  assumes "V x"
  shows "(T ^^ k) x = 0 \<longleftrightarrow> x = 0"
proof
  assume z: "(T ^^ k) x = 0"
  show "x = 0"
  proof (rule ccontr)
    assume nz: "x \<noteq> 0"
    have "(T ^^ (n * k - k + k)) x = x"
      using cycle [OF assms nz, of "n * k" 0] n_pos by simp
    with z have "x = 0" by (simp only: funpow_add_apply pow_0)
    with nz show False ..
  qed
qed simp

text \<open>
  Terms with different exponents whose sums vanish at as many consecutive points as there
  are terms are all zero.
\<close>

lemma xor_terms_all_zero:
  assumes "\<And>e c. (e, c) \<in> set ps \<Longrightarrow> V c"
    and "distinct (map (\<lambda>(e, c). e mod n) ps)"
    and "\<And>i. i < length ps \<Longrightarrow> xor_terms T (f + i) ps = 0"
    and "(e, c) \<in> set ps"
  shows "c = 0"
  using assms
proof (induction ps arbitrary: e c rule: length_induct)
  case (1 ps)
  show ?case
  proof (cases ps)
    case Nil
    with 1 show ?thesis by simp
  next
    case (Cons p qs)
    obtain e0 c0 where p: "p = (e0, c0)" by (cases p)
    let ?h = "\<lambda>(e, c). (e, (T ^^ e) c XOR (T ^^ e0) c)"
    have Vqs: "V c" if "(e, c) \<in> set qs" for e c
      using "1.prems"(1) that Cons by auto
    have zero: "c = 0" if mem: "(e, c) \<in> set qs" for e c
    proof -
      have h1: "V c" if "(e, c) \<in> set (map ?h qs)" for e c
        using that by (auto intro!: V_xor V_pow intro: Vqs)
      have h2: "distinct (map (\<lambda>(e, c). e mod n) (map ?h qs))"
        using "1.prems"(2) Cons by (simp add: case_prod_beta comp_def)
      have h3: "xor_terms T (f + i) (map ?h qs) = 0" if "i < length (map ?h qs)" for i
      proof -
        have "xor_terms T (f + i) (map ?h (p # qs)) = 0"
          using "1.prems"(3) [of i] "1.prems"(3) [of "Suc i"] that Cons
            xor_terms_cancel [of "f + i" "p # qs" e0]
          by (simp del: list.map)
        then show ?thesis by (simp add: p)
      qed
      have h4: "(e, (T ^^ e) c XOR (T ^^ e0) c) \<in> set (map ?h qs)"
        using mem by force
      have "length (map ?h qs) < length ps" using Cons by simp
      then have "(T ^^ e) c XOR (T ^^ e0) c = 0"
        using "1.IH" h1 h2 h3 h4 by blast
      moreover have "e mod n \<noteq> e0 mod n"
        using "1.prems"(2) Cons p mem by (force simp: case_prod_beta)
      ultimately show ?thesis using cycle [OF Vqs [OF mem]] by auto
    qed
    then have "xor_terms T f qs = 0" by (rule xor_terms_zeros)
    moreover have "xor_terms T f ps = 0" using "1.prems"(3) [of 0] Cons by simp
    moreover have "V c0" using "1.prems"(1) Cons p by auto
    ultimately have "c0 = 0" by (simp add: Cons p)
    with zero "1.prems"(4) Cons p show ?thesis by auto
  qed
qed

end

section \<open>The shift register of the symbol field\<close>

lemma gf_step_take_bit:
  "gf_step m p x = take_bit m (push_bit 1 x XOR (if bit (push_bit 1 x) m then p else 0))"
proof -
  have "(push_bit 1 x AND 2 ^ m \<noteq> 0) = bit (push_bit 1 x) m" for x :: nat
    by (simp add: and_exp_eq_0_iff_not_bit)
  moreover have "y AND (2 ^ m - 1) = take_bit m y" for y :: nat
    by (simp add: take_bit_eq_mask mask_nat_def)
  ultimately show ?thesis
    by (simp add: gf_step_def Let_def)
qed

lemma gf_step_less: "gf_step m p x < 2 ^ m"
  unfolding gf_step_take_bit by (rule take_bit_nat_less_exp)

lemma gf_step_xor: "gf_step m p (x XOR y) = gf_step m p x XOR gf_step m p y"
  by (rule bit_eqI) (auto simp: gf_step_take_bit bit_simps)

interpretation gf: xor_linear "gf_step m p" for m p
  by unfold_locales (rule gf_step_xor)

text \<open>
  \<open>gfpoly\<close> is primitive for \<open>symsize\<close> when the register, started at one, does not come back to
  one before it has made \<open>2 ^ symsize - 1\<close> steps.
\<close>

definition primitive_poly :: "nat \<Rightarrow> nat \<Rightarrow> bool" where
  "primitive_poly m p \<longleftrightarrow> (\<forall>k. 0 < k \<longrightarrow> k < 2 ^ m - 1 \<longrightarrow> (gf_step m p ^^ k) 1 \<noteq> 1)"

definition gf_field :: "nat \<Rightarrow> nat \<Rightarrow> bool" where
  "gf_field m p \<longleftrightarrow> 1 \<le> m \<and> (gf_step m p ^^ (2 ^ m - 1)) 1 = 1 \<and> primitive_poly m p"

lemma gf_field_n:
  assumes "gf_field m p"
  shows "0 < 2 ^ m - (1::nat)"
proof -
  have "(2::nat) ^ 1 \<le> 2 ^ m"
    using assms by (intro power_increasing) (simp_all add: gf_field_def)
  then show ?thesis by simp
qed

lemma gf_pow_less:
  assumes "gf_field m p"
  shows "(gf_step m p ^^ k) 1 < 2 ^ m"
proof (cases k)
  case 0
  then show ?thesis using gf_field_n [OF assms] by simp
next
  case (Suc k)
  then show ?thesis by (simp add: gf_step_less)
qed

lemma gf_pow_mod:
  "gf_field m p \<Longrightarrow> (gf_step m p ^^ (k mod (2 ^ m - 1))) 1 = (gf_step m p ^^ k) 1"
  by (rule funpow_periodic) (simp add: gf_field_def)

lemma gf_pow_nonzero:
  assumes "gf_field m p"
  shows "(gf_step m p ^^ k) 1 \<noteq> 0"
proof
  assume z: "(gf_step m p ^^ k) 1 = 0"
  let ?n = "2 ^ m - 1 :: nat"
  have "k \<le> ?n * k"
    using gf_field_n [OF assms] by (metis mult_le_mono1 mult_1 Suc_leI One_nat_def)
  then have "(gf_step m p ^^ (?n * k - k + k)) 1 = (gf_step m p ^^ (?n * k)) 1"
    by simp
  also have "\<dots> = 1"
    using assms by (intro funpow_periodic) (simp add: gf_field_def)
  finally show False
    using z by (simp add: funpow_add_apply)
qed

lemma gf_pow_inj:
  assumes F: "gf_field m p"
  shows "(gf_step m p ^^ a) 1 = (gf_step m p ^^ b) 1 \<longleftrightarrow> a mod (2 ^ m - 1) = b mod (2 ^ m - 1)"
proof
  let ?n = "2 ^ m - 1 :: nat" and ?T = "gf_step m p"
  have no: False if "i < j" "j < ?n" "(?T ^^ i) 1 = (?T ^^ j) 1" for i j
  proof -
    have "(?T ^^ (?n - i + i)) 1 = (?T ^^ (?n - i + j)) 1"
      using that by (simp only: funpow_add_apply)
    then have "(?T ^^ ?n) 1 = (?T ^^ (?n + (j - i))) 1" using that by (simp add: add.commute)
    also have "\<dots> = (?T ^^ (j - i)) ((?T ^^ ?n) 1)"
      by (metis add.commute funpow_add_apply)
    finally have "(?T ^^ (j - i)) 1 = 1" using F by (simp add: gf_field_def)
    with that F show False by (auto simp: gf_field_def primitive_poly_def)
  qed
  assume "(?T ^^ a) 1 = (?T ^^ b) 1"
  then have "(?T ^^ (a mod ?n)) 1 = (?T ^^ (b mod ?n)) 1" by (simp only: gf_pow_mod [OF F])
  then show "a mod ?n = b mod ?n"
    using no [of "a mod ?n" "b mod ?n"] no [of "b mod ?n" "a mod ?n"] gf_field_n [OF F]
    by (metis linorder_neqE_nat mod_less_divisor)
next
  assume "a mod (2 ^ m - 1) = b mod (2 ^ m - 1)"
  then show "(gf_step m p ^^ a) 1 = (gf_step m p ^^ b) 1" by (metis gf_pow_mod [OF F])
qed

text \<open>Every nonzero symbol is a power of the primitive element.\<close>

lemma gf_log_exists:
  assumes F: "gf_field m p" and c: "c < 2 ^ m" "c \<noteq> 0"
  obtains k where "k < 2 ^ m - 1" "c = (gf_step m p ^^ k) 1"
proof -
  let ?n = "2 ^ m - 1 :: nat" and ?f = "\<lambda>k. (gf_step m p ^^ k) 1"
  have "inj_on ?f {..<?n}"
    by (rule inj_onI) (use gf_pow_inj [OF F] in auto)
  then have "card (?f ` {..<?n}) = ?n" by (simp add: card_image)
  moreover have "?f ` {..<?n} \<subseteq> {0<..<2 ^ m}"
    using gf_pow_less [OF F] gf_pow_nonzero [OF F] by auto
  ultimately have "?f ` {..<?n} = {0<..<2 ^ m}"
    by (intro card_subset_eq) (simp_all add: One_nat_def)
  with c have "c \<in> ?f ` {..<?n}" by auto
  with that show ?thesis by auto
qed

lemma gf_cycle_step:
  assumes F: "gf_field m p"
  shows "gf_cycle (gf_step m p) (\<lambda>c. c < 2 ^ m) (2 ^ m - 1)"
proof unfold_locales
  let ?T = "gf_step m p" and ?n = "2 ^ m - 1 :: nat"
  fix x a b :: nat
  assume "x < 2 ^ m" "x \<noteq> 0"
  then obtain k where k: "x = (?T ^^ k) 1" by (rule gf_log_exists [OF F])
  have "(?T ^^ a) x = (?T ^^ b) x \<longleftrightarrow> (a + k) mod ?n = (b + k) mod ?n"
    unfolding k by (simp only: gf_pow_inj [OF F] flip: funpow_add_apply)
  also have "\<dots> \<longleftrightarrow> a mod ?n = b mod ?n"
    by (rule mod_add_right_cancel_nat)
  finally show "((?T ^^ a) x = (?T ^^ b) x) = (a mod ?n = b mod ?n)" .
qed (use gf_field_n [OF F] in \<open>simp_all add: gf_step_less xor_nat_less_exp\<close>)

section \<open>The logarithm tables\<close>

text \<open>What the decoder and the encoder rely on: the fields of a control block for a field.\<close>

definition rs_field :: "rs \<Rightarrow> nat \<Rightarrow> bool" where
  "rs_field rs p \<longleftrightarrow>
     gf_field (mm rs) p \<and> mm rs \<le> 8 \<and> nn rs = 2 ^ mm rs - 1 \<and>
     length (alpha_to rs) = 2 ^ mm rs \<and> length (index_of rs) = 2 ^ mm rs \<and>
     alpha_to rs ! nn rs = 0 \<and> index_of rs ! 0 = A0 rs \<and>
     (\<forall>k < nn rs. unat (alpha_to rs ! k) = (gf_step (mm rs) p ^^ k) 1) \<and>
     (\<forall>k < nn rs. unat (index_of rs ! (gf_step (mm rs) p ^^ k) 1) = k)"

lemma modnn_loop_mod:
  assumes "n = 2 ^ m - 1" "0 < n" "x \<le> fuel"
  shows "modnn_loop fuel m n x = x mod n"
  using assms(3)
proof (induction fuel arbitrary: x)
  case 0
  then show ?case by simp
next
  case (Suc fuel)
  show ?case
  proof (cases "x \<ge> n")
    case True
    define y where "y = x - n"
    have p: "2 ^ m = n + 1" using assms(1) by simp
    have mask: "y AND n = y mod 2 ^ m"
      by (simp add: assms(1) take_bit_eq_mod flip: take_bit_eq_mask mask_nat_def)
    have dec: "n * (y div 2 ^ m) + (y div 2 ^ m + y mod 2 ^ m) = y"
      using mult_div_mod_eq [of "2 ^ m" y] by (simp only: p add_mult_distrib mult_1 add.assoc)
    have le: "y div 2 ^ m + y mod 2 ^ m \<le> fuel"
    proof -
      have "y div 2 ^ m + y mod 2 ^ m \<le> y"
        using dec by (metis le_add2)
      also have "y \<le> fuel" using Suc.prems assms(2) True by (simp add: y_def)
      finally show ?thesis .
    qed
    have "modnn_loop (Suc fuel) m n x = modnn_loop fuel m n (y div 2 ^ m + y mod 2 ^ m)"
      using True by (simp add: y_def [symmetric] Let_def mask drop_bit_eq_div)
    also have "\<dots> = (y div 2 ^ m + y mod 2 ^ m) mod n" by (rule Suc.IH [OF le])
    also have "\<dots> = (n * (y div 2 ^ m) + (y div 2 ^ m + y mod 2 ^ m)) mod n" by simp
    also have "n * (y div 2 ^ m) + (y div 2 ^ m + y mod 2 ^ m) = y" by (rule dec)
    also have "y mod n = x mod n" using True by (simp add: y_def le_mod_geq)
    finally show ?thesis .
  qed simp
qed

lemma modnn_mod:
  assumes "rs_field rs p"
  shows "modnn rs x = x mod nn rs"
  using assms gf_field_n [of "mm rs" p]
  by (simp add: modnn_def rs_field_def modnn_loop_mod)

lemma A0_unat:
  assumes "rs_field rs p"
  shows "unat (A0 rs) = nn rs"
proof -
  have "(2::nat) ^ mm rs \<le> 2 ^ 8"
    using assms by (intro power_increasing) (auto simp: rs_field_def)
  then have "nn rs < 2 ^ LENGTH(8)" using assms by (simp add: rs_field_def)
  then show ?thesis unfolding A0_def by (rule unat_of_nat_id)
qed

text \<open>The product of a nonzero symbol and \<open>\<alpha>^r\<close>, the way the code computes it.\<close>

lemma table_mult:
  assumes R: "rs_field rs p" and x: "unat x < 2 ^ mm rs" "x \<noteq> 0"
  shows "unat (alpha_to rs ! modnn rs (unat (index_of rs ! unat x) + r))
       = (gf_step (mm rs) p ^^ r) (unat x)"
proof -
  have F: "gf_field (mm rs) p" using R by (simp add: rs_field_def)
  have "unat x \<noteq> 0" using x by (simp add: unat_eq_zero)
  then obtain k where k: "k < nn rs" "unat x = (gf_step (mm rs) p ^^ k) 1"
    using gf_log_exists [OF F x(1)] R by (metis rs_field_def)
  then have "unat (index_of rs ! unat x) = k" using R by (simp add: rs_field_def)
  moreover have "(k + r) mod nn rs < nn rs" using k by simp
  ultimately have "unat (alpha_to rs ! modnn rs (unat (index_of rs ! unat x) + r))
      = (gf_step (mm rs) p ^^ ((k + r) mod nn rs)) 1"
    using R by (simp add: modnn_mod [OF R] rs_field_def)
  also have "\<dots> = (gf_step (mm rs) p ^^ (r + k)) 1"
    using R gf_pow_mod [OF F, of "k + r"] by (simp add: rs_field_def add.commute)
  finally show ?thesis by (simp add: k funpow_add_apply)
qed

lemma table_log_zero_iff:
  assumes R: "rs_field rs p" and x: "unat x < 2 ^ mm rs"
  shows "index_of rs ! unat x = A0 rs \<longleftrightarrow> x = 0"
proof
  assume eq: "index_of rs ! unat x = A0 rs"
  show "x = 0"
  proof (rule ccontr)
    assume "x \<noteq> 0"
    then have "unat x \<noteq> 0" by (simp add: unat_eq_zero)
    then obtain k where "k < nn rs" "unat x = (gf_step (mm rs) p ^^ k) 1"
      using gf_log_exists [OF _ x] R by (metis rs_field_def)
    then have "unat (index_of rs ! unat x) < nn rs" using R by (simp add: rs_field_def)
    with eq show False using A0_unat [OF R] by simp
  qed
qed (use R in \<open>simp add: rs_field_def\<close>)

end
