(* ===== verification/RS_Init.thy ===== *)
theory RS_Init
  imports RS_Field
begin

text \<open>
  What \<open>init_rs\<close> establishes: the logarithm tables of the field (\<open>rs_field\<close>), a monic generator
  polynomial whose roots are the \<open>nroots\<close> consecutive powers and none of whose coefficients
  is zero (\<open>rs_code\<close>), and the \<open>prim\<close>-th root of one.
\<close>

section \<open>The tables\<close>

lemma gf_tables_sr:
  "fst (gf_tables m p index alpha) = (gf_step m p ^^ (2 ^ m - 1)) 1"
proof -
  have "fst (foldl (\<lambda>(sr, index, alpha) i.
          (gf_step m p sr, index[sr := of_nat i], alpha[i := of_nat sr])) (1, a, b) [0..<k])
        = (gf_step m p ^^ k) 1" for k and a b :: "u8 list"
    by (induction k) (auto simp: case_prod_beta)
  then show ?thesis by (simp add: gf_tables_def Let_def)
qed

lemma gf_tables_ok:
  assumes F: "gf_field m p" and m: "m \<le> 8"
    and len: "length index = 2 ^ m" "length alpha = 2 ^ m"
    and res: "gf_tables m p index alpha = (sr, ix, al)"
  shows "length ix = 2 ^ m \<and> length al = 2 ^ m \<and> al ! (2 ^ m - 1) = 0
    \<and> ix ! 0 = of_nat (2 ^ m - 1)
    \<and> (\<forall>k < 2 ^ m - 1. unat (al ! k) = (gf_step m p ^^ k) 1)
    \<and> (\<forall>k < 2 ^ m - 1. unat (ix ! (gf_step m p ^^ k) 1) = k)"
proof -
  define n :: nat where "n = 2 ^ m - 1"
  let ?a = "\<lambda>k. (gf_step m p ^^ k) 1"
  have n: "0 < n" "Suc n = 2 ^ m" using gf_field_n [OF F] by (simp_all add: n_def)
  have le: "(2::nat) ^ m \<le> 2 ^ 8" using m by (intro power_increasing) auto
  have byte: "unat (of_nat k :: u8) = k" if "k < 2 ^ m" for k
    using that le by (intro unat_of_nat_id) simp
  have inj: "?a i \<noteq> ?a k" if "i < n" "k < n" "i \<noteq> k" for i k
    using that gf_pow_inj [OF F, of i k] by (simp add: n_def)
  define I where "I i s = (case s of (sr, ix, al) \<Rightarrow>
      sr = ?a i \<and> length ix = Suc n \<and> length al = Suc n \<and> al ! n = 0 \<and> ix ! 0 = of_nat n
      \<and> (\<forall>k < i. unat (al ! k) = ?a k) \<and> (\<forall>k < i. unat (ix ! ?a k) = k))"
    for i and s :: "nat \<times> u8 list \<times> u8 list"
  have "I n (gf_tables m p index alpha)"
    unfolding gf_tables_def Let_def n_def [symmetric]
  proof (rule foldl_upt_invariant)
    show "I 0 (1, index[0 := of_nat n], alpha[n := 0])"
      using len n by (simp add: I_def)
  next
    fix i s
    assume i: "i < n" and "I i s"
    then obtain ix al where s: "s = (?a i, ix, al)" and len: "length ix = Suc n" "length al = Suc n"
      and z: "al ! n = 0" "ix ! 0 = of_nat n"
      and al: "\<And>k. k < i \<Longrightarrow> unat (al ! k) = ?a k"
      and ix: "\<And>k. k < i \<Longrightarrow> unat (ix ! ?a k) = k"
      by (auto simp: I_def split: prod.splits)
    have ai: "?a i < Suc n" "?a i \<noteq> 0" using gf_pow_less [OF F] gf_pow_nonzero [OF F] n by auto
    have "i < 2 ^ m" using i n by simp
    then have "unat (ix[?a i := of_nat i] ! ?a k) = k" if "k < Suc i" for k
      using that ix inj [of k i] i ai len byte by (auto simp: nth_list_update less_Suc_eq)
    moreover have "unat (al[i := of_nat (?a i)] ! k) = ?a k" if "k < Suc i" for k
      using that al i len byte [OF gf_pow_less [OF F]]
      by (auto simp: nth_list_update less_Suc_eq)
    ultimately show "I (Suc i) ((\<lambda>(sr, index, alpha) i.
          (gf_step m p sr, index[sr := of_nat i], alpha[i := of_nat sr])) s i)"
      using i ai len z by (simp add: I_def s)
  qed simp
  then show ?thesis using res n unfolding n_def [symmetric] by (simp add: I_def)
qed

section \<open>The generator polynomial\<close>

text \<open>The product of a symbol and \<open>\<alpha>^r\<close> as a value, zero included.\<close>

lemma gen_coeff_unat:
  assumes R: "rs_field rs p" and x: "unat (g ! j) < 2 ^ mm rs"
  shows "unat (gen_coeff rs root g j)
       = unat (g ! (j - 1)) XOR (gf_step (mm rs) p ^^ root) (unat (g ! j))"
  using table_mult [OF R x] by (simp add: gen_coeff_def unat_xor)

lemma gen_coeff_loop:
  fixes rs :: rs and root :: nat
  assumes "i < length g"
  defines "h \<equiv> foldl (\<lambda>g j. g[j := gen_coeff rs root g j]) g (rev [1..<i + 1])"
  shows "length h = length g \<and> (\<forall>j < length g.
           h ! j = (if 1 \<le> j \<and> j \<le> i then gen_coeff rs root g j else g ! j))"
  using assms(1) unfolding h_def
proof (induction i arbitrary: g)
  case 0
  then show ?case by auto
next
  case (Suc i)
  let ?g = "g[Suc i := gen_coeff rs root g (Suc i)]"
  have rev: "rev [1..<Suc i + 1] = Suc i # rev [1..<i + 1]" by simp
  have same: "gen_coeff rs root ?g j = gen_coeff rs root g j" if "j \<le> i" for j
    using that by (auto simp: gen_coeff_def nth_list_update)
  have "i < length ?g" using Suc.prems by simp
  from Suc.IH [OF this] show ?case
    unfolding rev foldl_Cons using same Suc.prems by (auto simp: nth_list_update le_Suc_eq)
qed

lemma gen_mult_nth:
  assumes "i + 1 < length g"
  shows "length (gen_mult rs root i g) = length g"
    and "0 < j \<Longrightarrow> j \<le> i \<Longrightarrow> gen_mult rs root i g ! j = gen_coeff rs root (g[i + 1 := 1]) j"
    and "gen_mult rs root i g ! (i + 1) = 1"
    and "gen_mult rs root i g ! 0 = alpha_to rs ! modnn rs (unat (index_of rs ! unat (g ! 0)) + root)"
    and "i + 1 < j \<Longrightarrow> j < length g \<Longrightarrow> gen_mult rs root i g ! j = g ! j"
proof -
  let ?g = "g[i + 1 := 1]"
  let ?h = "foldl (\<lambda>g j. g[j := gen_coeff rs root g j]) ?g (rev [1..<i + 1])"
  have i: "i < length ?g" using assms by simp
  have def: "gen_mult rs root i g
      = ?h[0 := alpha_to rs ! modnn rs (unat (index_of rs ! unat (?h ! 0)) + root)]"
    by (simp add: gen_mult_def Let_def)
  have len: "length ?h = length g" using gen_coeff_loop [OF i] by simp
  have nth: "?h ! j = (if 1 \<le> j \<and> j \<le> i then gen_coeff rs root ?g j else ?g ! j)"
    if "j < length g" for j
    using gen_coeff_loop [OF i, of rs root] that by simp
  have ne: "g \<noteq> []" using assms by auto
  then have h0: "?h ! 0 = g ! 0" using nth [of 0] by simp
  show "length (gen_mult rs root i g) = length g" by (simp add: def len)
  show "gen_mult rs root i g ! j = gen_coeff rs root ?g j" if "0 < j" "j \<le> i"
    using that assms by (simp add: def len nth)
  show "gen_mult rs root i g ! (i + 1) = 1" using assms by (simp add: def len nth)
  show "gen_mult rs root i g ! 0
      = alpha_to rs ! modnn rs (unat (index_of rs ! unat (g ! 0)) + root)"
    using assms h0 ne len by (simp add: def nth_list_update)
  show "gen_mult rs root i g ! j = g ! j" if "i + 1 < j" "j < length g"
    using that assms by (simp add: def len nth)
qed

text \<open>
  The state of the generator loop before round \<open>i\<close>: a monic polynomial of degree \<open>i\<close> over the
  field, with a nonzero constant term and the roots of the rounds so far.
\<close>

definition gen_inv :: "rs \<Rightarrow> nat \<Rightarrow> (nat \<Rightarrow> nat) \<Rightarrow> nat \<Rightarrow> u8 list \<Rightarrow> bool" where
  "gen_inv rs p root i g \<longleftrightarrow>
     i < length g \<and> g ! i = 1 \<and> g ! 0 \<noteq> 0 \<and> (\<forall>j \<le> i. unat (g ! j) < 2 ^ mm rs) \<and>
     (\<forall>l < i. peval (gf_step (mm rs) p) (root l) (map unat (take (Suc i) g)) = 0)"

lemma gen_mult_poly:
  assumes R: "rs_field rs p" and inv: "gen_inv rs p root i g" and i: "i + 1 < length g"
  defines "T \<equiv> gf_step (mm rs) p"
  shows "map unat (take (i + 2) (gen_mult rs e i g))
       = xor_lists (0 # map unat (take (Suc i) g)) (map (T ^^ e) (map unat (take (Suc i) g)) @ [0])"
    (is "?l = ?r")
proof (rule nth_equalityI)
  note nth = gen_mult_nth [OF i, where rs = rs and root = e]
  show "length ?l = length ?r" using i nth by (simp add: xor_lists_def)
  fix j
  assume "j < length ?l"
  then have j: "j \<le> i + 1" using i nth by simp
  have lt: "unat (g ! k) < 2 ^ mm rs" if "k \<le> i" for k using inv that by (simp add: gen_inv_def)
  have r: "?r ! j = (if j = 0 then 0 else unat (g ! (j - 1)))
        XOR (if j \<le> i then (T ^^ e) (unat (g ! j)) else 0)"
    using j i by (auto simp: xor_lists_def nth_append nth_Cons' min_absorb2)
  have "?l ! j = unat (gen_mult rs e i g ! j)" using j i nth by simp
  also have "\<dots> = ?r ! j"
  proof (cases "j = 0 \<or> j = i + 1")
    case True
    then show ?thesis
      using r nth(3,4) inv table_mult [OF R lt [of 0]] by (auto simp: gen_inv_def T_def)
  next
    case False
    with j have j': "0 < j" "j \<le> i" by auto
    then have "unat (gen_coeff rs e (g[i + 1 := 1]) j)
        = unat (g ! (j - 1)) XOR (T ^^ e) (unat (g ! j))"
      using gen_coeff_unat [OF R, of "g[i + 1 := 1]" j e] lt by (simp add: T_def)
    then show ?thesis using r nth(2) [OF j'] j' by simp
  qed
  finally show "?l ! j = ?r ! j" .
qed

lemma gen_mult_inv:
  assumes R: "rs_field rs p" and inv: "gen_inv rs p root i g" and i: "i + 1 < length g"
  shows "gen_inv rs p root (i + 1) (gen_mult rs (root i) i g)"
proof -
  let ?T = "gf_step (mm rs) p" and ?g = "gen_mult rs (root i) i g"
  let ?h = "map unat (take (Suc i) g)"
  have cyc: "gf_cycle ?T (\<lambda>c. c < 2 ^ mm rs) (2 ^ mm rs - 1)"
    using R by (intro gf_cycle_step) (simp add: rs_field_def)
  note nth = gen_mult_nth [OF i, where rs = rs and root = "root i"]
  have poly: "map unat (take (i + 2) ?g) = xor_lists (0 # ?h) (map (?T ^^ root i) ?h @ [0])"
    by (rule gen_mult_poly [OF R inv i])
  have lt: "\<forall>j \<le> i. unat (g ! j) < 2 ^ mm rs" using inv by (simp add: gen_inv_def)
  have "unat (?g ! 0) = (?T ^^ root i) (unat (g ! 0))"
    using inv nth(4) table_mult [OF R, of "g ! 0" "root i"] by (simp add: gen_inv_def)
  moreover have "unat (g ! 0) \<noteq> 0" using inv by (simp add: gen_inv_def unat_eq_zero)
  ultimately have "unat (?g ! 0) \<noteq> 0" using lt gf_cycle.pow_eq_0_iff [OF cyc] by simp
  then have g0: "?g ! 0 \<noteq> 0" by auto
  have bound: "unat (?g ! j) < 2 ^ mm rs" if j: "j \<le> i + 1" for j
  proof -
    have "unat (?g ! j) = map unat (take (i + 2) ?g) ! j"
      using j i nth(1) by simp
    also have "\<dots> = xor_lists (0 # ?h) (map (?T ^^ root i) ?h @ [0]) ! j"
      by (simp only: poly)
    also have "\<dots> < 2 ^ mm rs"
      using j i lt by (auto simp: xor_lists_def nth_append nth_Cons' min_absorb2
          intro!: xor_nat_less_exp gf_cycle.V_pow [OF cyc])
    finally show ?thesis .
  qed
  have "peval ?T (root l) (map unat (take (i + 2) ?g)) = 0" if l: "l < i + 1" for l
    unfolding poly
  proof (rule gf.peval_times_root [where g = ?h])
    show "root i = root l \<or> peval ?T (root l) ?h = 0"
      using inv l by (cases "l = i") (auto simp: gen_inv_def)
  qed (simp_all add: gf.peval_append gf.peval_map_pow del: map_map)
  then show ?thesis
    using g0 bound nth(1,3) i by (simp add: gen_inv_def flip: Suc_eq_plus1)
qed

text \<open>The code words the encoder and the decoder work with.\<close>

definition code_root :: "rs \<Rightarrow> nat \<Rightarrow> nat" where
  "code_root rs i = (unat (fcr rs) + i) * unat (prim rs)"

definition rs_code :: "rs \<Rightarrow> nat \<Rightarrow> bool" where
  "rs_code rs p \<longleftrightarrow>
     rs_field rs p \<and> nroots rs \<le> nn rs \<and>
     (unat (iprim rs) * unat (prim rs)) mod nn rs = 1 mod nn rs \<and>
     (\<exists>g :: u8 list. genpoly rs = map (\<lambda>c. index_of rs ! unat c) g \<and> length g = nroots rs + 1 \<and>
          g ! nroots rs = 1 \<and> (\<forall>c \<in> set g. unat c < 2 ^ mm rs) \<and>
          (\<forall>i < nroots rs. peval (gf_step (mm rs) p) (code_root rs i) (map unat g) = 0))"

lemma gen_poly_inv:
  assumes R: "rs_field rs p" and g: "length g = nroots rs + 1"
  shows "length (gen_poly rs f pr g) = nroots rs + 1
       \<and> gen_inv rs p (\<lambda>i. f * pr + i * pr) (nroots rs) (gen_poly rs f pr g)"
  unfolding gen_poly_def
proof (rule foldl_upt_invariant
    [where I = "\<lambda>i g. length g = nroots rs + 1 \<and> gen_inv rs p (\<lambda>i. f * pr + i * pr) i g"])
  have "2 ^ 1 \<le> (2::nat) ^ mm rs"
    using R by (intro power_increasing) (auto simp: rs_field_def gf_field_def)
  then show "length (g[0 := 1]) = nroots rs + 1
      \<and> gen_inv rs p (\<lambda>i. f * pr + i * pr) 0 (g[0 := 1])"
    using g by (cases g) (auto simp: gen_inv_def)
next
  fix i h
  assume "i < nroots rs"
    and "length h = nroots rs + 1 \<and> gen_inv rs p (\<lambda>i. f * pr + i * pr) i h"
  then show "length (gen_mult rs (f * pr + i * pr) i h) = nroots rs + 1
      \<and> gen_inv rs p (\<lambda>i. f * pr + i * pr) (Suc i) (gen_mult rs (f * pr + i * pr) i h)"
    using gen_mult_inv [OF R, of "\<lambda>i. f * pr + i * pr" i h] gen_mult_nth(1) [of i h]
    by (simp add: Suc_eq_plus1 del: add_Suc_right)
qed simp

section \<open>The root of one\<close>

text \<open>The search stops at the first multiple of \<open>prim\<close>, if there is one within \<open>k\<close> steps.\<close>

lemma iprim_loop_stops:
  assumes "(x + of_nat k * n) mod p = 0"
  shows "\<exists>c \<le> k. iprim_loop n p x = Some (x + of_nat c * n) \<and> (x + of_nat c * n) mod p = 0"
  using assms
proof (induction k arbitrary: x)
  case 0
  then show ?case by (subst iprim_loop.simps) simp
next
  case (Suc k)
  show ?case
  proof (cases "x mod p = 0")
    case True
    then show ?thesis by (intro exI [of _ 0]) (subst iprim_loop.simps, simp)
  next
    case False
    have "(x + n + of_nat k * n) mod p = 0" using Suc.prems by (simp add: algebra_simps)
    from Suc.IH [OF this] obtain c where "c \<le> k" "iprim_loop n p (x + n) = Some (x + n + of_nat c * n)"
        "(x + n + of_nat c * n) mod p = 0" by (elim exE conjE) (rule that)
    moreover have "iprim_loop n p x = iprim_loop n p (x + n)" using False by (subst iprim_loop.simps) simp
    moreover have "x + of_nat (Suc c) * n = x + n + of_nat c * n" by (simp add: algebra_simps)
    ultimately have "Suc c \<le> Suc k" "iprim_loop n p x = Some (x + of_nat (Suc c) * n)" "(x + of_nat (Suc c) * n) mod p = 0"
      by (simp_all only: Suc_le_mono)
    then show ?thesis by - (rule exI, intro conjI, assumption+)
  qed
qed

text \<open>
  For an odd \<open>nn\<close> there always is one: modulo \<open>2 ^ 32\<close> the walk comes to zero in the end.
\<close>

lemma iprim_loop_returns:
  assumes "odd n"
  shows "\<exists>c. iprim_loop (of_nat n) p 1 = Some (1 + of_nat c * of_nat n) \<and> (1 + of_nat c * of_nat n) mod p = 0"
proof -
  have "coprime n 2" using assms by (simp add: coprime_right_2_iff_odd)
  then have "coprime n (2 ^ 32)" unfolding coprime_power_right_iff ..
  then obtain x y where xy: "n * x = 2 ^ 32 * y + 1"
    using bezout_nat [of n "2 ^ 32"] assms by (auto simp: odd_pos)
  let ?k = "(2 ^ 32 - 1) * x"
  have "(2 ^ 32 - 1) * x * n = (2 ^ 32 - 1) * (2 ^ 32 * y + 1)" unfolding xy [symmetric] by (simp only: ac_simps)
  also have "1 + \<dots> = (1 + (2 ^ 32 - 1) * y) * 2 ^ 32" by simp
  finally have "1 + ?k * n = (1 + (2 ^ 32 - 1) * y) * 2 ^ 32" .
  then have "(of_nat (1 + ?k * n) :: u32) = of_nat ((1 + (2 ^ 32 - 1) * y) * 2 ^ 32)" by (simp only:)
  also have "\<dots> = of_nat (1 + (2 ^ 32 - 1) * y) * of_nat (2 ^ 32)" by (rule of_nat_mult)
  also have "(of_nat (2 ^ 32) :: u32) = 0" by simp
  finally have "(1 + of_nat ?k * of_nat n :: u32) = 0" by (simp only: of_nat_add of_nat_mult of_nat_1 mult_zero_right)
  then have "(1 + of_nat ?k * of_nat n) mod p = 0" by (simp only:) simp
  from iprim_loop_stops [OF this] show ?thesis by (elim exE conjE) (rule exI, rule conjI)
qed

text \<open>If \<open>prim\<close> is a unit modulo the length of the cycle, it stops before it wraps.\<close>

lemma iprim_loop_coprime:
  assumes p: "0 < p" "p < 2 ^ 16" and n: "n < 2 ^ 15" and cop: "coprime p n"
  shows "\<exists>c < p. iprim_loop (of_nat n) (of_nat p) 1 = Some (of_nat (1 + c * n)) \<and> (1 + c * n) mod p = 0"
proof -
  have word: "unat (of_nat (1 + c * n) :: u32) = 1 + c * n" if "c < p" for c
  proof -
    have "c * n \<le> 2 ^ 16 * 2 ^ 15" using that p n by (intro mult_le_mono) auto
    then have "1 + c * n < 2 ^ 32" by simp
    then show ?thesis by (intro unat_of_nat_id) simp
  qed
  have up: "unat (of_nat p :: u32) = p" using p by (intro unat_of_nat_id) simp
  have sum: "(1 + of_nat c * of_nat n :: u32) = of_nat (1 + c * n)" for c by simp
  have zero: "(1 + of_nat c * of_nat n :: u32) mod of_nat p = 0 \<longleftrightarrow> (1 + c * n) mod p = 0" if "c < p" for c
    unfolding sum word_unat_eq_iff unat_mod word [OF that] up by simp
  obtain x y where "p * x = n * y + 1" using bezout_nat [of p n] cop p(1) by auto
  then have "1 + y * n = p * x" by (simp add: ac_simps)
  then have "(1 + y * n) mod p = 0" by simp
  moreover have "(1 + y mod p * n) mod p = (1 + y * n) mod p" by (metis mod_add_right_eq mod_mult_left_eq)
  ultimately have y0: "(1 + y mod p * n) mod p = 0" by simp
  have yp: "y mod p < p" by (rule mod_less_divisor [OF p(1)])
  have "(1 + of_nat (y mod p) * of_nat n :: u32) mod of_nat p = 0" by (rule iffD2 [OF zero [OF yp] y0])
  from iprim_loop_stops [OF this] obtain c where "c \<le> y mod p
      \<and> iprim_loop (of_nat n) (of_nat p) 1 = Some (1 + of_nat c * of_nat n) \<and> (1 + of_nat c * of_nat n :: u32) mod of_nat p = 0" ..
  note c = this [THEN conjunct1] this [THEN conjunct2, THEN conjunct1] this [THEN conjunct2, THEN conjunct2]
  then have "c < p" using yp by simp
  moreover have "iprim_loop (of_nat n) (of_nat p) 1 = Some (of_nat (1 + c * n))" using c(2) unfolding sum .
  moreover have "(1 + c * n) mod p = 0" by (rule iffD1 [OF zero [OF calculation(1)] c(3)])
  ultimately show ?thesis by - (rule exI, intro conjI, assumption+)
qed

section \<open>The outcomes of the initialisation\<close>

definition init_args_ok :: "nat \<Rightarrow> nat \<Rightarrow> nat \<Rightarrow> nat \<Rightarrow> bool" where
  "init_args_ok m f pr nr \<longleftrightarrow> m \<le> 8 \<and> f < 2 ^ m \<and> 0 < pr \<and> pr < 2 ^ m \<and> nr < 2 ^ m"

lemma init_args_pos: "init_args_ok m f pr nr \<Longrightarrow> 1 \<le> m"
  by (cases m) (auto simp: init_args_ok_def)

lemma gf_tables_cases:
  obtains ix al where "gf_tables m gp index alpha = ((gf_step m gp ^^ (2 ^ m - 1)) 1, ix, al)"
  using gf_tables_sr [of m gp index alpha] by (metis prod.collapse)

definition init_checks :: "alloc \<Rightarrow> nat \<Rightarrow> nat \<Rightarrow> nat \<Rightarrow> nat \<Rightarrow> nat \<Rightarrow> bool" where
  "init_checks mem m gp f pr nr \<longleftrightarrow>
     init_args_ok m f pr nr \<and> malloc_ok mem 0 \<and> malloc_ok mem 1 \<and> malloc_ok mem 2
     \<and> (gf_step m gp ^^ (2 ^ m - 1)) 1 = 1"

lemma init_rs_cases:
  shows "init_rs mem m gp f pr nr = RS_null \<longleftrightarrow> \<not> init_checks mem m gp f pr nr"
    and "init_rs mem m gp f pr nr \<noteq> RS_hang"
proof -
  obtain ix al where "gf_tables m gp (malloc_bytes mem 1 (2 ^ m - 1 + 1))
      (malloc_bytes mem 0 (2 ^ m - 1 + 1)) = ((gf_step m gp ^^ (2 ^ m - 1)) 1, ix, al)"
    by (rule gf_tables_cases)
  moreover have "init_args_ok m f pr nr \<Longrightarrow> iprim_loop (of_nat (2 ^ m - 1)) (of_nat pr) 1 \<noteq> None"
    using iprim_loop_returns [of "2 ^ m - 1" "of_nat pr"] init_args_pos by fastforce
  ultimately show "init_rs mem m gp f pr nr = RS_null \<longleftrightarrow> \<not> init_checks mem m gp f pr nr"
    and "init_rs mem m gp f pr nr \<noteq> RS_hang"
    by (cases "init_args_ok m f pr nr";
        auto simp: init_rs_def Let_def init_args_ok_def init_checks_def simp del: of_nat_diff split: option.splits)+
qed

lemma init_rs_block:
  assumes "init_rs mem m gp f pr nr = RS_ok rs"
  obtains ix al ip where "gf_tables m gp (malloc_bytes mem 1 (2 ^ m - 1 + 1)) (malloc_bytes mem 0 (2 ^ m - 1 + 1))
        = ((gf_step m gp ^^ (2 ^ m - 1)) 1, ix, al)"
    "iprim_loop (of_nat (2 ^ m - 1)) (of_nat pr) 1 = Some ip"
    "rs = (let r = \<lparr> mm = m, nn = 2 ^ m - 1, alpha_to = al, index_of = ix, genpoly = [], nroots = nr, fcr = of_nat f,
                prim = of_nat pr, iprim = ucast (ip div of_nat pr) \<rparr>
           in r\<lparr> genpoly := gen_to_index r (gen_poly r f pr (malloc_bytes mem 2 (nr + 1))) \<rparr>)"
proof -
  obtain ix al where tab: "gf_tables m gp (malloc_bytes mem 1 (2 ^ m - 1 + 1))
      (malloc_bytes mem 0 (2 ^ m - 1 + 1)) = ((gf_step m gp ^^ (2 ^ m - 1)) 1, ix, al)"
    by (rule gf_tables_cases)
  moreover obtain ip where ip: "iprim_loop (of_nat (2 ^ m - 1)) (of_nat pr) 1 = Some ip"
    using assms tab by (auto simp: init_rs_def Let_def split: if_splits option.splits)
  ultimately show ?thesis using that assms by (auto simp: init_rs_def Let_def split: if_splits)
qed

text \<open>The inverse of \<open>prim\<close>, where there is one.\<close>

lemma init_rs_iprim:
  assumes ok: "init_rs mem m gp f pr nr = RS_ok rs" and cop: "coprime pr (2 ^ m - 1)"
  shows "(unat (iprim rs) * unat (prim rs)) mod nn rs = 1 mod nn rs"
proof -
  let ?n = "2 ^ m - 1 :: nat"
  have args: "init_args_ok m f pr nr" using init_rs_cases [of mem m gp f pr nr] ok by (auto simp: init_checks_def)
  have pos: "1 \<le> m" by (rule init_args_pos [OF args])
  have "2 ^ 1 \<le> (2::nat) ^ m" using pos by (intro power_increasing) auto
  then have n: "1 \<le> ?n" by simp
  have le: "(2::nat) ^ m \<le> 2 ^ 8" using args by (intro power_increasing) (auto simp: init_args_ok_def)
  have byte: "unat (of_nat k :: u8) = k" if "k < 2 ^ m" for k using that le by (intro unat_of_nat_id) simp
  have pr: "0 < pr" "pr < 2 ^ m" using args by (auto simp: init_args_ok_def)
  obtain ix al ip where ip: "iprim_loop (of_nat ?n) (of_nat pr) 1 = Some ip"
      and rs: "rs = (let r = \<lparr> mm = m, nn = ?n, alpha_to = al, index_of = ix, genpoly = [], nroots = nr, fcr = of_nat f,
                prim = of_nat pr, iprim = ucast (ip div of_nat pr) \<rparr>
           in r\<lparr> genpoly := gen_to_index r (gen_poly r f pr (malloc_bytes mem 2 (nr + 1))) \<rparr>)"
    by (rule init_rs_block [OF ok])
  have "pr < 2 ^ 16" "?n < 2 ^ 15" using pr le by auto
  from iprim_loop_coprime [OF pr(1) this cop] obtain c where c: "c < pr" "ip = of_nat (1 + c * ?n)" "(1 + c * ?n) mod pr = 0"
    using ip by auto
  have "(c + 1) * ?n \<le> pr * ?n" using c(1) by (intro mult_le_mono1) simp
  then have q: "1 + c * ?n \<le> pr * ?n" using n by (simp add: add_mult_distrib)
  then have d: "(1 + c * ?n) div pr \<le> ?n" using div_le_mono [of "1 + c * ?n" "pr * ?n" pr] c(1) by simp
  have "pr * ?n \<le> 256 * 256" using pr le by (intro mult_le_mono) auto
  then have "unat ip = 1 + c * ?n" unfolding c(2) using q by (intro unat_of_nat_id) simp
  moreover have "unat (of_nat pr :: u32) = pr" using pr le by (intro unat_of_nat_id) simp
  ultimately have u: "unat (ip div of_nat pr) = (1 + c * ?n) div pr" by (simp add: unat_div)
  then have "unat (ucast (ip div of_nat pr) :: u8) = (1 + c * ?n) div pr"
    using d n le by (simp add: unsigned_ucast_eq take_bit_nat_eq_self)
  then have "unat (iprim rs) = (1 + c * ?n) div pr" "unat (prim rs) = pr" "nn rs = ?n"
    using byte [OF pr(2)] by (simp_all add: rs Let_def)
  then show ?thesis using c(3) by (metis add.commute dvd_div_mult_self mod_0_imp_dvd mod_mult_self1 mult.commute)
qed


lemma init_rs_ok_code:
  assumes ok: "init_rs mem m gp f pr nr = RS_ok rs" and prim: "primitive_poly m gp" and cop: "coprime pr (2 ^ m - 1)"
  shows "rs_code rs gp \<and> mm rs = m \<and> nroots rs = nr \<and> unat (fcr rs) = f \<and> unat (prim rs) = pr"
proof -
  have args: "init_args_ok m f pr nr" and cyc: "(gf_step m gp ^^ (2 ^ m - 1)) 1 = 1"
    using init_rs_cases [of mem m gp f pr nr] ok by (auto simp: init_checks_def)
  then have F: "gf_field m gp" and m: "m \<le> 8"
    using init_args_pos [OF args] prim by (auto simp: gf_field_def init_args_ok_def)
  obtain ix al where tab: "gf_tables m gp (malloc_bytes mem 1 (2 ^ m - 1 + 1))
      (malloc_bytes mem 0 (2 ^ m - 1 + 1)) = ((gf_step m gp ^^ (2 ^ m - 1)) 1, ix, al)"
    by (rule gf_tables_cases)
  let ?n = "2 ^ m - 1 :: nat"
  obtain ip where ip: "iprim_loop (of_nat ?n) (of_nat pr) 1 = Some ip"
    using ok tab by (auto simp: init_rs_def Let_def split: if_splits option.splits)
  define r where "r = \<lparr> mm = m, nn = ?n, alpha_to = al, index_of = ix, genpoly = [],
    nroots = nr, fcr = of_nat f, prim = of_nat pr, iprim = ucast (ip div of_nat pr) \<rparr>"
  define g where "g = gen_poly r f pr (malloc_bytes mem 2 (nr + 1))"
  have rs: "rs = r\<lparr> genpoly := gen_to_index r g \<rparr>"
    using ok tab ip by (auto simp: init_rs_def Let_def r_def g_def split: if_splits)
  have R: "rs_field r gp"
    using gf_tables_ok [OF F m _ _ tab] F m gf_field_n [OF F]
    by (simp add: rs_field_def r_def A0_def malloc_bytes_def)
  have le: "(2::nat) ^ m \<le> 2 ^ 8" using m by (intro power_increasing) auto
  have byte: "unat (of_nat k :: u8) = k" if "k < 2 ^ m" for k
    using that le by (intro unat_of_nat_id) simp
  have vals: "unat (fcr rs) = f" "unat (prim rs) = pr" "nroots rs = nr" "mm rs = m" "nn rs = ?n"
    using args byte by (simp_all add: rs r_def init_args_ok_def)
  have mr: "mm r = m" by (simp add: r_def)
  have inv: "length g = nr + 1" "gen_inv r gp (\<lambda>i. f * pr + i * pr) nr g"
    using gen_poly_inv [OF R, of "malloc_bytes mem 2 (nr + 1)" f pr]
    by (simp_all add: g_def r_def malloc_bytes_def)
  have R': "rs_field rs gp" using R unfolding rs_field_def A0_def rs by auto
  have "nroots rs \<le> nn rs" "g ! nroots rs = 1" "length g = nroots rs + 1"
    using args inv by (auto simp: vals init_args_ok_def gen_inv_def)
  moreover have "genpoly rs = map (\<lambda>c. index_of rs ! unat c) g"
    using foldl_update_map [of "\<lambda>c. ix ! unat c" g] inv(1)
    by (simp add: rs gen_to_index_def r_def)
  moreover have "\<forall>c \<in> set g. unat c < 2 ^ mm rs"
    using inv mr by (auto simp: gen_inv_def in_set_conv_nth vals)
  moreover have "peval (gf_step (mm rs) gp) (code_root rs i) (map unat g) = 0" if "i < nroots rs" for i
    using inv that mr by (simp add: gen_inv_def code_root_def vals add_mult_distrib
        flip: Suc_eq_plus1)
  moreover have "(unat (iprim rs) * unat (prim rs)) mod nn rs = 1 mod nn rs" by (rule init_rs_iprim [OF ok cop])
  ultimately show ?thesis
    using R' vals unfolding rs_code_def by blast
qed

text \<open>
  When \<open>init_rs\<close> returns a control block, the field polynomial is primitive and \<open>prim\<close> is a unit, the
  block describes a Reed-Solomon code: its tables are the logarithms of the field, its generator
  polynomial is monic of degree \<open>nroots\<close> and vanishes at the \<open>nroots\<close> consecutive powers
  \<open>(fcr + i) * prim\<close>, and \<open>iprim\<close> inverts \<open>prim\<close>.
\<close>

theorem init_rs_code:
  assumes ok: "init_rs mem m gp f pr nr = RS_ok rs" and prim: "primitive_poly m gp" and cop: "coprime pr (2 ^ m - 1)"
  shows "rs_code rs gp \<and> mm rs = m \<and> nroots rs = nr \<and> unat (fcr rs) = f \<and> unat (prim rs) = pr"
  by (rule init_rs_ok_code [OF assms])

end
