(* ===== verification/RS_Encode.thy ===== *)
theory RS_Encode
  imports RS_Init
begin

text \<open>
  The encoder \<open>encode_rs.c\<close>: systematic division by the generator polynomial in a shift register
  of \<open>nroots\<close> symbols.  The lemmas show that data followed by the parity is a multiple of the
  generator polynomial (\<open>is_codeword\<close>) and that two code words differ in more than \<open>nroots\<close>
  places.
\<close>

section \<open>The encoder\<close>

text \<open>The body of the loop over the data symbols.\<close>

definition enc_step :: "rs \<Rightarrow> u8 list \<Rightarrow> u8 \<Rightarrow> u8 list" where
  "enc_step rs bb d =
     (let feedback = index_of rs ! unat (d XOR bb ! 0);
          bb = (if feedback \<noteq> A0 rs
                then foldl (\<lambda>bb j. bb[j := bb ! j XOR
                         alpha_to rs ! modnn rs (unat feedback + unat (genpoly rs ! (nroots rs - j)))])
                       bb [1..<nroots rs]
                else bb);
          bb = c_memmove 0 1 (nroots rs - 1) bb
      in if feedback \<noteq> A0 rs
         then bb[nroots rs - 1 := alpha_to rs ! modnn rs (unat feedback + unat (genpoly rs ! 0))]
         else bb[nroots rs - 1 := 0])"

definition encode_rs :: "rs \<Rightarrow> u8 list \<Rightarrow> u8 list" where
  "encode_rs rs data =
     foldl (\<lambda>bb i. enc_step rs bb (data ! i)) (replicate (nroots rs) 0) [0..<nn rs - nroots rs]"

section \<open>Code words\<close>

text \<open>
  A block is stored with the coefficient of highest degree first, so it is a code word when its
  reversal vanishes at the roots of the code.
\<close>

definition symbols_ok :: "rs \<Rightarrow> u8 list \<Rightarrow> bool" where
  "symbols_ok rs cs \<longleftrightarrow> (\<forall>c \<in> set cs. unat c < 2 ^ mm rs)"

definition is_codeword :: "rs \<Rightarrow> nat \<Rightarrow> u8 list \<Rightarrow> bool" where
  "is_codeword rs p cs \<longleftrightarrow> length cs = nn rs \<and> symbols_ok rs cs \<and>
     (\<forall>i < nroots rs. peval (gf_step (mm rs) p) (code_root rs i) (map unat (rev cs)) = 0)"

section \<open>Few nonzero coefficients\<close>

fun nz_terms :: "nat \<Rightarrow> nat \<Rightarrow> nat list \<Rightarrow> (nat \<times> nat) list" where
  "nz_terms pr k [] = []"
| "nz_terms pr k (c # cs) =
     (if c = 0 then nz_terms pr (k + 1) cs else (k * pr, c) # nz_terms pr (k + 1) cs)"

lemma length_nz_terms: "length (nz_terms pr k cs) = length (filter (\<lambda>c. c \<noteq> 0) cs)"
  by (induction pr k cs rule: nz_terms.induct) auto

lemma in_nz_terms:
  "(e, c) \<in> set (nz_terms pr k cs) \<Longrightarrow> c \<in> set cs \<and> (\<exists>j. k \<le> j \<and> j < k + length cs \<and> e = j * pr)"
  by (induction pr k cs rule: nz_terms.induct) (auto split: if_splits, (metis Suc_le_lessD add_Suc_right
      add.commute less_or_eq_imp_le plus_1_eq_Suc)+)

lemma xor_terms_nz:
  "xor_terms (gf_step m p) s (nz_terms pr k cs)
   = (gf_step m p ^^ (k * pr * s)) (peval (gf_step m p) (s * pr) cs)"
proof (induction pr k cs rule: nz_terms.induct)
  case (2 pr k c cs)
  have "(k + 1) * pr * s = k * pr * s + s * pr" by (simp add: algebra_simps)
  with 2 show ?case by (auto simp: funpow_add_apply simp del: add_mult_distrib)
qed simp

lemma distinct_nz_terms:
  assumes unit: "(u * pr) mod n = 1 mod n" and len: "k + length cs \<le> n"
  shows "distinct (map (\<lambda>(e, c). e mod n) (nz_terms pr k cs))"
  using len
proof (induction cs arbitrary: k)
  case (Cons c cs)
  have ne: "(k * pr) mod n \<noteq> e mod n" if mem: "(e, x) \<in> set (nz_terms pr (k + 1) cs)" for e x
  proof
    assume eq: "(k * pr) mod n = e mod n"
    obtain j where j: "k + 1 \<le> j" "j < k + 1 + length cs" "e = j * pr"
      using in_nz_terms [of e x pr "k + 1" cs] mem by auto
    have inverse: "(i * pr * u) mod n = i mod n" for i
      using unit by (metis mod_mult_right_eq mult.assoc mult.commute mult_1_right)
    have "(k * pr * u) mod n = (j * pr * u) mod n" using eq j(3) by (metis mod_mult_left_eq)
    then have "k mod n = j mod n" by (simp only: inverse)
    with j Cons.prems show False by simp
  qed
  then have "\<forall>t \<in> set (nz_terms pr (k + 1) cs). (k * pr) mod n \<noteq> fst t mod n"
    by (metis ne prod.collapse)
  with Cons.IH [of "k + 1"] Cons.prems show ?case by (auto simp: case_prod_beta)
qed simp

text \<open>
  A polynomial of degree below \<open>nn\<close> that vanishes at the \<open>nroots\<close> roots of the code and has at
  most \<open>nroots\<close> nonzero coefficients is zero.
\<close>

lemma few_terms_zero:
  assumes C: "rs_code rs p"
    and cs: "length cs \<le> nn rs" "\<And>c. c \<in> set cs \<Longrightarrow> c < 2 ^ mm rs"
    and roots: "\<And>i. i < nroots rs \<Longrightarrow> peval (gf_step (mm rs) p) (code_root rs i) cs = 0"
    and few: "length (filter (\<lambda>c. c \<noteq> 0) cs) \<le> nroots rs"
  shows "\<forall>c \<in> set cs. c = 0"
proof -
  let ?T = "gf_step (mm rs) p" and ?ts = "nz_terms (unat (prim rs)) 0 cs"
  have R: "rs_field rs p" using C by (simp add: rs_code_def)
  then have cyc: "gf_cycle ?T (\<lambda>c. c < 2 ^ mm rs) (nn rs)"
    using gf_cycle_step [of "mm rs" p] by (simp add: rs_field_def)
  have unit: "(unat (iprim rs) * unat (prim rs)) mod nn rs = 1 mod nn rs"
    using C by (simp add: rs_code_def)
  have "c = 0" if "(e, c) \<in> set ?ts" for e c
  proof (rule gf_cycle.xor_terms_all_zero [OF cyc _ _ _ that, where f = "unat (fcr rs)"])
    show "distinct (map (\<lambda>(e, c). e mod nn rs) ?ts)"
      using distinct_nz_terms [OF unit, of 0 cs] cs(1) by simp
    show "xor_terms ?T (unat (fcr rs) + i) ?ts = 0" if "i < length ?ts" for i
      using roots [of i] that few
      by (simp add: xor_terms_nz length_nz_terms code_root_def)
  qed (use in_nz_terms cs(2) in blast)
  moreover have "c \<noteq> 0" if "(e, c) \<in> set (nz_terms pr k xs)" for e c pr k xs
    using that by (induction pr k xs rule: nz_terms.induct) (auto split: if_splits)
  ultimately have "(e, c) \<notin> set ?ts" for e c by blast
  then have "t \<notin> set ?ts" for t by (cases t) simp
  then have "?ts = []" by (cases ?ts) (use list.set_intros(1) in metis)+
  then have "length (filter (\<lambda>c. c \<noteq> 0) cs) = 0" by (metis length_nz_terms list.size(3))
  then show ?thesis by (simp add: filter_empty_conv)
qed

text \<open>So every coefficient of the generator polynomial is nonzero, which the encoder needs.\<close>

lemma generator_dense:
  assumes C: "rs_code rs p" and n: "nroots rs < nn rs"
    and g: "length g = nroots rs + 1" "g ! nroots rs = 1" "\<forall>c \<in> set g. c < 2 ^ mm rs"
      "\<forall>i < nroots rs. peval (gf_step (mm rs) p) (code_root rs i) g = 0"
  shows "0 \<notin> set g"
proof
  assume "0 \<in> set g"
  then have "length (filter (\<lambda>c. c \<noteq> 0) g) < length g" by (intro length_filter_less) auto
  then have few: "length (filter (\<lambda>c. c \<noteq> 0) g) \<le> nroots rs" using g(1) by simp
  have "\<forall>c \<in> set g. c = 0"
    by (rule few_terms_zero [OF C _ _ _ few]) (use g n in auto)
  moreover have "g ! nroots rs \<in> set g" using g(1) by simp
  ultimately show False using g(2) by (metis zero_neq_one)
qed

section \<open>The shift register\<close>

text \<open>
  One step of the register, for a generator polynomial without zero coefficients: the register
  moves up by one place and the generator polynomial, moved by the logarithm \<open>k\<close> of the
  feedback, is added.
\<close>

lemma enc_step_nth:
  assumes R: "rs_field rs p"
    and g: "genpoly rs = map (\<lambda>c. index_of rs ! unat c) g" "length g = nroots rs + 1"
      "\<And>c. c \<in> set g \<Longrightarrow> unat c < 2 ^ mm rs \<and> c \<noteq> 0"
    and bb: "length bb = nroots rs" "0 < nroots rs"
    and k: "index_of rs ! unat (d XOR bb ! 0) \<noteq> A0 rs" "k = unat (index_of rs ! unat (d XOR bb ! 0))"
    and i: "i < nroots rs"
  shows "unat (enc_step rs bb d ! i)
       = (if i < nroots rs - 1 then unat (bb ! (i + 1)) else 0)
         XOR (gf_step (mm rs) p ^^ k) (unat (g ! (nroots rs - 1 - i)))"
proof -
  let ?N = "nroots rs"
  let ?h = "\<lambda>j. alpha_to rs ! modnn rs (k + unat (genpoly rs ! (?N - j)))"
  let ?b = "foldl (\<lambda>bb j. bb[j := bb ! j XOR ?h j]) bb [1..<?N]"
  have b: "length ?b = ?N" "\<And>i. 1 \<le> i \<Longrightarrow> i < ?N \<Longrightarrow> ?b ! i = bb ! i XOR ?h i"
    using foldl_update_nth [where b = ?N and g = bb and h = "\<lambda>j x. x XOR ?h j" and a = 1] bb by auto
  have h: "unat (?h j) = (gf_step (mm rs) p ^^ k) (unat (g ! (?N - j)))" if "j \<le> ?N" for j
  proof -
    have "?N - j < length g" using g(2) by simp
    then show ?thesis
      using table_mult [OF R, of "g ! (?N - j)" k] g by (simp add: add.commute)
  qed
  have step: "enc_step rs bb d = (c_memmove 0 1 (?N - 1) ?b)[?N - 1 := ?h ?N]"
    using k by (simp add: enc_step_def Let_def)
  show ?thesis
  proof (cases "i < ?N - 1")
    case True
    then have "enc_step rs bb d ! i = bb ! (i + 1) XOR ?h (i + 1)"
      using b bb by (simp add: step c_memmove_def nth_append add.commute [of i])
    then show ?thesis using True h [of "i + 1"] by (simp add: unat_xor add.commute [of 1])
  next
    case False
    with i have "i = ?N - 1" by simp
    then have "enc_step rs bb d ! i = ?h ?N"
      using b bb by (simp add: step)
    then show ?thesis using False h [of ?N] \<open>i = ?N - 1\<close> by simp
  qed
qed

lemma enc_step_zero:
  assumes "index_of rs ! unat (d XOR bb ! 0) = A0 rs" "length bb = nroots rs" "0 < nroots rs"
  shows "enc_step rs bb d = tl bb @ [0]"
proof (rule nth_equalityI)
  show "length (enc_step rs bb d) = length (tl bb @ [0])"
    using assms by (simp add: enc_step_def Let_def)
  show "enc_step rs bb d ! i = (tl bb @ [0]) ! i" if "i < length (enc_step rs bb d)" for i
    using that assms by (auto simp: enc_step_def Let_def c_memmove_def nth_append nth_tl
        nth_list_update add.commute [of 1] simp flip: Suc_eq_plus1)
qed

lemma enc_step_ok:
  assumes R: "rs_field rs p"
    and g: "genpoly rs = map (\<lambda>c. index_of rs ! unat c) g" "length g = nroots rs + 1"
      "\<And>c. c \<in> set g \<Longrightarrow> unat c < 2 ^ mm rs \<and> c \<noteq> 0"
    and bb: "length bb = nroots rs" "0 < nroots rs" "symbols_ok rs bb" and d: "unat d < 2 ^ mm rs"
  shows "length (enc_step rs bb d) = nroots rs" "symbols_ok rs (enc_step rs bb d)"
proof -
  show len: "length (enc_step rs bb d) = nroots rs"
  proof -
    have "length (foldl (\<lambda>bb j. bb[j := bb ! j XOR h j]) bb [1..<nroots rs]) = nroots rs" for h
      using bb foldl_update_nth(1) [where h = "\<lambda>j x. x XOR h j" and b = "nroots rs" and g = bb]
      by simp
    then show ?thesis
      using bb by (simp add: enc_step_def Let_def)
  qed
  have cyc: "gf_cycle (gf_step (mm rs) p) (\<lambda>c. c < 2 ^ mm rs) (2 ^ mm rs - 1)"
    using R by (intro gf_cycle_step) (simp add: rs_field_def)
  have lt: "unat (bb ! j) < 2 ^ mm rs" if "j < nroots rs" for j
    using bb that by (simp add: symbols_ok_def)
  have "unat (enc_step rs bb d ! i) < 2 ^ mm rs" if i: "i < nroots rs" for i
  proof (cases "index_of rs ! unat (d XOR bb ! 0) = A0 rs")
    case True
    then show ?thesis using i lt [of "i + 1"] bb
      by (auto simp: enc_step_zero nth_append nth_tl simp flip: Suc_eq_plus1)
  next
    case False
    have "nroots rs - 1 - i < length g" using g(2) by simp
    then show ?thesis
      using i lt [of "i + 1"] g
      by (auto simp: enc_step_nth [OF R g bb(1,2) False refl i]
          intro!: xor_nat_less_exp gf_cycle.V_pow [OF cyc])
  qed
  then show "symbols_ok rs (enc_step rs bb d)"
    using len by (auto simp: symbols_ok_def in_set_conv_nth)
qed

text \<open>The register as a polynomial: one step computes \<open>x b(x) + d x^nroots\<close> modulo the generator.\<close>

lemma enc_step_poly:
  assumes R: "rs_field rs p"
    and g: "genpoly rs = map (\<lambda>c. index_of rs ! unat c) g" "length g = nroots rs + 1"
      "\<And>c. c \<in> set g \<Longrightarrow> unat c < 2 ^ mm rs \<and> c \<noteq> 0"
    and one: "g ! nroots rs = 1"
    and root: "peval (gf_step (mm rs) p) r (map unat g) = 0"
    and bb: "length bb = nroots rs" "0 < nroots rs" "symbols_ok rs bb" and d: "unat d < 2 ^ mm rs"
  defines "T \<equiv> gf_step (mm rs) p"
  shows "peval T r (map unat (rev (enc_step rs bb d)))
       = (T ^^ r) (peval T r (map unat (rev bb))) XOR (T ^^ (r * nroots rs)) (unat d)"
proof -
  let ?N = "nroots rs" and ?B = "map unat (rev (tl bb))" and ?f = "unat (d XOR bb ! 0)"
  have bb_eq: "bb = bb ! 0 # tl bb" using bb by (cases bb) auto
  have "map unat (rev bb) = ?B @ [unat (bb ! 0)]"
    by (subst bb_eq) simp
  then have old: "peval T r (map unat (rev bb)) = peval T r ?B XOR (T ^^ (r * (?N - 1))) (unat (bb ! 0))"
    using bb(1) by (simp add: T_def gf.peval_append)
  have rN: "r * ?N = r + r * (?N - 1)" using bb(2) by (cases ?N) simp_all
  have goal: ?thesis if "peval T r (map unat (rev (enc_step rs bb d)))
      = peval T r (0 # ?B) XOR (T ^^ (r * ?N)) ?f"
    unfolding that old by (simp add: T_def unat_xor rN funpow_add_apply ac_simps)
  show ?thesis
  proof (cases "index_of rs ! ?f = A0 rs")
    case True
    have "?f < 2 ^ mm rs"
      using bb d by (simp add: unat_xor symbols_ok_def xor_nat_less_exp)
    then have "?f = 0" using True table_log_zero_iff [OF R, of "d XOR bb ! 0"] by simp
    then show ?thesis
      by (intro goal) (simp add: enc_step_zero [OF True bb(1,2)] T_def)
  next
    case False
    define k where "k = unat (index_of rs ! ?f)"
    have f: "?f < 2 ^ mm rs"
      using bb d by (simp add: unat_xor symbols_ok_def xor_nat_less_exp)
    have f0: "?f \<noteq> 0" using False R by (metis rs_field_def)
    have "gf_field (mm rs) p" using R by (simp add: rs_field_def)
    then obtain l where l: "l < 2 ^ mm rs - 1" "?f = (T ^^ l) 1"
      using gf_log_exists [of "mm rs" p ?f] f f0 unfolding T_def by metis
    then have k: "?f = (T ^^ k) 1"
      using R by (simp add: k_def T_def rs_field_def)
    have poly: "map unat (rev (enc_step rs bb d))
        = xor_lists (0 # ?B) (map (T ^^ k) (map unat (take ?N g)))" (is "?l = ?r")
    proof (rule nth_equalityI)
      note ok = enc_step_ok [OF R g bb d]
      show "length ?l = length ?r" using ok bb(1,2) g(2) by (simp add: xor_lists_def)
      show "?l ! i = ?r ! i" if "i < length ?l" for i
      proof -
        have i: "i < ?N" "?N - Suc i < ?N" using that ok by auto
        have "?l ! i = unat (enc_step rs bb d ! (?N - Suc i))" using i ok by (simp add: rev_nth)
        also have "\<dots> = ?r ! i"
          using i bb(1) g(2) enc_step_nth [OF R g bb(1,2) False k_def i(2)]
          by (cases i) (auto simp: T_def xor_lists_def rev_nth nth_tl Suc_diff_Suc Suc_diff_le
            simp flip: Suc_eq_plus1_left)
        finally show ?thesis .
      qed
    qed
    have "map unat g = map unat (take ?N g) @ [1]"
      using g(2) one by (subst id_take_nth_drop [of ?N g]) auto
    then have "peval T r (map unat (take ?N g)) = (T ^^ (r * ?N)) 1"
      using root g(2) by (simp add: T_def gf.peval_append)
    then have "peval T r (map (T ^^ k) (map unat (take ?N g))) = (T ^^ (r * ?N)) ?f"
      unfolding T_def gf.peval_map_pow by (simp add: k [unfolded T_def] funpow_swap)
    then show ?thesis
      using bb(1,2) g(2) by (intro goal) (simp only: poly T_def, subst gf.peval_xor_lists, simp_all)
  qed
qed

section \<open>The encoder computes code words\<close>

lemma rs_code_generator:
  assumes C: "rs_code rs p" and n: "nroots rs < nn rs"
  obtains g :: "u8 list" where
    "genpoly rs = map (\<lambda>c. index_of rs ! unat c) g" "length g = nroots rs + 1"
    "\<And>c. c \<in> set g \<Longrightarrow> unat c < 2 ^ mm rs \<and> c \<noteq> 0" "g ! nroots rs = 1"
    "\<And>i. i < nroots rs \<Longrightarrow> peval (gf_step (mm rs) p) (code_root rs i) (map unat g) = 0"
proof -
  obtain g :: "u8 list" where g: "genpoly rs = map (\<lambda>c. index_of rs ! unat c) g"
      "length g = nroots rs + 1" "g ! nroots rs = 1" "\<forall>c \<in> set g. unat c < 2 ^ mm rs"
      "\<forall>i < nroots rs. peval (gf_step (mm rs) p) (code_root rs i) (map unat g) = 0"
    using C unfolding rs_code_def by blast
  have "0 \<notin> set (map unat g)"
    by (rule generator_dense [OF C n]) (use g in simp_all)
  then have "c \<noteq> 0" if "c \<in> set g" for c using that by (metis imageI list.set_map unat_0)
  with g that show ?thesis by blast
qed

lemma encode_step_invariant:
  assumes C: "rs_code rs p" and n: "0 < nroots rs" "nroots rs < nn rs"
    and r: "r = code_root rs i" "i < nroots rs" and data: "symbols_ok rs data"
  defines "T \<equiv> gf_step (mm rs) p" and "bb \<equiv> foldl (enc_step rs) (replicate (nroots rs) 0) data"
  shows "length bb = nroots rs \<and> symbols_ok rs bb
       \<and> peval T r (map unat (rev bb)) = (T ^^ (r * nroots rs)) (peval T r (map unat (rev data)))"
  using data unfolding bb_def
proof (induction data rule: rev_induct)
  case Nil
  have "peval T r (replicate k 0) = 0" for k
    unfolding T_def by (rule gf.peval_zeros) simp
  moreover have "(T ^^ k) 0 = 0" for k unfolding T_def by simp
  ultimately show ?case by (simp add: symbols_ok_def)
next
  case (snoc d data)
  have R: "rs_field rs p" using C by (simp add: rs_code_def)
  obtain g :: "u8 list" where g: "genpoly rs = map (\<lambda>c. index_of rs ! unat c) g"
    "length g = nroots rs + 1" "\<And>c. c \<in> set g \<Longrightarrow> unat c < 2 ^ mm rs \<and> c \<noteq> 0" "g ! nroots rs = 1"
    "\<And>i. i < nroots rs \<Longrightarrow> peval (gf_step (mm rs) p) (code_root rs i) (map unat g) = 0"
    by (rule rs_code_generator [OF C n(2)]) (rule that)
  let ?b = "foldl (enc_step rs) (replicate (nroots rs) 0) data"
  have d: "unat d < 2 ^ mm rs" "symbols_ok rs data" using snoc.prems by (auto simp: symbols_ok_def)
  with snoc.IH have b: "length ?b = nroots rs" "symbols_ok rs ?b"
    and e: "peval T r (map unat (rev ?b)) = (T ^^ (r * nroots rs)) (peval T r (map unat (rev data)))"
    by auto
  note ok = enc_step_ok [OF R g(1-3) b(1) n(1) b(2) d(1)]
  have "peval T r (map unat (rev (enc_step rs ?b d)))
      = (T ^^ r) (peval T r (map unat (rev ?b))) XOR (T ^^ (r * nroots rs)) (unat d)"
    unfolding T_def
    by (rule enc_step_poly [OF R g(1,2) _ g(4) _ b(1) n(1) b(2) d(1)]) (use g(3,5) r in auto)
  also have "\<dots> = (T ^^ (r * nroots rs)) (peval T r (map unat (rev (data @ [d]))))"
    by (simp add: e [unfolded T_def] T_def funpow_swap xor.commute)
  finally show ?case using ok by simp
qed

lemma encode_is_codeword:
  assumes C: "rs_code rs p" and n: "0 < nroots rs"
    and data: "length data = nn rs - nroots rs" "symbols_ok rs data"
  shows "is_codeword rs p (data @ encode_rs rs data)"
proof -
  let ?T = "gf_step (mm rs) p" and ?z = "replicate (nroots rs) (0::u8)"
  have enc: "encode_rs rs data = foldl (enc_step rs) ?z data"
    using foldl_index_take [of "nn rs - nroots rs" data] data(1) by (simp add: encode_rs_def)
  have le: "nroots rs \<le> nn rs" using C by (simp add: rs_code_def)
  show ?thesis
  proof (cases "nroots rs < nn rs")
    case True
    have inv: "length (encode_rs rs data) = nroots rs \<and> symbols_ok rs (encode_rs rs data)
        \<and> peval ?T (code_root rs i) (map unat (rev (encode_rs rs data)))
          = (?T ^^ (code_root rs i * nroots rs)) (peval ?T (code_root rs i) (map unat (rev data)))"
      if "i < nroots rs" for i
      unfolding enc by (rule encode_step_invariant [OF C n True refl that data(2)])
    have "peval ?T (code_root rs i) (map unat (rev (data @ encode_rs rs data))) = 0"
      if "i < nroots rs" for i
      using inv [OF that] by (simp add: gf.peval_append)
    then show ?thesis
      using inv [OF n] data le by (auto simp: is_codeword_def symbols_ok_def)
  next
    case False
    then have "data = []" using data(1) by simp
    moreover have "peval ?T r (replicate k 0) = 0" for k r
      by (rule gf.peval_zeros) simp
    ultimately show ?thesis
      using False le enc by (simp add: is_codeword_def symbols_ok_def)
  qed
qed

text \<open>
  C20: the encoder is right: for a control block of a Reed-Solomon code with at least one parity
  symbol, the data symbols followed by the parity symbols that \<open>encode_rs\<close> writes are a code
  word, that is, a polynomial that vanishes at all \<open>nroots\<close> roots of the generator.
\<close>

theorem encode_rs_codeword:
  assumes C: "rs_code rs p" and n: "0 < nroots rs"
    and data: "length data = nn rs - nroots rs" "symbols_ok rs data"
  shows "is_codeword rs p (data @ encode_rs rs data)"
  by (rule encode_is_codeword [OF assms])

section \<open>The distance of the code\<close>

definition hamming :: "'a list \<Rightarrow> 'a list \<Rightarrow> nat" where
  "hamming cs ds = length (filter (\<lambda>(c, d). c \<noteq> d) (zip cs ds))"

lemma hamming_xor:
  "length cs = length ds \<Longrightarrow>
   hamming cs ds = length (filter (\<lambda>c. c \<noteq> 0) (xor_lists (map unat cs) (map unat ds)))"
proof (induction cs ds rule: list_induct2)
  case (Cons c cs d ds)
  have "unat c XOR unat d = 0 \<longleftrightarrow> c = d" by (simp add: word_unat_eq_iff)
  with Cons show ?case by (simp add: hamming_def xor_lists_def)
qed (simp add: hamming_def xor_lists_def)

lemma xor_lists_rev:
  "length xs = length ys \<Longrightarrow> xor_lists (rev xs) (rev ys) = rev (xor_lists xs ys)"
  by (simp add: xor_lists_def zip_rev rev_map)

lemma xor_lists_zeros:
  "length xs = length ys \<Longrightarrow> \<forall>c \<in> set (xor_lists xs ys). c = 0 \<Longrightarrow> xs = ys"
  by (induction xs ys rule: list_induct2) (auto simp: xor_lists_def)

lemma codewords_differ:
  assumes C: "rs_code rs p" and cs: "is_codeword rs p cs" and ds: "is_codeword rs p ds"
    and few: "hamming cs ds \<le> nroots rs"
  shows "cs = ds"
proof -
  let ?T = "gf_step (mm rs) p" and ?x = "xor_lists (map unat (rev cs)) (map unat (rev ds))"
  have len: "length cs = nn rs" "length ds = nn rs" using cs ds by (auto simp: is_codeword_def)
  have x: "?x = rev (xor_lists (map unat cs) (map unat ds))"
    using len by (simp add: xor_lists_rev flip: rev_map)
  have "\<forall>c \<in> set ?x. c = 0"
  proof (rule few_terms_zero [OF C])
    show "length ?x \<le> nn rs" using len by (simp add: xor_lists_def)
    show "c < 2 ^ mm rs" if "c \<in> set ?x" for c
      using that cs ds
      by (auto simp: is_codeword_def symbols_ok_def xor_lists_def set_zip
          intro!: xor_nat_less_exp) (metis in_set_conv_nth set_rev length_rev len)+
    show "peval ?T (code_root rs i) ?x = 0" if "i < nroots rs" for i
      using that cs ds len by (simp add: gf.peval_xor_lists is_codeword_def)
    have "hamming cs ds = length (filter (\<lambda>c. c \<noteq> 0) ?x)"
      using len unfolding x by (simp add: hamming_xor rev_filter [symmetric])
    then show "length (filter (\<lambda>c. c \<noteq> 0) ?x) \<le> nroots rs" using few by simp
  qed
  then have "map unat (rev cs) = map unat (rev ds)"
    using len by (intro xor_lists_zeros) auto
  then have "rev cs = rev ds" by (rule map_injective) (simp add: inj_def word_unat_eq_iff)
  then show ?thesis by simp
qed

text \<open>
  The minimum distance: two different code words differ in more than \<open>nroots\<close> places, so
  \<open>nroots\<close> erasures or half as many errors leave only one code word to decode to.
\<close>

theorem codeword_distance:
  assumes "rs_code rs p" "is_codeword rs p cs" "is_codeword rs p ds" "cs \<noteq> ds"
  shows "nroots rs < hamming cs ds"
  using codewords_differ [OF assms(1-3)] assms(4) by (metis leI)

end
