(* ===== verification/RS_Decode.thy ===== *)
theory RS_Decode
  imports RS_Encode
begin

text \<open>
  The decoder \<open>decode_rs.c\<close>, one definition per loop of the function: syndromes, erasure
  locator, Berlekamp-Massey iteration, Chien search, evaluator polynomial, error values, and the
  write-back of the positions.  The lemmas show what the syndromes are and when the function
  takes its early exit.
\<close>

section \<open>Syndromes\<close>

text \<open>The body of the inner loop: one data symbol enters syndrome \<open>i\<close>.\<close>

definition syn_step :: "rs \<Rightarrow> nat \<Rightarrow> u8 \<Rightarrow> u8 \<Rightarrow> u8" where
  "syn_step rs i d s =
     (if s = 0 then d
      else d XOR alpha_to rs ! modnn rs (unat (index_of rs ! unat s)
             + (unat (fcr rs) + i) * unat (prim rs)))"

definition syndromes :: "rs \<Rightarrow> u8 list \<Rightarrow> u8 list" where
  "syndromes rs data =
     foldl (\<lambda>s j. foldl (\<lambda>s i. s[i := syn_step rs i (data ! j) (s ! i)]) s [0..<nroots rs])
       (replicate (nroots rs) (data ! 0)) [1..<nn rs]"

text \<open>Conversion to index form, with the test for a nonzero syndrome.\<close>

definition syn_convert :: "rs \<Rightarrow> u8 list \<Rightarrow> u8 \<times> u8 list" where
  "syn_convert rs s =
     foldl (\<lambda>(err, s) i. (err OR s ! i, s[i := index_of rs ! unat (s ! i)]))
       (0, s) [0..<nroots rs]"

section \<open>The erasure locator\<close>

definition eras_root :: "rs \<Rightarrow> nat \<Rightarrow> nat" where
  "eras_root rs pos = modnn rs (unat (prim rs) * (nn rs - 1 - pos))"

definition eras_locator :: "rs \<Rightarrow> nat list \<Rightarrow> u8 list" where
  "eras_locator rs eras =
     (let lam = 1 # replicate (nroots rs) 0
      in if eras = [] then lam
         else foldl (\<lambda>lam i.
                let u = eras_root rs (eras ! i)
                in foldl (\<lambda>lam j.
                     let tmp = index_of rs ! unat (lam ! (j - 1))
                     in if tmp \<noteq> A0 rs
                        then lam[j := lam ! j XOR alpha_to rs ! modnn rs (u + unat tmp)]
                        else lam) lam (rev [1..<i + 2]))
              (lam[1 := alpha_to rs ! eras_root rs (eras ! 0)]) [1..<length eras])"

section \<open>Berlekamp-Massey\<close>

record bm =
  lambda :: "u8 list"
  b_poly :: "u8 list"
  el :: nat

text \<open>The discrepancy at step \<open>r\<close>, in polynomial form; \<open>s\<close> is in index form.\<close>

definition discrepancy :: "rs \<Rightarrow> u8 list \<Rightarrow> u8 list \<Rightarrow> nat \<Rightarrow> u8" where
  "discrepancy rs s lam r =
     foldl (\<lambda>d i. if lam ! i \<noteq> 0 \<and> s ! (r - i - 1) \<noteq> A0 rs
                  then d XOR alpha_to rs ! modnn rs (unat (index_of rs ! unat (lam ! i))
                                                   + unat (s ! (r - i - 1)))
                  else d) 0 [0..<r]"

text \<open>\<open>B(x) <-- x * B(x)\<close> in index form.\<close>

definition bm_shift :: "rs \<Rightarrow> u8 list \<Rightarrow> u8 list" where
  "bm_shift rs b = (c_memmove 1 0 (nroots rs) b)[0 := A0 rs]"

definition bm_step :: "rs \<Rightarrow> u8 list \<Rightarrow> nat \<Rightarrow> bm \<Rightarrow> nat \<Rightarrow> bm" where
  "bm_step rs s no_eras st r =
     (let lam = lambda st; b = b_poly st;
          discr = index_of rs ! unat (discrepancy rs s lam r)
      in if discr = A0 rs then st\<lparr> b_poly := bm_shift rs b \<rparr>
         else
           let t = lam ! 0 # map (\<lambda>i. if b ! i \<noteq> A0 rs
                                       then lam ! (i + 1) XOR alpha_to rs ! modnn rs (unat discr + unat (b ! i))
                                       else lam ! (i + 1)) [0..<nroots rs]
           in if 2 * el st \<le> r + no_eras - 1
              then \<lparr> lambda = t,
                     b_poly = map (\<lambda>i. if lam ! i = 0 then A0 rs
                        else of_nat (modnn rs (unat (index_of rs ! unat (lam ! i)) + nn rs - unat discr)))
                        [0..<nroots rs + 1],
                     el = r + no_eras - el st \<rparr>
              else \<lparr> lambda = t, b_poly = bm_shift rs b, el = el st \<rparr>)"

definition berlekamp_massey :: "rs \<Rightarrow> u8 list \<Rightarrow> nat \<Rightarrow> u8 list \<Rightarrow> bm" where
  "berlekamp_massey rs s no_eras lam =
     foldl (bm_step rs s no_eras)
       \<lparr> lambda = lam, b_poly = map (\<lambda>c. index_of rs ! unat c) lam, el = no_eras \<rparr>
       [no_eras + 1..<nroots rs + 1]"

text \<open>Conversion of the locator to index form, with its degree.\<close>

definition locator_convert :: "rs \<Rightarrow> u8 list \<Rightarrow> u8 list \<times> nat" where
  "locator_convert rs lam =
     foldl (\<lambda>(lam, deg) i.
              let c = index_of rs ! unat (lam ! i)
              in (lam[i := c], if c \<noteq> A0 rs then i else deg))
       (lam, 0) [0..<nroots rs + 1]"

section \<open>Chien search\<close>

text \<open>One evaluation: the registers advance and are summed, from degree \<open>deg_lambda\<close> down to one.\<close>

definition chien_eval :: "rs \<Rightarrow> nat \<Rightarrow> u8 list \<Rightarrow> u8 \<times> u8 list" where
  "chien_eval rs deg reg =
     foldl (\<lambda>(q, reg) j.
              if reg ! j \<noteq> A0 rs
              then let x = of_nat (modnn rs (unat (reg ! j) + j))
                   in (q XOR alpha_to rs ! unat x, reg[j := x])
              else (q, reg))
       (1, reg) (rev [1..<deg + 1])"

text \<open>
  The search from \<open>i\<close> on, for \<open>fuel = nn + 1 - i\<close> positions, collecting \<open>(root, loc)\<close> pairs in
  the order of the arrays; it stops when \<open>deg_lambda\<close> of them have been found.
\<close>

fun chien_search ::
  "rs \<Rightarrow> nat \<Rightarrow> nat \<Rightarrow> nat \<Rightarrow> nat \<Rightarrow> u8 list \<Rightarrow> (nat \<times> nat) list \<Rightarrow> (nat \<times> nat) list" where
  "chien_search rs deg 0 i k reg found = found"
| "chien_search rs deg (Suc fuel) i k reg found =
     (case chien_eval rs deg reg of (q, reg) \<Rightarrow>
        if q \<noteq> 0 then chien_search rs deg fuel (i + 1) (modnn rs (k + unat (iprim rs))) reg found
        else let found = found @ [(i, k)]
             in if length found = deg then found
                else chien_search rs deg fuel (i + 1) (modnn rs (k + unat (iprim rs))) reg found)"

section \<open>The evaluator polynomial and the error values\<close>

definition omega_coeff :: "rs \<Rightarrow> u8 list \<Rightarrow> u8 list \<Rightarrow> nat \<Rightarrow> nat \<Rightarrow> u8" where
  "omega_coeff rs s lam deg i =
     foldl (\<lambda>tmp j. if s ! (i - j) \<noteq> A0 rs \<and> lam ! j \<noteq> A0 rs
                    then tmp XOR alpha_to rs ! modnn rs (unat (s ! (i - j)) + unat (lam ! j))
                    else tmp) 0 (rev [0..<min deg i + 1])"

definition evaluator :: "rs \<Rightarrow> u8 list \<Rightarrow> u8 list \<Rightarrow> nat \<Rightarrow> u8 list \<times> nat" where
  "evaluator rs s lam deg =
     (let cs = map (omega_coeff rs s lam deg) [0..<nroots rs]
      in (map (\<lambda>c. index_of rs ! unat c) cs @ [A0 rs],
          foldl (\<lambda>d i. if cs ! i \<noteq> 0 then i else d) 0 [0..<nroots rs]))"

definition forney_num1 :: "rs \<Rightarrow> u8 list \<Rightarrow> nat \<Rightarrow> nat \<Rightarrow> u8" where
  "forney_num1 rs omega deg root =
     foldl (\<lambda>n i. if omega ! i \<noteq> A0 rs
                  then n XOR alpha_to rs ! modnn rs (unat (omega ! i) + i * root)
                  else n) 0 (rev [0..<deg + 1])"

text \<open>\<open>root * (FCR - 1) + NN\<close> is computed in \<open>unsigned int\<close>, so that it also holds for \<open>FCR = 0\<close>.\<close>

definition forney_num2 :: "rs \<Rightarrow> nat \<Rightarrow> u8" where
  "forney_num2 rs root = alpha_to rs ! modnn rs (root * unat (fcr rs) + nn rs - root)"

definition forney_den :: "rs \<Rightarrow> u8 list \<Rightarrow> nat \<Rightarrow> nat \<Rightarrow> u8" where
  "forney_den rs lam deg root =
     foldl (\<lambda>n i. if lam ! (i + 1) \<noteq> A0 rs
                  then n XOR alpha_to rs ! modnn rs (unat (lam ! (i + 1)) + i * root)
                  else n) 0 (rev (filter even [0..<min deg (nroots rs - 1) + 1]))"

text \<open>
  Applying the error values; a zero denominator stops the loop with the corrections made so
  far (\<open>Inl\<close>).
\<close>

fun apply_errors ::
  "rs \<Rightarrow> u8 list \<Rightarrow> nat \<Rightarrow> u8 list \<Rightarrow> nat \<Rightarrow> (nat \<times> nat) list \<Rightarrow> u8 list \<Rightarrow> u8 list + u8 list" where
  "apply_errors rs omega dom_deg lam deg [] data = Inr data"
| "apply_errors rs omega dom_deg lam deg ((root, loc) # rest) data =
     (let num1 = forney_num1 rs omega dom_deg root;
          num2 = forney_num2 rs root;
          den = forney_den rs lam deg root
      in if den = 0 then Inl data
         else apply_errors rs omega dom_deg lam deg rest
           (if num1 \<noteq> 0
            then data[loc := data ! loc XOR alpha_to rs ! modnn rs
                   (unat (index_of rs ! unat num1) + unat (index_of rs ! unat num2) + nn rs
                    - unat (index_of rs ! unat den))]
            else data))"

section \<open>The decoder\<close>

text \<open>
  The result is the returned count, the data and the contents of \<open>eras_pos\<close>.  The caller may pass
  no array (\<open>None\<close>).  At most \<open>nroots\<close> erasures at positions of the block are within the contract;
  outside it the C code writes past its local arrays, which is no result (\<open>None\<close>).
\<close>

definition eras_ok :: "rs \<Rightarrow> nat list option \<Rightarrow> nat \<Rightarrow> bool" where
  "eras_ok rs eras_pos no_eras \<longleftrightarrow>
     no_eras \<le> nroots rs \<and>
     (case eras_pos of None \<Rightarrow> no_eras = 0
      | Some ps \<Rightarrow> no_eras \<le> length ps \<and> (\<forall>q \<in> set (take no_eras ps). q < nn rs))"

text \<open>The code at the label \<open>finish\<close>.\<close>

definition write_back :: "nat list option \<Rightarrow> nat list \<Rightarrow> int \<Rightarrow> nat list option" where
  "write_back eras_pos loc count =
     map_option (\<lambda>ps. foldl (\<lambda>ps i. ps[i := loc ! i]) ps [0..<nat count]) eras_pos"

definition decode_rs ::
  "rs \<Rightarrow> u8 list \<Rightarrow> nat list option \<Rightarrow> nat \<Rightarrow> (int \<times> u8 list \<times> nat list option) option" where
  "decode_rs rs data eras_pos no_eras =
     (if \<not> eras_ok rs eras_pos no_eras then None
      else Some (
        let (syn_error, s) = syn_convert rs (syndromes rs data)
        in if syn_error = 0 then (0, data, write_back eras_pos [] 0)
        else
          let eras = take no_eras (case eras_pos of None \<Rightarrow> [] | Some ps \<Rightarrow> ps);
              st = berlekamp_massey rs s no_eras (eras_locator rs eras);
              (lam, deg_lambda) = locator_convert rs (lambda st);
              found = chien_search rs deg_lambda (nn rs) 1 (unat (iprim rs) - 1) lam [];
              count = length found
          in if deg_lambda \<noteq> count then (- 1, data, write_back eras_pos (map snd found) (- 1))
             else
               let (omega, deg_omega) = evaluator rs s lam deg_lambda
               in case apply_errors rs omega deg_omega lam deg_lambda (rev found) data of
                    Inl data \<Rightarrow> (- 1, data, write_back eras_pos (map snd found) (- 1))
                  | Inr data \<Rightarrow> (int count, data, write_back eras_pos (map snd found) (int count))))"

section \<open>What the syndromes are\<close>

lemma foldl_rows:
  assumes "length s = n"
  shows "length (foldl (\<lambda>s j. foldl (\<lambda>s i. s[i := h i j (s ! i)]) s [0..<n]) s js) = n"
    and "i < n \<Longrightarrow> foldl (\<lambda>s j. foldl (\<lambda>s i. s[i := h i j (s ! i)]) s [0..<n]) s js ! i
          = foldl (\<lambda>x j. h i j x) (s ! i) js"
proof -
  have row: "length (foldl (\<lambda>s i. s[i := h i j (s ! i)]) s [0..<n]) = n"
    "i < n \<Longrightarrow> foldl (\<lambda>s i. s[i := h i j (s ! i)]) s [0..<n] ! i = h i j (s ! i)"
    if "length s = n" for s j i
    using foldl_update_nth [where g = s and b = n and a = 0 and h = "\<lambda>i. h i j"] that by auto
  have "length (foldl (\<lambda>s j. foldl (\<lambda>s i. s[i := h i j (s ! i)]) s [0..<n]) s js) = n
      \<and> (\<forall>i < n. foldl (\<lambda>s j. foldl (\<lambda>s i. s[i := h i j (s ! i)]) s [0..<n]) s js ! i
          = foldl (\<lambda>x j. h i j x) (s ! i) js)"
    using assms by (induction js arbitrary: s) (simp_all add: row)
  then show "length (foldl (\<lambda>s j. foldl (\<lambda>s i. s[i := h i j (s ! i)]) s [0..<n]) s js) = n"
    and "i < n \<Longrightarrow> foldl (\<lambda>s j. foldl (\<lambda>s i. s[i := h i j (s ! i)]) s [0..<n]) s js ! i
          = foldl (\<lambda>x j. h i j x) (s ! i) js"
    by auto
qed

lemma syn_step_unat:
  assumes R: "rs_field rs p" and s: "unat s < 2 ^ mm rs"
  shows "unat (syn_step rs i d s)
       = unat d XOR (gf_step (mm rs) p ^^ code_root rs i) (unat s)"
  using table_mult [OF R s, of "code_root rs i"]
  by (simp add: syn_step_def unat_xor code_root_def)

lemma syndrome_peval:
  assumes R: "rs_field rs p" and data: "length data = nn rs" "symbols_ok rs data"
    and i: "i < nroots rs"
  shows "unat (syndromes rs data ! i)
       = peval (gf_step (mm rs) p) (code_root rs i) (map unat (rev data))"
proof -
  let ?T = "gf_step (mm rs) p"
  have cyc: "gf_cycle ?T (\<lambda>c. c < 2 ^ mm rs) (2 ^ mm rs - 1)"
    using R by (intro gf_cycle_step) (simp add: rs_field_def)
  have horner: "unat (foldl (\<lambda>s d. syn_step rs i d s) s ds)
      = foldl (\<lambda>s d. d XOR (?T ^^ code_root rs i) s) (unat s) (map unat ds)"
    if "unat s < 2 ^ mm rs" "symbols_ok rs ds" for s ds
    using that
  proof (induction ds arbitrary: s)
    case (Cons d ds)
    have "unat (syn_step rs i d s) < 2 ^ mm rs"
      using Cons.prems unfolding syn_step_unat [OF R Cons.prems(1)]
      by (auto simp: symbols_ok_def intro!: xor_nat_less_exp gf_cycle.V_pow [OF cyc])
    with Cons show ?case by (simp add: syn_step_unat [OF R] symbols_ok_def)
  qed simp
  have "0 < nn rs" using R gf_field_n [of "mm rs" p] by (simp add: rs_field_def)
  then obtain d ds where dds: "data = d # ds" using data(1) by (cases data) auto
  have "syndromes rs data ! i = foldl (\<lambda>s j. syn_step rs i (data ! j) s) (data ! 0) [1..<nn rs]"
    using foldl_rows(2) [where s = "replicate (nroots rs) (data ! 0)" and n = "nroots rs"
        and h = "\<lambda>i j. syn_step rs i (data ! j)"] i
    by (simp add: syndromes_def)
  also have "\<dots> = foldl (\<lambda>s d. syn_step rs i d s) (data ! 0) (drop 1 data)"
    using foldl_index_drop [of "\<lambda>s d. syn_step rs i d s" data "data ! 0" 1] data(1) by simp
  also have "\<dots> = foldl (\<lambda>s d. syn_step rs i d s) d ds"
    by (simp add: dds drop_Cons')
  finally have "unat (syndromes rs data ! i)
      = foldl (\<lambda>s d. d XOR (?T ^^ code_root rs i) s) (unat d) (map unat ds)"
    using horner [of d ds] data(2) dds by (simp add: symbols_ok_def)
  also have "\<dots> = peval ?T (code_root rs i) (rev (map unat data))"
    by (simp add: gf.foldl_horner gf.peval_append dds)
  finally show ?thesis by (simp add: rev_map)
qed

lemma length_syndromes: "length (syndromes rs data) = nroots rs"
  using foldl_rows(1) [where s = "replicate (nroots rs) (data ! 0)" and n = "nroots rs"
      and h = "\<lambda>i j. syn_step rs i (data ! j)"]
  by (simp add: syndromes_def)

lemma syn_convert_zero:
  assumes "length s = nroots rs"
  shows "fst (syn_convert rs s) = 0 \<longleftrightarrow> (\<forall>i < nroots rs. s ! i = 0)"
proof -
  define f where "f = (\<lambda>(err, s) i. (err OR s ! i, s[i := index_of rs ! unat (s ! i)]))"
  have "(fst (foldl f (0, s) [0..<k]) = 0 \<longleftrightarrow> (\<forall>i < k. s ! i = 0))
      \<and> (\<forall>i \<ge> k. snd (foldl f (0, s) [0..<k]) ! i = s ! i)"
    if "k \<le> length s" for k
    using that
    by (induction k) (auto simp: f_def case_prod_beta or_eq_0_iff less_Suc_eq nth_list_update)
  from this [of "nroots rs"] show ?thesis using assms by (simp add: syn_convert_def f_def)
qed

text \<open>The early exit is taken exactly on the code words.\<close>

lemma syn_error_iff:
  assumes R: "rs_field rs p" and data: "length data = nn rs" "symbols_ok rs data"
  shows "fst (syn_convert rs (syndromes rs data)) = 0 \<longleftrightarrow> is_codeword rs p data"
  using syndrome_peval [OF R data] data
  by (auto simp: syn_convert_zero [OF length_syndromes] is_codeword_def unat_eq_zero)

lemma decode_rs_clean:
  assumes "fst (syn_convert rs (syndromes rs data)) = 0" "eras_ok rs eras_pos no_eras"
  shows "decode_rs rs data eras_pos no_eras = Some (0, data, eras_pos)"
proof -
  have "write_back eras_pos [] 0 = eras_pos"
    by (cases eras_pos) (simp_all add: write_back_def)
  then show ?thesis using assms by (simp add: decode_rs_def case_prod_beta)
qed

lemma decode_codeword:
  assumes C: "rs_code rs p" and cs: "is_codeword rs p cs" and eras: "eras_ok rs eras_pos no_eras"
  shows "decode_rs rs cs eras_pos no_eras = Some (0, cs, eras_pos)"
proof (rule decode_rs_clean [OF _ eras])
  have "length cs = nn rs" "symbols_ok rs cs" using cs by (simp_all add: is_codeword_def)
  then show "fst (syn_convert rs (syndromes rs cs)) = 0"
    using syn_error_iff cs C by (auto simp: rs_code_def)
qed

text \<open>
  C23: encoding and decoding is the identity: the decoder finds no error in what the encoder
  made, returns zero and leaves the data and the erasure array alone, whatever erasures the
  caller announces.
\<close>

theorem decode_encode:
  assumes C: "rs_code rs p" and n: "0 < nroots rs"
    and data: "length data = nn rs - nroots rs" "symbols_ok rs data"
    and eras: "eras_ok rs eras_pos no_eras"
  shows "decode_rs rs (data @ encode_rs rs data) eras_pos no_eras
       = Some (0, data @ encode_rs rs data, eras_pos)"
  by (rule decode_codeword [OF C encode_is_codeword [OF C n data] eras])

text \<open>
  C33: error detection: when a code word arrives with at least one and at most \<open>nroots\<close> symbols
  changed, the decoder sees nonzero syndromes, so it never takes the received word for a
  correct one.
\<close>

theorem decode_detects:
  assumes C: "rs_code rs p" and cs: "is_codeword rs p cs"
    and ds: "length ds = nn rs" "symbols_ok rs ds" "ds \<noteq> cs" "hamming cs ds \<le> nroots rs"
  shows "fst (syn_convert rs (syndromes rs ds)) \<noteq> 0"
  using syn_error_iff [OF _ ds(1,2)] codewords_differ [OF C cs _ ds(4)] ds(3) C
  by (auto simp: rs_code_def)

end
