(* ===== verification/RS_CCSDS.thy ===== *)
theory RS_CCSDS
  imports RS_Decode
begin

text \<open>
  The CCSDS (255,223) code: the tables that \<open>gen_ccsds.c\<close> prints, which the code configured by
  \<open>fixed.h\<close> uses, the dual-basis tables of \<open>gen_ccsds_tal.c\<close>, and the wrappers
  \<open>encode_rs_ccsds.c\<close> and \<open>decode_rs_ccsds.c\<close>.
\<close>

section \<open>The field of the CCSDS code\<close>

definition ccsds_powers :: "nat list" where
  "ccsds_powers =
    [1, 2, 4, 8, 16, 32, 64, 128, 135, 137, 149, 173, 221, 61, 122, 244, 111, 222, 59, 118, 236,
     95, 190, 251, 113, 226, 67, 134, 139, 145, 165, 205, 29, 58, 116, 232, 87, 174, 219, 49, 98,
     196, 15, 30, 60, 120, 240, 103, 206, 27, 54, 108, 216, 55, 110, 220, 63, 126, 252, 127, 254,
     123, 246, 107, 214, 43, 86, 172, 223, 57, 114, 228, 79, 158, 187, 241, 101, 202, 19, 38, 76,
     152, 183, 233, 85, 170, 211, 33, 66, 132, 143, 153, 181, 237, 93, 186, 243, 97, 194, 3, 6,
     12, 24, 48, 96, 192, 7, 14, 28, 56, 112, 224, 71, 142, 155, 177, 229, 77, 154, 179, 225, 69,
     138, 147, 161, 197, 13, 26, 52, 104, 208, 39, 78, 156, 191, 249, 117, 234, 83, 166, 203, 17,
     34, 68, 136, 151, 169, 213, 45, 90, 180, 239, 89, 178, 227, 65, 130, 131, 129, 133, 141,
     157, 189, 253, 125, 250, 115, 230, 75, 150, 171, 209, 37, 74, 148, 175, 217, 53, 106, 212,
     47, 94, 188, 255, 121, 242, 99, 198, 11, 22, 44, 88, 176, 231, 73, 146, 163, 193, 5, 10, 20,
     40, 80, 160, 199, 9, 18, 36, 72, 144, 167, 201, 21, 42, 84, 168, 215, 41, 82, 164, 207, 25,
     50, 100, 200, 23, 46, 92, 184, 247, 105, 210, 35, 70, 140, 159, 185, 245, 109, 218, 51, 102,
     204, 31, 62, 124, 248, 119, 238, 91, 182, 235, 81, 162, 195, 1]"

lemma ccsds_powers_chain: "iterates (gf_step 8 0x187) ccsds_powers"
  unfolding ccsds_powers_def by (simp add: gf_step_def Let_def c_simps)

lemma ccsds_powers_nth: "k < 256 \<Longrightarrow> ccsds_powers ! k = (gf_step 8 0x187 ^^ k) 1"
  using iterates_nth [OF ccsds_powers_chain, of k] by (simp add: ccsds_powers_def)

lemma ccsds_powers_last: "ccsds_powers ! 255 = 1"
proof -
  have "length ccsds_powers = 256" "last ccsds_powers = 1"
    unfolding ccsds_powers_def by simp_all
  then show ?thesis by (cases "ccsds_powers = []") (simp_all add: last_conv_nth)
qed

lemma ccsds_powers_no_one: "1 \<notin> set (butlast (tl ccsds_powers))"
  unfolding ccsds_powers_def by simp

lemma ccsds_field: "gf_field 8 0x187"
proof -
  have len: "length ccsds_powers = 256" by (simp add: ccsds_powers_def)
  have "(gf_step 8 0x187 ^^ 255) 1 = 1"
    using ccsds_powers_nth [of 255] ccsds_powers_last by simp
  moreover have "(gf_step 8 0x187 ^^ k) 1 \<noteq> 1" if k: "0 < k" "k < 255" for k
  proof -
    have "k - 1 < length (butlast (tl ccsds_powers))" using len k by simp
    then have "butlast (tl ccsds_powers) ! (k - 1) \<in> set (butlast (tl ccsds_powers))"
      by (rule nth_mem)
    moreover have "butlast (tl ccsds_powers) ! (k - 1) = ccsds_powers ! k"
      using len k by (simp add: nth_butlast nth_tl flip: Suc_eq_plus1)
    ultimately have "ccsds_powers ! k \<noteq> 1" using ccsds_powers_no_one by metis
    then show ?thesis using ccsds_powers_nth [of k] k by simp
  qed
  ultimately show ?thesis by (simp add: gf_field_def primitive_poly_def)
qed

interpretation ccsds: gf_cycle "gf_step 8 0x187" "\<lambda>c. c < 2 ^ 8" "2 ^ 8 - 1"
  by (rule gf_cycle_step [OF ccsds_field])

section \<open>The tables of gen\_ccsds.c\<close>

definition gen_ccsds :: "alloc \<Rightarrow> init_result" where
  "gen_ccsds mem = init_rs mem 8 0x187 112 11 32"

text \<open>The configuration the constants of \<open>fixed.h\<close> state.\<close>

definition fixed_config :: "rs \<Rightarrow> bool" where
  "fixed_config rs \<longleftrightarrow> mm rs = 8 \<and> nn rs = 255 \<and> nroots rs = 32 \<and> fcr rs = 112
     \<and> prim rs = 11 \<and> iprim rs = 116"

lemma gen_ccsds_checks:
  "init_checks mem 8 0x187 112 11 32 \<longleftrightarrow> malloc_ok mem 0 \<and> malloc_ok mem 1 \<and> malloc_ok mem 2"
  using ccsds_field by (auto simp: init_checks_def init_args_ok_def gf_field_def)

lemma gen_ccsds_ok_code:
  assumes "gen_ccsds mem = RS_ok rs"
  shows "rs_code rs 0x187" "fixed_config rs"
proof -
  have ok: "init_rs mem 8 0x187 112 11 32 = RS_ok rs" using assms by (simp add: gen_ccsds_def)
  have prim: "primitive_poly 8 0x187" using ccsds_field by (simp add: gf_field_def)
  have cop: "coprime (11 :: nat) (2 ^ 8 - 1)" by code_simp
  note code = init_rs_ok_code [OF ok prim cop]
  show "rs_code rs 0x187" using code by simp
  have "iprim_loop 255 11 1 = Some 1276"
    by (simp add: iprim_loop.simps [of 255 11])
  then have "iprim rs = 116"
    using ok by (auto simp: init_rs_def Let_def split: if_splits prod.splits)
  moreover have "fcr rs = 112" "prim rs = 11"
    using code by (simp_all add: word_unat_eq_iff)
  moreover have "nn rs = 255" using code by (simp add: rs_code_def rs_field_def)
  ultimately show "fixed_config rs" using code by (simp add: fixed_config_def)
qed

text \<open>
  \<open>gen_ccsds.c\<close> succeeds whenever memory is available, with a control block of a
  Reed-Solomon code over the field of \<open>0x187\<close>, and the constants hard-wired in \<open>fixed.h\<close> (symbol
  size, block length, roots, first root, primitive element and its inverse 116) are the ones
  of that block.
\<close>

theorem gen_ccsds_code:
  "if malloc_ok mem 0 \<and> malloc_ok mem 1 \<and> malloc_ok mem 2
   then \<exists>rs. gen_ccsds mem = RS_ok rs \<and> rs_code rs 0x187 \<and> fixed_config rs
   else gen_ccsds mem = RS_null"
proof (cases "malloc_ok mem 0 \<and> malloc_ok mem 1 \<and> malloc_ok mem 2")
  case True
  obtain rs where "gen_ccsds mem = RS_ok rs"
    using True init_rs_cases [of mem 8 "0x187" 112 11 32]
    by (cases "gen_ccsds mem") (auto simp: gen_ccsds_def gen_ccsds_checks)
  with True show ?thesis using gen_ccsds_ok_code by auto
next
  case False
  then show ?thesis using init_rs_cases(1) [of mem 8 "0x187" 112 11 32]
    by (simp add: gen_ccsds_def gen_ccsds_checks)
qed

section \<open>The dual-basis tables of gen\_ccsds\_tal.c\<close>

definition tal :: "u8 list" where
  "tal = [0x8d, 0xef, 0xec, 0x86, 0xfa, 0x99, 0xaf, 0x7b]"

text \<open>The two inner loops: column \<open>j\<close> and row \<open>k\<close> of the matrix.\<close>

definition taltab_entry :: "nat \<Rightarrow> u8" where
  "taltab_entry i =
     foldl (\<lambda>e j. foldl (\<lambda>e k. if i AND 2 ^ k \<noteq> 0
                               then e XOR (tal ! (7 - k) AND push_bit j 1) else e) e [0..<8])
       0 [0..<8]"

text \<open>The tables \<open>(Taltab, Tal1tab)\<close>, which start as zeros.\<close>

definition gen_ccsds_tal :: "u8 list \<times> u8 list" where
  "gen_ccsds_tal =
     foldl (\<lambda>(taltab, tal1tab) i.
              let taltab = taltab[i := taltab_entry i]
              in (taltab, tal1tab[unat (taltab ! i) := of_nat i]))
       (replicate 256 0, replicate 256 0) [0..<256]"

definition Taltab :: "u8 list" where "Taltab = fst gen_ccsds_tal"
definition Tal1tab :: "u8 list" where "Tal1tab = snd gen_ccsds_tal"

text \<open>Bit \<open>n\<close> of an entry is the parity of the bits of \<open>i\<close> that row \<open>n\<close> of the matrix selects.\<close>

definition parity_of :: "bool list \<Rightarrow> bool" where
  "parity_of bs = foldr (\<noteq>) bs False"

lemma tal_inner_bit:
  fixes e :: u8
  assumes "n < 8"
  shows "bit (foldl (\<lambda>e k. if i AND 2 ^ k \<noteq> 0 then e XOR (tal ! (7 - k) AND push_bit j 1) else e) e ks) n
     \<longleftrightarrow> bit e n \<noteq> (n = j \<and> parity_of (map (\<lambda>k. bit i k \<and> bit (tal ! (7 - k)) n) ks))"
  using assms
  by (induction ks arbitrary: e) (auto simp: bit_simps parity_of_def and_exp_eq_0_iff_not_bit)

lemma tal_outer_bit:
  fixes e :: u8
  assumes "n < 8" "distinct js"
  shows "bit (foldl (\<lambda>e j. foldl (\<lambda>e k. if i AND 2 ^ k \<noteq> 0
        then e XOR (tal ! (7 - k) AND push_bit j 1) else e) e ks) e js) n
     \<longleftrightarrow> bit e n \<noteq> (n \<in> set js \<and> parity_of (map (\<lambda>k. bit i k \<and> bit (tal ! (7 - k)) n) ks))"
  using assms(2)
  by (induction js arbitrary: e) (auto simp: tal_inner_bit [OF assms(1)])

lemma taltab_entry_bit:
  assumes "n < 8"
  shows "bit (taltab_entry i) n
     \<longleftrightarrow> parity_of (map (\<lambda>k. bit i k \<and> bit (tal ! (7 - k)) n) [0..<8])"
  using assms tal_outer_bit [OF assms, of "[0..<8]" i "[0..<8]" 0]
  by (simp add: taltab_entry_def)

lemma upt_8: "[0..<8] = [0, 1, 2, 3, 4, 5, 6, 7]"
  by (simp add: upt_rec)

lemma taltab_entry_bits:
  "bit (taltab_entry i) 0 \<longleftrightarrow> parity_of [bit i 0, bit i 1, bit i 2, bit i 6, bit i 7]"
    "bit (taltab_entry i) 1 \<longleftrightarrow> parity_of [bit i 0, bit i 1, bit i 3, bit i 4, bit i 6]"
    "bit (taltab_entry i) 2 \<longleftrightarrow> parity_of [bit i 1, bit i 4, bit i 5, bit i 6, bit i 7]"
    "bit (taltab_entry i) 3 \<longleftrightarrow> parity_of [bit i 0, bit i 1, bit i 2, bit i 3, bit i 5, bit i 6, bit i 7]"
    "bit (taltab_entry i) 4 \<longleftrightarrow> parity_of [bit i 0, bit i 2, bit i 3]"
    "bit (taltab_entry i) 5 \<longleftrightarrow> parity_of [bit i 0, bit i 1, bit i 3, bit i 5, bit i 6]"
    "bit (taltab_entry i) 6 \<longleftrightarrow> parity_of [bit i 0, bit i 3, bit i 5, bit i 6]"
    "bit (taltab_entry i) 7 \<longleftrightarrow> parity_of [bit i 1, bit i 2, bit i 3, bit i 4, bit i 5, bit i 6, bit i 7]"
  by (simp_all add: taltab_entry_bit upt_8 tal_def parity_of_def One_nat_def)

lemma xor_bool_iff: "(a \<noteq> b) \<longleftrightarrow> (a = (b = False))"
  by blast

lemma iff_cancel: "(a = (a = b)) \<longleftrightarrow> b" "(a = a) \<longleftrightarrow> True" "((a = b) = c) \<longleftrightarrow> (a = (b = c))" for a b c :: bool
  by blast+

lemmas iff_ac = simp_thms eq_ac iff_cancel

text \<open>The inverse matrix, so that the entry determines the index.\<close>

lemma taltab_entry_inverse:
  "bit i 0 \<longleftrightarrow> parity_of [bit (taltab_entry i) 2, bit (taltab_entry i) 4, bit (taltab_entry i) 7]"
  "bit i 1 \<longleftrightarrow> parity_of [bit (taltab_entry i) 5, bit (taltab_entry i) 6]"
  "bit i 2 \<longleftrightarrow> parity_of [bit (taltab_entry i) 0, bit (taltab_entry i) 1, bit (taltab_entry i) 4, bit (taltab_entry i) 5, bit (taltab_entry i) 7]"
  "bit i 3 \<longleftrightarrow> parity_of [bit (taltab_entry i) 0, bit (taltab_entry i) 1, bit (taltab_entry i) 2, bit (taltab_entry i) 4, bit (taltab_entry i) 5]"
  "bit i 4 \<longleftrightarrow> parity_of [bit (taltab_entry i) 2, bit (taltab_entry i) 3, bit (taltab_entry i) 4]"
  "bit i 5 \<longleftrightarrow> parity_of [bit (taltab_entry i) 1, bit (taltab_entry i) 2, bit (taltab_entry i) 3, bit (taltab_entry i) 4, bit (taltab_entry i) 5]"
  "bit i 6 \<longleftrightarrow> parity_of [bit (taltab_entry i) 0, bit (taltab_entry i) 2, bit (taltab_entry i) 3, bit (taltab_entry i) 4, bit (taltab_entry i) 6, bit (taltab_entry i) 7]"
  "bit i 7 \<longleftrightarrow> parity_of [bit (taltab_entry i) 0, bit (taltab_entry i) 1, bit (taltab_entry i) 3, bit (taltab_entry i) 4, bit (taltab_entry i) 7]"
  unfolding taltab_entry_bits parity_of_def foldr.simps comp_def id_def
  by (simp_all only: xor_bool_iff iff_ac)

lemma taltab_entry_inj:
  assumes "taltab_entry i = taltab_entry j" "i < 256" "j < 256"
  shows "i = j"
proof (rule bit_eqI)
  fix n
  show "bit i n = bit j n"
  proof (cases "n < 8")
    case True
    then have "n \<in> set [0..<8]" by simp
    then show ?thesis
      unfolding upt_8 list.set
      by (elim insertE emptyE)
        (simp_all only: taltab_entry_inverse [of i] taltab_entry_inverse [of j] assms(1))
  next
    case False
    then have "(2::nat) ^ 8 \<le> 2 ^ n" by (intro power_increasing) simp_all
    then have "i < 2 ^ n" "j < 2 ^ n" using assms by simp_all
    then show ?thesis by (simp add: bit_nat_def)
  qed
qed

lemma gen_ccsds_tal_tables:
  "length Taltab = 256" "length Tal1tab = 256"
  "\<And>i. i < 256 \<Longrightarrow> Taltab ! i = taltab_entry i"
  "\<And>i. i < 256 \<Longrightarrow> Tal1tab ! unat (taltab_entry i) = of_nat i"
proof -
  define I where "I k s = (case s of (t, t1) \<Rightarrow> length t = 256 \<and> length t1 = 256
      \<and> (\<forall>i < k. t ! i = taltab_entry i) \<and> (\<forall>i < k. t1 ! unat (taltab_entry i) = of_nat i))"
    for k and s :: "u8 list \<times> u8 list"
  have "I 256 gen_ccsds_tal"
    unfolding gen_ccsds_tal_def
  proof (rule foldl_upt_invariant)
    fix k s
    assume k: "k < 256" and "I k s"
    then obtain t t1 where s: "s = (t, t1)" and len: "length t = 256" "length t1 = 256"
      and t: "\<And>i. i < k \<Longrightarrow> t ! i = taltab_entry i"
      and t1: "\<And>i. i < k \<Longrightarrow> t1 ! unat (taltab_entry i) = of_nat i"
      by (auto simp: I_def split: prod.splits)
    have "taltab_entry k \<noteq> taltab_entry i" if "i < k" for i
      using taltab_entry_inj [of i k] that k by auto
    then have ne: "unat (taltab_entry k) \<noteq> unat (taltab_entry i)" if "i < k" for i
      using that by (simp add: word_unat_eq_iff)
    show "I (Suc k) ((\<lambda>(taltab, tal1tab) i. let taltab = taltab[i := taltab_entry i]
        in (taltab, tal1tab[unat (taltab ! i) := of_nat i])) s k)"
      using k len by (auto simp: s I_def Let_def less_Suc_eq t t1 ne)
  qed (simp_all add: I_def)
  then show "length Taltab = 256" "length Tal1tab = 256"
    "\<And>i. i < 256 \<Longrightarrow> Taltab ! i = taltab_entry i"
    "\<And>i. i < 256 \<Longrightarrow> Tal1tab ! unat (taltab_entry i) = of_nat i"
    by (simp_all add: Taltab_def Tal1tab_def I_def case_prod_beta)
qed

lemma tal1tab_taltab: "Tal1tab ! unat (Taltab ! unat v) = v"
  using gen_ccsds_tal_tables(3,4) [of "unat v"] by simp

lemma taltab_tal1tab: "Taltab ! unat (Tal1tab ! unat v) = v"
proof -
  have "inj (\<lambda>v :: u8. Taltab ! unat v)"
    by (rule injI) (metis tal1tab_taltab)
  then have "surj (\<lambda>v :: u8. Taltab ! unat v)"
    by (rule finite_UNIV_inj_surj [OF finite])
  then have "v \<in> range (\<lambda>v :: u8. Taltab ! unat v)" by simp
  then obtain w :: u8 where "v = Taltab ! unat w" by blast
  then show ?thesis by (simp add: tal1tab_taltab)
qed

text \<open>
  The two conversion tables that \<open>gen_ccsds_tal.c\<close> prints are inverse to each other on all
  byte values: conventional to dual basis and back, and dual basis to conventional and back,
  change nothing.
\<close>

theorem tal_tables_inverse:
  "Tal1tab ! unat (Taltab ! unat v) = v \<and> Taltab ! unat (Tal1tab ! unat v) = v"
  by (simp add: tal1tab_taltab taltab_tal1tab)

section \<open>The wrappers\<close>

text \<open>
  \<open>parity\<close> is the memory from the address the caller passes to the end of the caller's array.  The
  last loop of the encoder runs over \<open>NN - NROOTS\<close> bytes of it; when the array is shorter the
  C code reads and writes past its end, which is no result.
\<close>

definition encode_rs_ccsds :: "rs \<Rightarrow> u8 list \<Rightarrow> u8 list \<Rightarrow> u8 list option" where
  "encode_rs_ccsds rs data parity =
     (let cdata = map (\<lambda>i. Tal1tab ! unat (data ! i)) [0..<nn rs - nroots rs];
          parity = encode_rs rs cdata @ drop (nroots rs) parity
      in if length parity < nn rs - nroots rs then None
         else Some (foldl (\<lambda>parity i. parity[i := Taltab ! unat (parity ! i)]) parity
                      [0..<nn rs - nroots rs]))"

definition decode_rs_ccsds ::
  "rs \<Rightarrow> u8 list \<Rightarrow> nat list option \<Rightarrow> nat \<Rightarrow> (int \<times> u8 list \<times> nat list option) option" where
  "decode_rs_ccsds rs data eras_pos no_eras =
     (let cdata = map (\<lambda>i. Tal1tab ! unat (data ! i)) [0..<nn rs]
      in case decode_rs rs cdata eras_pos no_eras of
           None \<Rightarrow> None
         | Some (r, cdata, eras_pos) \<Rightarrow>
             Some (r, if r > 0 then foldl (\<lambda>data i. data[i := Taltab ! unat (cdata ! i)]) data [0..<nn rs]
                      else data, eras_pos))"

lemma length_encode_rs:
  assumes "rs_code rs p" "0 < nroots rs" "length data = nn rs - nroots rs" "symbols_ok rs data"
  shows "length (encode_rs rs data) = nroots rs"
proof -
  have "length (data @ encode_rs rs data) = nn rs"
    using encode_is_codeword [OF assms] by (simp only: is_codeword_def)
  moreover have "nroots rs \<le> nn rs" using assms(1) by (simp add: rs_code_def)
  ultimately show ?thesis using assms(3) by simp
qed

lemma ccsds_bytes: "mm rs = 8 \<Longrightarrow> symbols_ok rs cs"
  by (simp add: symbols_ok_def)

lemma ccsds_parity:
  assumes "gen_ccsds mem = RS_ok rs" "length data = 223"
  shows "length (encode_rs rs data) = 32" "is_codeword rs 0x187 (data @ encode_rs rs data)"
proof -
  note code = gen_ccsds_ok_code [OF assms(1)]
  have cfg: "nroots rs = 32" "nn rs = 255" "mm rs = 8"
    using code(2) by (simp_all add: fixed_config_def)
  show "length (encode_rs rs data) = 32"
    using length_encode_rs [OF code(1), of data] assms(2) cfg ccsds_bytes by simp
  show "is_codeword rs 0x187 (data @ encode_rs rs data)"
    using encode_is_codeword [OF code(1), of data] assms(2) cfg ccsds_bytes by simp
qed

lemma encode_rs_ccsds_result:
  assumes rs: "gen_ccsds mem = RS_ok rs" and data: "length data = 223" and par: "32 \<le> length parity"
  shows "case encode_rs_ccsds rs data parity of
           None \<Rightarrow> length parity < 223
         | Some out \<Rightarrow> 223 \<le> length parity \<and> length out = length parity
             \<and> is_codeword rs 0x187 (map (\<lambda>c. Tal1tab ! unat c) (data @ take 32 out))
             \<and> take 191 (drop 32 out) = map (\<lambda>c. Taltab ! unat c) (take 191 (drop 32 parity))
             \<and> drop 223 out = drop 223 parity"
proof -
  have cfg: "nroots rs = 32" "nn rs = 255"
    using gen_ccsds_ok_code(2) [OF rs] by (simp_all add: fixed_config_def)
  define cdata where "cdata = map (\<lambda>c. Tal1tab ! unat c) data"
  have cd: "map (\<lambda>i. Tal1tab ! unat (data ! i)) [0..<223] = cdata"
    using data unfolding cdata_def by (intro nth_equalityI) simp_all
  have len: "length cdata = 223" using data by (simp add: cdata_def)
  note enc = ccsds_parity [OF rs len]
  define par' where "par' = encode_rs rs cdata @ drop 32 parity"
  have len': "length par' = length parity" using enc(1) par by (simp add: par'_def)
  have res: "encode_rs_ccsds rs data parity
      = (if length parity < 223 then None
         else Some (foldl (\<lambda>parity i. parity[i := Taltab ! unat (parity ! i)]) par' [0..<223]))"
    using len' by (simp add: encode_rs_ccsds_def cfg cd par'_def)
  show ?thesis
  proof (cases "length parity < 223")
    case False
    define out where "out = foldl (\<lambda>parity i. parity[i := Taltab ! unat (parity ! i)]) par' [0..<223]"
    have out: "length out = length parity"
      "\<And>i. i < length parity \<Longrightarrow> out ! i = (if i < 223 then Taltab ! unat (par' ! i) else par' ! i)"
      using foldl_update_nth [where g = par' and a = 0 and b = 223 and h = "\<lambda>i v. Taltab ! unat v"]
        False len' by (simp_all add: out_def)
    have "map (\<lambda>c. Tal1tab ! unat c) (take 32 out) = encode_rs rs cdata"
      using out enc(1) False
      by (intro nth_equalityI) (simp_all add: par'_def nth_append tal1tab_taltab)
    then have "is_codeword rs 0x187 (map (\<lambda>c. Tal1tab ! unat c) (data @ take 32 out))"
      using enc(2) by (simp add: cdata_def)
    moreover have "take 191 (drop 32 out) = map (\<lambda>c. Taltab ! unat c) (take 191 (drop 32 parity))"
      using out enc(1) False by (intro nth_equalityI) (simp_all add: par'_def nth_append)
    moreover have "drop 223 out = drop 223 parity"
      using out enc(1) False by (intro nth_equalityI) (simp_all add: par'_def nth_append)
    ultimately show ?thesis
      using res out(1) False by (simp add: out_def)
  qed (simp add: res)
qed

text \<open>
  The CCSDS encoder overruns its parity buffer: with the 223 data bytes and a parity array
  of the documented 32 bytes the conversion loop runs past the end of the array.  Only an array
  of at least 223 bytes is safe; then the first 32 bytes are the parity in the dual basis (the
  word becomes a code word in the conventional one), and the 191 bytes behind them are
  overwritten with their converted values.
\<close>

theorem encode_rs_ccsds_overrun:
  assumes rs: "gen_ccsds mem = RS_ok rs" and data: "length data = 223" and par: "32 \<le> length parity"
  shows "case encode_rs_ccsds rs data parity of
           None \<Rightarrow> length parity < 223
         | Some out \<Rightarrow> 223 \<le> length parity \<and> length out = length parity
             \<and> is_codeword rs 0x187 (map (\<lambda>c. Tal1tab ! unat c) (data @ take 32 out))
             \<and> take 191 (drop 32 out) = map (\<lambda>c. Taltab ! unat c) (take 191 (drop 32 parity))
             \<and> drop 223 out = drop 223 parity"
  by (rule encode_rs_ccsds_result [OF assms])

text \<open>
  The CCSDS wrappers are inverse to each other: what \<open>encode_rs_ccsds\<close> makes of 223 data
  bytes (in a buffer that is large enough for it) is accepted by \<open>decode_rs_ccsds\<close>, which
  returns zero and does not touch the block.
\<close>

theorem decode_encode_ccsds:
  assumes rs: "gen_ccsds mem = RS_ok rs" and data: "length data = 223" "32 \<le> length parity"
    and enc: "encode_rs_ccsds rs data parity = Some out" and eras: "eras_ok rs eras_pos no_eras"
  shows "decode_rs_ccsds rs (data @ take 32 out) eras_pos no_eras
       = Some (0, data @ take 32 out, eras_pos)"
proof -
  have cfg: "nn rs = 255" using gen_ccsds_ok_code(2) [OF rs] by (simp add: fixed_config_def)
  have C: "rs_code rs 0x187" by (rule gen_ccsds_ok_code(1) [OF rs])
  let ?w = "data @ take 32 out"
  let ?c = "map (\<lambda>c. Tal1tab ! unat c) ?w"
  have len: "length ?w = 255" and cw: "is_codeword rs 0x187 ?c"
    using encode_rs_ccsds_result [OF rs data] enc data by simp_all
  have "map (\<lambda>i. Tal1tab ! unat (?w ! i)) [0..<255] = ?c"
    using len by (intro nth_equalityI) (auto simp del: map_append)
  then show ?thesis
    using decode_codeword [OF C cw eras] by (simp add: decode_rs_ccsds_def cfg)
qed

section \<open>The theorems of the codec at the CCSDS code\<close>

definition plenty :: alloc where
  "plenty = \<lparr> malloc_ok = (\<lambda>k. True), junk = (\<lambda>k i. 0xa5) \<rparr>"

definition ccsds_data :: "u8 list" where
  "ccsds_data = map of_nat [0..<223]"

lemma plenty_ok: obtains rs where "gen_ccsds plenty = RS_ok rs"
proof -
  have "coprime (11 :: nat) (2 ^ 8 - 1)" by code_simp
  then show ?thesis
    using that init_rs_cases [of plenty 8 "0x187" 112 11 32] gen_ccsds_checks [of plenty]
    by (cases "gen_ccsds plenty") (auto simp: gen_ccsds_def plenty_def)
qed

lemma ccsds_data_ok:
  assumes "gen_ccsds mem = RS_ok rs"
  shows "length ccsds_data = nn rs - nroots rs" "symbols_ok rs ccsds_data" "0 < nroots rs"
    "eras_ok rs (Some [3, 5]) 2"
  using gen_ccsds_ok_code(2) [OF assms]
  by (simp_all add: fixed_config_def ccsds_data_def ccsds_bytes eras_ok_def numeral_2_eq_2)

theorem init_rs_code_witness:
  "\<exists>rs. init_rs plenty 8 0x187 112 11 32 = RS_ok rs \<and> rs_code rs 0x187 \<and> mm rs = 8"
proof -
  obtain rs where ok: "gen_ccsds plenty = RS_ok rs" by (rule plenty_ok)
  have "primitive_poly 8 0x187" using ccsds_field by (simp add: gf_field_def)
  moreover have "coprime (11 :: nat) (2 ^ 8 - 1)" by code_simp
  ultimately show ?thesis using init_rs_code [OF ok [unfolded gen_ccsds_def]] ok by (auto simp: gen_ccsds_def)
qed

theorem encode_rs_codeword_witness:
  "\<exists>rs. gen_ccsds plenty = RS_ok rs \<and> is_codeword rs 0x187 (ccsds_data @ encode_rs rs ccsds_data)"
proof -
  obtain rs where ok: "gen_ccsds plenty = RS_ok rs" by (rule plenty_ok)
  note d = ccsds_data_ok [OF ok]
  from encode_rs_codeword [OF gen_ccsds_ok_code(1) [OF ok] d(3,1,2)] ok show ?thesis by blast
qed

text \<open>The code words of the zero data and of \<open>ccsds_data\<close>.\<close>

theorem codeword_distance_witness:
  "\<exists>rs. gen_ccsds plenty = RS_ok rs \<and> 32 < hamming (ccsds_data @ encode_rs rs ccsds_data)
     (replicate 223 0 @ encode_rs rs (replicate 223 0))"
proof -
  obtain rs where ok: "gen_ccsds plenty = RS_ok rs" by (rule plenty_ok)
  have len: "length ccsds_data = 223" by (simp add: ccsds_data_def)
  have "ccsds_data ! 1 \<noteq> replicate 223 0 ! 1" by (simp add: ccsds_data_def)
  then have "ccsds_data \<noteq> replicate 223 0" by metis
  then have ne: "ccsds_data @ encode_rs rs ccsds_data \<noteq> replicate 223 0 @ encode_rs rs (replicate 223 0)"
    using len by simp
  have cw: "is_codeword rs 0x187 (ccsds_data @ encode_rs rs ccsds_data)"
    "is_codeword rs 0x187 (replicate 223 0 @ encode_rs rs (replicate 223 0))"
    by (rule ccsds_parity(2) [OF ok]; simp add: len)+
  have "nroots rs = 32" using gen_ccsds_ok_code(2) [OF ok] by (simp add: fixed_config_def)
  with codeword_distance [OF gen_ccsds_ok_code(1) [OF ok] cw ne] ok show ?thesis by auto
qed

theorem decode_encode_witness:
  "\<exists>rs. gen_ccsds plenty = RS_ok rs \<and>
     decode_rs rs (ccsds_data @ encode_rs rs ccsds_data) (Some [3, 5]) 2
     = Some (0, ccsds_data @ encode_rs rs ccsds_data, Some [3, 5])"
proof -
  obtain rs where ok: "gen_ccsds plenty = RS_ok rs" by (rule plenty_ok)
  note d = ccsds_data_ok [OF ok]
  from decode_encode [OF gen_ccsds_ok_code(1) [OF ok] d(3,1,2,4)] ok show ?thesis by blast
qed

theorem decode_detects_witness:
  "\<exists>rs. gen_ccsds plenty = RS_ok rs \<and>
     fst (syn_convert rs (syndromes rs ((ccsds_data @ encode_rs rs ccsds_data)[0 := 0xff]))) \<noteq> 0"
proof -
  obtain rs where ok: "gen_ccsds plenty = RS_ok rs" by (rule plenty_ok)
  let ?c = "ccsds_data @ encode_rs rs ccsds_data"
  have len: "length ccsds_data = 223" by (simp add: ccsds_data_def)
  have cfg: "nn rs = 255" "nroots rs = 32" "mm rs = 8"
    using gen_ccsds_ok_code(2) [OF ok] by (simp_all add: fixed_config_def)
  note par = ccsds_parity [OF ok len]
  have c0: "?c = 0 # tl ?c"
  proof -
    have "ccsds_data = 0 # tl ccsds_data" by (simp add: ccsds_data_def upt_conv_Cons)
    then show ?thesis by (metis append_Cons list.sel(3))
  qed
  have ham: "hamming ?c (?c[0 := 0xff]) \<le> nroots rs"
  proof -
    have "hamming xs xs = 0" for xs :: "u8 list" by (induction xs) (simp_all add: hamming_def)
    then show ?thesis
      by (subst (1 2) c0) (simp add: hamming_def cfg)
  qed
  have ne: "?c[0 := 0xff] \<noteq> ?c"
  proof
    assume "?c[0 := 0xff] = ?c"
    then have "(0xff :: u8) = ?c ! 0" using len by (metis nth_list_update_eq length_append
        add_gr_0 zero_less_numeral)
    also have "?c ! 0 = 0" by (subst c0) simp
    finally show False by simp
  qed
  have "length (?c[0 := 0xff]) = nn rs" "symbols_ok rs (?c[0 := 0xff])"
    using len par(1) cfg ccsds_bytes by simp_all
  from decode_detects [OF gen_ccsds_ok_code(1) [OF ok] par(2) this ne ham] ok show ?thesis by blast
qed

theorem encode_rs_ccsds_overrun_witness:
  "\<exists>rs. gen_ccsds plenty = RS_ok rs \<and> encode_rs_ccsds rs ccsds_data (replicate 32 0) = None"
proof -
  obtain rs where ok: "gen_ccsds plenty = RS_ok rs" by (rule plenty_ok)
  have "length ccsds_data = 223" by (simp add: ccsds_data_def)
  from encode_rs_ccsds_overrun [OF ok this, of "replicate 32 0"] ok show ?thesis
    by (auto split: option.splits)
qed

theorem decode_encode_ccsds_witness:
  "\<exists>rs out. gen_ccsds plenty = RS_ok rs \<and> encode_rs_ccsds rs ccsds_data (replicate 223 0) = Some out
     \<and> decode_rs_ccsds rs (ccsds_data @ take 32 out) None 0 = Some (0, ccsds_data @ take 32 out, None)"
proof -
  obtain rs where ok: "gen_ccsds plenty = RS_ok rs" by (rule plenty_ok)
  have len: "length ccsds_data = 223" by (simp add: ccsds_data_def)
  obtain out where out: "encode_rs_ccsds rs ccsds_data (replicate 223 0) = Some out"
    using encode_rs_ccsds_result [OF ok len, of "replicate 223 0"] by (auto split: option.splits)
  have "eras_ok rs None 0" by (simp add: eras_ok_def)
  from decode_encode_ccsds [OF ok len _ out this] ok out show ?thesis by auto
qed

end
