(* ===== verification/Viterbi.thy ===== *)
theory Viterbi
  imports GR_Prelude
begin

text \<open>
  The K=7 rate-1/2 convolutional codec of \<open>gnuradio-core/src/lib/viterbi\<close>: the encoder, the
  butterfly macro and the decoders built from it (\<open>viterbi.c\<close>, \<open>tab.c\<close>).  \<open>long\<close> is 64 bits:
  \<open>path\<close> is a 64-bit word; a metric is an integer that goes through a 32-bit \<open>int\<close>
  (\<open>c_int\<close>) in every butterfly.
\<close>

section \<open>The encoder\<close>

definition Partab :: "u8 list" where
  "Partab =
    [0, 1, 1, 0, 1, 0, 0, 1, 1, 0, 0, 1, 0, 1, 1, 0, 1, 0, 0, 1, 0, 1, 1, 0, 0, 1, 1, 0, 1, 0, 0,
     1, 1, 0, 0, 1, 0, 1, 1, 0, 0, 1, 1, 0, 1, 0, 0, 1, 0, 1, 1, 0, 1, 0, 0, 1, 1, 0, 0, 1, 0, 1,
     1, 0, 1, 0, 0, 1, 0, 1, 1, 0, 0, 1, 1, 0, 1, 0, 0, 1, 0, 1, 1, 0, 1, 0, 0, 1, 1, 0, 0, 1, 0,
     1, 1, 0, 0, 1, 1, 0, 1, 0, 0, 1, 1, 0, 0, 1, 0, 1, 1, 0, 1, 0, 0, 1, 0, 1, 1, 0, 0, 1, 1, 0,
     1, 0, 0, 1, 1, 0, 0, 1, 0, 1, 1, 0, 0, 1, 1, 0, 1, 0, 0, 1, 0, 1, 1, 0, 1, 0, 0, 1, 1, 0, 0,
     1, 0, 1, 1, 0, 0, 1, 1, 0, 1, 0, 0, 1, 1, 0, 0, 1, 0, 1, 1, 0, 1, 0, 0, 1, 0, 1, 1, 0, 0, 1,
     1, 0, 1, 0, 0, 1, 0, 1, 1, 0, 1, 0, 0, 1, 1, 0, 0, 1, 0, 1, 1, 0, 1, 0, 0, 1, 0, 1, 1, 0, 0,
     1, 1, 0, 1, 0, 0, 1, 1, 0, 0, 1, 0, 1, 1, 0, 0, 1, 1, 0, 1, 0, 0, 1, 0, 1, 1, 0, 1, 0, 0, 1,
     1, 0, 0, 1, 0, 1, 1, 0]"

definition POLYA :: u8 where "POLYA = 0x6d"
definition POLYB :: u8 where "POLYB = 0x4f"

text \<open>The inner loop: bits 7 to 0 of one byte.  The state is \<open>(encstate, symbols)\<close>.\<close>

definition encode_bit :: "u8 \<Rightarrow> u8 \<times> u8 list \<Rightarrow> nat \<Rightarrow> u8 \<times> u8 list" where
  "encode_bit d = (\<lambda>(encstate, symbols) i.
     let encstate = push_bit 1 encstate OR (drop_bit i d AND 1)
     in (encstate, symbols @ [Partab ! unat (encstate AND POLYA), Partab ! unat (encstate AND POLYB)]))"

definition encode :: "u8 list \<Rightarrow> nat \<Rightarrow> u8 \<Rightarrow> u8 \<times> u8 list" where
  "encode data nbytes encstate =
     foldl (\<lambda>st k. foldl (encode_bit (data ! k)) st (rev [0..<8])) (encstate, []) [0..<nbytes]"

section \<open>The butterfly\<close>

record viterbi_state =
  path :: u64
  metric :: int

text \<open>Metric table: \<open>mettab ! sent ! received\<close>.\<close>

type_synonym mettab = "int list list"

definition branch_metrics :: "mettab \<Rightarrow> u8 \<Rightarrow> u8 \<Rightarrow> int list" where
  "branch_metrics mettab s0 s1 =
     [mettab ! 0 ! unat s0 + mettab ! 0 ! unat s1,
      mettab ! 0 ! unat s0 + mettab ! 1 ! unat s1,
      mettab ! 1 ! unat s0 + mettab ! 0 ! unat s1,
      mettab ! 1 ! unat s0 + mettab ! 1 ! unat s1]"

text \<open>The two add-compare-select halves of \<open>BUTTERFLY (i, sym)\<close>.\<close>

definition acs :: "viterbi_state \<Rightarrow> int \<Rightarrow> viterbi_state \<Rightarrow> int \<Rightarrow> viterbi_state" where
  "acs a ma b mb =
     (let m0 = c_int (metric a + ma); m1 = c_int (metric b + mb)
      in if m0 > m1 then \<lparr> path = push_bit 1 (path a), metric = m0 \<rparr>
         else \<lparr> path = push_bit 1 (path b) OR 1, metric = m1 \<rparr>)"

definition butterfly ::
  "int list \<Rightarrow> viterbi_state list \<Rightarrow> viterbi_state list \<Rightarrow> nat \<times> nat \<Rightarrow> viterbi_state list" where
  "butterfly mets state nxt = (\<lambda>(i, sym).
     nxt[2 * i := acs (state ! i) (mets ! sym) (state ! (i + 32)) (mets ! (3 XOR sym)),
         2 * i + 1 := acs (state ! i) (mets ! (3 XOR sym)) (state ! (i + 32)) (mets ! sym)])"

definition butterflies :: "(nat \<times> nat) list" where
  "butterflies =
    [(0,0), (1,1), (2,3), (3,2), (4,3), (5,2), (6,0), (7,1), (8,0), (9,1), (10,3), (11,2),
     (12,3), (13,2), (14,0), (15,1), (16,2), (17,3), (18,1), (19,0), (20,1), (21,0), (22,2),
     (23,3), (24,2), (25,3), (26,1), (27,0), (28,1), (29,0), (30,2), (31,3)]"

definition butterfly_step ::
  "int list \<Rightarrow> viterbi_state list \<Rightarrow> viterbi_state list \<Rightarrow> viterbi_state list" where
  "butterfly_step mets state nxt = foldl (butterfly mets state) nxt butterflies"

section \<open>The decoders\<close>

definition viterbi_chunks_init :: "viterbi_state list \<Rightarrow> viterbi_state list" where
  "viterbi_chunks_init state =
     foldl (\<lambda>st i. st[i := (st ! i)\<lparr> metric := - 999999 \<rparr>])
       (state[0 := \<lparr> path = 0, metric = 0 \<rparr>]) [1..<64]"

text \<open>One input pair: the new states go to the other buffer and the two buffers swap roles.\<close>

definition decode_pair ::
  "mettab \<Rightarrow> u8 list \<Rightarrow> viterbi_state list \<times> viterbi_state list \<Rightarrow> nat
   \<Rightarrow> viterbi_state list \<times> viterbi_state list" where
  "decode_pair mettab symbols = (\<lambda>(state, nxt) bitcnt.
     (butterfly_step (branch_metrics mettab (symbols ! (2 * bitcnt)) (symbols ! (2 * bitcnt + 1)))
        state nxt, state))"

definition viterbi_butterfly8 ::
  "u8 list \<Rightarrow> mettab \<Rightarrow> viterbi_state list \<times> viterbi_state list
   \<Rightarrow> viterbi_state list \<times> viterbi_state list" where
  "viterbi_butterfly8 symbols mettab states = foldl (decode_pair mettab symbols) states [0..<8]"

definition viterbi_butterfly2 ::
  "u8 list \<Rightarrow> mettab \<Rightarrow> viterbi_state list \<times> viterbi_state list
   \<Rightarrow> viterbi_state list \<times> viterbi_state list" where
  "viterbi_butterfly2 symbols mettab = (\<lambda>(state0, state1).
     let state1 = butterfly_step (branch_metrics mettab (symbols ! 0) (symbols ! 1)) state0 state1;
         state0 = butterfly_step (branch_metrics mettab (symbols ! 2) (symbols ! 3)) state1 state0
     in (state0, state1))"

text \<open>The search for the state with the best metric; the first of equal ones wins.\<close>

definition best_state :: "viterbi_state list \<Rightarrow> int \<times> nat" where
  "best_state state =
     foldl (\<lambda>(bestmetric, beststate) i.
              if metric (state ! i) > bestmetric then (metric (state ! i), i)
              else (bestmetric, beststate))
       (metric (state ! 0), 0) [1..<64]"

text \<open>\<open>viterbi_get_output\<close> returns the metric as \<open>unsigned char\<close> and stores one byte.\<close>

definition viterbi_get_output :: "viterbi_state list \<Rightarrow> u8 \<times> u8" where
  "viterbi_get_output state =
     (case best_state state of (m, s) \<Rightarrow>
        (word_of_int (c_int m), ucast (drop_bit 24 (path (state ! s)))))"

text \<open>
  The block decoder.  The result is the final metric and the output bytes; there is none when
  \<open>nbits % 8 = 7\<close>, where the C code shifts by a negative count.
\<close>

definition initial_states :: "viterbi_state list \<Rightarrow> viterbi_state list" where
  "initial_states state =
     (foldl (\<lambda>st i. st[i := (st ! i)\<lparr> metric := - 999999 \<rparr>])
        (state[0 := (state ! 0)\<lparr> metric := 0 \<rparr>]) [1..<64])
     [0 := \<lparr> path = 0, metric = 0 \<rparr>]"

definition viterbi_loop ::
  "mettab \<Rightarrow> u8 list \<Rightarrow> (viterbi_state list \<times> viterbi_state list) \<times> u8 list \<Rightarrow> nat
   \<Rightarrow> (viterbi_state list \<times> viterbi_state list) \<times> u8 list" where
  "viterbi_loop mettab symbols = (\<lambda>(states, out) bitcnt.
     let states = decode_pair mettab symbols states bitcnt
     in (states,
         if bitcnt mod 8 = 5 \<and> bitcnt > 32
         then out @ [ucast (drop_bit 24 (path (fst states ! snd (best_state (fst states)))))]
         else out))"

definition viterbi ::
  "viterbi_state list \<times> viterbi_state list \<Rightarrow> u8 list \<Rightarrow> nat \<Rightarrow> mettab \<Rightarrow> (u64 \<times> u8 list) option" where
  "viterbi locals symbols nbits mettab =
     (let ((state, nxt), out) =
            foldl (viterbi_loop mettab symbols)
              ((initial_states (fst locals), snd locals), []) [0..<nbits];
          best = state ! snd (best_state state);
          i = nbits mod 8;
          p = (if i \<noteq> 6 then push_bit (6 - i) (path best) else path best)
      in if i = 7 then None
         else Some (word_of_int (metric best),
                    out @ [ucast (drop_bit 24 p), ucast (drop_bit 16 p), ucast (drop_bit 8 p), ucast p]))"

section \<open>The code\<close>

text \<open>The two symbols of a 7-bit encoder register, the first in bit 1.\<close>

definition encode_state :: "nat \<Rightarrow> nat" where
  "encode_state w =
     2 * unat (Partab ! (w AND 0x6d)) + unat (Partab ! (w AND 0x4f))"

fun parity :: "nat \<Rightarrow> nat" where
  "parity n = (if n = 0 then 0 else (n mod 2 + parity (n div 2)) mod 2)"

declare parity.simps [simp del]

lemma Partab_parity: "map unat Partab = map parity [0..<256]"
  unfolding Partab_def by (simp add: parity.simps upt_conv_Cons)

definition register_symbols :: "nat list" where
  "register_symbols =
    [0, 3, 1, 2, 3, 0, 2, 1, 3, 0, 2, 1, 0, 3, 1, 2, 0, 3, 1, 2, 3, 0, 2, 1, 3, 0, 2, 1, 0, 3, 1,
     2, 2, 1, 3, 0, 1, 2, 0, 3, 1, 2, 0, 3, 2, 1, 3, 0, 2, 1, 3, 0, 1, 2, 0, 3, 1, 2, 0, 3, 2, 1,
     3, 0, 3, 0, 2, 1, 0, 3, 1, 2, 0, 3, 1, 2, 3, 0, 2, 1, 3, 0, 2, 1, 0, 3, 1, 2, 0, 3, 1, 2, 3,
     0, 2, 1, 1, 2, 0, 3, 2, 1, 3, 0, 2, 1, 3, 0, 1, 2, 0, 3, 1, 2, 0, 3, 2, 1, 3, 0, 2, 1, 3, 0,
     1, 2, 0, 3]"

lemma Partab_nth: "n < 256 \<Longrightarrow> unat (Partab ! n) = parity n"
proof -
  assume n: "n < 256"
  have "length (map unat Partab) = 256" by (simp only: Partab_parity length_map length_upt)
  then have "map unat Partab ! n = unat (Partab ! n)" using n by simp
  then show ?thesis using n by (simp add: Partab_parity)
qed

lemma and_nat_less: "k < n \<Longrightarrow> w AND k < n" for w k n :: nat
proof -
  have "int (w AND k) \<le> int k" unfolding of_nat_and_eq by (rule AND_upper2) simp
  then show "k < n \<Longrightarrow> w AND k < n" by simp
qed

lemma encode_state_parity: "encode_state w = 2 * parity (w AND 0x6d) + parity (w AND 0x4f)"
  by (simp add: encode_state_def Partab_nth and_nat_less)

lemma parity_eval [c_simps]:
  "parity 0 = 0" "parity 1 = 1"
  "parity (numeral k) = (numeral k mod 2 + parity (numeral k div 2)) mod 2"
  by (simp_all add: parity.simps [of 0] parity.simps [of 1] parity.simps [of "numeral k"])

lemma register_symbols_eq: "map encode_state [0..<128] = register_symbols"
  unfolding register_symbols_def
  by (simp add: upt_conv_Cons Suc_1 encode_state_parity c_simps flip: One_nat_def)

lemmas eval_list = upt_conv_Cons Suc_1 One_nat_def [symmetric]

lemma butterflies_eq: "butterflies = map (\<lambda>i. (i, encode_state (2 * i))) [0..<32]"
  unfolding butterflies_def
  by (simp add: upt_conv_Cons Suc_1 encode_state_parity c_simps flip: One_nat_def)

lemma encode_state_table:
  "list_all (\<lambda>s. encode_state (2 * s) < 4
     \<and> encode_state (2 * s + 1) = 3 XOR encode_state (2 * s)) [0..<64]"
  by (simp add: upt_conv_Cons Suc_1 encode_state_parity c_simps flip: One_nat_def)

lemma encode_state_table_high:
  "list_all (\<lambda>s. encode_state (2 * s + 64) = 3 XOR encode_state (2 * s)
     \<and> encode_state (2 * s + 65) = encode_state (2 * s)) [0..<32]"
  by (simp add: upt_conv_Cons Suc_1 encode_state_parity c_simps flip: One_nat_def)

lemma encode_state_flip:
  assumes "s < 64"
  shows "encode_state (2 * s) < 4" "encode_state (2 * s + 1) = 3 XOR encode_state (2 * s)"
  using assms encode_state_table by (auto simp: list_all_iff)

lemma encode_state_high:
  assumes "s < 32"
  shows "encode_state (2 * s + 64) = 3 XOR encode_state (2 * s)"
    "encode_state (2 * s + 65) = encode_state (2 * s)"
  using assms encode_state_table_high by (auto simp: list_all_iff)

section \<open>What a butterfly step computes\<close>

text \<open>The state of the encoder after input \<open>b\<close> in state \<open>s\<close>, and the register that makes the symbols.\<close>

definition next_state :: "nat \<Rightarrow> nat \<Rightarrow> nat" where
  "next_state s b = (2 * s + b) mod 64"

lemma butterfly_fold:
  fixes f :: "nat \<Rightarrow> nat" and mets :: "int list" and state nxt :: "viterbi_state list"
  assumes "length nxt = 64" "k \<le> 32"
  defines "r \<equiv> foldl (butterfly mets state) nxt (map (\<lambda>i. (i, f i)) [0..<k])"
  shows "length r = 64" "\<And>i. i < k \<Longrightarrow>
       r ! (2 * i) = acs (state ! i) (mets ! f i) (state ! (i + 32)) (mets ! (3 XOR f i))
     \<and> r ! (2 * i + 1) = acs (state ! i) (mets ! (3 XOR f i)) (state ! (i + 32)) (mets ! f i)"
proof -
  have "length r = 64 \<and> (\<forall>i < k.
       r ! (2 * i) = acs (state ! i) (mets ! f i) (state ! (i + 32)) (mets ! (3 XOR f i))
     \<and> r ! (2 * i + 1) = acs (state ! i) (mets ! (3 XOR f i)) (state ! (i + 32)) (mets ! f i))"
    using assms(2) unfolding r_def
  proof (induction k)
    case (Suc k)
    have ne: "2 * i \<noteq> 2 * k" "2 * i \<noteq> 2 * k + 1" "2 * i + 1 \<noteq> 2 * k" "2 * i + 1 \<noteq> 2 * k + 1"
      if "i < k" for i using that by presburger+
    have last: "2 * k < 64" "2 * k + 1 < 64" "2 * k \<noteq> 2 * k + 1" using Suc.prems by simp_all
    show ?case
      using Suc ne [symmetric] last by (auto simp: butterfly_def less_Suc_eq)
  qed (simp add: assms(1))
  then show "length r = 64" "\<And>i. i < k \<Longrightarrow>
       r ! (2 * i) = acs (state ! i) (mets ! f i) (state ! (i + 32)) (mets ! (3 XOR f i))
     \<and> r ! (2 * i + 1) = acs (state ! i) (mets ! (3 XOR f i)) (state ! (i + 32)) (mets ! f i)"
    by auto
qed

lemma length_butterfly_step [simp]:
  "length nxt = 64 \<Longrightarrow> length (butterfly_step mets state nxt) = 64"
  unfolding butterfly_step_def butterflies_eq by (rule butterfly_fold(1)) simp_all

lemma butterfly_step_nth:
  assumes "length nxt = 64" "s < 64"
  shows "butterfly_step mets state nxt ! s
       = acs (state ! (s div 2)) (mets ! encode_state s)
             (state ! (s div 2 + 32)) (mets ! encode_state (s + 64))"
proof -
  define i where "i = s div 2"
  have i: "i < 32" using assms(2) by (simp add: i_def)
  note B = butterfly_fold(2) [OF assms(1) order.refl i, of mets state "\<lambda>i. encode_state (2 * i)",
      folded butterflies_eq butterfly_step_def]
  have i64: "i < 64" using i by simp
  note flip = encode_state_flip(2) [OF i64] and high = encode_state_high [OF i]
  show ?thesis
  proof (cases "even s")
    case True
    then have s: "s = 2 * i" by (simp add: i_def)
    show ?thesis using B high(1) by (simp add: s)
  next
    case False
    then have s: "s = 2 * i + 1" unfolding i_def by presburger
    have "s + 64 = 2 * i + 65" by (simp add: s)
    then show ?thesis using B flip high(2)
      by (simp add: i_def [symmetric] s add.commute [of 65] flip: Suc_eq_plus1)
  qed
qed

text \<open>The same step as a map over the states: the buffer it is written to does not matter.\<close>

definition trellis_step :: "viterbi_state list \<Rightarrow> int list \<Rightarrow> viterbi_state list" where
  "trellis_step state mets =
     map (\<lambda>s. acs (state ! (s div 2)) (mets ! encode_state s)
                  (state ! (s div 2 + 32)) (mets ! encode_state (s + 64))) [0..<64]"

lemma butterfly_step_trellis:
  "length nxt = 64 \<Longrightarrow> butterfly_step mets state nxt = trellis_step state mets"
  by (intro nth_equalityI) (simp_all add: trellis_step_def butterfly_step_nth)

lemma length_trellis [simp]:
  "length (trellis_step state mets) = 64"
  "length state = 64 \<Longrightarrow> length (foldl trellis_step state ms) = 64"
  by (simp add: trellis_step_def) (induction ms arbitrary: state, simp_all add: trellis_step_def)

section \<open>The best path\<close>

text \<open>
  An input sequence \<open>bs\<close> from state \<open>s\<close>: its metric, the state it ends in, and the path register
  it leaves (the bit shifted out of the 6-bit state at each step).
\<close>

fun path_metric :: "int list list \<Rightarrow> nat \<Rightarrow> nat list \<Rightarrow> int" where
  "path_metric (m # ms) s (b # bs) =
     m ! encode_state (2 * s + b) + path_metric ms (next_state s b) bs"
| "path_metric ms s bs = 0"

definition end_state :: "nat \<Rightarrow> nat list \<Rightarrow> nat" where
  "end_state s bs = foldl next_state s bs"

fun path_word :: "u64 \<Rightarrow> nat \<Rightarrow> nat list \<Rightarrow> u64" where
  "path_word w s [] = w"
| "path_word w s (b # bs) =
     path_word (push_bit 1 w OR (if s \<ge> 32 then 1 else 0)) (next_state s b) bs"

definition is_input :: "nat \<Rightarrow> nat \<Rightarrow> nat list \<Rightarrow> bool" where
  "is_input n s bs \<longleftrightarrow> length bs = n \<and> set bs \<subseteq> {0, 1} \<and> s < 64"

lemma next_state_less [simp]: "next_state s b < 64"
  by (simp add: next_state_def)

lemma end_state_snoc [simp]: "end_state s (bs @ [b]) = next_state (end_state s bs) b"
  by (simp add: end_state_def)

lemma end_state_less: "s < 64 \<Longrightarrow> end_state s bs < 64"
  by (cases bs rule: rev_cases) (simp_all add: end_state_def)

lemma path_metric_snoc:
  "length bs = length ms \<Longrightarrow>
   path_metric (ms @ [m]) s (bs @ [b]) = path_metric ms s bs + m ! encode_state (2 * end_state s bs + b)"
  by (induction ms s bs rule: path_metric.induct) (simp_all add: end_state_def)

lemma path_word_snoc:
  "path_word w s (bs @ [b])
   = push_bit 1 (path_word w s bs) OR (if end_state s bs \<ge> 32 then 1 else 0)"
  by (induction w s bs rule: path_word.induct) (simp_all add: end_state_def)

text \<open>Where an input leads to: the two predecessors of a state.\<close>

lemma next_state_pred:
  assumes "s < 64" "b < 2"
  shows "(if s < 32 then next_state s b div 2 = s \<and> 2 * s + b = next_state s b
          else next_state s b div 2 + 32 = s \<and> 2 * s + b = next_state s b + 64)"
proof (cases "s < 32")
  case True
  with assms show ?thesis by (simp add: next_state_def)
next
  case False
  then have "next_state s b = 2 * s + b - 64"
    using assms by (simp add: next_state_def mod_if)
  with assms False show ?thesis by simp
qed

definition mets_ok :: "int \<Rightarrow> int list \<Rightarrow> bool" where
  "mets_ok M m \<longleftrightarrow> (\<forall>k < 4. \<bar>m ! k\<bar> \<le> M)"

lemma acs_cases:
  assumes "\<bar>metric a + ma\<bar> < 2 ^ 31" "\<bar>metric b + mb\<bar> < 2 ^ 31"
  obtains "metric a + ma \<le> metric b + mb" "acs a ma b mb = \<lparr> path = push_bit 1 (path b) OR 1, metric = metric b + mb \<rparr>"
  | "metric b + mb \<le> metric a + ma" "acs a ma b mb = \<lparr> path = push_bit 1 (path a), metric = metric a + ma \<rparr>"
proof -
  have "c_int (metric a + ma) = metric a + ma" "c_int (metric b + mb) = metric b + mb"
    using assms by (auto intro!: c_int_id)
  then show ?thesis using that by (cases "metric a + ma > metric b + mb") (auto simp: acs_def)
qed

text \<open>
  The state of the search after the metrics \<open>ms\<close>, started from \<open>st\<close>: every state holds the metric
  of the best input that leads to it, and the path register of one such input.
\<close>

definition path_value :: "viterbi_state list \<Rightarrow> int list list \<Rightarrow> nat \<Rightarrow> nat list \<Rightarrow> int" where
  "path_value st ms s bs = metric (st ! s) + path_metric ms s bs"

definition best_paths ::
  "viterbi_state list \<Rightarrow> int list list \<Rightarrow> viterbi_state list \<Rightarrow> bool" where
  "best_paths st ms st' \<longleftrightarrow> (\<forall>s < 64.
     (\<forall>s0 bs. is_input (length ms) s0 bs \<and> end_state s0 bs = s
        \<longrightarrow> path_value st ms s0 bs \<le> metric (st' ! s)) \<and>
     (\<exists>s0 bs. is_input (length ms) s0 bs \<and> end_state s0 bs = s
        \<and> path_value st ms s0 bs = metric (st' ! s)
        \<and> path_word (path (st ! s0)) s0 bs = path (st' ! s)))"

lemma best_paths_nil: "best_paths st [] st"
proof -
  have "end_state s [] = s" "is_input 0 s bs \<longleftrightarrow> s < 64 \<and> bs = []" for s bs
    by (auto simp: end_state_def is_input_def)
  then show ?thesis by (auto simp: best_paths_def path_value_def)
qed

lemma is_input_snoc:
  "is_input (Suc n) s bs \<longleftrightarrow> (\<exists>cs b. bs = cs @ [b] \<and> is_input n s cs \<and> (b = 0 \<or> b = 1))"
proof (cases bs rule: rev_cases)
  case (snoc cs b)
  then show ?thesis by (auto simp: is_input_def)
qed (simp add: is_input_def)

lemma encode_state_less: "w < 128 \<Longrightarrow> encode_state w < 4"
proof -
  have p: "parity n < 2" for n by (simp add: parity.simps [of n])
  show ?thesis using p [of "w AND 0x6d"] p [of "w AND 0x4f"] unfolding encode_state_parity by simp
qed

lemma best_paths_step:
  assumes best: "best_paths st ms st'" and len: "length st' = 64"
    and K: "\<forall>s < 64. \<bar>metric (st' ! s)\<bar> \<le> K" and M: "mets_ok M m" and KM: "K + M < 2 ^ 31"
  shows "best_paths st (ms @ [m]) (trellis_step st' m)"
    and "\<forall>s < 64. \<bar>metric (trellis_step st' m ! s)\<bar> \<le> K + M"
proof -
  have val: "path_value st (ms @ [m]) s0 (bs @ [b])
      = path_value st ms s0 bs + m ! encode_state (2 * end_state s0 bs + b)"
    if "is_input (length ms) s0 bs" for s0 bs b
    using that by (simp add: path_value_def path_metric_snoc is_input_def)
  have each: "(\<forall>s0 bs. is_input (length (ms @ [m])) s0 bs \<and> end_state s0 bs = s
        \<longrightarrow> path_value st (ms @ [m]) s0 bs \<le> metric (trellis_step st' m ! s)) \<and>
     (\<exists>s0 bs. is_input (length (ms @ [m])) s0 bs \<and> end_state s0 bs = s
        \<and> path_value st (ms @ [m]) s0 bs = metric (trellis_step st' m ! s)
        \<and> path_word (path (st ! s0)) s0 bs = path (trellis_step st' m ! s))
     \<and> \<bar>metric (trellis_step st' m ! s)\<bar> \<le> K + M" if s: "s < 64" for s
  proof -
    define b where "b = s mod 2"
    define p where "p = s div 2"
    have b: "b = 0 \<or> b = 1" by (auto simp: b_def)
    have p: "p < 32" using s by (simp add: p_def)
    have s_eq: "s = 2 * p + b" by (simp add: b_def p_def)
    let ?a = "st' ! p" and ?b = "st' ! (p + 32)"
    let ?ma = "m ! encode_state s" and ?mb = "m ! encode_state (s + 64)"
    have new: "trellis_step st' m ! s = acs ?a ?ma ?b ?mb"
      using s by (simp add: trellis_step_def p_def)
    have mb: "\<bar>?ma\<bar> \<le> M" "\<bar>?mb\<bar> \<le> M"
      using M s by (auto simp: mets_ok_def encode_state_less)
    have kb: "\<bar>metric ?a\<bar> \<le> K" "\<bar>metric ?b\<bar> \<le> K" using K p by auto
    have succ: "next_state p b = s" "2 * p + b = s"
      "next_state (p + 32) b = s" "2 * (p + 32) + b = s + 64"
    proof -
      have "next_state (p + 32) b = (2 * p + b + 64) mod 64"
        by (simp add: next_state_def algebra_simps)
      also have "\<dots> = s" using s s_eq by (simp only: mod_add_self2) simp
      finally show "next_state (p + 32) b = s" .
      show "next_state p b = s" "2 * p + b = s" "2 * (p + 32) + b = s + 64"
        using s s_eq by (simp_all add: next_state_def)
    qed
    have pre: "t = p \<and> c = b \<and> 2 * t + c = s \<or> t = p + 32 \<and> c = b \<and> 2 * t + c = s + 64"
      if "t < 64" "c = 0 \<or> c = 1" "next_state t c = s" for t c
    proof -
      have "c < 2" using that(2) by auto
      note q = next_state_pred [OF that(1) this, unfolded that(3)]
      have "c = s mod 2" using q that(2) by (auto split: if_splits) presburger+
      then show ?thesis using q by (auto simp: b_def p_def split: if_splits)
    qed
    have up: "path_value st ms t cs \<le> metric (st' ! end_state t cs)" if "is_input (length ms) t cs" for t cs
      using best that end_state_less [of t cs] by (simp add: best_paths_def is_input_def)
    have wit: "\<exists>t cs. is_input (length ms) t cs \<and> end_state t cs = q
        \<and> path_value st ms t cs = metric (st' ! q) \<and> path_word (path (st ! t)) t cs = path (st' ! q)"
      if "q < 64" for q
      using best that by (simp add: best_paths_def)
    have upper: "path_value st (ms @ [m]) s0 bs \<le> max (metric ?a + ?ma) (metric ?b + ?mb)"
      if inp: "is_input (length (ms @ [m])) s0 bs" and e: "end_state s0 bs = s" for s0 bs
    proof -
      obtain cs c where bs: "bs = cs @ [c]" and cs: "is_input (length ms) s0 cs" and c: "c = 0 \<or> c = 1"
        using inp by (auto simp: is_input_snoc)
      have t: "end_state s0 cs < 64" using cs by (simp add: is_input_def end_state_less)
      from pre [OF t c] e consider "end_state s0 cs = p" "2 * end_state s0 cs + c = s"
        | "end_state s0 cs = p + 32" "2 * end_state s0 cs + c = s + 64"
        unfolding bs by auto
      then show ?thesis
      proof cases
        case 1
        show ?thesis unfolding bs val [OF cs] 1(2) using up [OF cs] 1(1) by simp
      next
        case 2
        show ?thesis unfolding bs val [OF cs] 2(2) using up [OF cs] 2(1) by simp
      qed
    qed
    have take_path: "\<exists>s0 bs. is_input (length (ms @ [m])) s0 bs \<and> end_state s0 bs = s
        \<and> path_value st (ms @ [m]) s0 bs = metric (st' ! q) + m ! encode_state r
        \<and> path_word (path (st ! s0)) s0 bs
          = push_bit 1 (path (st' ! q)) OR (if q \<ge> 32 then 1 else 0)"
      if q: "q < 64" "next_state q b = s" "2 * q + b = r" for q r
    proof -
      obtain t cs where t: "is_input (length ms) t cs" "end_state t cs = q"
        "path_value st ms t cs = metric (st' ! q)" "path_word (path (st ! t)) t cs = path (st' ! q)"
        using wit [OF q(1)] by blast
      then show ?thesis
        using b q(2) by (intro exI [of _ t] exI [of _ "cs @ [b]"])
          (auto simp: is_input_snoc val path_word_snoc q(3) [symmetric])
    qed
    have small: "\<bar>metric ?a + ?ma\<bar> < 2 ^ 31" "\<bar>metric ?b + ?mb\<bar> < 2 ^ 31"
      using mb kb KM by linarith+
    show ?thesis
    proof (cases rule: acs_cases [OF small])
      case 1
      have le: "max (metric ?a + ?ma) (metric ?b + ?mb) = metric ?b + ?mb" using 1(1) by simp
      have "p + 32 < 64" using p by simp
      note tp = take_path [OF this succ(3,4)]
      have abs: "\<bar>metric ?b + ?mb\<bar> \<le> K + M" using mb(2) kb(2) by linarith
      show ?thesis
        unfolding new 1(2) using upper [unfolded le] tp abs by simp
    next
      case 2
      have le: "max (metric ?a + ?ma) (metric ?b + ?mb) = metric ?a + ?ma" using 2(1) by simp
      have "p < 64" using p by simp
      note tp = take_path [OF this succ(1,2)]
      have abs: "\<bar>metric ?a + ?ma\<bar> \<le> K + M" using mb(1) kb(1) by linarith
      show ?thesis
        unfolding new 2(2) using upper [unfolded le] tp abs p by simp
    qed
  qed
  then show "best_paths st (ms @ [m]) (trellis_step st' m)"
    unfolding best_paths_def by blast
  show "\<forall>s < 64. \<bar>metric (trellis_step st' m ! s)\<bar> \<le> K + M" using each by blast
qed

lemma trellis_best:
  assumes len: "length st = 64" and K: "\<forall>s < 64. \<bar>metric (st ! s)\<bar> \<le> K"
    and M: "\<forall>m \<in> set ms. mets_ok M m" and bound: "K + M * int (length ms) < 2 ^ 31"
  shows "best_paths st ms (foldl trellis_step st ms)
       \<and> (\<forall>s < 64. \<bar>metric (foldl trellis_step st ms ! s)\<bar> \<le> K + M * int (length ms))"
  using M bound
proof (induction ms rule: rev_induct)
  case Nil
  then show ?case using K by (simp add: best_paths_nil)
next
  case (snoc m ms)
  have M0: "0 \<le> M" using snoc.prems(1) by (auto simp: mets_ok_def dest!: spec [of _ 0])
  have eq: "K + M * int (length (ms @ [m])) = K + M * int (length ms) + M"
    by (simp add: algebra_simps)
  then have IH: "best_paths st ms (foldl trellis_step st ms)"
    "\<forall>s < 64. \<bar>metric (foldl trellis_step st ms ! s)\<bar> \<le> K + M * int (length ms)"
    using snoc M0 by auto
  have m: "mets_ok M m" using snoc.prems(1) by simp
  have "length (foldl trellis_step st ms) = 64" using len by simp
  from best_paths_step [OF IH(1) this IH(2) m]
  show ?case using snoc.prems(2) unfolding eq by simp
qed

section \<open>The decoders as runs of the trellis\<close>

definition mets_seq :: "mettab \<Rightarrow> u8 list \<Rightarrow> nat \<Rightarrow> int list list" where
  "mets_seq mettab symbols n =
     map (\<lambda>i. branch_metrics mettab (symbols ! (2 * i)) (symbols ! (2 * i + 1))) [0..<n]"

definition mettab_ok :: "int \<Rightarrow> mettab \<Rightarrow> bool" where
  "mettab_ok M mettab \<longleftrightarrow> (\<forall>b < 2. \<forall>r < 256. \<bar>mettab ! b ! r\<bar> \<le> M)"

lemma mets_seq_ok:
  assumes "mettab_ok M mettab"
  shows "\<forall>m \<in> set (mets_seq mettab symbols n). mets_ok (2 * M) m"
proof -
  have e: "\<bar>mettab ! 0 ! unat r\<bar> \<le> M" "\<bar>mettab ! 1 ! unat r\<bar> \<le> M" for r :: u8
    using assms by (simp_all add: mettab_ok_def)
  have "mets_ok (2 * M) (branch_metrics mettab r s)" for r s
    using e(1) [of r] e(1) [of s] e(2) [of r] e(2) [of s]
    by (auto simp: mets_ok_def branch_metrics_def less_Suc_eq numeral_eq_Suc One_nat_def)
  then show ?thesis by (simp add: mets_seq_def)
qed

lemma decode_pairs:
  assumes "length (fst st) = 64" "length (snd st) = 64"
  shows "fst (foldl (decode_pair mettab symbols) st [0..<n])
       = foldl trellis_step (fst st) (mets_seq mettab symbols n)"
    and "length (fst (foldl (decode_pair mettab symbols) st [0..<n])) = 64"
    and "length (snd (foldl (decode_pair mettab symbols) st [0..<n])) = 64"
proof -
  have "fst (foldl (decode_pair mettab symbols) st [0..<n])
       = foldl trellis_step (fst st) (mets_seq mettab symbols n)
     \<and> length (fst (foldl (decode_pair mettab symbols) st [0..<n])) = 64
     \<and> length (snd (foldl (decode_pair mettab symbols) st [0..<n])) = 64"
    using assms
    by (induction n) (auto simp: mets_seq_def decode_pair_def case_prod_beta butterfly_step_trellis)
  then show "fst (foldl (decode_pair mettab symbols) st [0..<n])
       = foldl trellis_step (fst st) (mets_seq mettab symbols n)"
    and "length (fst (foldl (decode_pair mettab symbols) st [0..<n])) = 64"
    and "length (snd (foldl (decode_pair mettab symbols) st [0..<n])) = 64"
    by auto
qed

text \<open>
  C21: maximum likelihood: eight steps of the streaming decoder leave in each of the 64 states the
  largest metric over all inputs that lead to the state from any start state (metric of the start
  included), and in its path register the decisions of an input with that metric, as long as the
  metrics stay within the range of an \<open>int\<close>.
\<close>

theorem butterfly8_best_paths:
  assumes "length state0 = 64" "length state1 = 64" "\<forall>s < 64. \<bar>metric (state0 ! s)\<bar> \<le> K"
    and "mettab_ok M mettab" "K + 16 * M < 2 ^ 31"
  shows "best_paths state0 (mets_seq mettab symbols 8)
           (fst (viterbi_butterfly8 symbols mettab (state0, state1)))"
  using decode_pairs(1) [of "(state0, state1)" mettab symbols 8]
    trellis_best [OF assms(1,3) mets_seq_ok [OF assms(4), of symbols 8]] assms(1,2,5)
  by (simp add: viterbi_butterfly8_def mets_seq_def)

section \<open>Decoding what the encoder made\<close>

fun enc_symbols :: "nat \<Rightarrow> nat list \<Rightarrow> nat list" where
  "enc_symbols s [] = []"
| "enc_symbols s (b # bs) =
     encode_state (2 * s + b) div 2 # encode_state (2 * s + b) mod 2 # enc_symbols (next_state s b) bs"

definition byte_bits :: "u8 \<Rightarrow> nat list" where
  "byte_bits d = map (\<lambda>i. of_bool (bit d i)) (rev [0..<8])"

definition data_bits :: "u8 list \<Rightarrow> nat list" where
  "data_bits data = concat (map byte_bits data)"

lemma enc_symbols_append:
  "enc_symbols s (bs @ cs) = enc_symbols s bs @ enc_symbols (end_state s bs) cs"
  by (induction bs arbitrary: s) (simp_all add: end_state_def)

lemma length_enc_symbols [simp]: "length (enc_symbols s bs) = 2 * length bs"
  by (induction bs arbitrary: s) simp_all

lemma length_data_bits [simp]: "length (data_bits data) = 8 * length data"
  by (induction data) (simp_all add: data_bits_def byte_bits_def)

lemma data_bits_01: "set (data_bits data) \<subseteq> {0, 1}"
  by (auto simp: data_bits_def byte_bits_def)

lemma data_bits_nth:
  "k < length data \<Longrightarrow> j < 8 \<Longrightarrow> data_bits data ! (8 * k + j) = of_bool (bit (data ! k) (7 - j))"
proof (induction data arbitrary: k)
  case (Cons d data)
  have len: "length (byte_bits d) = 8" by (simp add: byte_bits_def)
  show ?case
  proof (cases k)
    case 0
    then show ?thesis using Cons.prems len
      by (simp add: data_bits_def nth_append) (simp add: byte_bits_def rev_nth)
  next
    case (Suc l)
    then show ?thesis using Cons len by (simp add: data_bits_def nth_append)
  qed
qed simp

text \<open>The low six bits of the encoder register are the trellis state.\<close>

lemma double_plus_bit:
  "bit (2 * x + of_bool c :: nat) n = (if n = 0 then c else bit x (n - 1))"
  by (cases n) (simp_all add: bit_Suc bit_0)

lemma enc_register:
  fixes e d :: u8
  shows "unat (push_bit 1 e OR (drop_bit i d AND 1)) = take_bit 8 (2 * unat e + of_bool (bit d i))"
proof (rule bit_eqI)
  fix n
  show "bit (unat (push_bit 1 e OR (drop_bit i d AND 1))) n
      = bit (take_bit 8 (2 * unat e + of_bool (bit d i))) n"
    by (cases n) (auto simp: bit_unsigned_iff bit_or_iff bit_push_bit_iff bit_and_iff bit_drop_bit_eq
        bit_1_iff bit_take_bit_iff double_plus_bit dest: bit_imp_le_length)
qed

lemma parity_less [simp]: "parity n < 2"
  by (simp add: parity.simps [of n])

lemma and_low: "k < 128 \<Longrightarrow> x AND k = take_bit 7 x AND k" for x k :: nat
proof -
  assume "k < 128"
  then have "k = take_bit 7 k" by (simp add: take_bit_nat_eq_self)
  moreover have "x AND take_bit 7 k = take_bit 7 x AND take_bit 7 k"
    by (rule bit_eqI) (auto simp: bit_simps)
  ultimately show ?thesis by simp
qed

lemma encode_bit_step:
  fixes e d :: u8 and i :: nat
  assumes s: "unat e mod 64 = s" and i: "i < 8"
  defines "b \<equiv> of_bool (bit d i) :: nat"
  shows "unat (fst (encode_bit d (e, out) i)) mod 64 = next_state s b"
    and "map unat (snd (encode_bit d (e, out) i))
       = map unat out @ [encode_state (2 * s + b) div 2, encode_state (2 * s + b) mod 2]"
proof -
  define e' where "e' = push_bit 1 e OR (drop_bit i d AND 1)"
  have e': "unat e' = take_bit 8 (2 * unat e + b)" by (simp add: e'_def b_def enc_register)
  have low: "take_bit 7 (unat e') = 2 * s + b"
  proof -
    have "take_bit 7 (unat e') = (2 * unat e + b) mod 128"
      unfolding e' by (simp add: take_bit_eq_mod mod_mod_cancel)
    also have "\<dots> = 2 * s + b"
      using mod_mult2_eq [of "2 * unat e + b" 2 64] by (simp add: s [symmetric] b_def)
    finally show ?thesis .
  qed
  have "unat e' mod 64 = (take_bit 7 (unat e')) mod 64"
    by (simp add: take_bit_eq_mod mod_mod_cancel)
  then show "unat (fst (encode_bit d (e, out) i)) mod 64 = next_state s b"
    by (simp add: encode_bit_def Let_def e'_def [symmetric] next_state_def low)
  have out: "unat (Partab ! unat (e' AND k)) = parity ((2 * s + b) AND unat k)" if "unat k < 128" for k
    using and_low [OF that, of "unat e'"] Partab_nth [of "(2 * s + b) AND unat k"]
      and_nat_less [of "unat k" 256 "2 * s + b"] by (simp add: unsigned_and_eq low)
  have "parity x = (2 * parity x + parity y) div 2" "parity y = (2 * parity x + parity y) mod 2" for x y
    using parity_less [of x] parity_less [of y] by presburger+
  then show "map unat (snd (encode_bit d (e, out) i))
       = map unat out @ [encode_state (2 * s + b) div 2, encode_state (2 * s + b) mod 2]"
    using out [of POLYA] out [of POLYB]
    by (simp add: encode_bit_def Let_def e'_def [symmetric] encode_state_parity POLYA_def POLYB_def)
qed

lemma encode_byte:
  fixes e d :: u8 and "is" :: "nat list" and out :: "u8 list"
  defines "r \<equiv> foldl (encode_bit d) (e, out) is"
  assumes "\<forall>i \<in> set is. i < 8"
  shows "unat (fst r) mod 64 = foldl next_state (unat e mod 64) (map (\<lambda>i. of_bool (bit d i)) is)
     \<and> map unat (snd r) = map unat out @ enc_symbols (unat e mod 64) (map (\<lambda>i. of_bool (bit d i)) is)"
  using assms(2) unfolding r_def
proof (induction "is" arbitrary: e out)
  case (Cons i "is")
  obtain e' out' where s: "encode_bit d (e, out) i = (e', out')" by (cases "encode_bit d (e, out) i")
  have "i < 8" using Cons.prems by simp
  note st = encode_bit_step [OF refl this, where e = e and d = d and out = out, unfolded s]
  show ?case
    using Cons.IH [of e' out'] Cons.prems st by (simp add: s)
qed simp

lemma encode_stream:
  assumes "nbytes \<le> length data"
  shows "map unat (snd (encode data nbytes e)) = enc_symbols (unat e mod 64) (data_bits (take nbytes data))
     \<and> unat (fst (encode data nbytes e)) mod 64 = end_state (unat e mod 64) (data_bits (take nbytes data))"
proof -
  have "encode data nbytes e = foldl (\<lambda>st d. foldl (encode_bit d) st (rev [0..<8])) (e, []) (take nbytes data)"
    using foldl_index_take [OF assms] by (simp add: encode_def)
  moreover have "map unat (snd (foldl (\<lambda>st d. foldl (encode_bit d) st (rev [0..<8])) (e, []) ds))
        = enc_symbols (unat e mod 64) (data_bits ds)
     \<and> unat (fst (foldl (\<lambda>st d. foldl (encode_bit d) st (rev [0..<8])) (e, []) ds)) mod 64
        = end_state (unat e mod 64) (data_bits ds)" for ds
  proof (induction ds rule: rev_induct)
    case Nil
    show ?case by (simp add: data_bits_def end_state_def)
  next
    case (snoc d ds)
    let ?r = "foldl (\<lambda>st d. foldl (encode_bit d) st (rev [0..<8])) (e, []) ds"
    have bits: "data_bits (ds @ [d]) = data_bits ds @ byte_bits d" by (simp add: data_bits_def)
    show ?case
      using snoc encode_byte [of "rev [0..<8]" d "fst ?r" "snd ?r"]
      by (simp only: bits enc_symbols_append foldl_append foldl.simps prod.collapse byte_bits_def
          end_state_def set_rev set_upt map_append) simp
  qed
  ultimately show ?thesis by simp
qed

text \<open>The reference: the register as a number, and the parities of its masked bits.\<close>

fun conv_code :: "nat \<Rightarrow> nat list \<Rightarrow> nat list" where
  "conv_code s [] = []"
| "conv_code s (b # bs) =
     parity ((2 * s + b) AND 0x6d) # parity ((2 * s + b) AND 0x4f) # conv_code ((2 * s + b) mod 64) bs"

lemma enc_symbols_conv_code: "enc_symbols s bs = conv_code s bs"
proof (induction bs arbitrary: s)
  case (Cons b bs)
  have "(2 * parity x + parity y) div 2 = parity x" "(2 * parity x + parity y) mod 2 = parity y" for x y
    using parity_less [of x] parity_less [of y] by presburger+
  with Cons show ?case by (simp add: encode_state_parity next_state_def)
qed simp

text \<open>
  The encoder is the convolutional code of the two generator polynomials: its output is, for
  every data bit from the most significant one of each byte on, the parities of the 7-bit
  register masked with \<open>POLYA\<close> and with \<open>POLYB\<close>, and the returned state continues the stream.
\<close>

theorem encode_conv_code:
  "map unat (snd (encode data (length data) e)) = conv_code (unat e mod 64) (data_bits data)
   \<and> unat (fst (encode data (length data) e)) mod 64 = end_state (unat e mod 64) (data_bits data)"
  using encode_stream [of "length data" data e] by (simp add: enc_symbols_conv_code)

section \<open>The path register\<close>

lemma bit_end_state:
  "set bs \<subseteq> {0, 1} \<Longrightarrow> i < 6 \<Longrightarrow> bit (end_state 0 bs) i \<longleftrightarrow> i < length bs \<and> rev bs ! i = 1"
proof (induction bs arbitrary: i rule: rev_induct)
  case (snoc b bs)
  have e: "end_state 0 (bs @ [b]) = take_bit 6 (2 * end_state 0 bs + of_bool (b = 1))"
    using snoc.prems(1) by (auto simp: next_state_def take_bit_eq_mod)
  show ?case
    unfolding e using snoc by (cases i) (auto simp: bit_take_bit_iff double_plus_bit)
qed (simp add: end_state_def)

lemma high_state_bit: "s < 64 \<Longrightarrow> s \<ge> 32 \<longleftrightarrow> bit s 5" for s :: nat
proof -
  assume "s < 64"
  then have "s div 32 < 2" by simp
  then show ?thesis by (auto simp: bit_iff_odd div_eq_0_iff less_2_cases_iff)
qed

lemma bit_path_word:
  assumes "set bs \<subseteq> {0, 1}" "j < 64"
  shows "bit (path_word 0 0 bs) j \<longleftrightarrow> j + 6 < length bs \<and> rev bs ! (j + 6) = 1"
  using assms
proof (induction bs arbitrary: j rule: rev_induct)
  case (snoc b bs)
  have high: "end_state 0 bs \<ge> 32 \<longleftrightarrow> 5 < length bs \<and> rev bs ! 5 = 1"
    using snoc.prems high_state_bit [OF end_state_less] bit_end_state [of bs 5] by simp
  show ?case
    unfolding path_word_snoc high using snoc
    by (cases j) (auto simp: bit_or_iff bit_push_bit_iff bit_1_iff nth_Cons' add.commute [of 6])
qed simp

section \<open>The noise-free channel\<close>

definition channel :: "u8 \<Rightarrow> u8 \<Rightarrow> u8 list \<Rightarrow> u8 list" where
  "channel r0 r1 symbols = map (\<lambda>y. if y = 0 then r0 else r1) symbols"

definition matched :: "mettab \<Rightarrow> u8 \<Rightarrow> u8 \<Rightarrow> int \<Rightarrow> int \<Rightarrow> bool" where
  "matched mettab r0 r1 A B \<longleftrightarrow>
     mettab ! 0 ! unat r0 = A \<and> mettab ! 1 ! unat r1 = A \<and>
     mettab ! 0 ! unat r1 = B \<and> mettab ! 1 ! unat r0 = B \<and> B < A"

text \<open>The branch metrics when the sent pair is \<open>y\<close>.\<close>

definition pair_mets :: "int \<Rightarrow> int \<Rightarrow> nat \<Rightarrow> int list" where
  "pair_mets A B y =
     map (\<lambda>z. (if y div 2 = z div 2 then A else B) + (if y mod 2 = z mod 2 then A else B)) [0, 1, 2, 3]"

lemma less_4: "k < 4 \<longleftrightarrow> k = 0 \<or> k = 1 \<or> k = 2 \<or> k = (3::nat)" by auto

lemma branch_metrics_pair:
  assumes "matched mettab r0 r1 A B" "y < 4"
  shows "branch_metrics mettab (if y div 2 = 0 then r0 else r1) (if y mod 2 = 0 then r0 else r1)
       = pair_mets A B y"
  using assms by (auto simp: branch_metrics_def pair_mets_def matched_def less_4)

lemma pair_mets_nth:
  assumes "y < 4" "B < A"
  shows "z < 4 \<Longrightarrow> pair_mets A B y ! z \<le> 2 * A" "pair_mets A B y ! y = 2 * A"
    "pair_mets A B y ! (3 XOR y) = 2 * B"
  using assms by (auto simp: pair_mets_def less_4)

fun pair_seq :: "int \<Rightarrow> int \<Rightarrow> nat \<Rightarrow> nat list \<Rightarrow> int list list" where
  "pair_seq A B s [] = []"
| "pair_seq A B s (b # bs) = pair_mets A B (encode_state (2 * s + b)) # pair_seq A B (next_state s b) bs"

lemma length_pair_seq [simp]: "length (pair_seq A B s bs) = length bs"
  by (induction bs arbitrary: s) simp_all

lemma path_metric_sent:
  "s < 64 \<Longrightarrow> set us \<subseteq> {0, 1} \<Longrightarrow> B < A \<Longrightarrow>
   path_metric (pair_seq A B s us) s us = 2 * A * int (length us)"
proof (induction us arbitrary: s)
  case (Cons b us)
  have "2 * s + b < 128" using Cons.prems by auto
  then show ?case
    using Cons pair_mets_nth(2) [OF encode_state_less, of "2 * s + b" B A]
    by (simp add: algebra_simps)
qed simp

lemma path_metric_upper:
  "s < 64 \<Longrightarrow> t < 64 \<Longrightarrow> set us \<subseteq> {0, 1} \<Longrightarrow> set bs \<subseteq> {0, 1} \<Longrightarrow> length bs = length us \<Longrightarrow>
   B < A \<Longrightarrow> path_metric (pair_seq A B s us) t bs \<le> 2 * A * int (length us)"
proof (induction us arbitrary: s t bs)
  case (Cons u us)
  then obtain b cs where bs: "bs = b # cs" by (cases bs) auto
  have "2 * s + u < 128" "2 * t + b < 128" using Cons.prems bs by auto
  then have "pair_mets A B (encode_state (2 * s + u)) ! encode_state (2 * t + b) \<le> 2 * A"
    using pair_mets_nth(1) encode_state_less Cons.prems by blast
  moreover have "path_metric (pair_seq A B (next_state s u) us) (next_state t b) cs
      \<le> 2 * A * int (length us)"
    using Cons bs by auto
  ultimately show ?case by (simp add: bs algebra_simps)
qed simp

lemma path_metric_other:
  "s < 64 \<Longrightarrow> set us \<subseteq> {0, 1} \<Longrightarrow> set bs \<subseteq> {0, 1} \<Longrightarrow> length bs = length us \<Longrightarrow> bs \<noteq> us \<Longrightarrow>
   B < A \<Longrightarrow> path_metric (pair_seq A B s us) s bs < 2 * A * int (length us)"
proof (induction us arbitrary: s bs)
  case (Cons u us)
  then obtain b cs where bs: "bs = b # cs" by (cases bs) auto
  have small: "2 * s + u < 128" "2 * s + b < 128" using Cons.prems bs by auto
  show ?case
  proof (cases "b = u")
    case True
    then have "path_metric (pair_seq A B (next_state s u) us) (next_state s b) cs < 2 * A * int (length us)"
      using Cons bs by auto
    moreover have "pair_mets A B (encode_state (2 * s + u)) ! encode_state (2 * s + b) \<le> 2 * A"
      using pair_mets_nth(1) encode_state_less small Cons.prems by blast
    ultimately show ?thesis by (simp add: bs algebra_simps)
  next
    case False
    then have "{u, b} = {0, 1}" using Cons.prems bs by auto
    then have "encode_state (2 * s + b) = 3 XOR encode_state (2 * s + u)"
      using encode_state_flip [OF Cons.prems(1)] by (auto simp: doubleton_eq_iff)
    then have "pair_mets A B (encode_state (2 * s + u)) ! encode_state (2 * s + b) = 2 * B"
      using pair_mets_nth(3) encode_state_less small Cons.prems by simp
    moreover have "path_metric (pair_seq A B (next_state s u) us) (next_state s b) cs
        \<le> 2 * A * int (length us)"
      using Cons.prems bs by (intro path_metric_upper) auto
    ultimately show ?thesis using Cons.prems by (simp add: bs algebra_simps)
  qed
qed simp

lemma mets_seq_pair_seq:
  assumes M: "matched mettab r0 r1 A B" and bits: "set bs \<subseteq> {0, 1}" "s < 64"
    and sym: "map unat symbols = enc_symbols s bs" "n \<le> length bs"
  shows "mets_seq mettab (channel r0 r1 symbols) n = pair_seq A B s (take n bs)"
  using bits sym
proof (induction n arbitrary: s bs symbols)
  case 0
  then show ?case by (simp add: mets_seq_def)
next
  case (Suc n)
  then obtain b cs where bs: "bs = b # cs" by (cases bs) auto
  have "length (map unat symbols) = 2 * length bs" using Suc.prems(3) by simp
  then obtain y z rest where syms: "symbols = y # z # rest"
    using bs by (cases symbols; cases "tl symbols") auto
  let ?y = "encode_state (2 * s + b)"
  have y: "?y < 4" using Suc.prems bs by (auto intro: encode_state_less)
  have yz: "unat y = ?y div 2" "unat z = ?y mod 2" "map unat rest = enc_symbols (next_state s b) cs"
    using Suc.prems(3) by (simp_all add: bs syms)
  then have zero: "y = 0 \<longleftrightarrow> ?y div 2 = 0" "z = 0 \<longleftrightarrow> ?y mod 2 = 0"
    by (metis unat_eq_zero)+
  have "mets_seq mettab (channel r0 r1 symbols) (Suc n)
      = branch_metrics mettab (if y = 0 then r0 else r1) (if z = 0 then r0 else r1)
        # mets_seq mettab (channel r0 r1 rest) n"
    unfolding mets_seq_def
    by (simp add: upt_conv_Cons channel_def syms map_Suc_upt [symmetric] comp_def
        del: upt_Suc flip: Suc_eq_plus1)
  also have "\<dots> = pair_mets A B ?y # pair_seq A B (next_state s b) (take n cs)"
    using branch_metrics_pair [OF M y] Suc.IH [of cs "next_state s b" rest] Suc.prems bs yz
    by (simp add: zero)
  finally show ?case by (simp add: bs)
qed

section \<open>The decoder without noise\<close>

lemma best_state_max:
  "snd (best_state st) < 64 \<and> metric (st ! snd (best_state st)) = fst (best_state st)
   \<and> (\<forall>i < 64. metric (st ! i) \<le> fst (best_state st))"
proof -
  define I where "I k r = (snd r < 64 \<and> metric (st ! snd r) = fst r \<and> (\<forall>i < k. metric (st ! i) \<le> fst r))"
    for k and r :: "int \<times> nat"
  have "I 64 (best_state st)"
    unfolding best_state_def
    by (rule foldl_upt_invariant) (auto simp: I_def less_Suc_eq split: prod.splits)
  then show ?thesis by (simp add: I_def)
qed

lemma initial_states_facts:
  assumes "length st = 64"
  shows "length (initial_states st) = 64" "path (initial_states st ! 0) = 0"
    "\<And>s. s < 64 \<Longrightarrow> metric (initial_states st ! s) = (if s = 0 then 0 else - 999999)"
proof -
  let ?g = "st[0 := (st ! 0)\<lparr> metric := 0 \<rparr>]"
  have len: "64 \<le> length ?g" using assms by simp
  note up = foldl_update_nth [OF len, where a = 1 and h = "\<lambda>i x. x\<lparr> metric := - 999999 \<rparr>"]
  show "length (initial_states st) = 64" "path (initial_states st ! 0) = 0"
    "\<And>s. s < 64 \<Longrightarrow> metric (initial_states st ! s) = (if s = 0 then 0 else - 999999)"
    using up assms by (auto simp: initial_states_def nth_list_update)
qed

lemma pair_seq_ok: "\<bar>A\<bar> \<le> M \<Longrightarrow> \<bar>B\<bar> \<le> M \<Longrightarrow> \<forall>m \<in> set (pair_seq A B s bs). mets_ok (2 * M) m"
  by (induction bs arbitrary: s) (auto simp: mets_ok_def pair_mets_def less_4)

lemma best_noise_free:
  assumes st: "length st = 64" and us: "set us \<subseteq> {0, 1}"
    and AB: "\<bar>A\<bar> \<le> M" "\<bar>B\<bar> \<le> M" "B < A" and bound: "999999 + 2 * M * int (length us) < 2 ^ 31"
  defines "st' \<equiv> foldl trellis_step (initial_states st) (pair_seq A B 0 us)"
  shows "fst (best_state st') = 2 * A * int (length us)
       \<and> path (st' ! snd (best_state st')) = path_word 0 0 us"
proof -
  let ?st = "initial_states st" and ?ms = "pair_seq A B 0 us" and ?n = "length us"
  note ini = initial_states_facts [OF st]
  have K: "\<forall>s < 64. \<bar>metric (?st ! s)\<bar> \<le> 999999" using ini(3) by simp
  have best: "best_paths ?st ?ms st'"
    using trellis_best [OF ini(1) K pair_seq_ok [OF AB(1,2)], of 0 us] bound
    by (simp add: st'_def)
  note bs = best_state_max [of st']
  have inp: "is_input (length ?ms) 0 us" using us by (simp add: is_input_def)
  have val: "path_value ?st ?ms 0 us = 2 * A * int ?n"
    using ini(3) path_metric_sent [OF _ us AB(3), of 0] by (simp add: path_value_def)
  have "path_value ?st ?ms 0 us \<le> metric (st' ! end_state 0 us)"
    using best inp by (simp add: best_paths_def end_state_less)
  also have "\<dots> \<le> fst (best_state st')" using bs end_state_less [of 0 us] by simp
  finally have ge: "2 * A * int ?n \<le> fst (best_state st')" by (simp only: val)
  obtain s0 cs where cs: "is_input (length ?ms) s0 cs"
    "path_value ?st ?ms s0 cs = fst (best_state st')"
    "path_word (path (?st ! s0)) s0 cs = path (st' ! snd (best_state st'))"
    using best bs unfolding best_paths_def by metis
  have c: "s0 < 64" "set cs \<subseteq> {0, 1}" "length cs = length us" using cs(1) by (auto simp: is_input_def)
  have s0: "s0 = 0"
  proof (rule ccontr)
    assume "s0 \<noteq> 0"
    then have "path_value ?st ?ms s0 cs \<le> - 999999 + 2 * A * int ?n"
      using ini(3) [OF c(1)] path_metric_upper [OF _ c(1) us c(2,3) AB(3), of 0]
      by (simp add: path_value_def)
    with ge cs(2) show False by simp
  qed
  have "cs = us"
  proof (rule ccontr)
    assume "cs \<noteq> us"
    from path_metric_other [OF _ us c(2,3) this AB(3), of 0]
    have "path_value ?st ?ms s0 cs < 2 * A * int ?n"
      using ini(3) by (simp add: path_value_def s0)
    with ge cs(2) show False by simp
  qed
  then show ?thesis using cs val ini(2) by (simp add: s0)
qed

lemma output_times:
  "filter (\<lambda>b. b mod 8 = 5 \<and> 32 < b) [0..<n] = map (\<lambda>m. 8 * m + 37) [0..<(n - 30) div 8]"
proof (induction n)
  case (Suc n)
  show ?case
  proof (cases "n mod 8 = 5 \<and> 32 < n")
    case True
    then have "n = 8 * (n div 8 - 4) + 37" by presburger
    then obtain k where n: "n = 8 * k + 37" ..
    then have k: "(Suc n - 30) div 8 = Suc k" "(n - 30) div 8 = k" by simp_all
    have "filter (\<lambda>b. b mod 8 = 5 \<and> 32 < b) [0..<Suc n]
        = filter (\<lambda>b. b mod 8 = 5 \<and> 32 < b) [0..<n] @ [n]" using True by simp
    then show ?thesis using Suc.IH unfolding k by (simp add: n)
  next
    case False
    have "(Suc n - 30) div 8 = (n - 30) div 8"
    proof (cases "n < 30")
      case ge: False
      then obtain m where m: "n = m + 30" by (metis add.commute le_Suc_ex not_less)
      with False have "Suc m mod 8 \<noteq> 0" by simp presburger
      then show ?thesis by (simp add: m div_Suc Suc_diff_le)
    qed simp
    then show ?thesis using Suc.IH False by simp
  qed
qed simp

lemma viterbi_loop_run:
  assumes "length (fst st) = 64" "length (snd st) = 64"
  shows "foldl (viterbi_loop mettab symbols) (st, []) [0..<n]
       = (foldl (decode_pair mettab symbols) st [0..<n],
          map (\<lambda>b. let t = foldl trellis_step (fst st) (mets_seq mettab symbols (Suc b))
                   in ucast (drop_bit 24 (path (t ! snd (best_state t)))))
            (filter (\<lambda>b. b mod 8 = 5 \<and> 32 < b) [0..<n]))"
proof (induction n)
  case (Suc n)
  have "fst (decode_pair mettab symbols (foldl (decode_pair mettab symbols) st [0..<n]) n)
      = foldl trellis_step (fst st) (mets_seq mettab symbols (Suc n))"
    using decode_pairs(1) [OF assms, of mettab symbols "Suc n"] by simp
  with Suc show ?case by (simp add: viterbi_loop_def Let_def)
qed simp

text \<open>A byte of the path register, in terms of the sent bits.\<close>

lemma path_byte:
  fixes data :: "u8 list"
  assumes us: "us = take t (data_bits data)" "t \<le> 8 * length data"
    and t: "t = 8 * q + i" "i \<le> 6" "4 \<le> q" and c: "c + 8 * k = 8 * (q - 1)" "c \<le> 24"
  shows "(ucast (drop_bit c (push_bit (6 - i) (path_word 0 0 us))) :: u8)
       = data ! k AND push_bit (6 - i - c) 0xff"
proof (rule bit_word_eqI)
  fix x
  assume "x < LENGTH(8)"
  then have x: "x < 8" by simp
  have len: "length us = t" using us by simp
  have us01: "set us \<subseteq> {0, 1}"
    using data_bits_01 [of data] set_take_subset [of t "data_bits data"] unfolding us(1) by blast
  have k: "k < length data" "k \<le> q - 1" using c us(2) t by auto
  have "bit (ucast (drop_bit c (push_bit (6 - i) (path_word 0 0 us))) :: u8) x
      \<longleftrightarrow> 6 - i \<le> c + x \<and> bit (path_word 0 0 us) (c + x - (6 - i))"
    using x c by (simp add: bit_simps)
  also have "\<dots> \<longleftrightarrow> 6 - i - c \<le> x \<and> rev us ! (c + x + i) = 1"
    using bit_path_word [OF us01, of "c + x - (6 - i)"] x c t len by auto
  also have "rev us ! (c + x + i) = us ! (8 * k + (7 - x))"
  proof -
    have "c + x + i < t" "t - Suc (c + x + i) = 8 * k + (7 - x)" using x c t by auto
    then show ?thesis using len by (simp add: rev_nth)
  qed
  also have "us ! (8 * k + (7 - x)) = of_bool (bit (data ! k) x)"
  proof -
    have "8 * k + (7 - x) < t" using k t x by auto
    then show ?thesis using data_bits_nth [OF k(1), of "7 - x"] x us(1) by simp
  qed
  finally have main: "bit (ucast (drop_bit c (push_bit (6 - i) (path_word 0 0 us))) :: u8) x
      \<longleftrightarrow> 6 - i - c \<le> x \<and> of_bool (bit (data ! k) x) = (1 :: nat)" .
  have "(0xff :: u8) = - 1" by (simp add: One_nat_def)
  then have "bit (0xff :: u8) y" if "y < 8" for y using that by (simp only:) simp
  then show "bit (ucast (drop_bit c (push_bit (6 - i) (path_word 0 0 us))) :: u8) x
      \<longleftrightarrow> bit (data ! k AND push_bit (6 - i - c) 0xff) x"
    using main x by (auto simp: bit_simps)
qed

lemma take_3_drop:
  assumes "k + 3 \<le> length xs"
  shows "take 3 (drop k xs) = [xs ! k, xs ! (k + 1), xs ! (k + 2)]"
proof (rule nth_equalityI)
  show "length (take 3 (drop k xs)) = length [xs ! k, xs ! (k + 1), xs ! (k + 2)]"
    using assms by simp
  fix i
  assume "i < length (take 3 (drop k xs))"
  then have "i = 0 \<or> i = 1 \<or> i = 2" by auto
  then show "take 3 (drop k xs) ! i = [xs ! k, xs ! (k + 1), xs ! (k + 2)] ! i"
    using assms by auto
qed

lemma viterbi_noise_free_result:
  assumes locals: "length (fst locals) = 64" "length (snd locals) = 64"
    and M: "matched mettab r0 r1 A B" "\<bar>A\<bar> \<le> M" "\<bar>B\<bar> \<le> M"
    and n: "32 \<le> nbits" "nbits \<le> 8 * length data" "nbits mod 8 \<noteq> 7"
    and bound: "999999 + 2 * M * int nbits < 2 ^ 31"
  shows "viterbi locals (channel r0 r1 (snd (encode data (length data) 0))) nbits mettab
       = Some (word_of_int (2 * A * int nbits),
           take ((nbits - 30) div 8) data @ take 3 (drop (nbits div 8 - 4) data)
             @ [data ! (nbits div 8 - 1) AND push_bit (6 - nbits mod 8) 0xff])"
proof -
  let ?sy = "channel r0 r1 (snd (encode data (length data) 0))"
  let ?bits = "data_bits data"
  let ?st = "initial_states (fst locals)"
  let ?run = "\<lambda>n. foldl trellis_step ?st (mets_seq mettab ?sy n)"
  have AB: "B < A" using M(1) by (simp add: matched_def)
  have enc: "map unat (snd (encode data (length data) 0)) = enc_symbols 0 ?bits"
    using encode_stream [of "length data" data 0] by simp
  have M0: "0 \<le> M" using M(2) by simp
  have run: "fst (best_state (?run t)) = 2 * A * int t
      \<and> path (?run t ! snd (best_state (?run t))) = path_word 0 0 (take t ?bits)"
    if t: "t \<le> nbits" for t
  proof -
    have "2 * M * int t \<le> 2 * M * int nbits" using t M0 by (intro mult_left_mono) simp_all
    then have b: "999999 + 2 * M * int (length (take t ?bits)) < 2 ^ 31"
      using bound t n(2) by simp
    have "set (take t ?bits) \<subseteq> {0, 1}" by (rule order.trans [OF set_take_subset data_bits_01])
    note best = best_noise_free [OF locals(1) this M(2,3) AB b]
    have len: "length (take t ?bits) = t" "t \<le> length ?bits" using t n(2) by simp_all
    have "mets_seq mettab ?sy t = pair_seq A B 0 (take t ?bits)"
      by (rule mets_seq_pair_seq [OF M(1) data_bits_01 _ enc len(2)]) simp
    with best show ?thesis by (simp only: len(1))
  qed
  let ?q = "nbits div 8" and ?i = "nbits mod 8"
  have qi: "nbits = 8 * ?q + ?i" "?i \<le> 6" "4 \<le> ?q"
  proof -
    have "?i < 8" by simp
    then show "nbits = 8 * ?q + ?i" "?i \<le> 6" using n(3) by simp_all
    show "4 \<le> ?q" using div_le_mono [OF n(1), of 8] by simp
  qed
  have byte: "(ucast (drop_bit c (push_bit (6 - ?i) (path_word 0 0 (take nbits ?bits)))) :: u8)
      = data ! k AND push_bit (6 - ?i - c) 0xff" if "c + 8 * k = 8 * (?q - 1)" "c \<le> 24" for c k
    by (rule path_byte [OF refl n(2) qi that])
  have "(0xff :: u8) = - 1" by (simp add: One_nat_def)
  then have full: "w AND 0xff = w" for w :: u8 by (simp only: and.right_neutral)
  have out: "(ucast (drop_bit 24 (path (?run (Suc b) ! snd (best_state (?run (Suc b)))))) :: u8) = data ! m"
    if b: "b = 8 * m + 37" "b < nbits" for b m
  proof -
    have "Suc b \<le> nbits" "Suc b = 8 * (m + 4) + 6" "24 + 8 * m = 8 * (m + 4 - 1)" using b by simp_all
    from path_byte [OF refl order.trans [OF this(1) n(2)] this(2) order.refl _ this(3)]
    show ?thesis using run [OF \<open>Suc b \<le> nbits\<close>] by (simp add: full)
  qed
  have times: "map (\<lambda>b. ucast (drop_bit 24 (path (?run (Suc b) ! snd (best_state (?run (Suc b)))))))
      (filter (\<lambda>b. b mod 8 = 5 \<and> 32 < b) [0..<nbits]) = take ((nbits - 30) div 8) data"
    (is "?l = ?r")
  proof -
    have "\<And>m. m < (nbits - 30) div 8 \<Longrightarrow> 8 * m + 37 < nbits" by auto
    then have "?l = map (\<lambda>m. data ! m) [0..<(nbits - 30) div 8]"
      unfolding output_times using out by simp
    also have "\<dots> = ?r" using n(2) by (intro nth_equalityI) auto
    finally show ?thesis .
  qed
  let ?fin = "foldl (decode_pair mettab ?sy) (?st, snd locals) [0..<nbits]"
  have len: "length (fst (?st, snd locals)) = 64" "length (snd (?st, snd locals)) = 64"
    using initial_states_facts(1) [OF locals(1)] locals(2) by simp_all
  have loop: "foldl (viterbi_loop mettab ?sy) ((?st, snd locals), []) [0..<nbits]
      = (?fin, take ((nbits - 30) div 8) data)"
    using viterbi_loop_run [OF len, of mettab ?sy nbits] times by (simp add: Let_def)
  have fin: "fst ?fin = ?run nbits" using decode_pairs(1) [OF len] by simp
  have p: "path (?run nbits ! snd (best_state (?run nbits))) = path_word 0 0 (take nbits ?bits)"
    "metric (?run nbits ! snd (best_state (?run nbits))) = 2 * A * int nbits"
    using run [of nbits] best_state_max [of "?run nbits"] by simp_all
  have flush: "take 3 (drop (?q - 4) data) = [data ! (?q - 4), data ! (?q - 3), data ! (?q - 2)]"
  proof -
    have "?q \<le> length data" using n(2) by simp
    then have "?q - 4 + 3 \<le> length data" using qi(3) by simp
    moreover have "?q - 4 + 1 = ?q - 3" "?q - 4 + 2 = ?q - 2" using qi(3) by simp_all
    ultimately show ?thesis using take_3_drop by metis
  qed
  have shift: "(if ?i \<noteq> 6 then push_bit (6 - ?i) w else w) = push_bit (6 - ?i) w" for w :: u64
    by simp
  have bytes: "(ucast (drop_bit 24 (push_bit (6 - ?i) (path_word 0 0 (take nbits ?bits)))) :: u8) = data ! (?q - 4)"
    "(ucast (drop_bit 16 (push_bit (6 - ?i) (path_word 0 0 (take nbits ?bits)))) :: u8) = data ! (?q - 3)"
    "(ucast (drop_bit 8 (push_bit (6 - ?i) (path_word 0 0 (take nbits ?bits)))) :: u8) = data ! (?q - 2)"
    "(ucast (push_bit (6 - ?i) (path_word 0 0 (take nbits ?bits))) :: u8)
      = data ! (?q - 1) AND push_bit (6 - ?i) 0xff"
    using byte [of 24 "?q - 4"] byte [of 16 "?q - 3"] byte [of 8 "?q - 2"] byte [of 0 "?q - 1"] qi(3)
    by (simp_all add: full)
  show ?thesis
    using n(3) by (simp add: viterbi_def Let_def loop case_prod_beta fin shift p bytes flush)
qed

text \<open>
  C27: the decoder recovers what the encoder sent, from 32 bits on: over a noise-free channel with a
  metric table that prefers the received symbol, \<open>viterbi\<close> returns the metric of a perfect match and the data
  bytes, except that in the last complete byte the \<open>6 - nbits % 8\<close> low bits, which are still in the encoder
  register, come out as zero, and that for \<open>nbits % 8 = 6\<close> the byte \<open>nbits / 8 - 4\<close> is output twice,
  by the loop and by the final four, since \<open>(nbits - 30) div 8\<close> is \<open>nbits div 8 - 3\<close>.  For
  \<open>nbits % 8 = 7\<close> it recovers nothing: the path is shifted by -1, which is undefined.  Fewer
  than 32 bits, for which the final four bytes are not all data, are not covered.
\<close>

theorem viterbi_noise_free:
  assumes "length (fst locals) = 64" "length (snd locals) = 64"
    and "matched mettab r0 r1 A B" "\<bar>A\<bar> \<le> M" "\<bar>B\<bar> \<le> M"
    and "32 \<le> nbits" "nbits \<le> 8 * length data"
    and "999999 + 2 * M * int nbits < 2 ^ 31"
  shows "viterbi locals (channel r0 r1 (snd (encode data (length data) 0))) nbits mettab
       = (if nbits mod 8 = 7 then None
          else Some (word_of_int (2 * A * int nbits),
             take ((nbits - 30) div 8) data @ take 3 (drop (nbits div 8 - 4) data)
               @ [data ! (nbits div 8 - 1) AND push_bit (6 - nbits mod 8) 0xff]))"
proof (cases "nbits mod 8 = 7")
  case True
  then show ?thesis by (simp add: viterbi_def Let_def split_beta)
next
  case False
  then show ?thesis using viterbi_noise_free_result [OF assms(1-7) False assms(8)] by simp
qed

section \<open>The theorems on concrete inputs\<close>

definition blank_states :: "viterbi_state list" where
  "blank_states = replicate 64 \<lparr> path = 0, metric = 0 \<rparr>"

definition soft_mettab :: mettab where
  "soft_mettab = [map (\<lambda>r. if r < 128 then 1 else 0) [0..<256], map (\<lambda>r. if r < 128 then 0 else 1) [0..<256]]"

lemma soft_mettab_ok: "mettab_ok 1 soft_mettab"
  by (auto simp: mettab_ok_def soft_mettab_def less_2_cases_iff)

theorem butterfly8_best_paths_witness:
  "best_paths (initial_states blank_states)
     (mets_seq soft_mettab [0, 255, 255, 0, 3, 200, 255, 255, 0, 0, 17, 0, 0, 255, 0, 0] 8)
     (fst (viterbi_butterfly8 [0, 255, 255, 0, 3, 200, 255, 255, 0, 0, 17, 0, 0, 255, 0, 0] soft_mettab
        (initial_states blank_states, blank_states)))"
proof (rule butterfly8_best_paths [where K = 999999 and M = 1])
  have len: "length blank_states = 64" by (simp add: blank_states_def)
  show "\<forall>s < 64. \<bar>metric (initial_states blank_states ! s)\<bar> \<le> 999999"
    using initial_states_facts(3) [OF len] by simp
  show "length (initial_states blank_states) = 64" "length blank_states = 64"
    using initial_states_facts(1) [OF len] len by simp_all
qed (simp_all add: soft_mettab_ok)

text \<open>Thirty-eight bits of the bytes \<open>47 52 21 0a 80\<close>: the first byte comes out twice.\<close>

theorem viterbi_noise_free_witness:
  "viterbi (blank_states, blank_states)
     (channel 0 255 (snd (encode [0x47, 0x52, 0x21, 0x0a, 0x80] 5 0))) 38 soft_mettab
   = Some (76, [0x47, 0x47, 0x52, 0x21, 0x0a])"
proof -
  have m: "matched soft_mettab 0 255 1 0" by (simp add: matched_def soft_mettab_def)
  have len: "length (fst (blank_states, blank_states)) = 64" "length (snd (blank_states, blank_states)) = 64"
    by (simp_all add: blank_states_def)
  have l5: "length [0x47, 0x52, 0x21, 0x0a, 0x80 :: u8] = 5" by simp
  have "(0xff :: u8) = - 1" by (simp add: One_nat_def)
  then have full: "w AND 0xff = w" for w :: u8 by (simp only: and.right_neutral)
  show ?thesis
    using viterbi_noise_free [OF len m, of 1 38 "[0x47, 0x52, 0x21, 0x0a, 0x80]", unfolded l5]
    by (simp add: full)
qed

end
