(* ===== verification/G711.thy ===== *)
theory G711
  imports GR_Prelude
begin

text \<open>
  The conversions between linear PCM, A-law and u-law of \<open>g72x/g711.c\<close>.  \<open>int\<close> variables are
  integers, \<open>unsigned char\<close> values are bytes; the arithmetic of the converters stays far inside the
  range of an \<open>int\<close> for 16-bit samples.
\<close>

section \<open>The converters\<close>

definition seg_end :: "int list" where
  "seg_end = [0xFF, 0x1FF, 0x3FF, 0x7FF, 0xFFF, 0x1FFF, 0x3FFF, 0x7FFF]"

definition u2a_table :: "u8 list" where
  "u2a_table =
    [1, 1, 2, 2, 3, 3, 4, 4, 5, 5, 6, 6, 7, 7, 8, 8, 9, 10, 11, 12, 13, 14, 15, 16, 17, 18, 19,
     20, 21, 22, 23, 24, 25, 27, 29, 31, 33, 34, 35, 36, 37, 38, 39, 40, 41, 42, 43, 44, 46, 48,
     49, 50, 51, 52, 53, 54, 55, 56, 57, 58, 59, 60, 61, 62, 64, 65, 66, 67, 68, 69, 70, 71, 72,
     73, 74, 75, 76, 77, 78, 79, 81, 82, 83, 84, 85, 86, 87, 88, 89, 90, 91, 92, 93, 94, 95, 96,
     97, 98, 99, 100, 101, 102, 103, 104, 105, 106, 107, 108, 109, 110, 111, 112, 113, 114, 115,
     116, 117, 118, 119, 120, 121, 122, 123, 124, 125, 126, 127, 128]"

definition a2u_table :: "u8 list" where
  "a2u_table =
    [1, 3, 5, 7, 9, 11, 13, 15, 16, 17, 18, 19, 20, 21, 22, 23, 24, 25, 26, 27, 28, 29, 30, 31,
     32, 32, 33, 33, 34, 34, 35, 35, 36, 37, 38, 39, 40, 41, 42, 43, 44, 45, 46, 47, 48, 48, 49,
     49, 50, 51, 52, 53, 54, 55, 56, 57, 58, 59, 60, 61, 62, 63, 64, 64, 65, 66, 67, 68, 69, 70,
     71, 72, 73, 74, 75, 76, 77, 78, 79, 79, 80, 81, 82, 83, 84, 85, 86, 87, 88, 89, 90, 91, 92,
     93, 94, 95, 96, 97, 98, 99, 100, 101, 102, 103, 104, 105, 106, 107, 108, 109, 110, 111, 112,
     113, 114, 115, 116, 117, 118, 119, 120, 121, 122, 123, 124, 125, 126, 127]"

text \<open>The index of the first table entry that is not below \<open>val\<close>.\<close>

fun search :: "int \<Rightarrow> int list \<Rightarrow> nat" where
  "search val [] = 0"
| "search val (x # table) = (if val \<le> x then 0 else Suc (search val table))"

definition linear2alaw :: "int \<Rightarrow> u8" where
  "linear2alaw pcm_val =
     (let (mask, pcm_val) = (if pcm_val \<ge> 0 then (0xD5, pcm_val) else (0x55, - pcm_val - 8));
          seg = search pcm_val seg_end
      in if seg \<ge> 8 then 0x7F XOR mask
         else let aval = word_of_int (int (push_bit 4 seg)) :: u8;
                  aval = aval OR (if seg < 2 then word_of_int (shr pcm_val 4 AND 0xf)
                                  else word_of_int (shr pcm_val (seg + 3) AND 0xf))
              in aval XOR mask)"

definition alaw2linear :: "u8 \<Rightarrow> int" where
  "alaw2linear a_val =
     (let a_val = a_val XOR 0x55;
          t = push_bit 4 (uint (a_val AND 0xf));
          seg = drop_bit 4 (unat (a_val AND 0x70));
          t = (if seg = 0 then t + 8
               else if seg = 1 then t + 0x108
               else push_bit (seg - 1) (t + 0x108))
      in if a_val AND 0x80 \<noteq> 0 then t else - t)"

definition linear2ulaw :: "int \<Rightarrow> u8" where
  "linear2ulaw pcm_val =
     (let (pcm_val, mask) = (if pcm_val < 0 then (0x84 - pcm_val, 0x7F) else (pcm_val + 0x84, 0xFF));
          seg = search pcm_val seg_end
      in if seg \<ge> 8 then 0x7F XOR mask
         else (word_of_int (int (push_bit 4 seg) OR (shr pcm_val (seg + 3) AND 0xF)) :: u8) XOR mask)"

definition ulaw2linear :: "u8 \<Rightarrow> int" where
  "ulaw2linear u_val =
     (let u_val = NOT u_val;
          t = push_bit 3 (uint (u_val AND 0xf)) + 0x84;
          t = push_bit (drop_bit 4 (unat (u_val AND 0x70))) t
      in if u_val AND 0x80 \<noteq> 0 then 0x84 - t else t - 0x84)"

definition alaw2ulaw :: "u8 \<Rightarrow> u8" where
  "alaw2ulaw aval =
     (if aval AND 0x80 \<noteq> 0 then 0xFF XOR a2u_table ! unat (aval XOR 0xD5)
      else 0x7F XOR a2u_table ! unat (aval XOR 0x55))"

definition ulaw2alaw :: "u8 \<Rightarrow> u8" where
  "ulaw2alaw uval =
     (if uval AND 0x80 \<noteq> 0 then 0xD5 XOR (u2a_table ! unat (0xFF XOR uval) - 1)
      else 0x55 XOR (u2a_table ! unat (0x7F XOR uval) - 1))"

declare One_nat_def [simp]

section \<open>Decoding and encoding again\<close>

lemma all_bytes:
  assumes "list_all (\<lambda>k. P (word_of_int k :: u8)) [0..255]"
  shows "P c"
proof -
  have "uint c \<in> set [0..255]" using uint_lt2p [of c] by simp
  then have "P (word_of_int (uint c))" using assms unfolding list_all_iff by (rule bspec [rotated])
  then show ?thesis by simp
qed

lemma alaw_codes: "list_all (\<lambda>k. linear2alaw (alaw2linear (word_of_int k)) = word_of_int k) [0..255]"
  by code_simp

lemma ulaw_codes:
  "list_all (\<lambda>k. linear2ulaw (ulaw2linear (word_of_int k))
      = (if word_of_int k = (0x7F :: u8) then 0xFF else word_of_int k)) [0..255]"
  by code_simp

text \<open>
  Every code survives a conversion to linear PCM and back: all 256 A-law codes, and all u-law
  codes except \<open>0x7F\<close>, the second code of zero, which comes back as \<open>0xFF\<close>.
\<close>

theorem g711_roundtrip:
  "linear2alaw (alaw2linear c) = c
   \<and> linear2ulaw (ulaw2linear c) = (if c = 0x7F then 0xFF else c)"
  using all_bytes [OF alaw_codes, of c] all_bytes [OF ulaw_codes, of c] by simp

section \<open>The quantisation error\<close>

lemma search_seg:
  assumes "v \<le> 0x7FFF"
  shows "search v seg_end < 8" "v < 2 ^ (search v seg_end + 8)"
    "search v seg_end = 0 \<or> 2 ^ (search v seg_end + 7) \<le> v"
  using assms by (auto simp: seg_end_def)

lemma search_over: "v > 0x7FFF \<Longrightarrow> search v seg_end = 8"
  by (simp add: seg_end_def)

lemma segment_or:
  fixes k :: int
  assumes "0 \<le> k" "k < 16"
  shows "push_bit 4 n OR k = 16 * n + k"
proof -
  have k: "k = take_bit 4 k" using assms by (simp add: take_bit_int_eq_self)
  have "push_bit 4 n AND take_bit 4 k = 0"
    by (rule bit_eqI) (auto simp: bit_simps)
  then have "push_bit 4 n + take_bit 4 k = push_bit 4 n OR take_bit 4 k"
    by (rule disjunctive_add_eq_or)
  then show ?thesis using k by (simp add: push_bit_eq_mult)
qed

lemma and_15: "x AND 15 = x mod 16" for x :: int
  using take_bit_eq_mask [of 4 x] by (simp add: take_bit_eq_mod mask_eq_exp_minus_1)

lemma ulaw2linear_codes:
  "list_all (\<lambda>s. list_all (\<lambda>k.
       ulaw2linear (word_of_int (16 * int s + k) XOR 0xFF) = (8 * k + 132) * 2 ^ s - 132
     \<and> ulaw2linear (word_of_int (16 * int s + k) XOR 0x7F) = 132 - (8 * k + 132) * 2 ^ s) [0..15]) [0..<8]"
  by code_simp

lemma alaw2linear_codes:
  "list_all (\<lambda>s. list_all (\<lambda>k.
       alaw2linear (word_of_int (16 * int s + k) XOR 0xD5)
         = (if s = 0 then 16 * k + 8 else (16 * k + 264) * 2 ^ (s - 1))
     \<and> alaw2linear (word_of_int (16 * int s + k) XOR 0x55)
         = - (if s = 0 then 16 * k + 8 else (16 * k + 264) * 2 ^ (s - 1))) [0..15]) [0..<8]"
  by code_simp

lemma segment_error:
  fixes v :: int
  assumes "2 ^ (s + 7) \<le> v" "v < 2 ^ (s + 8)"
  shows "0 \<le> v div 2 ^ (s + 3) - 16" "v div 2 ^ (s + 3) - 16 < 16"
    "\<bar>(8 * (v div 2 ^ (s + 3) - 16) + 132) * 2 ^ s - v\<bar> \<le> v div 32"
proof -
  define d :: int where "d = 2 ^ s"
  define q where "q = v div (8 * d)"
  have d: "0 < d" by (simp add: d_def)
  have pw: "2 ^ (s + 3) = 8 * d" "2 ^ (s + 7) = 128 * d" "2 ^ (s + 8) = 256 * d"
    by (simp_all add: d_def power_add)
  have dm: "8 * d * q + v mod (8 * d) = v" "0 \<le> v mod (8 * d)" "v mod (8 * d) < 8 * d"
    using d by (simp_all add: q_def)
  have d8: "0 < 8 * d" using d by simp
  have "8 * d * (q + 1) = 8 * d * q + 8 * d" by (simp add: algebra_simps)
  then have "8 * d * 16 < 8 * d * (q + 1)" using dm assms(1) unfolding pw by linarith
  then have "16 < q + 1" by (rule iffD1 [OF mult_less_cancel_left_pos [OF d8]])
  moreover have "8 * d * q < 8 * d * 32" using dm assms(2) unfolding pw by linarith
  then have "q < 32" by (rule iffD1 [OF mult_less_cancel_left_pos [OF d8]])
  moreover have "128 * d div 32 \<le> v div 32"
    using assms(1) by (intro zdiv_mono1) (simp_all add: pw)
  moreover have "(8 * (q - 16) + 132) * d - v = 4 * d - v mod (8 * d)"
  proof -
    have "(8 * (q - 16) + 132) * d = 8 * d * q + 4 * d" by (simp add: algebra_simps)
    then show ?thesis using dm(1) by linarith
  qed
  ultimately show "0 \<le> v div 2 ^ (s + 3) - 16" "v div 2 ^ (s + 3) - 16 < 16"
    "\<bar>(8 * (v div 2 ^ (s + 3) - 16) + 132) * 2 ^ s - v\<bar> \<le> v div 32"
    using dm(2,3) unfolding pw d_def [symmetric] q_def [symmetric] by linarith+
qed

lemma mod_16: "16 \<le> q \<Longrightarrow> q < 32 \<Longrightarrow> q mod 16 = q - 16" for q :: int
  by presburger

lemma linear2ulaw_segment:
  assumes v: "132 \<le> v" "v \<le> 0x7FFF"
  obtains s k where "s < 8" "0 \<le> k" "k < 16" "\<bar>(8 * k + 132) * 2 ^ s - v\<bar> \<le> v div 32"
    "\<And>m :: u8. word_of_int (int (push_bit 4 (search v seg_end)) OR (shr v (search v seg_end + 3) AND 0xF)) XOR m
       = word_of_int (16 * int s + k) XOR m" "\<not> search v seg_end \<ge> 8"
proof -
  define s where "s = search v seg_end"
  define k where "k = v div 2 ^ (s + 3) - 16"
  note seg = search_seg [OF v(2), folded s_def]
  have "2 ^ (s + 7) \<le> v" using seg(3) v(1) by auto
  note err = segment_error [OF this seg(2), folded k_def]
  have "shr v (s + 3) AND 0xF = k"
    using err(1,2) mod_16 [of "v div 2 ^ (s + 3)"]
    unfolding k_def by (simp add: drop_bit_eq_div and_15)
  then have "int (push_bit 4 s) OR (shr v (s + 3) AND 0xF) = 16 * int s + k"
    using segment_or [OF err(1,2), of "int s"] by (simp add: of_nat_push_bit)
  then show ?thesis using that [of s k] seg(1) err unfolding s_def by simp
qed

lemma ulaw_code_value:
  assumes "s < 8" "0 \<le> k" "k < 16"
  shows "ulaw2linear (word_of_int (16 * int s + k) XOR 0xFF) = (8 * k + 132) * 2 ^ s - 132"
    "ulaw2linear (word_of_int (16 * int s + k) XOR 0x7F) = 132 - (8 * k + 132) * 2 ^ s"
proof -
  have "s \<in> set [0..<8]" "k \<in> set [0..15]" using assms by simp_all
  then have "ulaw2linear (word_of_int (16 * int s + k) XOR 0xFF) = (8 * k + 132) * 2 ^ s - 132
      \<and> ulaw2linear (word_of_int (16 * int s + k) XOR 0x7F) = 132 - (8 * k + 132) * 2 ^ s"
    using ulaw2linear_codes unfolding list_all_iff by blast
  then show "ulaw2linear (word_of_int (16 * int s + k) XOR 0xFF) = (8 * k + 132) * 2 ^ s - 132"
    "ulaw2linear (word_of_int (16 * int s + k) XOR 0x7F) = 132 - (8 * k + 132) * 2 ^ s" by auto
qed

lemma ulaw_extremes: "ulaw2linear 0x80 = 32124" "ulaw2linear 0 = - 32124"
  by code_simp+

text \<open>
  U-law quantisation: for every 16-bit sample the value that comes back from a conversion to
  u-law differs from it by at most one thirty-second of its biased magnitude, samples beyond the
  last segment included.
\<close>

theorem ulaw_error:
  assumes "- 32768 \<le> x" "x \<le> 32767"
  shows "\<bar>ulaw2linear (linear2ulaw x) - x\<bar> \<le> (\<bar>x\<bar> + 132) div 32"
proof -
  have "\<bar>ulaw2linear (linear2ulaw x) - x\<bar> \<le> (x + 132) div 32" if x: "0 \<le> x" "x \<le> 32767"
  proof (cases "x + 132 \<le> 0x7FFF")
    case True
    have "132 \<le> x + 132" using x by simp
    then obtain s k where "s < 8" "0 \<le> k" "k < 16"
        "\<bar>(8 * k + 132) * 2 ^ s - (x + 132)\<bar> \<le> (x + 132) div 32"
        "linear2ulaw x = word_of_int (16 * int s + k) XOR 0xFF"
      using x True by (elim linear2ulaw_segment) (simp_all add: linear2ulaw_def Let_def)
    then show ?thesis using ulaw_code_value(1) [of s k] by simp
  next
    case False
    then have "linear2ulaw x = 0x80"
      using x search_over [of "x + 132"] by (simp add: linear2ulaw_def Let_def)
    then show ?thesis using x False by (simp add: ulaw_extremes)
  qed
  moreover have "\<bar>ulaw2linear (linear2ulaw x) - x\<bar> \<le> (- x + 132) div 32" if x: "x < 0" "- 32768 \<le> x"
  proof (cases "132 - x \<le> 0x7FFF")
    case True
    have "132 \<le> 132 - x" using x by simp
    then obtain s k where "s < 8" "0 \<le> k" "k < 16"
        "\<bar>(8 * k + 132) * 2 ^ s - (132 - x)\<bar> \<le> (132 - x) div 32"
        "linear2ulaw x = word_of_int (16 * int s + k) XOR 0x7F"
      using x True by (elim linear2ulaw_segment) (simp_all add: linear2ulaw_def Let_def)
    then show ?thesis using ulaw_code_value(2) [of s k] by simp
  next
    case False
    then have "linear2ulaw x = 0"
      using x search_over [of "132 - x"] by (simp add: linear2ulaw_def Let_def)
    then show ?thesis using x False by (simp add: ulaw_extremes)
  qed
  ultimately show ?thesis using assms by (cases "0 \<le> x") auto
qed

definition alaw_level :: "nat \<Rightarrow> int \<Rightarrow> int" where
  "alaw_level s k = (if s = 0 then 16 * k + 8 else (16 * k + 264) * 2 ^ (s - 1))"

lemma alaw_code_value:
  assumes "s < 8" "0 \<le> k" "k < 16"
  shows "alaw2linear (word_of_int (16 * int s + k) XOR 0xD5) = alaw_level s k"
    "alaw2linear (word_of_int (16 * int s + k) XOR 0x55) = - alaw_level s k"
proof -
  have "s \<in> set [0..<8]" "k \<in> set [0..15]" using assms by simp_all
  then have "alaw2linear (word_of_int (16 * int s + k) XOR 0xD5) = alaw_level s k
      \<and> alaw2linear (word_of_int (16 * int s + k) XOR 0x55) = - alaw_level s k"
    using alaw2linear_codes unfolding list_all_iff alaw_level_def by blast
  then show "alaw2linear (word_of_int (16 * int s + k) XOR 0xD5) = alaw_level s k"
    "alaw2linear (word_of_int (16 * int s + k) XOR 0x55) = - alaw_level s k" by auto
qed

lemma word_or_of_int: "word_of_int a OR word_of_int b = (word_of_int (a OR b) :: 'a::len word)"
  by (rule bit_word_eqI) (auto simp: bit_simps)

lemma linear2alaw_segment:
  assumes v: "0 \<le> v" "v \<le> 0x7FFF"
  obtains s k where "s < 8" "0 \<le> k" "k < 16" "\<bar>alaw_level s k - v\<bar> \<le> max 8 (v div 32)"
    "(word_of_int (int (push_bit 4 (search v seg_end))) OR
        (if search v seg_end < 2 then word_of_int (shr v 4 AND 0xf)
         else word_of_int (shr v (search v seg_end + 3) AND 0xf)) :: u8) = word_of_int (16 * int s + k)"
proof -
  define s where "s = search v seg_end"
  note seg = search_seg [OF v(2), folded s_def]
  define e where "e = (if s < 2 then 4 else s + 3)"
  define k where "k = shr v e AND 0xf"
  have k: "0 \<le> k" "k < 16" by (simp_all add: k_def and_15)
  have "\<bar>alaw_level s k - v\<bar> \<le> max 8 (v div 32)"
  proof (cases "s = 0")
    case True
    have "v < 256" using seg(2) True by simp
    moreover have "k = v div 16" using \<open>v < 256\<close> v(1) True
      by (simp add: k_def e_def drop_bit_eq_div and_15 mod_pos_pos_trivial)
    ultimately have "alaw_level s k = 16 * (v div 16) + 8" using True by (simp add: alaw_level_def)
    then show ?thesis by linarith
  next
    case False
    then have "2 ^ (s + 7) \<le> v" using seg(3) by auto
    note err = segment_error [OF this seg(2)]
    have e: "e = s + 3" using False by (auto simp: e_def)
    have "k = v div 2 ^ (s + 3) - 16"
      using err(1,2) mod_16 [of "v div 2 ^ (s + 3)"] by (simp add: k_def e drop_bit_eq_div and_15)
    moreover have "alaw_level s j = (8 * j + 132) * 2 ^ s" for j
      using False by (cases s) (simp_all add: alaw_level_def)
    ultimately show ?thesis using err(3) by simp
  qed
  moreover have "word_of_int (int (push_bit 4 s)) OR (if s < 2 then word_of_int (shr v 4 AND 0xf)
         else word_of_int (shr v (s + 3) AND 0xf)) = (word_of_int (16 * int s + k) :: u8)"
  proof -
    have "int (push_bit 4 s) OR k = 16 * int s + k"
      using segment_or [OF k, of "int s"] by (simp add: of_nat_push_bit)
    moreover have "(if s < 2 then word_of_int (shr v 4 AND 0xf)
         else word_of_int (shr v (s + 3) AND 0xf)) = (word_of_int k :: u8)"
      by (simp add: k_def e_def)
    ultimately show ?thesis by (simp only: word_or_of_int)
  qed
  ultimately show ?thesis using that [of s k] seg(1) k unfolding s_def by blast
qed

lemma linear2alaw_byte:
  assumes "v = (if x \<ge> 0 then x else - x - 8)" "search v seg_end < 8"
  shows "linear2alaw x
       = (word_of_int (int (push_bit 4 (search v seg_end))) OR
          (if search v seg_end < 2 then word_of_int (shr v 4 AND 0xf)
           else word_of_int (shr v (search v seg_end + 3) AND 0xf)))
         XOR (if x \<ge> 0 then 0xD5 else 0x55)"
  using assms by (auto simp: linear2alaw_def Let_def)

text \<open>
  A-law quantisation: a 16-bit sample comes back with an error of at most a thirty-second of
  its magnitude (at least 8), negative ones with 8 more because the encoder truncates them; but
  the seven samples from -7 to -1 come back as -248, since \<open>- pcm_val - 8\<close> is negative there.
\<close>

theorem alaw_error:
  assumes "- 32768 \<le> x" "x \<le> 32767"
  shows "if - 8 < x \<and> x < 0 then alaw2linear (linear2alaw x) = - 248
         else \<bar>alaw2linear (linear2alaw x) - x\<bar> \<le> (if x < 0 then 8 else 0) + max 8 (\<bar>x\<bar> div 32)"
proof -
  consider "- 8 < x" "x < 0" | "0 \<le> x" | "x \<le> - 8" by linarith
  then show ?thesis
  proof cases
    case 1
    have "list_all (\<lambda>x. alaw2linear (linear2alaw x) = - 248) [-7..-1]"
      by code_simp
    moreover have "x \<in> set [-7..-1]" using 1 by simp
    ultimately show ?thesis using 1 unfolding list_all_iff by simp
  next
    case 2
    have "x \<le> 0x7FFF" using assms by simp
    note seg = linear2alaw_byte [OF _ search_seg(1) [OF this], of x]
    obtain s k where "s < 8" "0 \<le> k" "k < 16" "\<bar>alaw_level s k - x\<bar> \<le> max 8 (x div 32)"
        "linear2alaw x = word_of_int (16 * int s + k) XOR 0xD5"
    proof (rule linear2alaw_segment [OF 2 \<open>x \<le> 0x7FFF\<close>])
      fix s k
      assume "s < 8" "0 \<le> k" "k < 16" "\<bar>alaw_level s k - x\<bar> \<le> max 8 (x div 32)"
        and w: "(word_of_int (int (push_bit 4 (search x seg_end))) OR
          (if search x seg_end < 2 then word_of_int (shr x 4 AND 0xf)
           else word_of_int (shr x (search x seg_end + 3) AND 0xf)) :: u8) = word_of_int (16 * int s + k)"
      moreover have "linear2alaw x = word_of_int (16 * int s + k) XOR 0xD5"
        using seg 2 unfolding w by simp
      ultimately show ?thesis by - (rule that)
    qed
    then show ?thesis using alaw_code_value(1) [of s k] 2 by simp
  next
    case 3
    have "0 \<le> - x - 8" "- x - 8 \<le> 0x7FFF" using assms 3 by simp_all
    note v = this and seg = linear2alaw_byte [OF _ search_seg(1) [OF this(2)], of x]
    obtain s k where sk: "s < 8" "0 \<le> k" "k < 16"
        "\<bar>alaw_level s k - (- x - 8)\<bar> \<le> max 8 ((- x - 8) div 32)"
        "linear2alaw x = word_of_int (16 * int s + k) XOR 0x55"
    proof (rule linear2alaw_segment [OF v])
      fix s k
      assume "s < 8" "0 \<le> k" "k < 16" "\<bar>alaw_level s k - (- x - 8)\<bar> \<le> max 8 ((- x - 8) div 32)"
        and w: "(word_of_int (int (push_bit 4 (search (- x - 8) seg_end))) OR
          (if search (- x - 8) seg_end < 2 then word_of_int (shr (- x - 8) 4 AND 0xf)
           else word_of_int (shr (- x - 8) (search (- x - 8) seg_end + 3) AND 0xf)) :: u8)
          = word_of_int (16 * int s + k)"
      moreover have "linear2alaw x = word_of_int (16 * int s + k) XOR 0x55"
        using seg 3 unfolding w by simp
      ultimately show ?thesis by - (rule that)
    qed
    have "(- x - 8) div 32 \<le> (- x) div 32" by (rule zdiv_mono1) simp_all
    then show ?thesis using sk alaw_code_value(2) [of s k] 3 by simp
  qed
qed

theorem alaw_error_witness:
  "\<bar>alaw2linear (linear2alaw 1000) - 1000\<bar> \<le> 31 \<and> alaw2linear (linear2alaw (- 1)) = - 248"
  using alaw_error [of 1000] alaw_error [of "- 1"] by simp

theorem ulaw_error_witness:
  "\<bar>ulaw2linear (linear2ulaw (- 32768)) - (- 32768)\<bar> \<le> 1028"
  using ulaw_error [of "- 32768"] by simp

end
