(* ===== verification/G72x.thy ===== *)
theory G72x
  imports G711
begin

text \<open>
  The routines the G.721 and G.723 coders share, \<open>g72x/g72x.c\<close>: the coder state, the
  predictors, the adaptive quantiser, the state update and the tandem adjustment.  A \<open>short\<close>
  variable is an integer that goes through \<open>c_short\<close> at every assignment.  The lemmas give the
  ranges that the state keeps.
\<close>

declare One_nat_def [simp del]

section \<open>State and helpers\<close>

record g72x_state =
  yl :: int
  yu :: int
  dms :: int
  dml :: int
  ap :: int
  a_coef :: "int list"
  b_coef :: "int list"
  pk :: "int list"
  dq :: "int list"
  sr :: "int list"
  td :: int

definition power2_table :: "int list" where
  "power2_table = [1, 2, 4, 8, 0x10, 0x20, 0x40, 0x80, 0x100, 0x200, 0x400, 0x800, 0x1000, 0x2000, 0x4000]"

text \<open>The first index whose entry is above \<open>val\<close>.\<close>

fun quan :: "int \<Rightarrow> int list \<Rightarrow> int" where
  "quan val [] = 0"
| "quan val (x # table) = (if val < x then 0 else 1 + quan val table)"

definition fmult :: "int \<Rightarrow> int \<Rightarrow> int" where
  "fmult an srn =
     (let anmag = c_short (if an > 0 then an else (- an) AND 0x1FFF);
          anexp = c_short (quan anmag power2_table - 6);
          anmant = c_short (if anmag = 0 then 32
                            else if anexp \<ge> 0 then shr anmag (nat anexp) else shl anmag (nat (- anexp)));
          wanexp = c_short (anexp + (shr srn 6 AND 0xF) - 13);
          wanmant = c_short (shr (anmant * (srn AND 0x3F) + 0x30) 4);
          retval = c_short (if wanexp \<ge> 0 then shl wanmant (nat wanexp) AND 0x7FFF
                            else shr wanmant (nat (- wanexp)))
      in if (an XOR srn) < 0 then - retval else retval)"

definition g72x_init_state :: g72x_state where
  "g72x_init_state =
     \<lparr> yl = 34816, yu = 544, dms = 0, dml = 0, ap = 0,
       a_coef = replicate 2 0, b_coef = replicate 6 0, pk = replicate 2 0,
       dq = replicate 6 32, sr = replicate 2 32, td = 0 \<rparr>"

definition predictor_zero :: "g72x_state \<Rightarrow> int" where
  "predictor_zero st =
     foldl (\<lambda>sezi i. sezi + fmult (shr (b_coef st ! i) 2) (dq st ! i))
       (fmult (shr (b_coef st ! 0) 2) (dq st ! 0)) [1..<6]"

definition predictor_pole :: "g72x_state \<Rightarrow> int" where
  "predictor_pole st =
     fmult (shr (a_coef st ! 1) 2) (sr st ! 1) + fmult (shr (a_coef st ! 0) 2) (sr st ! 0)"

definition step_size :: "g72x_state \<Rightarrow> int" where
  "step_size st =
     (if ap st \<ge> 256 then yu st
      else let y = shr (yl st) 6; dif = yu st - y; al = shr (ap st) 2
           in if dif > 0 then y + shr (dif * al) 6
              else if dif < 0 then y + shr (dif * al + 0x3F) 6
              else y)"

section \<open>The quantiser\<close>

definition quantize :: "int \<Rightarrow> int \<Rightarrow> int list \<Rightarrow> int \<Rightarrow> int" where
  "quantize d y table sz =
     (let dqm = c_short \<bar>d\<bar>;
          exp = c_short (quan (shr dqm 1) power2_table);
          mant = c_short (shr (shl dqm 7) (nat exp) AND 0x7F);
          dl = c_short (shl exp 7 + mant);
          dln = c_short (dl - shr y 2);
          i = quan dln (take (nat sz) table)
      in if d < 0 then shl sz 1 + 1 - i
         else if i = 0 then shl sz 1 + 1
         else i)"

definition reconstruct :: "int \<Rightarrow> int \<Rightarrow> int \<Rightarrow> int" where
  "reconstruct sign dqln y =
     (let dql = c_short (dqln + shr y 2)
      in if dql < 0 then (if sign \<noteq> 0 then - 0x8000 else 0)
         else let dex = c_short (shr dql 7 AND 15);
                  dqt = c_short (128 + (dql AND 127));
                  dq = c_short (shr (shl dqt 7) (nat (14 - dex)))
              in if sign \<noteq> 0 then dq - 0x8000 else dq)"

section \<open>The state update\<close>

text \<open>TRANS: the transition detector.\<close>

definition transition :: "g72x_state \<Rightarrow> int \<Rightarrow> bool" where
  "transition st mag =
     (let ylint = c_short (shr (yl st) 15);
          ylfrac = c_short (shr (yl st) 10 AND 0x1F);
          thr1 = c_short (shl (32 + ylfrac) (nat ylint));
          thr2 = c_short (if ylint > 9 then shl 31 10 else thr1);
          dqthr = c_short (shr (thr2 + shr thr2 1) 1)
      in \<not> (td st = 0) \<and> \<not> (mag \<le> dqthr))"

text \<open>FUNCTW, FILTD, LIMB and FILTE: the scale factors \<open>(yu, yl)\<close>.\<close>

definition scale_factors :: "g72x_state \<Rightarrow> int \<Rightarrow> int \<Rightarrow> int \<times> int" where
  "scale_factors st y wi =
     (let yu' = c_short (y + shr (wi - y) 5);
          yu' = (if yu' < 544 then 544 else if yu' > 5120 then 5120 else yu')
      in (yu', yl st + yu' + shr (- yl st) 6))"

text \<open>UPA2 and LIMC: the new \<open>a[1]\<close>.\<close>

definition limc :: "bool \<Rightarrow> int \<Rightarrow> int" where
  "limc differ a2p =
     (if differ then (if a2p \<le> - 12160 then - 12288
                      else if a2p \<ge> 12416 then 12288
                      else c_short (a2p - 0x80))
      else if a2p \<le> - 12416 then - 12288
      else if a2p \<ge> 12160 then 12288
      else c_short (a2p + 0x80))"

definition update_a2p :: "g72x_state \<Rightarrow> int \<Rightarrow> int \<Rightarrow> int" where
  "update_a2p st pk0 dqsez =
     (let pks1 = c_short (pk0 XOR pk st ! 0);
          a2p = c_short (a_coef st ! 1 - shr (a_coef st ! 1) 7)
      in if dqsez \<noteq> 0 then
           (let fa1 = c_short (if pks1 \<noteq> 0 then a_coef st ! 0 else - (a_coef st ! 0));
                a2p = (if fa1 < - 8191 then c_short (a2p - 0x100)
                       else if fa1 > 8191 then c_short (a2p + 0xFF)
                       else c_short (a2p + shr fa1 5))
            in limc ((pk0 XOR pk st ! 1) \<noteq> 0) a2p)
         else a2p)"

text \<open>UPA1 and LIMD: the new \<open>a[0]\<close>.\<close>

definition update_a0 :: "g72x_state \<Rightarrow> int \<Rightarrow> int \<Rightarrow> int \<Rightarrow> int" where
  "update_a0 st pk0 dqsez a2p =
     (let pks1 = c_short (pk0 XOR pk st ! 0);
          a0 = c_short (a_coef st ! 0 - shr (a_coef st ! 0) 8);
          a0 = (if dqsez \<noteq> 0 then (if pks1 = 0 then c_short (a0 + 192) else c_short (a0 - 192)) else a0);
          a1ul = c_short (15360 - a2p)
      in if a0 < - a1ul then c_short (- a1ul) else if a0 > a1ul then a1ul else a0)"

text \<open>UPB: a zero of the predictor.\<close>

definition update_b :: "int \<Rightarrow> int \<Rightarrow> int \<Rightarrow> int \<Rightarrow> int" where
  "update_b code_size d b q =
     (let b = c_short (if code_size = 5 then b - shr b 9 else b - shr b 8)
      in if d AND 0x7FFF \<noteq> 0
         then (if (d XOR q) \<ge> 0 then c_short (b + 128) else c_short (b - 128))
         else b)"

text \<open>FLOAT A and FLOAT B: conversion to a 4-bit exponent and a 6-bit mantissa.\<close>

definition float_a :: "int \<Rightarrow> int \<Rightarrow> int" where
  "float_a mag d =
     (if mag = 0 then (if d \<ge> 0 then 0x20 else c_short 0xFC20)
      else let exp = c_short (quan mag power2_table)
           in if d \<ge> 0 then c_short (shl exp 6 + shr (shl mag 6) (nat exp))
              else c_short (shl exp 6 + shr (shl mag 6) (nat exp) - 0x400))"

definition float_b :: "int \<Rightarrow> int" where
  "float_b s =
     (if s = 0 then 0x20
      else if s > 0 then (let exp = c_short (quan s power2_table) in c_short (shl exp 6 + shr (shl s 6) (nat exp)))
      else if s > - 32768 then
        (let mag = c_short (- s); exp = c_short (quan mag power2_table)
         in c_short (shl exp 6 + shr (shl mag 6) (nat exp) - 0x400))
      else c_short 0xFC20)"

text \<open>The adaptation speed control.\<close>

definition speed_control :: "bool \<Rightarrow> int \<Rightarrow> int \<Rightarrow> int \<Rightarrow> int \<Rightarrow> int \<Rightarrow> int" where
  "speed_control tr y td' dms' dml' apv =
     (if tr then 256
      else if y < 1536 then c_short (apv + shr (0x200 - apv) 4)
      else if td' = 1 then c_short (apv + shr (0x200 - apv) 4)
      else if \<bar>shl dms' 2 - dml'\<bar> \<ge> shr dml' 3 then c_short (apv + shr (0x200 - apv) 4)
      else c_short (apv + shr (- apv) 4))"

definition update ::
  "int \<Rightarrow> int \<Rightarrow> int \<Rightarrow> int \<Rightarrow> int \<Rightarrow> int \<Rightarrow> int \<Rightarrow> g72x_state \<Rightarrow> g72x_state" where
  "update code_size y wi fi d s dqsez st =
     (let pk0 = (if dqsez < 0 then 1 else 0);
          mag = c_short (d AND 0x7FFF);
          tr = transition st mag;
          (yu', yl') = scale_factors st y wi;
          a2p = (if tr then 0 else update_a2p st pk0 dqsez);
          a = (if tr then (a_coef st)[0 := 0, 1 := 0]
               else (a_coef st)[1 := a2p, 0 := update_a0 st pk0 dqsez a2p]);
          b = (if tr then replicate 6 0
               else map (\<lambda>cnt. update_b code_size d (b_coef st ! cnt) (dq st ! cnt)) [0..<6]);
          td' = (if tr then 0 else if a2p < - 11776 then 1 else 0);
          dms' = c_short (dms st + shr (fi - dms st) 5);
          dml' = c_short (dml st + shr (shl fi 2 - dml st) 7)
      in \<lparr> yl = yl', yu = yu', dms = dms', dml = dml',
           ap = speed_control tr y td' dms' dml' (ap st),
           a_coef = a, b_coef = b,
           pk = [pk0, pk st ! 0],
           dq = float_a mag d # take 5 (dq st),
           sr = [float_b s, sr st ! 0],
           td = td' \<rparr>)"

section \<open>The tandem adjustment\<close>

definition c_char :: "int \<Rightarrow> int" where
  "c_char x = signed_take_bit 7 x"

definition tandem_adjust_alaw :: "int \<Rightarrow> int \<Rightarrow> int \<Rightarrow> int \<Rightarrow> int \<Rightarrow> int list \<Rightarrow> int" where
  "tandem_adjust_alaw s se y i sign qtab =
     (let s = (if s \<le> - 32768 then - 1 else s);
          sp = linear2alaw (shl (shr s 1) 3);
          dx = c_short (shr (alaw2linear sp) 2 - se);
          id = c_char (quantize dx y qtab (sign - 1))
      in if id = i then uint sp
         else let im = i XOR sign; imx = id XOR sign
              in if imx > im then
                   (if sp AND 0x80 \<noteq> 0
                    then (if sp = 0xD5 then 0x55 else ((uint sp XOR 0x55) - 1) XOR 0x55)
                    else (if sp = 0x2A then 0x2A else ((uint sp XOR 0x55) + 1) XOR 0x55))
                 else
                   (if sp AND 0x80 \<noteq> 0
                    then (if sp = 0xAA then 0xAA else ((uint sp XOR 0x55) + 1) XOR 0x55)
                    else (if sp = 0x55 then 0xD5 else ((uint sp XOR 0x55) - 1) XOR 0x55)))"

definition tandem_adjust_ulaw :: "int \<Rightarrow> int \<Rightarrow> int \<Rightarrow> int \<Rightarrow> int \<Rightarrow> int list \<Rightarrow> int" where
  "tandem_adjust_ulaw s se y i sign qtab =
     (let s = (if s \<le> - 32768 then 0 else s);
          sp = linear2ulaw (shl s 2);
          dx = c_short (shr (ulaw2linear sp) 2 - se);
          id = c_char (quantize dx y qtab (sign - 1))
      in if id = i then uint sp
         else let im = i XOR sign; imx = id XOR sign
              in if imx > im then
                   (if sp AND 0x80 \<noteq> 0 then (if sp = 0xFF then 0x7E else uint sp + 1)
                    else (if sp = 0 then 0 else uint sp - 1))
                 else
                   (if sp AND 0x80 \<noteq> 0 then (if sp = 0x80 then 0x80 else uint sp - 1)
                    else (if sp = 0x7F then 0xFE else uint sp + 1)))"

section \<open>The ranges of the state\<close>

definition is_short :: "int \<Rightarrow> bool" where
  "is_short x \<longleftrightarrow> - 32768 \<le> x \<and> x < 32768"

lemma is_short_0 [simp]: "is_short 0"
  by (simp add: is_short_def)

lemma is_short_c_short [simp]: "is_short (c_short x)"
  using c_short_range by (simp add: is_short_def)

text \<open>
  The pole coefficients are limited to \<open>|a[1]| \<le> 0.75\<close> and \<open>|a[0]| \<le> 0.9375 - a[1]\<close> (times
  16384), so that the predictor is stable; the scale factors, energies and the speed control stay
  in the ranges the recommendation gives them.
\<close>

definition g72x_inv :: "g72x_state \<Rightarrow> bool" where
  "g72x_inv st \<longleftrightarrow>
     34816 \<le> yl st \<and> yl st \<le> 327680 \<and> 544 \<le> yu st \<and> yu st \<le> 5120 \<and>
     0 \<le> dms st \<and> dms st \<le> 3584 \<and> 0 \<le> dml st \<and> dml st \<le> 14336 \<and>
     0 \<le> ap st \<and> ap st \<le> 512 \<and>
     length (a_coef st) = 2 \<and> \<bar>a_coef st ! 1\<bar> \<le> 12288 \<and> \<bar>a_coef st ! 0\<bar> \<le> 15360 - a_coef st ! 1 \<and>
     length (b_coef st) = 6 \<and> list_all is_short (b_coef st) \<and>
     length (pk st) = 2 \<and> set (pk st) \<subseteq> {0, 1} \<and>
     length (dq st) = 6 \<and> list_all is_short (dq st) \<and>
     length (sr st) = 2 \<and> list_all is_short (sr st) \<and>
     td st \<in> {0, 1}"

lemma shr_simps:
  "shr x 2 = x div 4" "shr x 4 = x div 16" "shr x 5 = x div 32" "shr x 6 = x div 64"
  "shr x 7 = x div 128" "shr x 8 = x div 256" "shl x 2 = 4 * x"
  by (simp_all add: drop_bit_eq_div push_bit_eq_mult)

lemma div_bounds:
  fixes x k :: int
  assumes "0 < k"
  shows "k * (x div k) \<le> x" "x < k * (x div k) + k"
  using assms mult_div_mod_eq [of k x] pos_mod_bound [OF assms, of x] pos_mod_sign [OF assms, of x]
  by linarith+

lemma clamp_range: "0 \<le> m \<Longrightarrow> \<bar>if r < - m then - m else if r > m then m else r\<bar> \<le> (m :: int)"
  by auto

lemma init_state_inv: "g72x_inv g72x_init_state"
  by (simp add: g72x_inv_def g72x_init_state_def is_short_def numeral_eq_Suc)

lemma step_size_range:
  assumes "g72x_inv st"
  shows "544 \<le> step_size st \<and> step_size st \<le> 5120"
proof -
  define y where "y = yl st div 64"
  define al where "al = ap st div 4"
  have y: "544 \<le> y" "y \<le> 5120" using assms by (auto simp: g72x_inv_def y_def)
  have u: "544 \<le> yu st" "yu st \<le> 5120" using assms by (auto simp: g72x_inv_def)
  show ?thesis
  proof (cases "ap st \<ge> 256")
    case True
    then show ?thesis using u by (simp add: step_size_def)
  next
    case False
    have al: "0 \<le> al" "al \<le> 63" using assms False by (auto simp: g72x_inv_def al_def)
    define d where "d = yu st - y"
    have "step_size st = (if d > 0 then y + (d * al) div 64 else if d < 0 then y + (d * al + 63) div 64 else y)"
      using False by (simp add: step_size_def Let_def shr_simps y_def d_def al_def)
    moreover have "0 \<le> (d * al) div 64 \<and> (d * al) div 64 \<le> d" if "d > 0"
    proof -
      have "0 \<le> d * al" "d * al \<le> d * 63" using that al by (auto intro: mult_left_mono)
      then show ?thesis using that div_bounds [of 64 "d * al"] by linarith
    qed
    moreover have "d \<le> (d * al + 63) div 64 \<and> (d * al + 63) div 64 \<le> 0" if "d < 0"
    proof -
      have "d * 63 \<le> d * al" "d * al \<le> 0"
        using that al by (auto intro: mult_left_mono_neg mult_nonpos_nonneg)
      then show ?thesis using that div_bounds [of 64 "d * al + 63"] by linarith
    qed
    ultimately show ?thesis using y u by (auto simp: d_def)
  qed
qed

lemma scale_factors_range:
  assumes "34816 \<le> yl st" "yl st \<le> 327680"
  shows "case scale_factors st y wi of (yu', yl') \<Rightarrow>
           544 \<le> yu' \<and> yu' \<le> 5120 \<and> 34816 \<le> yl' \<and> yl' \<le> 327680"
proof -
  have "34816 \<le> yl st + u + (- yl st) div 64 \<and> yl st + u + (- yl st) div 64 \<le> 327680"
    if "544 \<le> u" "u \<le> 5120" for u
    using assms that div_bounds [of 64 "- yl st"] by linarith
  then show ?thesis by (simp add: scale_factors_def Let_def shr_simps)
qed

lemma limc_range: "\<bar>limc differ r\<bar> \<le> 12288"
proof -
  have "c_short (r - 0x80) = r - 0x80" if "- 12160 < r" "r < 12416"
    using that by (intro c_short_id) simp_all
  moreover have "c_short (r + 0x80) = r + 0x80" if "- 12416 < r" "r < 12160"
    using that by (intro c_short_id) simp_all
  ultimately show ?thesis by (auto simp: limc_def not_le)
qed

lemma update_a2p_range:
  assumes "\<bar>a_coef st ! 1\<bar> \<le> 12288"
  shows "\<bar>update_a2p st pk0 dqsez\<bar> \<le> 12288"
proof -
  define q where "q = a_coef st ! 1 - a_coef st ! 1 div 128"
  have q: "- 12288 \<le> q" "q \<le> 12288" using assms div_bounds [of 128 "a_coef st ! 1"]
    unfolding q_def by linarith+
  then have a: "c_short (a_coef st ! 1 - shr (a_coef st ! 1) 7) = q"
    by (simp add: shr_simps q_def c_short_id)
  show ?thesis using q by (auto simp: update_a2p_def Let_def a limc_range)
qed

lemma update_a0_range:
  assumes "\<bar>a2p\<bar> \<le> 12288"
  shows "\<bar>update_a0 st pk0 dqsez a2p\<bar> \<le> 15360 - a2p"
proof -
  have "c_short (15360 - a2p) = 15360 - a2p" "c_short (a2p - 15360) = a2p - 15360"
    using assms by (auto intro!: c_short_id)
  then show ?thesis
    using assms clamp_range [of "15360 - a2p"] by (auto simp: update_a0_def Let_def)
qed

lemma speed_control_range:
  assumes "0 \<le> apv" "apv \<le> 512"
  shows "0 \<le> speed_control tr y td' dms' dml' apv \<and> speed_control tr y td' dms' dml' apv \<le> 512"
proof -
  have "0 \<le> apv + (512 - apv) div 16 \<and> apv + (512 - apv) div 16 \<le> 512"
    "0 \<le> apv + (- apv) div 16 \<and> apv + (- apv) div 16 \<le> 512"
    using assms div_bounds [of 16 "512 - apv"] div_bounds [of 16 "- apv"] by linarith+
  then show ?thesis by (simp add: speed_control_def shr_simps c_short_id)
qed

lemma filter_range:
  assumes "0 \<le> x" "x \<le> m" "0 \<le> f" "f \<le> m" "m < 32768" "0 < k"
  shows "0 \<le> c_short (x + (f - x) div k) \<and> c_short (x + (f - x) div k) \<le> (m :: int)"
proof -
  have "x + (f - x) div k = ((k - 1) * x + f) div k"
    using assms(6) by (simp add: algebra_simps flip: div_mult_self1)
  moreover have "0 \<le> (k - 1) * x + f" using assms by simp
  moreover have "(k - 1) * x + f \<le> (k - 1) * m + m"
    using assms by (intro add_mono mult_left_mono) auto
  then have "((k - 1) * x + f) div k \<le> m"
    using assms(6) zdiv_mono1 [of "(k - 1) * x + f" "k * m" k] by (simp add: algebra_simps)
  moreover have "0 \<le> ((k - 1) * x + f) div k" using calculation assms(6) by (simp add: pos_imp_zdiv_nonneg_iff)
  ultimately show ?thesis using assms(5) by (simp add: c_short_id)
qed

lemma update_b_short [simp]: "is_short (update_b cs d b q)"
  by (simp add: update_b_def Let_def)

lemma float_short [simp]: "is_short (float_a mag d)" "is_short (float_b s)"
  by (simp_all add: float_a_def float_b_def Let_def) (simp_all add: is_short_def)

lemma update_inv:
  assumes inv: "g72x_inv st" and fi: "0 \<le> fi" "fi \<le> 3584"
  shows "g72x_inv (update cs y wi fi d s dqsez st)"
proof -
  define tr where "tr = transition st (c_short (d AND 0x7FFF))"
  define pk0 :: int where "pk0 = (if dqsez < 0 then 1 else 0)"
  define a2p where "a2p = (if tr then 0 else update_a2p st pk0 dqsez)"
  have len: "length (a_coef st) = 2" "length (dq st) = 6" "length (sr st) = 2" "length (pk st) = 2"
    using inv by (auto simp: g72x_inv_def)
  have a2p: "\<bar>a2p\<bar> \<le> 12288" using inv update_a2p_range by (simp add: a2p_def g72x_inv_def)
  have in2: "xs ! 0 \<in> set xs" if "length xs = 2" for xs :: "int list" using that by simp
  have heads: "pk st ! 0 \<in> {0, 1}" "is_short (sr st ! 0)" "list_all is_short (take 5 (dq st))"
  proof -
    have "set (pk st) \<subseteq> {0, 1}" "list_all is_short (sr st)" "list_all is_short (dq st)"
      using inv by (simp_all add: g72x_inv_def)
    then show "pk st ! 0 \<in> {0, 1}" "is_short (sr st ! 0)" "list_all is_short (take 5 (dq st))"
      using in2 [OF len(4)] in2 [OF len(3)]
      by (blast, simp add: list_all_iff, auto simp: list_all_iff dest: in_set_takeD)
  qed
  have yy: "34816 \<le> yl st" "yl st \<le> 327680" using inv by (auto simp: g72x_inv_def)
  have dd: "0 \<le> c_short (dms st + shr (fi - dms st) 5) \<and> c_short (dms st + shr (fi - dms st) 5) \<le> 3584"
    "0 \<le> c_short (dml st + shr (shl fi 2 - dml st) 7) \<and> c_short (dml st + shr (shl fi 2 - dml st) 7) \<le> 14336"
    unfolding shr_simps using inv fi by (intro filter_range; simp add: g72x_inv_def)+
  have ap: "0 \<le> speed_control tr y t m l (ap st) \<and> speed_control tr y t m l (ap st) \<le> 512" for t m l
    using inv by (intro speed_control_range) (auto simp: g72x_inv_def)
  obtain yu' yl' where sf: "scale_factors st y wi = (yu', yl')" by (cases "scale_factors st y wi")
  show ?thesis
    using scale_factors_range [OF yy, of y wi] a2p update_a0_range [OF a2p, of st pk0 dqsez] dd ap heads len
    unfolding update_def Let_def tr_def [symmetric] pk0_def [symmetric] a2p_def [symmetric] sf
    by (auto simp: g72x_inv_def list_all_iff is_short_def [symmetric] nth_list_update pk0_def a2p_def)
qed

end
