(* ===== verification/G72x_Codecs.thy ===== *)
theory G72x_Codecs
  imports G72x
begin

text \<open>
  The coders \<open>g72x/g721.c\<close>, \<open>g723_24.c\<close> and \<open>g723_40.c\<close>, each a pair of functions over the common
  state.  The lemmas show that every call keeps the state in its ranges, that encoders produce
  codes of the right width, and that a decoder that is fed the codes follows the state of the
  encoder.
\<close>

definition AUDIO_ENCODING_ULAW :: int where "AUDIO_ENCODING_ULAW = 1"
definition AUDIO_ENCODING_ALAW :: int where "AUDIO_ENCODING_ALAW = 2"
definition AUDIO_ENCODING_LINEAR :: int where "AUDIO_ENCODING_LINEAR = 3"

text \<open>The switch at the head of every encoder: the input as 14-bit PCM, if its coding is known.\<close>

definition linearize :: "int \<Rightarrow> int \<Rightarrow> int option" where
  "linearize sl in_coding =
     (if in_coding = AUDIO_ENCODING_ALAW then Some (shr (alaw2linear (word_of_int sl)) 2)
      else if in_coding = AUDIO_ENCODING_ULAW then Some (shr (ulaw2linear (word_of_int sl)) 2)
      else if in_coding = AUDIO_ENCODING_LINEAR then Some (shr sl 2)
      else None)"

section \<open>G.721, 32 kbit/s\<close>

definition dqlntab_721 :: "int list" where
  "dqlntab_721 =
    [-2048, 4, 135, 213, 273, 323, 373, 425, 425, 373, 323, 273, 213, 135, 4, -2048]"

definition witab_721 :: "int list" where
  "witab_721 =
    [-12, 18, 41, 64, 112, 198, 355, 1122, 1122, 355, 198, 112, 64, 41, 18, -12]"

definition fitab_721 :: "int list" where
  "fitab_721 =
    [0, 0, 0, 0x200, 0x200, 0x200, 0x600, 0xE00, 0xE00, 0x600, 0x200, 0x200, 0x200, 0, 0, 0]"

definition qtab_721 :: "int list" where
  "qtab_721 =
    [-124, 80, 178, 246, 300, 349, 400]"

definition g721_encoder :: "int \<Rightarrow> int \<Rightarrow> g72x_state \<Rightarrow> int \<times> g72x_state" where
  "g721_encoder sl in_coding st =
     (case linearize sl in_coding of
        None \<Rightarrow> (- 1, st)
      | Some sl \<Rightarrow>
          let sezi = c_short (predictor_zero st); sez = c_short (shr sezi 1);
              se = c_short (shr (sezi + predictor_pole st) 1);
              d = c_short (sl - se);
              y = c_short (step_size st);
              i = c_short (quantize d y qtab_721 7);
              q = c_short (reconstruct (i AND 8) (dqlntab_721 ! nat i) y);
              s = c_short (if q < 0 then se - (q AND 0x3FFF) else se + q);
              dqsez = c_short (s + sez - se)
          in (i, update 4 y (shl (witab_721 ! nat i) 5) (fitab_721 ! nat i) q s dqsez st))"

definition g721_decoder :: "int \<Rightarrow> int \<Rightarrow> g72x_state \<Rightarrow> int \<times> g72x_state" where
  "g721_decoder i out_coding st =
     (let i = i AND 0x0f;
          sezi = c_short (predictor_zero st); sez = c_short (shr sezi 1);
          sei = c_short (sezi + predictor_pole st); se = c_short (shr sei 1);
          y = c_short (step_size st);
          q = c_short (reconstruct (i AND 8) (dqlntab_721 ! nat i) y);
          s = c_short (if q < 0 then se - (q AND 0x3FFF) else se + q);
          dqsez = c_short (s - se + sez);
          st' = update 4 y (shl (witab_721 ! nat i) 5) (fitab_721 ! nat i) q s dqsez st
      in (if out_coding = AUDIO_ENCODING_ALAW then tandem_adjust_alaw s se y i 8 qtab_721
          else if out_coding = AUDIO_ENCODING_ULAW then tandem_adjust_ulaw s se y i 8 qtab_721
          else if out_coding = AUDIO_ENCODING_LINEAR then shl s 2
          else - 1, st'))"

section \<open>G.723, 24 kbit/s\<close>

definition dqlntab_24 :: "int list" where
  "dqlntab_24 =
    [-2048, 135, 273, 373, 373, 273, 135, -2048]"

definition witab_24 :: "int list" where
  "witab_24 =
    [-128, 960, 4384, 18624, 18624, 4384, 960, -128]"

definition fitab_24 :: "int list" where
  "fitab_24 =
    [0, 0x200, 0x400, 0xE00, 0xE00, 0x400, 0x200, 0]"

definition qtab_24 :: "int list" where
  "qtab_24 =
    [8, 218, 331]"

definition g723_24_encoder :: "int \<Rightarrow> int \<Rightarrow> g72x_state \<Rightarrow> int \<times> g72x_state" where
  "g723_24_encoder sl in_coding st =
     (case linearize sl in_coding of
        None \<Rightarrow> (- 1, st)
      | Some sl \<Rightarrow>
          let sezi = c_short (predictor_zero st); sez = c_short (shr sezi 1);
              sei = c_short (sezi + predictor_pole st); se = c_short (shr sei 1);
              d = c_short (sl - se);
              y = c_short (step_size st);
              i = c_short (quantize d y qtab_24 3);
              q = c_short (reconstruct (i AND 4) (dqlntab_24 ! nat i) y);
              s = c_short (if q < 0 then se - (q AND 0x3FFF) else se + q);
              dqsez = c_short (s + sez - se)
          in (i, update 3 y (witab_24 ! nat i) (fitab_24 ! nat i) q s dqsez st))"

definition g723_24_decoder :: "int \<Rightarrow> int \<Rightarrow> g72x_state \<Rightarrow> int \<times> g72x_state" where
  "g723_24_decoder i out_coding st =
     (let i = i AND 0x07;
          sezi = c_short (predictor_zero st); sez = c_short (shr sezi 1);
          sei = c_short (sezi + predictor_pole st); se = c_short (shr sei 1);
          y = c_short (step_size st);
          q = c_short (reconstruct (i AND 4) (dqlntab_24 ! nat i) y);
          s = c_short (if q < 0 then se - (q AND 0x3FFF) else se + q);
          dqsez = c_short (s - se + sez);
          st' = update 3 y (witab_24 ! nat i) (fitab_24 ! nat i) q s dqsez st
      in (if out_coding = AUDIO_ENCODING_ALAW then tandem_adjust_alaw s se y i 4 qtab_24
          else if out_coding = AUDIO_ENCODING_ULAW then tandem_adjust_ulaw s se y i 4 qtab_24
          else if out_coding = AUDIO_ENCODING_LINEAR then shl s 2
          else - 1, st'))"

section \<open>G.723, 40 kbit/s\<close>

definition dqlntab_40 :: "int list" where
  "dqlntab_40 =
    [-2048, -66, 28, 104, 169, 224, 274, 318, 358, 395, 429, 459, 488, 514, 539, 566,
     566, 539, 514, 488, 459, 429, 395, 358, 318, 274, 224, 169, 104, 28, -66, -2048]"

definition witab_40 :: "int list" where
  "witab_40 =
    [448, 448, 768, 1248, 1280, 1312, 1856, 3200, 4512, 5728, 7008, 8960, 11456, 14080, 16928, 22272,
     22272, 16928, 14080, 11456, 8960, 7008, 5728, 4512, 3200, 1856, 1312, 1280, 1248, 768, 448, 448]"

definition fitab_40 :: "int list" where
  "fitab_40 =
    [0, 0, 0, 0, 0, 0x200, 0x200, 0x200, 0x200, 0x200, 0x400, 0x600, 0x800, 0xA00, 0xC00, 0xC00,
     0xC00, 0xC00, 0xA00, 0x800, 0x600, 0x400, 0x200, 0x200, 0x200, 0x200, 0x200, 0, 0, 0, 0, 0]"

definition qtab_40 :: "int list" where
  "qtab_40 =
    [-122, -16, 68, 139, 198, 250, 298, 339, 378, 413, 445, 475, 502, 528, 553]"

definition g723_40_encoder :: "int \<Rightarrow> int \<Rightarrow> g72x_state \<Rightarrow> int \<times> g72x_state" where
  "g723_40_encoder sl in_coding st =
     (case linearize sl in_coding of
        None \<Rightarrow> (- 1, st)
      | Some sl \<Rightarrow>
          let sezi = c_short (predictor_zero st); sez = c_short (shr sezi 1);
              sei = c_short (sezi + predictor_pole st); se = c_short (shr sei 1);
              d = c_short (sl - se);
              y = c_short (step_size st);
              i = c_short (quantize d y qtab_40 15);
              q = c_short (reconstruct (i AND 0x10) (dqlntab_40 ! nat i) y);
              s = c_short (if q < 0 then se - (q AND 0x7FFF) else se + q);
              dqsez = c_short (s + sez - se)
          in (i, update 5 y (witab_40 ! nat i) (fitab_40 ! nat i) q s dqsez st))"

definition g723_40_decoder :: "int \<Rightarrow> int \<Rightarrow> g72x_state \<Rightarrow> int \<times> g72x_state" where
  "g723_40_decoder i out_coding st =
     (let i = i AND 0x1f;
          sezi = c_short (predictor_zero st); sez = c_short (shr sezi 1);
          sei = c_short (sezi + predictor_pole st); se = c_short (shr sei 1);
          y = c_short (step_size st);
          q = c_short (reconstruct (i AND 0x10) (dqlntab_40 ! nat i) y);
          s = c_short (if q < 0 then se - (q AND 0x7FFF) else se + q);
          dqsez = c_short (s - se + sez);
          st' = update 5 y (witab_40 ! nat i) (fitab_40 ! nat i) q s dqsez st
      in (if out_coding = AUDIO_ENCODING_ALAW then tandem_adjust_alaw s se y i 0x10 qtab_40
          else if out_coding = AUDIO_ENCODING_ULAW then tandem_adjust_ulaw s se y i 0x10 qtab_40
          else if out_coding = AUDIO_ENCODING_LINEAR then shl s 2
          else - 1, st'))"

section \<open>Codes\<close>

lemma quan_range: "0 \<le> quan v t" "quan v t \<le> int (length t)"
  by (induction t) auto

lemma quantize_range:
  assumes "int (length t) = n"
  shows "1 \<le> quantize d y t n \<and> quantize d y t n \<le> 2 * n + 1"
proof -
  have take: "take (nat n) t = t" using assms by auto
  have main: "1 \<le> (if d < 0 then 2 * n + 1 - quan v t else if quan v t = 0 then 2 * n + 1 else quan v t)
      \<and> (if d < 0 then 2 * n + 1 - quan v t else if quan v t = 0 then 2 * n + 1 else quan v t)
        \<le> 2 * n + 1" for v
    using quan_range [of v t] assms by auto
  have shl: "shl n 1 = 2 * n" by (simp add: push_bit_eq_mult)
  show ?thesis unfolding quantize_def Let_def take shl by (rule main)
qed

lemma and_low_masks: "x AND 7 = x mod 8" "x AND 15 = x mod 16" "x AND 31 = x mod 32" for x :: int
  using take_bit_eq_mask [of 3 x] take_bit_eq_mask [of 4 x] take_bit_eq_mask [of 5 x]
  by (simp_all add: take_bit_eq_mod mask_eq_exp_minus_1)

lemma fitab_range:
  "0 \<le> i \<Longrightarrow> i < 16 \<Longrightarrow> 0 \<le> fitab_721 ! nat i \<and> fitab_721 ! nat i \<le> 3584"
  "0 \<le> i \<Longrightarrow> i < 8 \<Longrightarrow> 0 \<le> fitab_24 ! nat i \<and> fitab_24 ! nat i \<le> 3584"
  "0 \<le> i \<Longrightarrow> i < 32 \<Longrightarrow> 0 \<le> fitab_40 ! nat i \<and> fitab_40 ! nat i \<le> 3584"
proof -
  have "list_all (\<lambda>x. 0 \<le> x \<and> x \<le> 3584) (fitab_721 @ fitab_24 @ fitab_40)"
    by (simp add: fitab_721_def fitab_24_def fitab_40_def)
  moreover have "length fitab_721 = 16" "length fitab_24 = 8" "length fitab_40 = 32"
    by (simp_all add: fitab_721_def fitab_24_def fitab_40_def)
  ultimately show
    "0 \<le> i \<Longrightarrow> i < 16 \<Longrightarrow> 0 \<le> fitab_721 ! nat i \<and> fitab_721 ! nat i \<le> 3584"
    "0 \<le> i \<Longrightarrow> i < 8 \<Longrightarrow> 0 \<le> fitab_24 ! nat i \<and> fitab_24 ! nat i \<le> 3584"
    "0 \<le> i \<Longrightarrow> i < 32 \<Longrightarrow> 0 \<le> fitab_40 ! nat i \<and> fitab_40 ! nat i \<le> 3584"
    by (auto simp: list_all_iff)
qed

text \<open>The code an encoder computes, before it is stored in the state.\<close>

lemma code_range:
  "1 \<le> c_short (quantize d y qtab_721 7) \<and> c_short (quantize d y qtab_721 7) < 16"
  "1 \<le> c_short (quantize d y qtab_24 3) \<and> c_short (quantize d y qtab_24 3) < 8"
  "1 \<le> c_short (quantize d y qtab_40 15) \<and> c_short (quantize d y qtab_40 15) < 32"
  using quantize_range [of qtab_721 7 d y] quantize_range [of qtab_24 3 d y]
    quantize_range [of qtab_40 15 d y]
  by (simp_all add: qtab_721_def qtab_24_def qtab_40_def c_short_id)

section \<open>Every call keeps the ranges\<close>

lemma g721_inv:
  assumes "g72x_inv st"
  shows "g72x_inv (snd (g721_encoder sl c st))" "g72x_inv (snd (g721_decoder i c st))"
  using assms code_range(1) fitab_range(1)
  by (auto simp: g721_encoder_def g721_decoder_def Let_def and_low_masks
      intro!: update_inv split: option.splits)
    (meson dual_order.trans zero_le_one)+

lemma g723_24_inv:
  assumes "g72x_inv st"
  shows "g72x_inv (snd (g723_24_encoder sl c st))" "g72x_inv (snd (g723_24_decoder i c st))"
  using assms code_range(2) fitab_range(2)
  by (auto simp: g723_24_encoder_def g723_24_decoder_def Let_def and_low_masks
      intro!: update_inv split: option.splits)
    (meson dual_order.trans zero_le_one)+

lemma g723_40_inv:
  assumes "g72x_inv st"
  shows "g72x_inv (snd (g723_40_encoder sl c st))" "g72x_inv (snd (g723_40_decoder i c st))"
  using assms code_range(3) fitab_range(3)
  by (auto simp: g723_40_encoder_def g723_40_decoder_def Let_def and_low_masks
      intro!: update_inv split: option.splits)
    (meson dual_order.trans zero_le_one)+

section \<open>The decoder follows the encoder\<close>

lemma g721_sync:
  assumes "linearize sl c = Some x" "is_short (c_short (predictor_zero st) + predictor_pole st)"
  shows "snd (g721_decoder (fst (g721_encoder sl c st)) oc st) = snd (g721_encoder sl c st)"
proof -
  have "c_short (c_short (predictor_zero st) + predictor_pole st)
      = c_short (predictor_zero st) + predictor_pole st"
    using assms(2) by (simp add: is_short_def c_short_id)
  moreover have "i mod 16 = i" if "i = c_short (quantize d y qtab_721 7)" for i d y
    using code_range(1) [of d y] that by simp
  ultimately show ?thesis
    using assms(1) by (simp add: g721_encoder_def g721_decoder_def Let_def and_low_masks algebra_simps)
qed

lemma g723_24_sync:
  assumes "linearize sl c = Some x"
  shows "snd (g723_24_decoder (fst (g723_24_encoder sl c st)) oc st) = snd (g723_24_encoder sl c st)"
proof -
  have "i mod 8 = i" if "i = c_short (quantize d y qtab_24 3)" for i d y
    using code_range(2) [of d y] that by simp
  then show ?thesis
    using assms(1) by (simp add: g723_24_encoder_def g723_24_decoder_def Let_def and_low_masks algebra_simps)
qed

lemma g723_40_sync:
  assumes "linearize sl c = Some x"
  shows "snd (g723_40_decoder (fst (g723_40_encoder sl c st)) oc st) = snd (g723_40_encoder sl c st)"
proof -
  have "i mod 32 = i" if "i = c_short (quantize d y qtab_40 15)" for i d y
    using code_range(3) [of d y] that by simp
  then show ?thesis
    using assms(1) by (simp add: g723_40_encoder_def g723_40_decoder_def Let_def and_low_masks algebra_simps)
qed

section \<open>Properties\<close>

text \<open>
  C26: every call of the six coder functions keeps the state within the ranges of the
  recommendation, whatever sample or code it is given: the quantiser scale factors between 544 and
  5120 (so the step size is too), the energies and the speed control non-negative and bounded,
  the predictor poles inside the stability region, all other fields 16-bit.
\<close>

theorem adpcm_state_ranges:
  assumes "g72x_inv st"
  shows "g72x_inv (snd (g721_encoder sl c st)) \<and> g72x_inv (snd (g721_decoder i c st))
       \<and> g72x_inv (snd (g723_24_encoder sl c st)) \<and> g72x_inv (snd (g723_24_decoder i c st))
       \<and> g72x_inv (snd (g723_40_encoder sl c st)) \<and> g72x_inv (snd (g723_40_decoder i c st))
       \<and> 544 \<le> step_size st \<and> step_size st \<le> 5120"
  using g721_inv [OF assms] g723_24_inv [OF assms] g723_40_inv [OF assms] step_size_range [OF assms]
  by blast

theorem adpcm_state_ranges_witness:
  "g72x_inv (snd (g721_encoder 1000 3 g72x_init_state))"
  using adpcm_state_ranges [OF init_state_inv] by blast

text \<open>
  C29: the decoder follows the encoder: after an encoder call on an input of a known coding, the
  decoder that is in the same state and gets the code reaches the same state, for all three
  rates and any output coding.  The G.723 coders need nothing else; \<open>g721_encoder\<close> does not
  truncate the sum of the two predictors to 16 bits as \<open>g721_decoder\<close> does, so for G.721 alone the
  sum has to fit.
\<close>

theorem adpcm_sync:
  assumes "linearize sl c \<noteq> None"
  shows "(is_short (c_short (predictor_zero st) + predictor_pole st) \<longrightarrow>
            snd (g721_decoder (fst (g721_encoder sl c st)) oc st) = snd (g721_encoder sl c st))
       \<and> snd (g723_24_decoder (fst (g723_24_encoder sl c st)) oc st) = snd (g723_24_encoder sl c st)
       \<and> snd (g723_40_decoder (fst (g723_40_encoder sl c st)) oc st) = snd (g723_40_encoder sl c st)"
proof -
  obtain x where "linearize sl c = Some x" using assms by auto
  then show ?thesis using g721_sync g723_24_sync g723_40_sync by blast
qed

theorem adpcm_sync_witness:
  "snd (g721_decoder (fst (g721_encoder 1000 3 g72x_init_state)) 3 g72x_init_state)
   = snd (g721_encoder 1000 3 g72x_init_state)"
proof -
  have "linearize 1000 3 \<noteq> None"
    by (simp add: linearize_def AUDIO_ENCODING_ALAW_def AUDIO_ENCODING_ULAW_def AUDIO_ENCODING_LINEAR_def)
  moreover have "is_short (c_short (predictor_zero g72x_init_state) + predictor_pole g72x_init_state)"
    by code_simp
  ultimately show ?thesis using adpcm_sync by blast
qed

text \<open>
  The codes have the width of their rate and are never zero; an input coding the encoder does
  not know is answered with -1 and leaves the state alone.
\<close>

theorem adpcm_codes:
  "if linearize sl c = None
   then g721_encoder sl c st = (- 1, st) \<and> g723_24_encoder sl c st = (- 1, st)
      \<and> g723_40_encoder sl c st = (- 1, st)
   else fst (g721_encoder sl c st) \<in> {1..15} \<and> fst (g723_24_encoder sl c st) \<in> {1..7}
      \<and> fst (g723_40_encoder sl c st) \<in> {1..31}"
proof (cases "linearize sl c")
  case (Some x)
  have w: "i \<in> {1..15}" if "1 \<le> i \<and> i < 16" for i :: int using that by simp
  have v: "i \<in> {1..7}" if "1 \<le> i \<and> i < 8" for i :: int using that by simp
  have u: "i \<in> {1..31}" if "1 \<le> i \<and> i < 32" for i :: int using that by simp
  from Some show ?thesis
    using w [OF code_range(1)] v [OF code_range(2)] u [OF code_range(3)]
    by (simp add: g721_encoder_def g723_24_encoder_def g723_40_encoder_def Let_def)
qed (simp add: g721_encoder_def g723_24_encoder_def g723_40_encoder_def)

end
