(* ===== verification/Dbsm.thy ===== *)
theory Dbsm
  imports GR_Prelude
begin

text \<open>
  The double buffering state machine of the USRP2 firmware (\<open>usrp2/firmware/lib/dbsm.c\<close>,
  \<open>buffer_pool.h\<close>): two buffers of the pool carry packets from a receive port to a send port.
  The firmware state \<open>fw\<close> holds the table \<open>buffer_state\<close>, the words written to the control
  register in order, the status registers it reads, and the rest of the firmware as \<open>env\<close>.
  The inspector, a function pointer in the source, is a parameter with the contract of the locale
  \<open>packet_inspector\<close>.
\<close>

section \<open>The buffer pool registers\<close>

definition BPC_BUFFER :: "nat \<Rightarrow> u32" where "BPC_BUFFER n = push_bit 28 (of_nat n AND 0xf)"
definition BPC_PORT :: "u32 \<Rightarrow> u32" where "BPC_PORT p = push_bit 25 (p AND 0x7)"
definition BPC_CLR :: u32 where "BPC_CLR = push_bit 24 1"
definition BPC_READ :: u32 where "BPC_READ = push_bit 23 1"
definition BPC_WRITE :: u32 where "BPC_WRITE = push_bit 22 1"
definition BPC_STEP :: "nat \<Rightarrow> u32" where "BPC_STEP s = push_bit 18 (of_nat s AND 0xf)"
definition BPC_LAST_LINE :: "u32 \<Rightarrow> u32" where "BPC_LAST_LINE l = push_bit 9 (l AND 0x1ff)"
definition BPC_FIRST_LINE :: "u32 \<Rightarrow> u32" where "BPC_FIRST_LINE l = l AND 0x1ff"
definition PORT_SERDES :: u32 where "PORT_SERDES = 0"
definition PORT_DSP :: u32 where "PORT_DSP = 1"
definition PORT_ETH :: u32 where "PORT_ETH = 2"
definition PORT_RAM :: u32 where "PORT_RAM = 3"
definition PORT_NIL :: u32 where "PORT_NIL = 4"
definition NBUFFERS :: nat where "NBUFFERS = 8"
definition BP_LAST_LINE :: u16 where "BP_LAST_LINE = 0x1ff"
definition BPS_DONE :: "nat \<Rightarrow> u32" where "BPS_DONE n = push_bit n 0x1"
definition BPS_ERROR :: "nat \<Rightarrow> u32" where "BPS_ERROR n = push_bit n 0x100"
definition BPS_IDLE :: "nat \<Rightarrow> u32" where "BPS_IDLE n = push_bit n 0x10000"

section \<open>State\<close>

datatype buffer_state_t = BS_EMPTY | BS_FILLING | BS_FULL | BS_EMPTYING

record buf_cmd_args =
  port :: u16
  first_line :: u16
  last_line :: u16

record dbsm =
  buf0 :: nat
  running :: bool
  rx_idle :: bool
  tx_idle :: bool
  recv_args :: buf_cmd_args
  send_args :: buf_cmd_args
  recv_words :: "u32 list"
  send_words :: "u32 list"
  last_line_adj :: u32

text \<open>
  What the firmware does to the world outside, other than to the buffer pool: writes to the
  write-only registers of the FPGA, characters put out one by one, and the calls of the
  daughterboard drivers with their arguments (the number stands for the board), and stores to other
  device registers by their address, which only a host can command.
\<close>

datatype reg =
    Tx_clear_state | Tx_freq | Tx_scale_iq | Tx_interp_rate | Tx_mux
  | Rx_clear_state | Rx_freq | Rx_scale_iq | Rx_decim_rate | Rx_mux | Rx_command | Rx_time
  | Rx_gpio_stream_enable | Sync_on_next_pps | Tick_control | Pic_pending

datatype io_write =
    Write reg u32 | Putchar char | Store u32 u32
  | Board_init nat | Board_set_freq nat int | Board_set_gain nat int | Board_set_antenna nat int

record 'e fw =
  buffer_state :: "buffer_state_t list"
  ctrl_log :: "u32 list"
  io_log :: "io_write list"
  line_regs :: "nat \<Rightarrow> u32"
  env :: 'e

type_synonym 'e inspector = "dbsm \<Rightarrow> nat \<Rightarrow> 'e fw \<Rightarrow> bool \<times> 'e fw"

definition dbsm_nop_inspector :: "'e inspector" where
  "dbsm_nop_inspector sm buf_this w = (False, w)"

definition set_buffer :: "nat \<Rightarrow> buffer_state_t \<Rightarrow> 'e fw \<Rightarrow> 'e fw" where
  "set_buffer b s w = w\<lparr> buffer_state := (buffer_state w)[b := s] \<rparr>"

definition ctrl_write :: "u32 \<Rightarrow> 'e fw \<Rightarrow> 'e fw" where
  "ctrl_write c w = w\<lparr> ctrl_log := ctrl_log w @ [c] \<rparr>"

definition io_write :: "io_write \<Rightarrow> 'e fw \<Rightarrow> 'e fw" where
  "io_write x w = w\<lparr> io_log := io_log w @ [x] \<rparr>"

definition on_env :: "('e \<Rightarrow> 'e) \<Rightarrow> 'e fw \<Rightarrow> 'e fw" where
  "on_env f w = w\<lparr> env := f (env w) \<rparr>"

section \<open>Operations\<close>

definition bp_clear_buf :: "nat \<Rightarrow> 'e fw \<Rightarrow> 'e fw" where
  "bp_clear_buf b = ctrl_write (BPC_BUFFER b OR BPC_PORT PORT_NIL OR BPC_CLR)"

definition bp_disable_port :: "u32 \<Rightarrow> 'e fw \<Rightarrow> 'e fw" where
  "bp_disable_port p = ctrl_write (BPC_BUFFER 8 OR BPC_PORT p)"

definition bp_init :: "'e fw \<Rightarrow> 'e fw" where
  "bp_init w =
     (let w = bp_disable_port PORT_SERDES w; w = bp_disable_port PORT_DSP w;
          w = bp_disable_port PORT_ETH w; w = bp_disable_port PORT_RAM w
      in foldl (\<lambda>w i. bp_clear_buf i w) w [0..<NBUFFERS])"

definition bp_receive_to_buf :: "nat \<Rightarrow> u32 \<Rightarrow> nat \<Rightarrow> u32 \<Rightarrow> u32 \<Rightarrow> 'e fw \<Rightarrow> 'e fw" where
  "bp_receive_to_buf b p step fl ll =
     ctrl_write (BPC_READ OR BPC_BUFFER b OR BPC_PORT p OR BPC_STEP step OR BPC_FIRST_LINE fl OR BPC_LAST_LINE ll)"

definition bp_send_from_buf :: "nat \<Rightarrow> u32 \<Rightarrow> nat \<Rightarrow> u32 \<Rightarrow> u32 \<Rightarrow> 'e fw \<Rightarrow> 'e fw" where
  "bp_send_from_buf b p step fl ll =
     ctrl_write (BPC_WRITE OR BPC_BUFFER b OR BPC_PORT p OR BPC_STEP step OR BPC_FIRST_LINE fl OR BPC_LAST_LINE ll)"

text \<open>\<open>abort ()\<close> on an odd buffer number is no result.\<close>

definition dbsm_init :: "nat \<Rightarrow> buf_cmd_args \<Rightarrow> buf_cmd_args \<Rightarrow> 'e fw \<Rightarrow> (dbsm \<times> 'e fw) option" where
  "dbsm_init n recv send w =
     (if n mod 2 \<noteq> 0 then None
      else let b = n mod 256 in Some (
        \<lparr> buf0 = b, running = False, rx_idle = True, tx_idle = True,
          recv_args = recv, send_args = send,
          recv_words =
            [BPC_READ OR BPC_BUFFER b OR BPC_PORT (ucast (port recv)) OR BPC_STEP 1
               OR BPC_FIRST_LINE (ucast (first_line recv)) OR BPC_LAST_LINE (ucast (last_line recv)),
             BPC_READ OR BPC_BUFFER (b XOR 1) OR BPC_PORT (ucast (port recv)) OR BPC_STEP 1
               OR BPC_FIRST_LINE (ucast (first_line recv)) OR BPC_LAST_LINE (ucast (last_line recv))],
          send_words =
            [BPC_WRITE OR BPC_BUFFER b OR BPC_PORT (ucast (port send)) OR BPC_STEP 1
               OR BPC_FIRST_LINE (ucast (first_line send)) OR BPC_LAST_LINE 0,
             BPC_WRITE OR BPC_BUFFER (b XOR 1) OR BPC_PORT (ucast (port send)) OR BPC_STEP 1
               OR BPC_FIRST_LINE (ucast (first_line send)) OR BPC_LAST_LINE 0],
          last_line_adj = 1 \<rparr>,
        set_buffer (b XOR 1) BS_EMPTY (set_buffer b BS_EMPTY w)))"

definition dbsm_receive_to_buf :: "dbsm \<Rightarrow> nat \<Rightarrow> 'e fw \<Rightarrow> 'e fw" where
  "dbsm_receive_to_buf sm b = ctrl_write (recv_words sm ! (b mod 2))"

definition dbsm_send_from_buf :: "dbsm \<Rightarrow> nat \<Rightarrow> 'e fw \<Rightarrow> 'e fw" where
  "dbsm_send_from_buf sm b w =
     ctrl_write (send_words sm ! (b mod 2) OR BPC_LAST_LINE (line_regs w b - last_line_adj sm)) w"

definition dbsm_start :: "dbsm \<times> 'e fw \<Rightarrow> dbsm \<times> 'e fw" where
  "dbsm_start = (\<lambda>(sm, w).
     let sm = sm\<lparr> running := True \<rparr>;
         w = set_buffer (buf0 sm) BS_EMPTY w;
         w = set_buffer (buf0 sm XOR 1) BS_EMPTY w;
         w = bp_clear_buf (buf0 sm) w;
         w = bp_clear_buf (buf0 sm XOR 1) w;
         sm = sm\<lparr> tx_idle := True, rx_idle := False \<rparr>;
         w = dbsm_receive_to_buf sm (buf0 sm) w;
         w = set_buffer (buf0 sm) BS_FILLING w
     in (sm, w))"

definition dbsm_stop :: "dbsm \<times> 'e fw \<Rightarrow> dbsm \<times> 'e fw" where
  "dbsm_stop = (\<lambda>(sm, w).
     let sm = sm\<lparr> running := False \<rparr>;
         w = bp_clear_buf (buf0 sm) w;
         w = bp_clear_buf (buf0 sm XOR 1) w;
         w = set_buffer (buf0 sm) BS_EMPTY w;
         w = set_buffer (buf0 sm XOR 1) BS_EMPTY w
     in (sm, w))"

definition dbsm_process_helper :: "'e inspector \<Rightarrow> nat \<Rightarrow> dbsm \<times> 'e fw \<Rightarrow> dbsm \<times> 'e fw" where
  "dbsm_process_helper insp buf_this = (\<lambda>(sm, w).
     let buf_other = buf_this XOR 1;
         w = bp_clear_buf buf_this w
     in if buffer_state w ! buf_this = BS_FILLING then
          (let w = set_buffer buf_this BS_FULL w;
               (handled, w) = insp sm buf_this w
           in if handled then (sm, set_buffer buf_this BS_FILLING (dbsm_receive_to_buf sm buf_this w))
              else
                let (sm, w) =
                      (if buffer_state w ! buf_other = BS_EMPTY
                       then (sm, set_buffer buf_other BS_FILLING (dbsm_receive_to_buf sm buf_other w))
                       else (sm\<lparr> rx_idle := True \<rparr>, w))
                in if tx_idle sm
                   then (sm\<lparr> tx_idle := False \<rparr>,
                         set_buffer buf_this BS_EMPTYING (dbsm_send_from_buf sm buf_this w))
                   else (sm, w))
        else
          (let w = set_buffer buf_this BS_EMPTY w;
               (sm, w) =
                 (if rx_idle sm
                  then (sm\<lparr> rx_idle := False \<rparr>,
                        set_buffer buf_this BS_FILLING (dbsm_receive_to_buf sm buf_this w))
                  else (sm, w))
           in if buffer_state w ! buf_other = BS_FULL
              then (sm, set_buffer buf_other BS_EMPTYING (dbsm_send_from_buf sm buf_other w))
              else (sm\<lparr> tx_idle := True \<rparr>, w)))"

definition dbsm_error_helper :: "nat \<Rightarrow> dbsm \<times> 'e fw \<Rightarrow> dbsm \<times> 'e fw" where
  "dbsm_error_helper buf_this = (\<lambda>(sm, w).
     let w = bp_clear_buf buf_this w
     in if buffer_state w ! buf_this = BS_FILLING then (sm, dbsm_receive_to_buf sm buf_this w)
        else (sm, dbsm_send_from_buf sm buf_this w))"

definition dbsm_process_status :: "'e inspector \<Rightarrow> u32 \<Rightarrow> dbsm \<times> 'e fw \<Rightarrow> dbsm \<times> 'e fw" where
  "dbsm_process_status insp status = (\<lambda>(sm, w).
     if \<not> running sm then (sm, w)
     else
       let b = buf0 sm;
           s = (sm, w);
           s = (if status AND (BPS_ERROR b OR BPS_ERROR (b XOR 1)) \<noteq> 0 then
                  let s = (sm, io_write (Putchar (CHR ''E'')) w);
                      s = (if status AND BPS_ERROR b \<noteq> 0 then dbsm_error_helper b s else s)
                  in if status AND BPS_ERROR (b XOR 1) \<noteq> 0 then dbsm_error_helper (b XOR 1) s else s
                else s);
           s = (if status AND BPS_DONE b \<noteq> 0 then dbsm_process_helper insp b s else s)
       in if status AND BPS_DONE (b XOR 1) \<noteq> 0 then dbsm_process_helper insp (b XOR 1) s else s)"

definition dbsm_handle_tx_underrun :: "'e inspector \<Rightarrow> dbsm \<times> 'e fw \<Rightarrow> dbsm \<times> 'e fw" where
  "dbsm_handle_tx_underrun insp = (\<lambda>(sm, w).
     let w = io_write (Write Tx_clear_state 1) w; b = buf0 sm
     in if buffer_state w ! b = BS_EMPTYING
        then dbsm_process_helper insp b (sm, io_write (Write Tx_clear_state 1) (bp_clear_buf b w))
        else if buffer_state w ! (b XOR 1) = BS_EMPTYING
        then dbsm_process_helper insp (b XOR 1) (sm, io_write (Write Tx_clear_state 1) (bp_clear_buf (b XOR 1) w))
        else (sm, w))"

definition dbsm_handle_rx_overrun :: "dbsm \<times> 'e fw \<Rightarrow> dbsm \<times> 'e fw" where
  "dbsm_handle_rx_overrun = (\<lambda>(sm, w).
     let w = io_write (Write Rx_clear_state 1) w; b = buf0 sm;
         w = (if buffer_state w ! b = BS_FILLING then bp_clear_buf b w else w);
         w = (if buffer_state w ! (b XOR 1) = BS_FILLING then bp_clear_buf (b XOR 1) w else w)
     in (sm, w))"

text \<open>
  The busy wait for the end of a transfer, over the successive values of the status register that
  the loop reads; \<open>None\<close> when none of them satisfies the mask.  The result is what is left to read.
\<close>

fun poll_status :: "u32 \<Rightarrow> u32 list \<Rightarrow> u32 list option" where
  "poll_status msk [] = None"
| "poll_status msk (s # ss) = (if s AND msk = 0 then poll_status msk ss else Some ss)"

definition dbsm_wait_for_opening :: "dbsm \<times> 'e fw \<Rightarrow> u32 list \<Rightarrow> u32 list option" where
  "dbsm_wait_for_opening = (\<lambda>(sm, w) reads.
     let b = buf0 sm
     in if buffer_state w ! b = BS_EMPTYING
        then poll_status (BPS_DONE b OR BPS_ERROR b OR BPS_IDLE b) reads
        else if buffer_state w ! (b XOR 1) = BS_EMPTYING
        then poll_status (BPS_DONE (b XOR 1) OR BPS_ERROR (b XOR 1) OR BPS_IDLE (b XOR 1)) reads
        else Some reads)"

end
