(* ===== verification/Usrp2_Hal.thy ===== *)
theory Usrp2_Hal
  imports GR_Prelude
begin

text \<open>
  The pin and LED access of the USRP2 firmware (\<open>usrp2/firmware/lib/hal_io.c\<close>).  The registers
  that the code reads back, and its shadow variables, are the fields of the extensible record
  \<open>hal\<close>; the other parts of the firmware extend it.  An \<open>int\<close> that carries bits is a 32-bit word.
  Disabling the interrupts around an update has no counterpart: an operation is one step.
\<close>

record hal =
  gpio_ddr :: u32
  gpio_tx_sel :: u32
  gpio_rx_sel :: u32
  gpio_io :: u32           \<comment> \<open>what reading the pins returns\<close>
  gpio_io_shadow :: u32    \<comment> \<open>the last value written to the pins\<close>
  leds_shadow :: u32
  led_src_shadow :: u32
  atr_v :: "u32 list"

definition GPIO_TX_BANK :: u32 where "GPIO_TX_BANK = 0"
definition GPIO_RX_BANK :: u32 where "GPIO_RX_BANK = 1"

section \<open>Pins\<close>

text \<open>Value and mask moved to the half of the register that belongs to the bank.\<close>

definition bank_bits :: "u32 \<Rightarrow> u32 \<Rightarrow> u32" where
  "bank_bits bank v = (if bank AND 1 = GPIO_TX_BANK then push_bit 16 v else v AND 0xffff)"

definition hal_gpio_set_ddr :: "u32 \<Rightarrow> u32 \<Rightarrow> u32 \<Rightarrow> 'a hal_scheme \<Rightarrow> 'a hal_scheme" where
  "hal_gpio_set_ddr bank v msk s =
     s\<lparr> gpio_ddr := (gpio_ddr s AND NOT (bank_bits bank msk)) OR (bank_bits bank v AND bank_bits bank msk) \<rparr>"

definition code_to_int :: "u8 \<Rightarrow> u32 option" where
  "code_to_int code =
     (if code = 0x73 then Some 0          \<comment> \<open>s: software\<close>
      else if code = 0x61 then Some 1     \<comment> \<open>a: transmit/receive switching\<close>
      else if code = 0x30 then Some 2
      else if code = 0x31 then Some 3
      else None)"

definition set_sel_bits :: "bool \<Rightarrow> u32 \<Rightarrow> u32 \<Rightarrow> 'a hal_scheme \<Rightarrow> 'a hal_scheme" where
  "set_sel_bits tx v msk s =
     (if tx then s\<lparr> gpio_tx_sel := (gpio_tx_sel s AND NOT msk) OR (v AND msk) \<rparr>
      else s\<lparr> gpio_rx_sel := (gpio_rx_sel s AND NOT msk) OR (v AND msk) \<rparr>)"

definition hal_gpio_set_sel :: "u32 \<Rightarrow> nat \<Rightarrow> u8 \<Rightarrow> 'a hal_scheme \<Rightarrow> 'a hal_scheme" where
  "hal_gpio_set_sel bank bitno code s =
     (case code_to_int code of
        None \<Rightarrow> s
      | Some t \<Rightarrow> set_sel_bits (bank AND 1 = GPIO_TX_BANK)
                   (push_bit (2 * bitno) t) (push_bit (2 * bitno) 3) s)"

text \<open>The loop over the 16 codes, from the last; the bank is not reduced to its lowest bit here.\<close>

definition sels_step :: "u8 list \<Rightarrow> u32 \<times> u32 \<Rightarrow> nat \<Rightarrow> u32 \<times> u32" where
  "sels_step codes = (\<lambda>(v, msk) i.
     let v = push_bit 2 v; msk = push_bit 2 msk
     in case code_to_int (codes ! i) of None \<Rightarrow> (v, msk) | Some t \<Rightarrow> (v OR t, msk OR 3))"

definition hal_gpio_set_sels :: "u32 \<Rightarrow> u8 list \<Rightarrow> 'a hal_scheme \<Rightarrow> 'a hal_scheme" where
  "hal_gpio_set_sels bank codes s =
     (let (v, msk) = foldl (sels_step codes) (0, 0) (rev [0..<16])
      in set_sel_bits (bank = GPIO_TX_BANK) v msk s)"

definition hal_gpio_write :: "u32 \<Rightarrow> u32 \<Rightarrow> u32 \<Rightarrow> 'a hal_scheme \<Rightarrow> 'a hal_scheme" where
  "hal_gpio_write bank v msk s =
     s\<lparr> gpio_io_shadow := (gpio_io_shadow s AND NOT (bank_bits bank msk))
          OR (bank_bits bank v AND bank_bits bank msk) \<rparr>"

definition hal_gpio_read :: "u32 \<Rightarrow> 'a hal_scheme \<Rightarrow> u32" where
  "hal_gpio_read bank s =
     (if bank AND 1 = GPIO_TX_BANK then signed_drop_bit 16 (gpio_io s) else gpio_io s) AND 0xffff"

section \<open>LEDs\<close>

definition hal_set_leds :: "u32 \<Rightarrow> u32 \<Rightarrow> 'a hal_scheme \<Rightarrow> 'a hal_scheme" where
  "hal_set_leds v msk s = s\<lparr> leds_shadow := (leds_shadow s AND NOT msk) OR (v AND msk) \<rparr>"

definition hal_set_led_src :: "u32 \<Rightarrow> u32 \<Rightarrow> 'a hal_scheme \<Rightarrow> 'a hal_scheme" where
  "hal_set_led_src v msk s = s\<lparr> led_src_shadow := (led_src_shadow s AND NOT msk) OR (v AND msk) \<rparr>"

definition hal_toggle_leds :: "u32 \<Rightarrow> 'a hal_scheme \<Rightarrow> 'a hal_scheme" where
  "hal_toggle_leds msk s = s\<lparr> leds_shadow := leds_shadow s XOR msk \<rparr>"

section \<open>Setting all selectors at once\<close>

text \<open>Bits of a selector code, and of the mask of one.\<close>

lemma bit_3_u32: "bit (3 :: u32) i \<longleftrightarrow> i < 2"
proof -
  have "(3 :: u32) = mask 2" by (simp add: mask_eq_exp_minus_1)
  then show ?thesis by (simp only: bit_mask_iff) auto
qed

lemma code_to_int_bit:
  assumes "code_to_int c = Some t" "bit t i"
  shows "i < 2"
proof -
  have "t AND 3 = t" using assms(1) by (auto simp: code_to_int_def split: if_splits)
  then have "bit (t AND 3) i" using assms(2) by simp
  then show ?thesis by (simp only: bit_and_iff bit_3_u32)
qed

text \<open>One selector replaced below the ones that are set already.\<close>

lemma sel_bits_step:
  fixes x v msk t field :: u32
  assumes "\<And>i. bit t i \<Longrightarrow> i < d" "\<And>i. bit field i \<longleftrightarrow> i < d"
  shows "(((x AND NOT (push_bit (d + n) msk)) OR (push_bit (d + n) v AND push_bit (d + n) msk))
      AND NOT (push_bit n field)) OR (push_bit n t AND push_bit n field)
    = (x AND NOT (push_bit n (push_bit d msk OR field)))
      OR (push_bit n (push_bit d v OR t) AND push_bit n (push_bit d msk OR field))"
  using assms by (intro bit_word_eqI) (auto simp: bit_simps add.commute [of n d])

lemma sels_step_eq:
  "sels_step codes (v, msk) i = (case code_to_int (codes ! i) of
     None \<Rightarrow> (push_bit 2 v, push_bit 2 msk) | Some t \<Rightarrow> (push_bit 2 v OR t, push_bit 2 msk OR 3))"
  by (simp add: sels_step_def Let_def)

lemma sels_fold:
  assumes "k \<le> 16"
  shows "foldl (\<lambda>s i. hal_gpio_set_sel bank i (codes ! i) s) s (rev [k..<16])
    = (let (v, msk) = foldl (sels_step codes) (0, 0) (rev [k..<16])
       in set_sel_bits (bank AND 1 = GPIO_TX_BANK) (push_bit (2 * k) v) (push_bit (2 * k) msk) s)"
  using assms
proof (induction "16 - k" arbitrary: k)
  case 0
  then show ?case by (simp add: set_sel_bits_def)
next
  case (Suc n)
  then have k: "k < 16" by simp
  then have up: "rev [k..<16] = rev [Suc k..<16] @ [k]" by (simp add: upt_conv_Cons)
  obtain v msk where f: "foldl (sels_step codes) (0, 0) (rev [Suc k..<16]) = (v, msk)" by force
  have ih: "foldl (\<lambda>s i. hal_gpio_set_sel bank i (codes ! i) s) s (rev [Suc k..<16])
    = set_sel_bits (bank AND 1 = GPIO_TX_BANK) (push_bit (2 + 2 * k) v) (push_bit (2 + 2 * k) msk) s"
    using Suc.hyps(1) [of "Suc k"] Suc.hyps(2) k f by simp
  show ?case
  proof (cases "code_to_int (codes ! k)")
    case None
    then show ?thesis
      using ih f by (simp add: up sels_step_eq hal_gpio_set_sel_def push_bit_push_bit add.commute)
  next
    case (Some t)
    note step = sel_bits_step [of t 2 3, OF code_to_int_bit [OF Some] bit_3_u32, of _ "2 * k" msk v]
    show ?thesis
      using ih f Some step
      by (simp add: up sels_step_eq hal_gpio_set_sel_def set_sel_bits_def)
  qed
qed

text \<open>
  \<open>hal_gpio_set_sels\<close> is sixteen calls of \<open>hal_gpio_set_sel\<close>, one for each pin of the bank with
  its code; codes that are not known leave their pin alone.
\<close>

theorem set_sels_each_pin:
  assumes "bank = GPIO_TX_BANK \<or> bank = GPIO_RX_BANK"
  shows "hal_gpio_set_sels bank codes s
    = foldl (\<lambda>s i. hal_gpio_set_sel bank i (codes ! i) s) s (rev [0..<16])"
  using assms sels_fold [of 0 bank codes s]
  by (auto simp: hal_gpio_set_sels_def GPIO_TX_BANK_def GPIO_RX_BANK_def split: prod.splits)

text \<open>
  The banks share the registers without touching each other's half: after a write to one bank
  under a mask, reading the pins back gives the new value in the masked bits and the old ones in
  the others, and the other bank reads what it read before.
\<close>

theorem gpio_banks:
  assumes "gpio_io s = gpio_io_shadow s" "s' = hal_gpio_write bank v msk s"
    and "t = s'\<lparr> gpio_io := gpio_io_shadow s' \<rparr>"
  shows "hal_gpio_read bank t = (hal_gpio_read bank s AND NOT msk) OR (v AND msk AND 0xffff)
    \<and> hal_gpio_read (bank XOR 1) t = hal_gpio_read (bank XOR 1) s"
proof -
  have par: "(bank XOR 1) AND 1 = 0 \<longleftrightarrow> bank AND 1 \<noteq> 0"
  proof -
    have "(bank XOR 1) AND 1 = (bank AND 1) XOR 1"
      by (auto intro!: bit_word_eqI simp: bit_simps)
    moreover have "bank AND 1 = 0 \<or> bank AND 1 = 1"
      by (simp add: and_one_eq mod_2_eq_odd)
    ultimately show ?thesis by auto
  qed
  have m: "(0xffff :: u32) = mask 16" by (simp add: mask_eq_exp_minus_1)
  show ?thesis
    unfolding m assms hal_gpio_write_def hal_gpio_read_def bank_bits_def GPIO_TX_BANK_def par
    using assms(1) by (auto intro!: bit_word_eqI simp: bit_simps m)
qed

definition hal_reset :: hal where
  "hal_reset = \<lparr> gpio_ddr = 0, gpio_tx_sel = 0, gpio_rx_sel = 0xffffffff, gpio_io = 0x12345678,
     gpio_io_shadow = 0x12345678, leds_shadow = 0, led_src_shadow = 0, atr_v = [0, 0, 0, 0] \<rparr>"

theorem set_sels_each_pin_witness:
  "gpio_rx_sel (foldl (\<lambda>s i. hal_gpio_set_sel 1 i ((replicate 8 0x73 @ replicate 8 0x2e) ! i) s)
     hal_reset (rev [0..<16])) = 0xffff0000"
proof -
  have "gpio_rx_sel (hal_gpio_set_sels 1 (replicate 8 0x73 @ replicate 8 0x2e) hal_reset) = 0xffff0000"
    by code_simp
  then show ?thesis
    using set_sels_each_pin [of 1 "replicate 8 0x73 @ replicate 8 0x2e" hal_reset]
    by (simp add: GPIO_RX_BANK_def)
qed

theorem gpio_banks_witness:
  "(let s' = hal_gpio_write 1 0xabcd 0x00f0 hal_reset; t = s'\<lparr> gpio_io := gpio_io_shadow s' \<rparr>
    in hal_gpio_read 1 t = 0x56c8 \<and> hal_gpio_read (1 XOR 1) t = 0x1234)"
proof -
  have "gpio_io hal_reset = gpio_io_shadow hal_reset" by (simp add: hal_reset_def)
  from gpio_banks [OF this refl refl, of 1 "0xabcd" "0x00f0"]
  have "hal_gpio_read 1 (hal_gpio_write 1 0xabcd 0x00f0 hal_reset
      \<lparr> gpio_io := gpio_io_shadow (hal_gpio_write 1 0xabcd 0x00f0 hal_reset) \<rparr>)
    = (hal_gpio_read 1 hal_reset AND NOT 0x00f0) OR (0xabcd AND 0x00f0 AND 0xffff)"
    and "hal_gpio_read (1 XOR 1) (hal_gpio_write 1 0xabcd 0x00f0 hal_reset
      \<lparr> gpio_io := gpio_io_shadow (hal_gpio_write 1 0xabcd 0x00f0 hal_reset) \<rparr>)
    = hal_gpio_read (1 XOR 1) hal_reset" by blast+
  moreover have "(hal_gpio_read 1 hal_reset AND NOT 0x00f0) OR (0xabcd AND 0x00f0 AND 0xffff) = 0x56c8"
    "hal_gpio_read (1 XOR 1) hal_reset = 0x1234" by code_simp+
  ultimately show ?thesis unfolding Let_def by simp
qed

end
