(* ===== verification/Usrp2_Db.thy ===== *)
theory Usrp2_Db
  imports Dbsm Usrp2_Hal "HOL-Library.Signed_Division"
begin

text \<open>
  The daughterboard layer of the USRP2 firmware (\<open>usrp2/firmware/lib/db_init.c\<close>): finding out
  which boards are plugged in, setting up their pins, and tuning in two stages.  A board is the
  record \<open>db_base\<close>; its function pointers are fields that are functions for the result of the
  driver, and each call is logged in \<open>io_log\<close> with its argument.  The boards the firmware knows are the
  list \<open>all_dboards\<close> of the state, and \<open>tx_dboard\<close> and \<open>rx_dboard\<close> are positions in it, so that both
  may be the same board.  Frequencies are 64-bit numbers with 20 fractional bits.
\<close>

definition c_int64 :: "int \<Rightarrow> int" where
  "c_int64 x = signed_take_bit 63 x"

lemma c_int64_id [c_simps]: "- (2 ^ 63) \<le> x \<Longrightarrow> x < 2 ^ 63 \<Longrightarrow> c_int64 x = x"
  by (simp add: c_int64_def signed_take_bit_int_eq_self)

lemma c_int64_bounds: "- (2 ^ 63) \<le> c_int64 x" "c_int64 x < 2 ^ 63"
  using signed_take_bit_int_greater_eq_minus_exp [of 63 x] signed_take_bit_int_less_exp [of 63 x]
  by (simp_all add: c_int64_def)

section \<open>State\<close>

record db_base =
  dbid :: int
  is_tx :: bool
  is_quadrature :: bool
  i_and_q_swapped :: bool
  spectrum_inverted :: bool
  output_enables :: u16
  used_pins :: u16
  freq_min :: int
  freq_max :: int
  gain_min :: u16
  gain_max :: u16
  gain_step_size :: u16
  default_lo_offset :: int
  current_lo_offset :: int
  atr_mask :: u32
  atr_txval :: u32
  atr_rxval :: u32
  set_freq :: "int \<Rightarrow> bool \<times> int"
  set_gain :: "int \<Rightarrow> bool"
  set_antenna :: "(int \<Rightarrow> bool) option"

text \<open>\<open>eeprom\<close> gives what an I2C address answers to a read of the common part, if it answers.\<close>

record boards = hal +
  all_dboards :: "db_base list"
  tx_dboard :: nat
  rx_dboard :: nat
  eeprom :: "nat \<Rightarrow> u8 list option"

record tune_result =
  baseband_freq :: int
  dxc_freq :: int
  residual_freq :: int
  inverted :: bool

definition I2C_ADDR_TX_A :: nat where "I2C_ADDR_TX_A = 0x54"
definition I2C_ADDR_RX_A :: nat where "I2C_ADDR_RX_A = 0x55"
definition DB_EEPROM_CLEN :: nat where "DB_EEPROM_CLEN = 32"

section \<open>Which boards are there\<close>

datatype eeprom_status = UDBE_OK "u8 list" | UDBE_NO_EEPROM | UDBE_INVALID_EEPROM

definition read_raw_dboard_eeprom :: "nat \<Rightarrow> 'a boards_scheme \<Rightarrow> eeprom_status" where
  "read_raw_dboard_eeprom addr s =
     (case eeprom s addr of
        None \<Rightarrow> UDBE_NO_EEPROM
      | Some buf \<Rightarrow>
          if buf ! 0 \<noteq> 0xDB then UDBE_INVALID_EEPROM
          else if (\<Sum>i \<leftarrow> [0..<DB_EEPROM_CLEN]. uint (buf ! i)) AND 0xff \<noteq> 0 then UDBE_INVALID_EEPROM
          else UDBE_OK buf)"

definition read_dboard_eeprom :: "nat \<Rightarrow> 'a boards_scheme \<Rightarrow> int" where
  "read_dboard_eeprom addr s =
     (case read_raw_dboard_eeprom addr s of
        UDBE_OK buf \<Rightarrow> shl (uint (buf ! 2)) 8 OR uint (buf ! 1)
      | UDBE_NO_EEPROM \<Rightarrow> - 1
      | UDBE_INVALID_EEPROM \<Rightarrow> - 2)"

fun find_dbid :: "int \<Rightarrow> nat \<Rightarrow> db_base list \<Rightarrow> nat option" where
  "find_dbid d i [] = None"
| "find_dbid d i (b # bs) = (if dbid b = d then Some i else find_dbid d (i + 1) bs)"

definition lookup_dbid :: "int \<Rightarrow> 'a boards_scheme \<Rightarrow> nat option" where
  "lookup_dbid d s = (if d < 0 then None else find_dbid d 0 (all_dboards s))"

definition lookup_dboard :: "nat \<Rightarrow> nat \<Rightarrow> 'a boards_scheme \<Rightarrow> nat" where
  "lookup_dboard addr default_db s =
     (let d = read_dboard_eeprom addr s
      in if d < 0 then default_db
         else case lookup_dbid d s of None \<Rightarrow> default_db | Some db \<Rightarrow> db)"

definition set_atr_regs :: "u32 \<Rightarrow> db_base \<Rightarrow> 'a hal_scheme \<Rightarrow> 'a hal_scheme" where
  "set_atr_regs bank db s =
     (let v = [atr_rxval db, atr_txval db, atr_rxval db, atr_txval db];
          (msk, shift) = (if bank = GPIO_TX_BANK then (0xffff0000, 16) else (0x0000ffff, 0))
      in s\<lparr> atr_v := foldl (\<lambda>a i. a[i := (a ! i AND NOT msk) OR (push_bit shift (v ! i) AND msk)])
                       (atr_v s) [0..<4] \<rparr>)"

definition set_gpio_mode :: "u32 \<Rightarrow> db_base \<Rightarrow> 'a hal_scheme \<Rightarrow> 'a hal_scheme" where
  "set_gpio_mode bank db s =
     foldl (\<lambda>s i. if bit (used_pins db) i
                  then hal_gpio_set_sel bank i (if bit (atr_mask db) i then 0x61 else 0x73) s else s)
       (set_atr_regs bank db (hal_gpio_set_ddr bank (ucast (output_enables db)) 0xffff s)) [0..<16]"

definition determine_tx_mux_value :: "db_base \<Rightarrow> u32" where
  "determine_tx_mux_value db = (if i_and_q_swapped db then 0x01 else 0x10)"

definition rx_truth_table :: "u32 list" where
  "rx_truth_table = (let ADC0 = 0; ADC1 = 1; ZERO = 2; mux = (\<lambda>q i. push_bit 2 q OR i) in
     [mux ZERO ZERO, mux ZERO ADC0, mux ZERO ADC1, mux ADC1 ADC0,
      mux ZERO ZERO, mux ZERO ADC0, mux ZERO ADC1, mux ADC0 ADC1])"

definition determine_rx_mux_value :: "db_base \<Rightarrow> u32" where
  "determine_rx_mux_value db =
     rx_truth_table ! ((if i_and_q_swapped db then 4 else 0) + (if is_quadrature db then 3 else 1))"

definition reset_lo_offset :: "nat \<Rightarrow> 'a boards_scheme \<Rightarrow> 'a boards_scheme" where
  "reset_lo_offset i s =
     s\<lparr> all_dboards := (all_dboards s)[i := (all_dboards s ! i)
          \<lparr> current_lo_offset := default_lo_offset (all_dboards s ! i) \<rparr>] \<rparr>"

text \<open>\<open>db_basic_tx\<close> and \<open>db_basic_rx\<close> are the first two boards of the table.\<close>

definition db_init :: "'a boards_scheme fw \<Rightarrow> 'a boards_scheme fw" where
  "db_init w =
     (let w = on_env (\<lambda>s. s\<lparr> tx_dboard := lookup_dboard I2C_ADDR_TX_A 0 s \<rparr>) w;
          db = all_dboards (env w) ! tx_dboard (env w);
          w = on_env (set_gpio_mode GPIO_TX_BANK db) w;
          w = io_write (Board_init (tx_dboard (env w))) w;
          w = io_write (Write Tx_mux (determine_tx_mux_value db)) w;
          w = on_env (\<lambda>s. reset_lo_offset (tx_dboard s) s) w;
          w = on_env (\<lambda>s. s\<lparr> rx_dboard := lookup_dboard I2C_ADDR_RX_A 1 s \<rparr>) w;
          db = all_dboards (env w) ! rx_dboard (env w);
          w = on_env (set_gpio_mode GPIO_RX_BANK db) w;
          w = io_write (Board_init (rx_dboard (env w))) w;
          w = io_write (Write Rx_mux (determine_rx_mux_value db)) w
      in on_env (\<lambda>s. reset_lo_offset (rx_dboard s) s) w)"

section \<open>Tuning\<close>

definition FS :: int where "FS = 100000000 * 2 ^ 20"

function reduce_down :: "int \<Rightarrow> int" where
  "reduce_down delta = (if delta > FS then reduce_down (delta - FS) else delta)"
  by auto

termination
  by (relation "measure nat") (auto simp: FS_def)

function reduce_up :: "int \<Rightarrow> int" where
  "reduce_up delta = (if delta < - FS then reduce_up (delta + FS) else delta)"
  by auto

termination
  by (relation "measure (\<lambda>d. nat (- d))") (auto simp: FS_def)

declare reduce_down.simps [simp del] reduce_up.simps [simp del]

definition calc_dxc_freq :: "int \<Rightarrow> int \<Rightarrow> int \<times> bool" where
  "calc_dxc_freq target_freq baseband =
     (let delta = c_int64 (target_freq - baseband)
      in if delta \<ge> 0 then
           (let delta = reduce_down delta
            in if delta \<le> FS div 2 then (- delta, False) else (delta - FS, True))
         else
           (let delta = reduce_up delta
            in if delta \<ge> - (FS div 2) then (- delta, False) else (delta + FS, True)))"

definition compute_freq_control_word :: "int \<Rightarrow> int \<times> int" where
  "compute_freq_control_word target_freq =
     (let master_freq = 100000000;
          v = c_int (c_int64 (shl target_freq 12) sdiv master_freq)
      in (v, shr (v * master_freq) 12))"

definition db_set_ddc_freq :: "int \<Rightarrow> 'e fw \<Rightarrow> (bool \<times> int) \<times> 'e fw" where
  "db_set_ddc_freq f w =
     (let (v, actual) = compute_freq_control_word f
      in ((True, actual), io_write (Write Rx_freq (word_of_int v)) w))"

definition db_set_duc_freq :: "int \<Rightarrow> 'e fw \<Rightarrow> (bool \<times> int) \<times> 'e fw" where
  "db_set_duc_freq f w =
     (let (v, actual) = compute_freq_control_word f
      in ((True, actual), io_write (Write Tx_freq (word_of_int v)) w))"

definition db_set_lo_offset :: "nat \<Rightarrow> int \<Rightarrow> 'a boards_scheme \<Rightarrow> 'a boards_scheme" where
  "db_set_lo_offset i offset s =
     s\<lparr> all_dboards := (all_dboards s)[i := (all_dboards s ! i)\<lparr> current_lo_offset := offset \<rparr>] \<rparr>"

definition db_tune :: "nat \<Rightarrow> int \<Rightarrow> 'a boards_scheme fw \<Rightarrow> (bool \<times> tune_result) \<times> 'a boards_scheme fw" where
  "db_tune i target_freq w =
     (let db = all_dboards (env w) ! i; f = c_int64 (target_freq + current_lo_offset db);
          (ok, baseband) = set_freq db f;
          w = io_write (Board_set_freq i f) w;
          (dxc, iz) = calc_dxc_freq target_freq baseband;
          iz = (if spectrum_inverted db then \<not> iz else iz);
          (dxc, iz) = (if iz \<and> \<not> is_quadrature db then (- dxc, \<not> iz) else (dxc, iz));
          dxc = (if is_tx db then - dxc else dxc);
          ((ok', actual), w) = (if is_tx db then db_set_duc_freq dxc w else db_set_ddc_freq dxc w)
      in ((ok \<and> ok', \<lparr> baseband_freq = baseband, dxc_freq = dxc, residual_freq = dxc - actual,
             inverted = iz \<rparr>), w))"

definition db_set_gain :: "nat \<Rightarrow> int \<Rightarrow> 'a boards_scheme fw \<Rightarrow> bool \<times> 'a boards_scheme fw" where
  "db_set_gain i gain w = (set_gain (all_dboards (env w) ! i) gain, io_write (Board_set_gain i gain) w)"

definition db_set_antenna :: "nat \<Rightarrow> int \<Rightarrow> 'a boards_scheme fw \<Rightarrow> bool \<times> 'a boards_scheme fw" where
  "db_set_antenna i ant w =
     (case set_antenna (all_dboards (env w) ! i) of
        None \<Rightarrow> (False, w) | Some f \<Rightarrow> (f ant, io_write (Board_set_antenna i ant) w))"

section \<open>What the tuning computes\<close>

lemma reduce_down_props:
  "reduce_down d mod FS = d mod FS" "reduce_down d \<le> FS" "0 \<le> d \<Longrightarrow> 0 \<le> reduce_down d"
  "d \<le> FS \<Longrightarrow> reduce_down d = d"
proof (induction d rule: reduce_down.induct)
  case (1 d)
  have less: "d > FS \<Longrightarrow> 0 \<le> d - FS" by simp
  { case 1 then show ?case using "1.IH"(1) by (subst reduce_down.simps) simp }
  { case 2 then show ?case using "1.IH"(2) by (subst reduce_down.simps) simp }
  { case 3 then show ?case using "1.IH"(3) less by (subst reduce_down.simps) simp }
  { case 4 then show ?case by (subst reduce_down.simps) simp }
qed

lemma reduce_up_props:
  "reduce_up d mod FS = d mod FS" "- FS \<le> reduce_up d" "d \<le> 0 \<Longrightarrow> reduce_up d \<le> 0"
  "- FS \<le> d \<Longrightarrow> reduce_up d = d"
proof (induction d rule: reduce_up.induct)
  case (1 d)
  have less: "d < - FS \<Longrightarrow> d + FS \<le> 0" by simp
  { case 1 then show ?case using "1.IH"(1) by (subst reduce_up.simps) simp }
  { case 2 then show ?case using "1.IH"(2) by (subst reduce_up.simps) simp }
  { case 3 then show ?case using "1.IH"(3) less by (subst reduce_up.simps) simp }
  { case 4 then show ?case by (subst reduce_up.simps) simp }
qed

lemma mod_minus_cong: "a mod n = b mod n \<Longrightarrow> (- a) mod n = (- b) mod (n :: int)"
  by (metis mod_minus_eq)

lemma calc_dxc_props:
  assumes "calc_dxc_freq t b = (dxc, iz)"
  shows "- (FS div 2) \<le> dxc \<and> dxc \<le> FS div 2
    \<and> dxc mod FS = (if iz then c_int64 (t - b) else - c_int64 (t - b)) mod FS"
proof -
  let ?d = "c_int64 (t - b)"
  show ?thesis
  proof (cases "?d \<ge> 0")
    case True
    note r = reduce_down_props [of ?d]
    have "(dxc, iz) = (if reduce_down ?d \<le> FS div 2 then (- reduce_down ?d, False) else (reduce_down ?d - FS, True))"
      using assms True by (simp add: calc_dxc_freq_def Let_def)
    then show ?thesis
      using True r mod_minus_cong [OF r(1)] by (auto simp: FS_def split: if_splits)
  next
    case False
    note r = reduce_up_props [of ?d]
    have "(dxc, iz) = (if reduce_up ?d \<ge> - (FS div 2) then (- reduce_up ?d, False) else (reduce_up ?d + FS, True))"
      using assms False by (simp add: calc_dxc_freq_def Let_def)
    then show ?thesis
      using False r mod_minus_cong [OF r(1)] by (auto simp: FS_def split: if_splits)
  qed
qed

lemma calc_dxc_near:
  assumes "\<bar>c_int64 (t - b)\<bar> \<le> FS div 2"
  shows "calc_dxc_freq t b = (- c_int64 (t - b), False)"
proof -
  let ?d = "c_int64 (t - b)"
  have "?d \<le> FS" "- FS \<le> ?d" "?d \<le> FS div 2" "- (FS div 2) \<le> ?d"
    using assms by (auto simp: FS_def)
  then show ?thesis
    using reduce_down_props(4) [of ?d] reduce_up_props(4) [of ?d]
    by (cases "0 \<le> ?d") (simp_all add: calc_dxc_freq_def Let_def)
qed

text \<open>
  C34: the digital frequency is right modulo the sampling rate: \<open>calc_dxc_freq\<close> always returns, with
  a frequency within half the sampling rate that differs from the offset between target and
  baseband by a multiple of the sampling rate, negated in the zones that are not inverted; within
  half the sampling rate the offset itself is used.
\<close>

theorem calc_dxc_freq_correct:
  "case calc_dxc_freq t b of (dxc, iz) \<Rightarrow>
     - (FS div 2) \<le> dxc \<and> dxc \<le> FS div 2
     \<and> dxc mod FS = (if iz then c_int64 (t - b) else - c_int64 (t - b)) mod FS
     \<and> (if \<bar>c_int64 (t - b)\<bar> \<le> FS div 2 then dxc = - c_int64 (t - b) \<and> \<not> iz else True)"
proof -
  obtain dxc iz where c: "calc_dxc_freq t b = (dxc, iz)" by force
  show ?thesis
    using c calc_dxc_props [OF c] calc_dxc_near [of t b] by auto
qed

lemma sdiv_bounds:
  fixes a n :: int
  assumes "0 < n"
  shows "\<bar>a - (a sdiv n) * n\<bar> < n" "0 \<le> a \<Longrightarrow> (a sdiv n) * n \<le> a" "a < 0 \<Longrightarrow> a sdiv n \<le> 0"
proof -
  have "a sdiv n * n = sgn a * ((\<bar>a\<bar> div n) * n)"
    using assms by (simp add: signed_divide_int_def)
  moreover have "a = sgn a * \<bar>a\<bar>" by (simp add: mult_sgn_abs)
  ultimately have "a - (a sdiv n) * n = sgn a * (\<bar>a\<bar> mod n)"
    by (metis minus_div_mult_eq_mod right_diff_distrib')
  then have "\<bar>a - (a sdiv n) * n\<bar> \<le> \<bar>a\<bar> mod n"
    using assms by (simp add: abs_mult)
  then show "\<bar>a - (a sdiv n) * n\<bar> < n" using pos_mod_bound [OF assms, of "\<bar>a\<bar>"] by linarith
  show "0 \<le> a \<Longrightarrow> (a sdiv n) * n \<le> a"
    using assms by (cases "a = 0") (simp_all add: signed_divide_int_def minus_mod_eq_div_mult [symmetric])
  show "a < 0 \<Longrightarrow> a sdiv n \<le> 0"
    using assms by (simp add: signed_divide_int_def pos_imp_zdiv_nonneg_iff)
qed

lemma control_word_props:
  assumes "- (FS div 2) \<le> f" "f \<le> FS div 2" "compute_freq_control_word f = (v, actual)"
  shows "if f = FS div 2 then v = - (2 ^ 31) \<and> actual = - (FS div 2)
    else - (2 ^ 31) \<le> v \<and> v < 2 ^ 31 \<and> \<bar>f - actual\<bar> \<le> 24415"
proof -
  have s: "c_int64 (shl f 12) = f * 4096"
    using assms(1,2) by (simp add: push_bit_eq_mult FS_def c_int64_id)
  let ?q = "(f * 4096) sdiv 100000000"
  have q: "\<bar>f * 4096 - ?q * 100000000\<bar> < 100000000" by (rule sdiv_bounds) simp
  have q': "0 \<le> f \<Longrightarrow> ?q * 100000000 \<le> f * 4096" "f < 0 \<Longrightarrow> ?q \<le> 0"
    using sdiv_bounds(2,3) [of 100000000 "f * 4096"] by auto
  have v: "v = c_int ?q" "actual = shr (v * 100000000) 12"
    using assms(3) s by (auto simp: compute_freq_control_word_def Let_def)
  show ?thesis
  proof (cases "f = FS div 2")
    case True
    then show ?thesis
      using v by (simp add: FS_def signed_divide_int_def c_int_def drop_bit_eq_div)
  next
    case False
    have lt: "- (2 ^ 31) \<le> ?q" "?q < 2 ^ 31"
      using q q' assms(1,2) False by (cases "0 \<le> f"; auto simp: FS_def)+
    then have vq: "v = ?q" using v(1) by (simp add: c_int_id)
    have a: "actual = (?q * 100000000) div 4096" using v(2) vq by (simp add: drop_bit_eq_div)
    show ?thesis using False lt vq a q by (auto simp: abs_le_iff) 
  qed
qed

text \<open>
  C35: the frequency control word is exact to 0.024 Hz: for every frequency within half the sampling
  rate the 32-bit word has no overflow and the frequency it stands for is at most 24415 / 2^20 Hz
  away, except at exactly half the sampling rate, where the word becomes the most negative one and
  the reported frequency has the wrong sign.
\<close>

theorem freq_control_word:
  assumes "- (FS div 2) \<le> f" "f \<le> FS div 2"
  shows "case compute_freq_control_word f of (v, actual) \<Rightarrow>
    if f = FS div 2 then v = - (2 ^ 31) \<and> actual = - (FS div 2)
    else - (2 ^ 31) \<le> v \<and> v < 2 ^ 31 \<and> \<bar>f - actual\<bar> \<le> 24415"
  using control_word_props [OF assms] by (auto split: prod.split)

lemma set_dxc:
  "db_set_ddc_freq f w = ((True, snd (compute_freq_control_word f)),
     io_write (Write Rx_freq (word_of_int (fst (compute_freq_control_word f)))) w)"
  "db_set_duc_freq f w = ((True, snd (compute_freq_control_word f)),
     io_write (Write Tx_freq (word_of_int (fst (compute_freq_control_word f)))) w)"
  by (simp_all add: db_set_ddc_freq_def db_set_duc_freq_def split: prod.split)

text \<open>
  C28: two-stage tuning adds up: when the driver tunes the board to within half the sampling rate of
  the target and the board does not invert the spectrum, the reported digital frequency takes the
  board's frequency exactly to the target (added for a transmitter, subtracted for a receiver), the
  spectrum is not inverted, the result is the driver's, the control word goes to the register of
  the right direction, and the residual is below 0.024 Hz (except at the edge of the band).
\<close>

theorem db_tune_reaches_target:
  assumes "db_tune i target w = ((ok, r), w')" and db: "db = all_dboards (env w) ! i"
    and f: "set_freq db (c_int64 (target + current_lo_offset db)) = (okf, base)"
    and near: "\<bar>target - base\<bar> \<le> FS div 2" and "\<not> spectrum_inverted db"
  shows "ok = okf \<and> baseband_freq r = base \<and> \<not> inverted r
    \<and> target = base + (if is_tx db then dxc_freq r else - dxc_freq r)
    \<and> (if dxc_freq r = FS div 2 then residual_freq r = FS else \<bar>residual_freq r\<bar> \<le> 24415)
    \<and> w' = io_write (Write (if is_tx db then Tx_freq else Rx_freq)
              (word_of_int (fst (compute_freq_control_word (dxc_freq r)))))
              (io_write (Board_set_freq i (c_int64 (target + current_lo_offset db))) w)"
proof -
  let ?d = "target - base"
  have d: "c_int64 ?d = ?d" using near by (intro c_int64_id) (simp_all add: FS_def)
  have c: "calc_dxc_freq target base = (- ?d, False)"
    using calc_dxc_near [of target base] near d by simp
  define dxc where "dxc = (if is_tx db then ?d else - ?d)"
  have r: "r = \<lparr> baseband_freq = base, dxc_freq = dxc,
      residual_freq = dxc - snd (compute_freq_control_word dxc), inverted = False \<rparr>
    \<and> ok = okf \<and> w' = io_write (Write (if is_tx db then Tx_freq else Rx_freq)
       (word_of_int (fst (compute_freq_control_word dxc))))
       (io_write (Board_set_freq i (c_int64 (target + current_lo_offset db))) w)"
    using assms(1,5) f c by (auto simp: db_tune_def Let_def db [symmetric] set_dxc dxc_def)
  have "- (FS div 2) \<le> dxc" "dxc \<le> FS div 2" using near by (auto simp: dxc_def FS_def)
  from control_word_props [OF this surjective_pairing]
  have "if dxc = FS div 2 then dxc - snd (compute_freq_control_word dxc) = FS
    else \<bar>dxc - snd (compute_freq_control_word dxc)\<bar> \<le> 24415"
    by (auto simp: FS_def split: if_splits)
  moreover have "target = base + (if is_tx db then dxc else - dxc)" by (simp add: dxc_def)
  ultimately show ?thesis using r by (auto split: if_splits)
qed

section \<open>What the initialisation finds\<close>

lemma find_dbid_Some:
  "find_dbid d i bs = Some j \<Longrightarrow> i \<le> j \<and> j - i < length bs \<and> dbid (bs ! (j - i)) = d"
proof (induction d i bs rule: find_dbid.induct)
  case (2 d i b bs)
  then show ?case
    by (cases "dbid b = d") (auto simp: nth_Cons' Suc_diff_le less_Suc_eq_le simp flip: Suc_eq_plus1)
qed simp

lemma find_dbid_None: "find_dbid d i bs = None \<longleftrightarrow> d \<notin> dbid ` set bs"
  by (induction d i bs rule: find_dbid.induct) auto

text \<open>The board chosen for a slot: the one with the identifier of its EEPROM, or else the default.\<close>

definition right_board :: "'a boards_scheme \<Rightarrow> nat \<Rightarrow> nat \<Rightarrow> nat \<Rightarrow> bool" where
  "right_board s addr dflt i \<longleftrightarrow> i < length (all_dboards s)
     \<and> (if read_dboard_eeprom addr s \<ge> 0 \<and> read_dboard_eeprom addr s \<in> dbid ` set (all_dboards s)
        then dbid (all_dboards s ! i) = read_dboard_eeprom addr s else i = dflt)"

lemma lookup_right:
  assumes "dflt < length (all_dboards s)"
  shows "right_board s addr dflt (lookup_dboard addr dflt s)"
  using assms find_dbid_Some [of "read_dboard_eeprom addr s" 0 "all_dboards s"]
    find_dbid_None [of "read_dboard_eeprom addr s" 0 "all_dboards s"]
  by (auto simp: right_board_def lookup_dboard_def lookup_dbid_def Let_def split: option.splits)

definition same_boards :: "'a boards_scheme \<Rightarrow> 'a boards_scheme \<Rightarrow> bool" where
  "same_boards s t \<longleftrightarrow> all_dboards s = all_dboards t \<and> tx_dboard s = tx_dboard t
     \<and> rx_dboard s = rx_dboard t \<and> eeprom s = eeprom t"

lemma set_gpio_mode_boards: "same_boards (set_gpio_mode bank db s) s"
  unfolding set_gpio_mode_def
  by (rule foldl_preserves)
     (simp_all add: same_boards_def set_atr_regs_def hal_gpio_set_ddr_def hal_gpio_set_sel_def
        set_sel_bits_def split: option.splits)

lemmas set_gpio_mode_fields [simp] = set_gpio_mode_boards [unfolded same_boards_def, THEN conjunct1]
  set_gpio_mode_boards [unfolded same_boards_def, THEN conjunct2, THEN conjunct1]
  set_gpio_mode_boards [unfolded same_boards_def, THEN conjunct2, THEN conjunct2, THEN conjunct1]
  set_gpio_mode_boards [unfolded same_boards_def, THEN conjunct2, THEN conjunct2, THEN conjunct2]

lemma reset_lo_offset_fields [simp]:
  "tx_dboard (reset_lo_offset i s) = tx_dboard s" "rx_dboard (reset_lo_offset i s) = rx_dboard s"
  "eeprom (reset_lo_offset i s) = eeprom s"
  "length (all_dboards (reset_lo_offset i s)) = length (all_dboards s)"
  by (simp_all add: reset_lo_offset_def)

lemma reset_lo_offset_board:
  "j < length (all_dboards s) \<Longrightarrow> all_dboards (reset_lo_offset i s) ! j = (all_dboards s ! j)
     \<lparr> current_lo_offset := (if i = j then default_lo_offset else current_lo_offset) (all_dboards s ! j) \<rparr>"
  by (simp add: reset_lo_offset_def nth_list_update)

lemma map_dbid_reset: "map dbid (all_dboards (reset_lo_offset i s)) = map dbid (all_dboards s)"
  by (intro nth_equalityI) (simp_all add: reset_lo_offset_board)

lemma right_board_cong:
  assumes "map dbid (all_dboards s) = map dbid (all_dboards t)" "eeprom s = eeprom t"
  shows "right_board s addr dflt i = right_board t addr dflt i"
proof -
  have l: "length (all_dboards s) = length (all_dboards t)" using assms(1) by (rule map_eq_imp_length_eq)
  have set: "dbid ` set (all_dboards s) = dbid ` set (all_dboards t)"
    using assms(1) by (metis list.set_map)
  have e: "read_dboard_eeprom addr s = read_dboard_eeprom addr t"
    using assms(2) by (simp add: read_dboard_eeprom_def read_raw_dboard_eeprom_def)
  have "dbid (all_dboards s ! i) = dbid (all_dboards t ! i)" if "i < length (all_dboards t)"
    using assms(1) that l by (metis nth_map)
  then show ?thesis using l set e by (auto simp: right_board_def)
qed

text \<open>
  \<open>db_init\<close> chooses the boards by their EEPROM: in both slots the board with the stored
  identifier if the EEPROM answers, has the right magic and check sum and names a board in the
  table, and the Basic Tx or Basic Rx otherwise; the tuning offsets of both are back at their
  defaults, and the board table is otherwise unchanged.
\<close>

theorem db_init_boards:
  assumes "2 \<le> length (all_dboards (env w))"
  shows "let s = env w; s' = env (db_init w) in
    right_board s I2C_ADDR_TX_A 0 (tx_dboard s') \<and> right_board s I2C_ADDR_RX_A 1 (rx_dboard s')
    \<and> all_dboards s' = map (\<lambda>i. if i = tx_dboard s' \<or> i = rx_dboard s'
         then (all_dboards s ! i)\<lparr> current_lo_offset := default_lo_offset (all_dboards s ! i) \<rparr>
         else all_dboards s ! i) [0..<length (all_dboards s)]"
proof -
  let ?s = "env w" let ?s' = "env (db_init w)"
  define s1 where "s1 = ?s\<lparr> tx_dboard := lookup_dboard I2C_ADDR_TX_A 0 ?s \<rparr>"
  define s2 where "s2 = reset_lo_offset (tx_dboard s1)
    (set_gpio_mode GPIO_TX_BANK (all_dboards s1 ! tx_dboard s1) s1)"
  define s3 where "s3 = s2\<lparr> rx_dboard := lookup_dboard I2C_ADDR_RX_A 1 s2 \<rparr>"
  have s': "?s' = reset_lo_offset (rx_dboard s3)
    (set_gpio_mode GPIO_RX_BANK (all_dboards s3 ! rx_dboard s3) s3)"
    by (simp add: db_init_def Let_def on_env_def io_write_def s1_def s2_def s3_def)
  have tx: "tx_dboard ?s' = lookup_dboard I2C_ADDR_TX_A 0 ?s"
    and rx: "rx_dboard ?s' = lookup_dboard I2C_ADDR_RX_A 1 s2"
    by (simp_all add: s' s3_def s2_def s1_def)
  have m: "map dbid (all_dboards s2) = map dbid (all_dboards ?s)" "eeprom s2 = eeprom ?s"
    "length (all_dboards s2) = length (all_dboards ?s)"
    using map_dbid_reset by (simp_all add: s2_def s1_def map_dbid_reset)
  have "right_board ?s I2C_ADDR_TX_A 0 (tx_dboard ?s')"
    unfolding tx by (rule lookup_right) (use assms in linarith)
  moreover have "right_board ?s I2C_ADDR_RX_A 1 (rx_dboard ?s')"
    unfolding rx right_board_cong [OF m(1,2), symmetric]
    by (rule lookup_right) (use assms m(3) in linarith)
  moreover have "all_dboards ?s' ! i = (if i = tx_dboard ?s' \<or> i = rx_dboard ?s'
      then (all_dboards ?s ! i)\<lparr> current_lo_offset := default_lo_offset (all_dboards ?s ! i) \<rparr>
      else all_dboards ?s ! i)" if "i < length (all_dboards ?s)" for i
    using that m(3) tx rx by (auto simp: s' reset_lo_offset_board s3_def s2_def s1_def)
  moreover have "length (all_dboards ?s') = length (all_dboards ?s)"
    using m(3) by (simp add: s' s3_def)
  ultimately show ?thesis
    unfolding Let_def by (intro conjI nth_equalityI) simp_all
qed

section \<open>Concrete boards\<close>

definition some_board :: "int \<Rightarrow> bool \<Rightarrow> db_base" where
  "some_board d tx = \<lparr> dbid = d, is_tx = tx, is_quadrature = True, i_and_q_swapped = False,
     spectrum_inverted = False, output_enables = 0xff, used_pins = 0xff,
     freq_min = 0, freq_max = 100 * 2 ^ 20, gain_min = 0, gain_max = 0, gain_step_size = 0,
     default_lo_offset = 5, current_lo_offset = 0, atr_mask = 0, atr_txval = 1, atr_rxval = 2,
     set_freq = (\<lambda>f. (True, f - 1000)), set_gain = (\<lambda>g. g = 0), set_antenna = None \<rparr>"

definition some_fw :: "boards fw" where
  "some_fw = \<lparr> buffer_state = replicate NBUFFERS BS_EMPTY, ctrl_log = [], io_log = [], line_regs = (\<lambda>b. 0),
     env = hal.extend hal_reset (boards.fields
       [some_board 0 True, some_board 1 False, some_board 7 True] 0 1
       (\<lambda>a. if a = I2C_ADDR_TX_A then Some (0xDB # 7 # replicate 29 0 @ [0x1e]) else None)) \<rparr>"

lemma some_fw_boards: "all_dboards (env some_fw) = [some_board 0 True, some_board 1 False, some_board 7 True]"
  by (simp add: some_fw_def hal.defs boards.defs hal_reset_def)

theorem freq_control_word_witness:
  "compute_freq_control_word (FS div 2) = (- (2 ^ 31), - (FS div 2))"
  using freq_control_word [of "FS div 2"] by (simp add: FS_def split: prod.splits)

theorem db_tune_reaches_target_witness:
  "baseband_freq (snd (fst (db_tune 0 (20 * 2 ^ 20) some_fw))) + dxc_freq (snd (fst (db_tune 0 (20 * 2 ^ 20) some_fw)))
     = 20 * 2 ^ 20"
proof -
  obtain ok r w' where t: "db_tune 0 (20 * 2 ^ 20) some_fw = ((ok, r), w')" by (metis surj_pair)
  have db: "some_board 0 True = all_dboards (env some_fw) ! 0" by (simp add: some_fw_boards)
  have f: "set_freq (some_board 0 True) (c_int64 (20 * 2 ^ 20 + current_lo_offset (some_board 0 True)))
    = (True, 20 * 2 ^ 20 - 1000)" by (simp add: some_board_def c_int64_id)
  show ?thesis
    using db_tune_reaches_target [OF t db f] t by (simp add: FS_def some_board_def)
qed

theorem db_init_boards_witness:
  "tx_dboard (env (db_init some_fw)) = 2 \<and> rx_dboard (env (db_init some_fw)) = 1
   \<and> map current_lo_offset (all_dboards (env (db_init some_fw))) = [0, 5, 5]"
proof -
  let ?s = "env some_fw" let ?s' = "env (db_init some_fw)"
  have b: "all_dboards ?s = [some_board 0 True, some_board 1 False, some_board 7 True]"
    using some_fw_boards by simp_all
  have e: "read_dboard_eeprom I2C_ADDR_TX_A ?s = 7" "read_dboard_eeprom I2C_ADDR_RX_A ?s = - 1"
    by code_simp+
  have "2 \<le> length (all_dboards ?s)" using b(1) by simp
  note t = db_init_boards [OF this, unfolded Let_def]
  have "tx_dboard ?s' < 3" "dbid (all_dboards ?s ! tx_dboard ?s') = 7" "rx_dboard ?s' = 1"
    using t b e by (auto simp: right_board_def some_board_def)
  then have "tx_dboard ?s' = 2" "rx_dboard ?s' = 1"
    using b(1) by (auto simp: less_Suc_eq numeral_3_eq_3 some_board_def numeral_2_eq_2)
  moreover from this have "map current_lo_offset (all_dboards ?s') = [0, 5, 5]"
    using t b(1) by (simp add: some_board_def upt_rec numeral_3_eq_3)
  ultimately show ?thesis by simp
qed

end
