(* ===== verification/Dbsm_Fifo.thy ===== *)
theory Dbsm_Fifo
  imports Dbsm
begin

text \<open>
  Correctness of the double buffering state machine.  The control words written so far determine
  what the hardware does with each buffer (\<open>hw_mode\<close>); the invariant \<open>dbsm_ok\<close> says that the
  table \<open>buffer_state\<close> agrees with it and that the pair is in one of three shapes.  A ghost
  trace records the packets accepted from the receive port and those sent or dropped, in order;
  the machine is a queue of at most two packets between them.  The inspector enters through the
  locale \<open>packet_inspector\<close>.
\<close>

section \<open>What the control register does\<close>


datatype hw_op = Hw_idle | Hw_receive | Hw_send

definition ctrl_buffer :: "u32 \<Rightarrow> nat" where "ctrl_buffer c = unat (drop_bit 28 c)"
definition ctrl_op :: "u32 \<Rightarrow> hw_op" where
  "ctrl_op c = (if bit c 23 then Hw_receive else if bit c 22 then Hw_send else Hw_idle)"
definition hw_mode :: "u32 list \<Rightarrow> nat \<Rightarrow> hw_op" where
  "hw_mode log b = foldl (\<lambda>m c. if ctrl_buffer c = b then ctrl_op c else m) Hw_idle log"

lemma hw_mode_append [simp]:
  "hw_mode (log @ cs) b = foldl (\<lambda>m c. if ctrl_buffer c = b then ctrl_op c else m) (hw_mode log b) cs"
  by (simp add: hw_mode_def)

lemma hw_mode_Nil [simp]: "hw_mode [] b = Hw_idle"
  by (simp add: hw_mode_def)

lemmas bpc_defs = BPC_BUFFER_def BPC_PORT_def BPC_CLR_def BPC_READ_def BPC_WRITE_def BPC_STEP_def
  BPC_LAST_LINE_def BPC_FIRST_LINE_def PORT_NIL_def

lemma drop_BPC_BUFFER [simp]:
  assumes "n < 16" shows "unat (drop_bit 28 (BPC_BUFFER n)) = n"
proof -
  have "list_all (\<lambda>n. unat (drop_bit 28 (BPC_BUFFER n)) = n) [0..<16]" by code_simp
  then show ?thesis using assms by (simp add: list_all_iff del: upt_conv_Cons)
qed

lemma drop_bpc_fields [simp]: "drop_bit 28 (BPC_PORT p) = 0" "drop_bit 28 BPC_CLR = 0"
  "drop_bit 28 BPC_READ = 0" "drop_bit 28 BPC_WRITE = 0" "drop_bit 28 (BPC_STEP s) = 0"
  "drop_bit 28 (BPC_LAST_LINE l) = 0" "drop_bit 28 (BPC_FIRST_LINE l) = 0"
  by (auto intro!: bit_word_eqI simp: bpc_defs bit_simps One_nat_def bit_0 bit_numeral_rec)

lemma bit_bpc_fields [simp]: "\<not> bit (BPC_BUFFER n) 23" "\<not> bit (BPC_BUFFER n) 22" 
  "\<not> bit (BPC_PORT p) 23" "\<not> bit (BPC_PORT p) 22"
  "\<not> bit (BPC_STEP s) 23" "\<not> bit (BPC_STEP s) 22"
  "\<not> bit (BPC_LAST_LINE l) 23" "\<not> bit (BPC_LAST_LINE l) 22"
  "\<not> bit (BPC_FIRST_LINE l) 23" "\<not> bit (BPC_FIRST_LINE l) 22"
  "\<not> bit (BPC_CLR) 23" "\<not> bit (BPC_CLR) 22"
  "bit BPC_READ 23" "\<not> bit BPC_READ 22"
  "bit BPC_WRITE 22" "\<not> bit BPC_WRITE 23"
  by (simp_all add: bpc_defs bit_simps One_nat_def)


lemma ctrl_clear [simp]:
  assumes "n < 16"
  shows "ctrl_buffer (BPC_BUFFER n OR BPC_PORT p OR BPC_CLR) = n"
    "ctrl_op (BPC_BUFFER n OR BPC_PORT p OR BPC_CLR) = Hw_idle"
  using assms by (simp_all add: ctrl_buffer_def ctrl_op_def bit_or_iff)

lemma ctrl_receive [simp]:
  assumes "n < 16"
  shows "ctrl_buffer (BPC_READ OR BPC_BUFFER n OR BPC_PORT p OR BPC_STEP s OR BPC_FIRST_LINE f OR BPC_LAST_LINE l) = n"
    "ctrl_op (BPC_READ OR BPC_BUFFER n OR BPC_PORT p OR BPC_STEP s OR BPC_FIRST_LINE f OR BPC_LAST_LINE l) = Hw_receive"
  using assms by (simp_all add: ctrl_buffer_def ctrl_op_def bit_or_iff)

lemma ctrl_send [simp]:
  assumes "n < 16"
  shows "ctrl_buffer (BPC_WRITE OR BPC_BUFFER n OR BPC_PORT p OR BPC_STEP s OR BPC_FIRST_LINE f OR BPC_LAST_LINE l) = n"
    "ctrl_op (BPC_WRITE OR BPC_BUFFER n OR BPC_PORT p OR BPC_STEP s OR BPC_FIRST_LINE f OR BPC_LAST_LINE l) = Hw_send"
  using assms by (simp_all add: ctrl_buffer_def ctrl_op_def bit_or_iff)

lemma ctrl_with_last_line:
  "ctrl_buffer (c OR BPC_LAST_LINE l) = ctrl_buffer c"
  "ctrl_op (c OR BPC_LAST_LINE l) = ctrl_op c"
  by (simp_all add: ctrl_buffer_def ctrl_op_def bit_or_iff)

section \<open>The invariant\<close>

definition pair :: "dbsm \<Rightarrow> nat set" where
  "pair sm = {buf0 sm, buf0 sm XOR 1}"

definition hw_of_state :: "buffer_state_t \<Rightarrow> hw_op" where
  "hw_of_state s = (case s of BS_FILLING \<Rightarrow> Hw_receive | BS_EMPTYING \<Rightarrow> Hw_send | _ \<Rightarrow> Hw_idle)"

lemma hw_of_state_simps [simp]:
  "hw_of_state BS_FILLING = Hw_receive" "hw_of_state BS_EMPTYING = Hw_send"
  "hw_of_state BS_EMPTY = Hw_idle" "hw_of_state BS_FULL = Hw_idle"
  by (simp_all add: hw_of_state_def)

text \<open>The precomputed control words address the buffers of the pair.\<close>

definition words_ok :: "dbsm \<Rightarrow> bool" where
  "words_ok sm \<longleftrightarrow> (\<forall>b \<in> pair sm.
     ctrl_buffer (recv_words sm ! (b mod 2)) = b \<and> ctrl_op (recv_words sm ! (b mod 2)) = Hw_receive
     \<and> ctrl_buffer (send_words sm ! (b mod 2)) = b \<and> ctrl_op (send_words sm ! (b mod 2)) = Hw_send)"

text \<open>
  The shapes: one buffer fills and the other is empty (nothing to send), one fills while the other
  is being sent, or one is full and waits while the other is being sent (receiver idle).
\<close>

definition shape :: "dbsm \<Rightarrow> 'e fw \<Rightarrow> nat \<Rightarrow> bool" where
  "shape sm w b \<longleftrightarrow>
     (buffer_state w ! b, buffer_state w ! (b XOR 1), rx_idle sm, tx_idle sm) \<in>
       {(BS_FILLING, BS_EMPTY, False, True), (BS_FILLING, BS_EMPTYING, False, False),
        (BS_FULL, BS_EMPTYING, True, False)}"

definition pool_ok :: "dbsm \<Rightarrow> 'e fw \<Rightarrow> bool" where
  "pool_ok sm w \<longleftrightarrow> words_ok sm \<and> length (buffer_state w) = NBUFFERS
     \<and> even (buf0 sm) \<and> buf0 sm < NBUFFERS"

definition dbsm_ok :: "dbsm \<times> 'e fw \<Rightarrow> bool" where
  "dbsm_ok = (\<lambda>(sm, w). pool_ok sm w \<and> running sm \<and> (\<exists>b \<in> pair sm. shape sm w b)
     \<and> (\<forall>b \<in> pair sm. hw_mode (ctrl_log w) b = hw_of_state (buffer_state w ! b)))"

lemma xor_1_nat: "even (b::nat) \<Longrightarrow> b XOR 1 = b + 1"
  by (simp add: xor_one_eq)

lemma pair_facts:
  assumes "pool_ok sm w" "b \<in> pair sm"
  shows "b XOR 1 \<in> pair sm" "b XOR 1 \<noteq> b" "b < length (buffer_state w)"
    "b XOR 1 < length (buffer_state w)" "b < 16" "b XOR 1 < 16"
    "pair sm = {b, b XOR 1}"
proof -
  have e: "even (buf0 sm)" "buf0 sm < 8" "length (buffer_state w) = 8"
    using assms(1) by (auto simp: pool_ok_def NBUFFERS_def)
  then have lt: "buf0 sm + 1 < 8" by (elim evenE) simp
  have x: "buf0 sm XOR 1 = buf0 sm + 1" by (rule xor_1_nat) (rule e)
  have y: "(buf0 sm + 1) XOR 1 = buf0 sm" using xor_nat_cancel(1) [of "buf0 sm" 1] x by simp
  show "b XOR 1 \<in> pair sm" "b XOR 1 \<noteq> b" "b < length (buffer_state w)"
    "b XOR 1 < length (buffer_state w)" "b < 16" "b XOR 1 < 16" "pair sm = {b, b XOR 1}"
    using assms(2) e lt x y by (auto simp: pair_def)
qed


lemma pool_ok_cong:
  "pool_ok sm w \<Longrightarrow> length (buffer_state w') = length (buffer_state w)
    \<Longrightarrow> words_ok sm' = words_ok sm \<Longrightarrow> buf0 sm' = buf0 sm \<Longrightarrow> pool_ok sm' w'"
  by (simp add: pool_ok_def)

lemmas fw_ops = set_buffer_def ctrl_write_def io_write_def bp_clear_buf_def
  dbsm_receive_to_buf_def dbsm_send_from_buf_def

lemma flags_irrelevant [simp]:
  "pair (sm\<lparr> tx_idle := x \<rparr>) = pair sm" "pair (sm\<lparr> rx_idle := x \<rparr>) = pair sm"
  "pair (sm\<lparr> running := x \<rparr>) = pair sm"
  "words_ok (sm\<lparr> tx_idle := x \<rparr>) = words_ok sm" "words_ok (sm\<lparr> rx_idle := x \<rparr>) = words_ok sm"
  "words_ok (sm\<lparr> running := x \<rparr>) = words_ok sm"
  by (simp_all add: words_ok_def pair_def)

lemma words_okD:
  assumes "pool_ok sm w" "b \<in> pair sm"
  shows "ctrl_buffer (recv_words sm ! (b mod 2)) = b" "ctrl_op (recv_words sm ! (b mod 2)) = Hw_receive"
    "ctrl_buffer (send_words sm ! (b mod 2)) = b" "ctrl_op (send_words sm ! (b mod 2)) = Hw_send"
  using assms by (auto simp: pool_ok_def words_ok_def)

lemma dbsm_okI:
  assumes "pool_ok sm w" "running sm" "b \<in> pair sm" "shape sm w b"
    and "hw_mode (ctrl_log w) b = hw_of_state (buffer_state w ! b)"
    and "hw_mode (ctrl_log w) (b XOR 1) = hw_of_state (buffer_state w ! (b XOR 1))"
  shows "dbsm_ok (sm, w)"
  using assms pair_facts [OF assms(1,3)] by (auto simp: dbsm_ok_def)

lemma dbsm_okE:
  assumes "dbsm_ok (sm, w)" "c \<in> pair sm"
  shows "pool_ok sm w" "running sm" "hw_mode (ctrl_log w) c = hw_of_state (buffer_state w ! c)"
  using assms by (auto simp: dbsm_ok_def)

text \<open>A buffer with a transfer in progress is at the centre of a shape or opposite to one.\<close>

lemma shape_filling:
  assumes "dbsm_ok (sm, w)" "b \<in> pair sm" "buffer_state w ! b = BS_FILLING"
  shows "shape sm w b"
  using assms pair_facts [OF dbsm_okE(1) [OF assms(1,2)] assms(2)]
  by (auto simp: dbsm_ok_def shape_def pair_def)

lemma shape_emptying:
  assumes "dbsm_ok (sm, w)" "b \<in> pair sm" "buffer_state w ! b = BS_EMPTYING"
  shows "shape sm w (b XOR 1)"
  using assms pair_facts [OF dbsm_okE(1) [OF assms(1,2)] assms(2)]
  by (auto simp: dbsm_ok_def shape_def pair_def)

section \<open>The contract of an inspector\<close>

text \<open>
  An inspector may do what it likes except to the buffers of the pair it works for.  It may need the
  rest of the firmware to be in order for that, \<open>env_ok b\<close> for the pair that starts with buffer
  \<open>b\<close>, and then leaves it in order.
\<close>

locale packet_inspector =
  fixes insp :: "'e inspector" and env_ok :: "nat \<Rightarrow> 'e \<Rightarrow> bool"
  assumes keeps_length: "pool_ok sm w \<Longrightarrow> env_ok (buf0 sm) (env w)
      \<Longrightarrow> length (buffer_state (snd (insp sm b w))) = length (buffer_state w)"
    and keeps_state: "pool_ok sm w \<Longrightarrow> env_ok (buf0 sm) (env w) \<Longrightarrow> c \<in> pair sm
      \<Longrightarrow> buffer_state (snd (insp sm b w)) ! c = buffer_state w ! c"
    and keeps_hw: "pool_ok sm w \<Longrightarrow> env_ok (buf0 sm) (env w) \<Longrightarrow> c \<in> pair sm
      \<Longrightarrow> hw_mode (ctrl_log (snd (insp sm b w))) c = hw_mode (ctrl_log w) c"
    and keeps_env: "pool_ok sm w \<Longrightarrow> env_ok (buf0 sm) (env w)
      \<Longrightarrow> env_ok (buf0 sm) (env (snd (insp sm b w)))"

definition any_env :: "nat \<Rightarrow> 'e \<Rightarrow> bool" where
  "any_env b e = True"

interpretation nop: packet_inspector dbsm_nop_inspector any_env
  by unfold_locales (simp_all add: dbsm_nop_inspector_def any_env_def)

section \<open>Packets as a ghost trace\<close>

record 'p ghost =
  content :: "nat \<Rightarrow> 'p"
  accepted :: "'p list"
  gone :: "'p list"

text \<open>
  The effect of the end of a transfer on the packets: a buffer that was filling now holds the
  packet \<open>p\<close>, which is accepted unless the inspector handled it; a buffer that was emptying
  gives its packet up.
\<close>

definition transfer_done :: "'e inspector \<Rightarrow> nat \<Rightarrow> 'p \<Rightarrow> dbsm \<times> 'e fw \<Rightarrow> 'p ghost \<Rightarrow> 'p ghost" where
  "transfer_done insp b p = (\<lambda>(sm, w) g.
     if buffer_state w ! b = BS_FILLING then
       (if fst (insp sm b (set_buffer b BS_FULL (bp_clear_buf b w)))
        then g\<lparr> content := (content g)(b := p) \<rparr>
        else g\<lparr> content := (content g)(b := p), accepted := accepted g @ [p] \<rparr>)
     else g\<lparr> gone := gone g @ [content g b] \<rparr>)"

definition in_flight :: "dbsm \<Rightarrow> 'e fw \<Rightarrow> 'p ghost \<Rightarrow> 'p list" where
  "in_flight sm w g =
     [content g b. b \<leftarrow> [buf0 sm, buf0 sm XOR 1], buffer_state w ! b = BS_EMPTYING]
     @ [content g b. b \<leftarrow> [buf0 sm, buf0 sm XOR 1], buffer_state w ! b = BS_FULL]"

definition fifo :: "dbsm \<times> 'e fw \<Rightarrow> 'p ghost \<Rightarrow> bool" where
  "fifo = (\<lambda>(sm, w) g. accepted g = gone g @ in_flight sm w g)"

lemma in_flight_pair:
  assumes "pool_ok sm w" "b \<in> pair sm" "shape sm w b"
  shows "in_flight sm w g =
    (if buffer_state w ! (b XOR 1) = BS_EMPTYING then [content g (b XOR 1)] else [])
    @ (if buffer_state w ! b = BS_FULL then [content g b] else [])"
  using assms pair_facts [OF assms(1,2)]
  by (auto simp: in_flight_def pair_def shape_def)

text \<open>
  The packets across one call of \<open>dbsm_process_status\<close>: the buffers whose \<open>DONE\<close> bit is set are
  finished in the order of the code, after the restarts.  \<open>arrive b\<close> is the packet that the
  hardware put into buffer \<open>b\<close>.
\<close>

definition status_errors :: "u32 \<Rightarrow> dbsm \<times> 'e fw \<Rightarrow> dbsm \<times> 'e fw" where
  "status_errors status = (\<lambda>(sm, w).
     if status AND (BPS_ERROR (buf0 sm) OR BPS_ERROR (buf0 sm XOR 1)) \<noteq> 0 then
       let s = (sm, io_write (Putchar (CHR ''E'')) w);
           s = (if status AND BPS_ERROR (buf0 sm) \<noteq> 0 then dbsm_error_helper (buf0 sm) s else s)
       in if status AND BPS_ERROR (buf0 sm XOR 1) \<noteq> 0 then dbsm_error_helper (buf0 sm XOR 1) s else s
     else (sm, w))"

definition status_done ::
  "'e inspector \<Rightarrow> u32 \<Rightarrow> nat \<Rightarrow> 'p \<Rightarrow> (dbsm \<times> 'e fw) \<times> 'p ghost \<Rightarrow> (dbsm \<times> 'e fw) \<times> 'p ghost" where
  "status_done insp status b p = (\<lambda>(s, g).
     if status AND BPS_DONE b \<noteq> 0 then (dbsm_process_helper insp b s, transfer_done insp b p s g)
     else (s, g))"

definition status_step ::
  "'e inspector \<Rightarrow> u32 \<Rightarrow> (nat \<Rightarrow> 'p) \<Rightarrow> dbsm \<times> 'e fw \<Rightarrow> 'p ghost \<Rightarrow> (dbsm \<times> 'e fw) \<times> 'p ghost" where
  "status_step insp status arrive s g =
     (let b = buf0 (fst s)
      in status_done insp status (b XOR 1) (arrive (b XOR 1))
           (status_done insp status b (arrive b) (status_errors status s, g)))"

lemma process_status_step:
  "running (fst s) \<Longrightarrow> dbsm_process_status insp status s = fst (status_step insp status arrive s g)"
  by (cases s) (simp add: dbsm_process_status_def status_step_def status_done_def status_errors_def
      Let_def split: prod.splits)

text \<open>The hardware reports the end or the failure of transfers that it was asked to do.\<close>

definition hw_reports :: "u32 \<Rightarrow> dbsm \<times> 'e fw \<Rightarrow> bool" where
  "hw_reports status = (\<lambda>(sm, w). \<forall>b \<in> pair sm.
     status AND BPS_DONE b \<noteq> 0 \<or> status AND BPS_ERROR b \<noteq> 0 \<longrightarrow> hw_mode (ctrl_log w) b \<noteq> Hw_idle)"

lemma error_helper_ok:
  assumes ok: "dbsm_ok (sm, w)" and b: "b \<in> pair sm" and busy: "hw_mode (ctrl_log w) b \<noteq> Hw_idle"
  shows "\<exists>w'. dbsm_error_helper b (sm, w) = (sm, w') \<and> dbsm_ok (sm, w') \<and> env w' = env w
    \<and> buffer_state w' = buffer_state w \<and> (\<forall>c \<in> pair sm. hw_mode (ctrl_log w') c = hw_mode (ctrl_log w) c)"
proof -
  have pool: "pool_ok sm w" using ok by (simp add: dbsm_ok_def)
  note pf = pair_facts [OF pool b]
  note wd = words_okD [OF pool b]
  have "buffer_state w ! b = BS_FILLING \<or> buffer_state w ! b = BS_EMPTYING"
    using dbsm_okE(3) [OF ok b] busy by (cases "buffer_state w ! b") auto
  then show ?thesis
    using ok b pf wd dbsm_okE(3) [OF ok b]
    by (auto simp: dbsm_error_helper_def fw_ops dbsm_ok_def pool_ok_def shape_def ctrl_with_last_line)
qed

lemma dbsm_ok_io [simp]: "dbsm_ok (sm, io_write x w) = dbsm_ok (sm, w)"
  by (simp add: dbsm_ok_def pool_ok_def shape_def io_write_def)

lemma status_errors_ok:
  assumes ok: "dbsm_ok (sm, w)" and r: "hw_reports status (sm, w)"
  shows "\<exists>w'. status_errors status (sm, w) = (sm, w') \<and> dbsm_ok (sm, w') \<and> env w' = env w
    \<and> buffer_state w' = buffer_state w \<and> (\<forall>c \<in> pair sm. hw_mode (ctrl_log w') c = hw_mode (ctrl_log w) c)"
proof -
  let ?b = "buf0 sm" let ?c = "buf0 sm XOR 1" let ?w = "io_write (Putchar (CHR ''E'')) w"
  have in_pair: "?b \<in> pair sm" "?c \<in> pair sm" by (simp_all add: pair_def)
  have busy: "status AND BPS_ERROR b \<noteq> 0 \<Longrightarrow> b \<in> pair sm \<Longrightarrow> hw_mode (ctrl_log ?w) b \<noteq> Hw_idle" for b
    using r by (auto simp: hw_reports_def io_write_def)
  have ok1: "dbsm_ok (sm, ?w)" using ok by simp
  have w: "buffer_state ?w = buffer_state w" "ctrl_log ?w = ctrl_log w" "env ?w = env w" by (simp_all add: io_write_def)
  obtain w1 where w1: "(if status AND BPS_ERROR ?b \<noteq> 0 then dbsm_error_helper ?b (sm, ?w) else (sm, ?w)) = (sm, w1)"
      "dbsm_ok (sm, w1)" "buffer_state w1 = buffer_state w" "env w1 = env w"
      "\<forall>c \<in> pair sm. hw_mode (ctrl_log w1) c = hw_mode (ctrl_log w) c"
    using error_helper_ok [OF ok1 in_pair(1) busy [OF _ in_pair(1)]] ok1 w
    by (cases "status AND BPS_ERROR ?b = 0") auto
  obtain w2 where w2: "(if status AND BPS_ERROR ?c \<noteq> 0 then dbsm_error_helper ?c (sm, w1) else (sm, w1)) = (sm, w2)"
      "dbsm_ok (sm, w2)" "buffer_state w2 = buffer_state w" "env w2 = env w"
      "\<forall>c \<in> pair sm. hw_mode (ctrl_log w2) c = hw_mode (ctrl_log w) c"
    using error_helper_ok [OF w1(2) in_pair(2)] busy [OF _ in_pair(2)] w1 in_pair(2) w
    by (cases "status AND BPS_ERROR ?c = 0") auto
  show ?thesis
    using ok w1(1) w2 by (auto simp: status_errors_def Let_def split: if_splits)
qed

lemma fifo_cong:
  "buffer_state w' = buffer_state w \<Longrightarrow> buf0 sm' = buf0 sm \<Longrightarrow> fifo (sm', w') g = fifo (sm, w) g"
  by (simp add: fifo_def in_flight_def)

context packet_inspector
begin

text \<open>How one finished transfer changes the table, the control register and the flags.\<close>

lemma insp_facts:
  assumes "pool_ok sm w" "env_ok (buf0 sm) (env w)" "insp sm b w = (h, w1)"
  shows "length (buffer_state w1) = length (buffer_state w)"
    "c \<in> pair sm \<Longrightarrow> buffer_state w1 ! c = buffer_state w ! c"
    "c \<in> pair sm \<Longrightarrow> hw_mode (ctrl_log w1) c = hw_mode (ctrl_log w) c"
    "env_ok (buf0 sm) (env w1)"
  using keeps_length [OF assms(1,2), of b] keeps_state [OF assms(1,2), of c b]
    keeps_hw [OF assms(1,2), of c b] keeps_env [OF assms(1,2), of b] assms(3) by auto

lemma helper_filling:
  assumes ok: "dbsm_ok (sm, w)" and eok: "env_ok (buf0 sm) (env w)"
    and b: "b \<in> pair sm" and f: "buffer_state w ! b = BS_FILLING" and q: "fifo (sm, w) g"
    and h: "dbsm_process_helper insp b (sm, w) = (sm', w')"
  shows "dbsm_ok (sm', w')" "fifo (sm', w') (transfer_done insp b p (sm, w) g)" "buf0 sm' = buf0 sm"
    "buffer_state w ! (b XOR 1) = BS_EMPTYING \<Longrightarrow> buffer_state w' ! (b XOR 1) = BS_EMPTYING"
    "env_ok (buf0 sm') (env w')"
proof -
  let ?c = "b XOR 1"
  have pool: "pool_ok sm w" using ok by (simp add: dbsm_ok_def)
  note pf = pair_facts [OF pool b]
  note wd = words_okD [OF pool b] words_okD [OF pool pf(1)]
  let ?w = "set_buffer b BS_FULL (bp_clear_buf b w)"
  obtain handled w1 where i: "insp sm b ?w = (handled, w1)" by force
  have pool2: "pool_ok sm ?w" "env_ok (buf0 sm) (env ?w)"
    using pool eok by (simp_all add: pool_ok_def fw_ops)
  have run: "running sm" and hwc: "hw_mode (ctrl_log w) ?c = hw_of_state (buffer_state w ! ?c)"
    using dbsm_okE [OF ok] pf(1) by auto
  have len: "length (buffer_state w1) = length (buffer_state w)"
    and st: "buffer_state w1 ! b = BS_FULL" "buffer_state w1 ! ?c = buffer_state w ! ?c"
    and hw: "hw_mode (ctrl_log w1) b = Hw_idle" "hw_mode (ctrl_log w1) ?c = hw_mode (ctrl_log w) ?c"
    and e1: "env_ok (buf0 sm) (env w1)"
    using insp_facts [OF pool2 i] b pf by (auto simp: fw_ops)
  have shp: "shape sm w b" by (rule shape_filling [OF ok b f])
  have pool1: "pool_ok sm w1" using pool len by (rule pool_ok_cong) auto
  have q0: "accepted g = gone g @ (if buffer_state w ! ?c = BS_EMPTYING then [content g ?c] else [])"
    using q f in_flight_pair [OF pool b shp, of g] by (simp add: fifo_def)
  let ?g = "transfer_done insp b p (sm, w) g"
  consider (handled) "handled" "sm' = sm" "w' = set_buffer b BS_FILLING (dbsm_receive_to_buf sm b w1)"
      "?g = g\<lparr> content := (content g)(b := p) \<rparr>"
    | (pass) "\<not> handled" "buffer_state w ! ?c = BS_EMPTY" "sm' = sm\<lparr> tx_idle := False \<rparr>"
      "w' = set_buffer b BS_EMPTYING
              (dbsm_send_from_buf sm b (set_buffer ?c BS_FILLING (dbsm_receive_to_buf sm ?c w1)))"
      "?g = g\<lparr> content := (content g)(b := p), accepted := accepted g @ [p] \<rparr>"
    | (wait) "\<not> handled" "buffer_state w ! ?c = BS_EMPTYING" "sm' = sm\<lparr> rx_idle := True \<rparr>" "w' = w1"
      "?g = g\<lparr> content := (content g)(b := p), accepted := accepted g @ [p] \<rparr>"
    using h f i shp st pf(2,3)
    by (cases handled) (auto simp: dbsm_process_helper_def transfer_done_def shape_def Let_def fw_ops)
  then have "dbsm_ok (sm', w') \<and> fifo (sm', w') ?g \<and> buf0 sm' = buf0 sm
    \<and> (buffer_state w ! (b XOR 1) = BS_EMPTYING \<longrightarrow> buffer_state w' ! (b XOR 1) = BS_EMPTYING)
    \<and> env_ok (buf0 sm') (env w')"
  proof cases
    case handled
    have p': "pool_ok sm w'" using pool1 handled by (simp add: pool_ok_def fw_ops)
    have s': "shape sm w' b" using handled shp st f pf len by (simp add: shape_def fw_ops)
    have "dbsm_ok (sm, w')"
      using handled hw hwc st pf wd len
      by (intro dbsm_okI [OF p' run b s']) (simp_all add: fw_ops)
    moreover have "fifo (sm', w') ?g"
      using handled q0 in_flight_pair [OF p' b s', of ?g] st pf len by (simp add: fifo_def fw_ops)
    ultimately show ?thesis using handled st pf e1 by (simp add: fw_ops)
  next
    case pass
    have p': "pool_ok sm' w'" using pool1 pass by (simp add: pool_ok_def fw_ops)
    have c: "?c \<in> pair sm'" "?c XOR 1 = b" using pf pass by auto
    have s': "shape sm' w' ?c" using pass shp st f pf len by (simp add: shape_def fw_ops)
    have "dbsm_ok (sm', w')"
      using pass run hw hwc st pf wd len
      by (intro dbsm_okI [OF p' _ c(1) s']) (simp_all add: fw_ops ctrl_with_last_line)
    moreover have "fifo (sm', w') ?g"
      using pass q0 in_flight_pair [OF p' c(1) s', of ?g] st pf len by (simp add: fifo_def fw_ops)
    ultimately show ?thesis using pass e1 by (simp add: fw_ops)
  next
    case wait
    have p': "pool_ok sm' w'" using pool1 wait by (simp add: pool_ok_def)
    have c: "b \<in> pair sm'" using b wait by simp
    have s': "shape sm' w' b" using wait shp st f pf len by (simp add: shape_def)
    have "dbsm_ok (sm', w')"
      using wait run hw hwc st pf wd len by (intro dbsm_okI [OF p' _ c s']) simp_all
    moreover have "fifo (sm', w') ?g"
      using wait q0 in_flight_pair [OF p' c s', of ?g] st pf len by (simp add: fifo_def)
    ultimately show ?thesis using wait st e1 by simp
  qed
  then show "dbsm_ok (sm', w')" "fifo (sm', w') (transfer_done insp b p (sm, w) g)" "buf0 sm' = buf0 sm"
    "buffer_state w ! (b XOR 1) = BS_EMPTYING \<Longrightarrow> buffer_state w' ! (b XOR 1) = BS_EMPTYING"
    "env_ok (buf0 sm') (env w')"
    by auto
qed

text \<open>The end of a transmission; what the hardware does with the buffer itself plays no role.\<close>

lemma helper_emptying:
  assumes pool: "pool_ok sm w" and run: "running sm" and shp: "shape sm w (b XOR 1)"
    and hwc: "hw_mode (ctrl_log w) (b XOR 1) = hw_of_state (buffer_state w ! (b XOR 1))"
    and b: "b \<in> pair sm" and e: "buffer_state w ! b = BS_EMPTYING" and q: "fifo (sm, w) g"
    and h: "dbsm_process_helper insp b (sm, w) = (sm', w')"
  shows "dbsm_ok (sm', w')" "fifo (sm', w') (transfer_done insp b p (sm, w) g)" "buf0 sm' = buf0 sm"
    "buffer_state w ! (b XOR 1) = BS_FILLING \<Longrightarrow> buffer_state w' ! (b XOR 1) = BS_FILLING"
    "env w' = env w"
proof -
  let ?c = "b XOR 1"
  note pf = pair_facts [OF pool b]
  note wd = words_okD [OF pool b] words_okD [OF pool pf(1)]
  have q0: "accepted g = gone g @ [content g b] @ (if buffer_state w ! ?c = BS_FULL then [content g ?c] else [])"
    using q e in_flight_pair [OF pool pf(1) shp, of g] by (simp add: fifo_def)
  let ?g = "transfer_done insp b p (sm, w) g"
  have g': "?g = g\<lparr> gone := gone g @ [content g b] \<rparr>"
    using e by (simp add: transfer_done_def)
  let ?w = "set_buffer b BS_EMPTY (bp_clear_buf b w)"
  consider (last) "buffer_state w ! ?c = BS_FILLING" "sm' = sm\<lparr> tx_idle := True \<rparr>" "w' = ?w"
    | (more) "buffer_state w ! ?c = BS_FULL" "sm' = sm\<lparr> rx_idle := False \<rparr>"
      "w' = set_buffer ?c BS_EMPTYING
              (dbsm_send_from_buf sm ?c (set_buffer b BS_FILLING (dbsm_receive_to_buf sm b ?w)))"
    using h e shp pf
    by (cases "buffer_state w ! ?c")
       (auto simp: dbsm_process_helper_def shape_def Let_def fw_ops dbsm.defs)
  then have "dbsm_ok (sm', w') \<and> fifo (sm', w') ?g \<and> buf0 sm' = buf0 sm
    \<and> (buffer_state w ! ?c = BS_FILLING \<longrightarrow> buffer_state w' ! ?c = BS_FILLING) \<and> env w' = env w"
  proof cases
    case last
    have p': "pool_ok sm' w'" using pool last by (simp add: pool_ok_def fw_ops)
    have c: "?c \<in> pair sm'" "?c XOR 1 = b" using pf last by auto
    have s': "shape sm' w' ?c" using last shp e pf by (simp add: shape_def fw_ops)
    have "dbsm_ok (sm', w')"
      using last run hwc pf wd by (intro dbsm_okI [OF p' _ c(1) s']) (simp_all add: fw_ops)
    moreover have "fifo (sm', w') ?g"
      using last q0 g' in_flight_pair [OF p' c(1) s', of ?g] pf by (simp add: fifo_def fw_ops)
    ultimately show ?thesis using last pf by (simp add: fw_ops)
  next
    case more
    have p': "pool_ok sm' w'" using pool more by (simp add: pool_ok_def fw_ops)
    have c: "b \<in> pair sm'" using b more by simp
    have s': "shape sm' w' b" using more shp e pf by (simp add: shape_def fw_ops)
    have "dbsm_ok (sm', w')"
      using more run hwc pf wd
      by (intro dbsm_okI [OF p' _ c s']) (simp_all add: fw_ops ctrl_with_last_line)
    moreover have "fifo (sm', w') ?g"
      using more q0 g' in_flight_pair [OF p' c s', of ?g] pf by (simp add: fifo_def fw_ops)
    ultimately show ?thesis using more by (simp add: fw_ops)
  qed
  then show "dbsm_ok (sm', w')" "fifo (sm', w') ?g" "buf0 sm' = buf0 sm"
    "buffer_state w ! (b XOR 1) = BS_FILLING \<Longrightarrow> buffer_state w' ! (b XOR 1) = BS_FILLING"
    "env w' = env w"
    by auto
qed

lemma helper_done:
  assumes ok: "dbsm_ok (sm, w)" and eok: "env_ok (buf0 sm) (env w)" and b: "b \<in> pair sm" and busy: "hw_mode (ctrl_log w) b \<noteq> Hw_idle"
    and q: "fifo (sm, w) g"
    and h: "dbsm_process_helper insp b (sm, w) = (sm', w')"
  shows "dbsm_ok (sm', w')" "fifo (sm', w') (transfer_done insp b p (sm, w) g)" "buf0 sm' = buf0 sm"
    "hw_mode (ctrl_log w) (b XOR 1) \<noteq> Hw_idle \<Longrightarrow> hw_mode (ctrl_log w') (b XOR 1) \<noteq> Hw_idle"
    "env_ok (buf0 sm') (env w')"
proof -
  have pool: "pool_ok sm w" using ok by (simp add: dbsm_ok_def)
  note pf = pair_facts [OF pool b]
  have hw: "hw_mode (ctrl_log w) c = hw_of_state (buffer_state w ! c)" if "c \<in> pair sm" for c
    using ok that by (simp add: dbsm_ok_def)
  have other: "buffer_state w ! (b XOR 1) = BS_FILLING \<or> buffer_state w ! (b XOR 1) = BS_EMPTYING"
    if "hw_mode (ctrl_log w) (b XOR 1) \<noteq> Hw_idle"
    using that hw [OF pf(1)] by (cases "buffer_state w ! (b XOR 1)") auto
  have busy': "hw_mode (ctrl_log w') (b XOR 1) \<noteq> Hw_idle"
    if "dbsm_ok (sm', w')" "buf0 sm' = buf0 sm" "buffer_state w' ! (b XOR 1) \<in> {BS_FILLING, BS_EMPTYING}"
    using dbsm_okE(3) [OF that(1), of "b XOR 1"] that(2,3) pf(1) by (auto simp: pair_def)
  consider (f) "buffer_state w ! b = BS_FILLING" | (e) "buffer_state w ! b = BS_EMPTYING"
    using hw [OF b] busy by (cases "buffer_state w ! b") auto
  then have "dbsm_ok (sm', w') \<and> fifo (sm', w') (transfer_done insp b p (sm, w) g) \<and> buf0 sm' = buf0 sm
    \<and> (hw_mode (ctrl_log w) (b XOR 1) \<noteq> Hw_idle \<longrightarrow> hw_mode (ctrl_log w') (b XOR 1) \<noteq> Hw_idle)
    \<and> env_ok (buf0 sm') (env w')"
  proof cases
    case f
    have "buffer_state w ! (b XOR 1) \<noteq> BS_FILLING"
      using shape_filling [OF ok b f] by (auto simp: shape_def)
    then show ?thesis
      using helper_filling(1,3,4,5) [OF ok eok b f q h] helper_filling(2) [OF ok eok b f q h] other busy' by auto
  next
    case e
    have pre: "pool_ok sm w" "running sm" "shape sm w (b XOR 1)"
      "hw_mode (ctrl_log w) (b XOR 1) = hw_of_state (buffer_state w ! (b XOR 1))"
      using dbsm_okE [OF ok pf(1)] shape_emptying [OF ok b e] by auto
    have "buffer_state w ! (b XOR 1) \<noteq> BS_EMPTYING"
      using shape_emptying [OF ok b e] pf by (auto simp: shape_def)
    then show ?thesis
      using helper_emptying(1,3,4,5) [OF pre b e q h] helper_emptying(2) [OF pre b e q h] other busy' eok by auto
  qed
  then show "dbsm_ok (sm', w')" "fifo (sm', w') (transfer_done insp b p (sm, w) g)" "buf0 sm' = buf0 sm"
    "hw_mode (ctrl_log w) (b XOR 1) \<noteq> Hw_idle \<Longrightarrow> hw_mode (ctrl_log w') (b XOR 1) \<noteq> Hw_idle"
    "env_ok (buf0 sm') (env w')"
    by auto
qed

lemma status_done_ok:
  assumes ok: "dbsm_ok s" and eok: "env_ok (buf0 (fst s)) (env (snd s))"
    and b: "b \<in> pair (fst s)" and q: "fifo s g"
    and busy: "status AND BPS_DONE b \<noteq> 0 \<Longrightarrow> hw_mode (ctrl_log (snd s)) b \<noteq> Hw_idle"
    and d: "status_done insp status b p (s, g) = (s', g')"
  shows "dbsm_ok s'" "fifo s' g'" "buf0 (fst s') = buf0 (fst s)"
    "hw_mode (ctrl_log (snd s)) (b XOR 1) \<noteq> Hw_idle \<Longrightarrow> hw_mode (ctrl_log (snd s')) (b XOR 1) \<noteq> Hw_idle"
    "env_ok (buf0 (fst s')) (env (snd s'))"
proof -
  obtain sm w sm' w' where s: "s = (sm, w)" "s' = (sm', w')" by (metis surj_pair)
  have "dbsm_ok s' \<and> fifo s' g' \<and> buf0 (fst s') = buf0 (fst s)
    \<and> (hw_mode (ctrl_log (snd s)) (b XOR 1) \<noteq> Hw_idle \<longrightarrow> hw_mode (ctrl_log (snd s')) (b XOR 1) \<noteq> Hw_idle)
    \<and> env_ok (buf0 (fst s')) (env (snd s'))"
  proof (cases "status AND BPS_DONE b = 0")
    case True
    then show ?thesis using assms by (simp add: status_done_def)
  next
    case False
    then have h: "dbsm_process_helper insp b (sm, w) = (sm', w')" "g' = transfer_done insp b p (sm, w) g"
      using d s by (auto simp: status_done_def)
    have "dbsm_ok (sm, w)" "env_ok (buf0 sm) (env w)" "b \<in> pair sm"
      "hw_mode (ctrl_log w) b \<noteq> Hw_idle" "fifo (sm, w) g"
      using ok eok b q busy False s by auto
    note d = helper_done(1,3,4,5) [OF this h(1)] helper_done(2) [OF this h(1), of p]
    show ?thesis using d h(2) s by simp
  qed
  then show "dbsm_ok s'" "fifo s' g'" "buf0 (fst s') = buf0 (fst s)"
    "hw_mode (ctrl_log (snd s)) (b XOR 1) \<noteq> Hw_idle \<Longrightarrow> hw_mode (ctrl_log (snd s')) (b XOR 1) \<noteq> Hw_idle"
    "env_ok (buf0 (fst s')) (env (snd s'))"
    by auto
qed

lemma status_step_ok:
  assumes ok: "dbsm_ok s" and eok: "env_ok (buf0 (fst s)) (env (snd s))"
    and q: "fifo s g" and r: "hw_reports status s"
    and st: "status_step insp status arrive s g = (s', g')"
  shows "dbsm_ok s'" "fifo s' g'" "env_ok (buf0 (fst s')) (env (snd s'))"
proof -
  obtain sm w where s: "s = (sm, w)" by force
  let ?b = "buf0 sm" let ?c = "buf0 sm XOR 1"
  have in_pair: "?b \<in> pair sm" "?c \<in> pair sm" by (simp_all add: pair_def)
  obtain w1 where w1: "status_errors status s = (sm, w1)" "dbsm_ok (sm, w1)"
      "buffer_state w1 = buffer_state w" "env_ok (buf0 sm) (env w1)"
      "\<forall>c \<in> pair sm. hw_mode (ctrl_log w1) c = hw_mode (ctrl_log w) c"
    using status_errors_ok [of sm w status] ok eok r s by auto
  have q1: "fifo (sm, w1) g" using q w1(3) s by (simp add: fifo_cong [of w1 w sm sm])
  have busy: "hw_mode (ctrl_log w1) b \<noteq> Hw_idle" if "status AND BPS_DONE b \<noteq> 0" "b \<in> pair sm" for b
    using r w1(5) that s by (auto simp: hw_reports_def)
  obtain s2 g2 where s2: "status_done insp status ?b (arrive ?b) ((sm, w1), g) = (s2, g2)" by (metis surj_pair)
  note d1 = status_done_ok [OF w1(2) _ _ q1 _ s2]
  have ok2: "dbsm_ok s2" "fifo s2 g2" "buf0 (fst s2) = buf0 sm" "env_ok (buf0 (fst s2)) (env (snd s2))"
    using d1 in_pair busy w1(4) by simp_all
  have busy2: "hw_mode (ctrl_log (snd s2)) ?c \<noteq> Hw_idle" if "status AND BPS_DONE ?c \<noteq> 0"
    using d1(4) busy [OF that in_pair(2)] busy in_pair w1(4) by simp
  have c2: "?c \<in> pair (fst s2)" using ok2(3) by (simp add: pair_def)
  have "status_done insp status ?c (arrive ?c) (s2, g2) = (s', g')"
    using st s w1(1) s2 by (simp add: status_step_def Let_def)
  from status_done_ok(1,2,5) [OF ok2(1,4) c2 ok2(2) busy2 this]
  show "dbsm_ok s'" "fifo s' g'" "env_ok (buf0 (fst s')) (env (snd s'))" by simp_all
qed

end

section \<open>Reachable states\<close>

definition no_packets :: "(nat \<Rightarrow> 'p) \<Rightarrow> 'p ghost" where
  "no_packets c = \<lparr> content = c, accepted = [], gone = [] \<rparr>"

text \<open>Which buffer \<open>dbsm_handle_tx_underrun\<close> gives up, if any.\<close>

definition underrun_step :: "'e inspector \<Rightarrow> dbsm \<times> 'e fw \<Rightarrow> 'p ghost \<Rightarrow> 'p ghost" where
  "underrun_step insp = (\<lambda>(sm, w) g.
     if buffer_state w ! buf0 sm = BS_EMPTYING then g\<lparr> gone := gone g @ [content g (buf0 sm)] \<rparr>
     else if buffer_state w ! (buf0 sm XOR 1) = BS_EMPTYING
     then g\<lparr> gone := gone g @ [content g (buf0 sm XOR 1)] \<rparr>
     else g)"

text \<open>
  A run: the machine is started, status words and underruns are handled in any order, and between
  two calls the rest of the firmware may do anything that leaves this pair of buffers alone.
\<close>

inductive dbsm_run :: "'e inspector \<Rightarrow> (nat \<Rightarrow> 'e \<Rightarrow> bool) \<Rightarrow> dbsm \<times> 'e fw \<Rightarrow> 'p ghost \<Rightarrow> bool"
  for insp env_ok where
  start: "pool_ok sm w \<Longrightarrow> env_ok (buf0 sm) (env w)
    \<Longrightarrow> dbsm_run insp env_ok (dbsm_start (sm, w)) (no_packets c)"
| status: "dbsm_run insp env_ok s g \<Longrightarrow> hw_reports status s
    \<Longrightarrow> dbsm_run insp env_ok (dbsm_process_status insp status s) (snd (status_step insp status arrive s g))"
| underrun: "dbsm_run insp env_ok s g
    \<Longrightarrow> dbsm_run insp env_ok (dbsm_handle_tx_underrun insp s) (underrun_step insp s g)"
| elsewhere: "dbsm_run insp env_ok (sm, w) g \<Longrightarrow> length (buffer_state w') = length (buffer_state w)
    \<Longrightarrow> env_ok (buf0 sm) (env w')
    \<Longrightarrow> \<forall>c \<in> pair sm. buffer_state w' ! c = buffer_state w ! c
          \<and> hw_mode (ctrl_log w') c = hw_mode (ctrl_log w) c
    \<Longrightarrow> dbsm_run insp env_ok (sm, w') g"

lemma words_ok_init:
  assumes "even b" "b < NBUFFERS" "buf0 sm = b"
    and "recv_words sm = [BPC_READ OR BPC_BUFFER b OR BPC_PORT p OR BPC_STEP 1 OR BPC_FIRST_LINE f OR BPC_LAST_LINE l,
      BPC_READ OR BPC_BUFFER (b XOR 1) OR BPC_PORT p OR BPC_STEP 1 OR BPC_FIRST_LINE f OR BPC_LAST_LINE l]"
    and "send_words sm = [BPC_WRITE OR BPC_BUFFER b OR BPC_PORT p' OR BPC_STEP 1 OR BPC_FIRST_LINE f' OR BPC_LAST_LINE 0,
      BPC_WRITE OR BPC_BUFFER (b XOR 1) OR BPC_PORT p' OR BPC_STEP 1 OR BPC_FIRST_LINE f' OR BPC_LAST_LINE 0]"
  shows "words_ok sm"
proof -
  have c: "b XOR 1 = b + 1" using assms(1) by (rule xor_1_nat)
  have "b < 8" "b mod 2 = 0" "(b + 1) mod 2 = 1"
    using assms(1,2) by (auto simp: NBUFFERS_def even_iff_mod_2_eq_zero mod_Suc simp flip: Suc_eq_plus1)
  moreover from this have "b + 1 < 16" by simp
  ultimately show ?thesis using assms c by (simp add: words_ok_def pair_def)
qed

lemma init_pool_ok:
  assumes "dbsm_init n recv send w = Some (sm, w')" "n < NBUFFERS" "length (buffer_state w) = NBUFFERS"
  shows "pool_ok sm w'"
proof -
  have n: "even n" "n mod 256 = n"
    using assms by (auto simp: dbsm_init_def NBUFFERS_def even_iff_mod_2_eq_zero split: if_splits)
  have "words_ok sm"
    using assms(1,2) n
    by (intro words_ok_init [of n sm "ucast (port recv)" "ucast (first_line recv)" "ucast (last_line recv)"
          "ucast (port send)" "ucast (first_line send)"])
       (auto simp: dbsm_init_def Let_def split: if_splits)
  then show ?thesis
    using assms n by (auto simp: pool_ok_def dbsm_init_def Let_def set_buffer_def split: if_splits)
qed

lemma start_ok:
  assumes "pool_ok sm w"
  shows "dbsm_ok (dbsm_start (sm, w))" "fifo (dbsm_start (sm, w)) (no_packets c)"
    "buf0 (fst (dbsm_start (sm, w))) = buf0 sm" "env (snd (dbsm_start (sm, w))) = env w"
proof -
  have b: "buf0 sm \<in> pair sm" by (simp add: pair_def)
  note pf = pair_facts [OF assms b]
  note wd = words_okD [OF assms b]
  obtain sm' w' where s: "dbsm_start (sm, w) = (sm', w')" by force
  have sm': "sm' = sm\<lparr> running := True, tx_idle := True, rx_idle := False \<rparr>"
    and st: "buffer_state w' = (buffer_state w)[buf0 sm := BS_EMPTY, buf0 sm XOR 1 := BS_EMPTY, buf0 sm := BS_FILLING]"
    and same: "buf0 sm' = buf0 sm" "env w' = env w"
    and hw: "ctrl_log w' = ctrl_log w @ [BPC_BUFFER (buf0 sm) OR BPC_PORT PORT_NIL OR BPC_CLR,
      BPC_BUFFER (buf0 sm XOR 1) OR BPC_PORT PORT_NIL OR BPC_CLR, recv_words sm ! (buf0 sm mod 2)]"
    using s by (auto simp: dbsm_start_def Let_def fw_ops)
  have eq: "pair sm' = pair sm" "words_ok sm' = words_ok sm" "buf0 sm' = buf0 sm"
    using sm' by (simp_all add: words_ok_def pair_def)
  have p': "pool_ok sm' w'" using assms eq st by (simp add: pool_ok_def)
  have s': "shape sm' w' (buf0 sm)" using sm' st pf by (simp add: shape_def)
  have "dbsm_ok (sm', w')"
    using sm' b eq hw pf wd st by (intro dbsm_okI [OF p' _ _ s']) simp_all
  then show "dbsm_ok (dbsm_start (sm, w))" using s by simp
  show "buf0 (fst (dbsm_start (sm, w))) = buf0 sm" "env (snd (dbsm_start (sm, w))) = env w"
    using same s by simp_all
  have "fifo (sm', w') (no_packets c)"
    using in_flight_pair [OF p' _ s', of "no_packets c"] b eq st pf by (simp add: fifo_def no_packets_def)
  then show "fifo (dbsm_start (sm, w)) (no_packets c)" using s by simp
qed

context packet_inspector
begin

lemma underrun_buffer:
  assumes ok: "dbsm_ok (sm, w)" and b: "b \<in> pair sm" and e: "buffer_state w ! b = BS_EMPTYING"
    and q: "fifo (sm, w) g"
    and v: "v = io_write x (bp_clear_buf b (io_write y w))"
  shows "dbsm_ok (dbsm_process_helper insp b (sm, v))"
    "fifo (dbsm_process_helper insp b (sm, v)) (g\<lparr> gone := gone g @ [content g b] \<rparr>)"
    "buf0 (fst (dbsm_process_helper insp b (sm, v))) = buf0 sm"
    "env (snd (dbsm_process_helper insp b (sm, v))) = env w"
proof -
  let ?v = "io_write x (bp_clear_buf b (io_write y w))"
  obtain sm' w' where h: "dbsm_process_helper insp b (sm, ?v) = (sm', w')" by (metis surj_pair)
  note ok' = dbsm_okE [OF ok]
  note pf = pair_facts [OF ok'(1) [OF b] b]
  have st: "buffer_state ?v = buffer_state w"
    "ctrl_log ?v = ctrl_log w @ [BPC_BUFFER b OR BPC_PORT PORT_NIL OR BPC_CLR]"
    by (simp_all add: fw_ops)
  have pre: "pool_ok sm ?v" "running sm" "shape sm ?v (b XOR 1)"
    "hw_mode (ctrl_log ?v) (b XOR 1) = hw_of_state (buffer_state ?v ! (b XOR 1))"
    "buffer_state ?v ! b = BS_EMPTYING" "fifo (sm, ?v) g"
    using ok'(1,2) [OF b] ok'(3) [OF pf(1)] shape_emptying [OF ok b e] e q pf st
    by (simp_all add: pool_ok_def shape_def fifo_cong [of ?v w sm sm])
  note r = helper_emptying(1) [OF pre(1-4) b pre(5,6) h]
    helper_emptying(2) [OF pre(1-4) b pre(5,6) h] helper_emptying(3,5) [OF pre(1-4) b pre(5,6) h]
  show "dbsm_ok (dbsm_process_helper insp b (sm, v))"
    "fifo (dbsm_process_helper insp b (sm, v)) (g\<lparr> gone := gone g @ [content g b] \<rparr>)"
    "buf0 (fst (dbsm_process_helper insp b (sm, v))) = buf0 sm"
    "env (snd (dbsm_process_helper insp b (sm, v))) = env w"
    using r pre(5) h v by (simp_all add: transfer_done_def fw_ops)
qed

lemma underrun_ok:
  assumes ok: "dbsm_ok s" and q: "fifo s g"
  shows "dbsm_ok (dbsm_handle_tx_underrun insp s)"
    "fifo (dbsm_handle_tx_underrun insp s) (underrun_step insp s g)"
    "buf0 (fst (dbsm_handle_tx_underrun insp s)) = buf0 (fst s)"
    "env (snd (dbsm_handle_tx_underrun insp s)) = env (snd s)"
proof -
  obtain sm w where s: "s = (sm, w)" by force
  let ?b = "buf0 sm" let ?c = "buf0 sm XOR 1"
  have p: "?b \<in> pair sm" "?c \<in> pair sm" by (simp_all add: pair_def)
  have io: "buffer_state (io_write x w) = buffer_state w" "env (io_write x w) = env w" for x
    by (simp_all add: io_write_def)
  have "dbsm_ok (dbsm_handle_tx_underrun insp s)
    \<and> fifo (dbsm_handle_tx_underrun insp s) (underrun_step insp s g)
    \<and> buf0 (fst (dbsm_handle_tx_underrun insp s)) = buf0 (fst s)
    \<and> env (snd (dbsm_handle_tx_underrun insp s)) = env (snd s)"
    using underrun_buffer [OF ok [unfolded s] p(1) _ q [unfolded s] refl, of "Write Tx_clear_state 1" "Write Tx_clear_state 1"]
      underrun_buffer [OF ok [unfolded s] p(2) _ q [unfolded s] refl, of "Write Tx_clear_state 1" "Write Tx_clear_state 1"]
      ok q s
    by (cases "buffer_state w ! ?b = BS_EMPTYING"; cases "buffer_state w ! ?c = BS_EMPTYING")
       (auto simp: dbsm_handle_tx_underrun_def underrun_step_def Let_def io
          fifo_cong [OF io(1), of sm sm])
  then show "dbsm_ok (dbsm_handle_tx_underrun insp s)"
    "fifo (dbsm_handle_tx_underrun insp s) (underrun_step insp s g)"
    "buf0 (fst (dbsm_handle_tx_underrun insp s)) = buf0 (fst s)"
    "env (snd (dbsm_handle_tx_underrun insp s)) = env (snd s)" by auto
qed

lemma run_ok:
  assumes "dbsm_run insp env_ok s g"
  shows "dbsm_ok s \<and> fifo s g \<and> env_ok (buf0 (fst s)) (env (snd s))"
  using assms
proof induction
  case (start sm w c)
  then show ?case using start_ok(1,3,4) [of sm w] start_ok(2) [of sm w c] by simp
next
  case (status s g status arrive)
  obtain s' g' where st: "status_step insp status arrive s g = (s', g')" by (metis surj_pair)
  have "running (fst s)" using status.IH by (cases s) (simp add: dbsm_ok_def)
  then have "dbsm_process_status insp status s = s'"
    using process_status_step [of s insp status arrive g] st by simp
  then show ?case using status_step_ok [OF _ _ _ status.hyps(2) st] status.IH st by simp
next
  case (underrun s g)
  then show ?case using underrun_ok [of s g] by simp
next
  case (elsewhere sm w g w')
  then have "buf0 sm \<in> pair sm" "buf0 sm XOR 1 \<in> pair sm" by (simp_all add: pair_def)
  then show ?case
    using elsewhere
    by (auto simp: dbsm_ok_def fifo_def in_flight_def pool_ok_def shape_def pair_def)
qed

end

section \<open>The properties\<close>

lemma run_shape:
  assumes "packet_inspector insp env_ok" "dbsm_run insp env_ok (sm, w) g"
  shows "accepted g = gone g @ in_flight sm w g" "\<exists>b \<in> pair sm. shape sm w b"
    "pool_ok sm w" "b \<in> pair sm \<Longrightarrow> hw_mode (ctrl_log w) b = hw_of_state (buffer_state w ! b)"
  using packet_inspector.run_ok [OF assms] by (auto simp: dbsm_ok_def fifo_def)

text \<open>
  C22: the double buffer is a queue: in every run the packets accepted from the receive port are, in
  order, those that have left through the send port or were dropped after an underrun, followed by
  the at most two packets in the buffers; and as long as there is one, the hardware is sending the
  oldest.  The inspector may handle packets itself but not touch the buffers of the pair.
\<close>

theorem dbsm_fifo:
  assumes "packet_inspector insp env_ok" "dbsm_run insp env_ok (sm, w) g"
  shows "accepted g = gone g @ in_flight sm w g \<and> length (in_flight sm w g) \<le> 2
    \<and> (in_flight sm w g \<noteq> [] \<longrightarrow>
        (\<exists>b \<in> pair sm. hw_mode (ctrl_log w) b = Hw_send \<and> hd (in_flight sm w g) = content g b))"
proof -
  note r = run_shape [OF assms]
  obtain b where b: "b \<in> pair sm" "shape sm w b" using r(2) by auto
  note pf = pair_facts [OF r(3) b(1)]
  show ?thesis
    using r(1) in_flight_pair [OF r(3) b, of g] b(2) r(4) [OF pf(1)] pf(1) by (auto simp: shape_def)
qed

text \<open>
  C30: the table and the hardware agree, and the transfers are exclusive: in every run each buffer
  of the pair does what \<open>buffer_state\<close> says; one of them is being filled while the other is empty or
  being sent, or one is full while the other is being sent, and the receiver is noted as idle
  in this last case only, the sender in the first only; so never do both receive or both send, and the receiver pauses only while both buffers hold packets.
\<close>

theorem dbsm_hardware:
  assumes "packet_inspector insp env_ok" "dbsm_run insp env_ok (sm, w) g"
  shows "(\<forall>b \<in> pair sm. hw_mode (ctrl_log w) b = hw_of_state (buffer_state w ! b))
    \<and> (\<exists>b \<in> pair sm. (buffer_state w ! b, buffer_state w ! (b XOR 1), rx_idle sm, tx_idle sm) \<in>
          {(BS_FILLING, BS_EMPTY, False, True), (BS_FILLING, BS_EMPTYING, False, False), (BS_FULL, BS_EMPTYING, True, False)})
    \<and> (\<forall>b \<in> pair sm. hw_mode (ctrl_log w) b \<noteq> Hw_idle
          \<longrightarrow> hw_mode (ctrl_log w) (b XOR 1) \<noteq> hw_mode (ctrl_log w) b)
    \<and> ((\<exists>b \<in> pair sm. hw_mode (ctrl_log w) b = Hw_receive) \<or> length (in_flight sm w g) = 2)"
proof -
  note r = run_shape [OF assms]
  obtain b where b: "b \<in> pair sm" "shape sm w b" using r(2) by auto
  note pf = pair_facts [OF r(3) b(1)]
  have c1: "\<exists>b \<in> pair sm. (buffer_state w ! b, buffer_state w ! (b XOR 1), rx_idle sm, tx_idle sm) \<in>
          {(BS_FILLING, BS_EMPTY, False, True), (BS_FILLING, BS_EMPTYING, False, False), (BS_FULL, BS_EMPTYING, True, False)}"
    using b unfolding shape_def by blast
  have rest: "(\<forall>b \<in> pair sm. hw_mode (ctrl_log w) b = hw_of_state (buffer_state w ! b))
    \<and> (\<forall>b \<in> pair sm. hw_mode (ctrl_log w) b \<noteq> Hw_idle
          \<longrightarrow> hw_mode (ctrl_log w) (b XOR 1) \<noteq> hw_mode (ctrl_log w) b)
    \<and> ((\<exists>b \<in> pair sm. hw_mode (ctrl_log w) b = Hw_receive) \<or> length (in_flight sm w g) = 2)"
    using in_flight_pair [OF r(3) b, of g] b(2) r(4) [OF pf(1)] r(4) [OF b(1)] pf
    by (auto simp: shape_def)
  show ?thesis by (rule conjI [OF conjunct1 [OF rest] conjI [OF c1 conjunct2 [OF rest]]])
qed

text \<open>
  An overrun stalls the receiver: after \<open>dbsm_handle_rx_overrun\<close> in a run, no buffer of the
  pair is receiving although the table may say so; a status word without news of the pair changes
  nothing, so that nothing is received until the machine is restarted from outside.
\<close>

theorem dbsm_rx_overrun_stalls:
  assumes "packet_inspector insp env_ok" "dbsm_run insp env_ok (sm, w) g"
    and "dbsm_handle_rx_overrun (sm, w) = (sm', w')"
    and "\<forall>b \<in> pair sm. status AND BPS_DONE b = 0 \<and> status AND BPS_ERROR b = 0"
  shows "sm' = sm \<and> buffer_state w' = buffer_state w
    \<and> (\<forall>b \<in> pair sm. hw_mode (ctrl_log w') b \<noteq> Hw_receive)
    \<and> dbsm_process_status insp status (sm', w') = (sm', w')"
proof -
  note r = run_shape [OF assms(1,2)]
  have b: "buf0 sm \<in> pair sm" by (simp add: pair_def)
  note pf = pair_facts [OF r(3) b]
  have e: "status AND (BPS_ERROR (buf0 sm) OR BPS_ERROR (buf0 sm XOR 1)) = 0"
    using assms(4) pf by (simp add: bit.conj_disj_distrib)
  have q: "dbsm_process_status insp status (sm, v) = (sm, v)" for v
    using assms(4) e pf by (simp add: dbsm_process_status_def Let_def)
  have idle: "buffer_state w ! c = BS_FILLING \<or> hw_mode (ctrl_log w) c \<noteq> Hw_receive" if "c \<in> pair sm" for c
    using r(4) [OF that] by (cases "buffer_state w ! c") auto
  show ?thesis
    using assms(3) q pf idle [OF b] idle [OF pf(1)]
    by (cases "buffer_state w ! buf0 sm = BS_FILLING"; cases "buffer_state w ! (buf0 sm XOR 1) = BS_FILLING")
       (auto simp: dbsm_handle_rx_overrun_def Let_def fw_ops)
qed

section \<open>A run, evaluated\<close>

definition no_args :: buf_cmd_args where
  "no_args = \<lparr> port = 1, first_line = 0, last_line = 0x1ff \<rparr>"

definition idle_fw :: "unit fw" where
  "idle_fw = \<lparr> buffer_state = replicate NBUFFERS BS_EMPTY, ctrl_log = [], io_log = [],
     line_regs = (\<lambda>b. 100), env = () \<rparr>"

definition run_1 :: "dbsm \<times> unit fw" where
  "run_1 = dbsm_start (the (dbsm_init 2 no_args no_args idle_fw))"

text \<open>Buffer 2 is filled with packet 7, then buffer 3 with packet 8.\<close>

definition run_2 :: "(dbsm \<times> unit fw) \<times> nat ghost" where
  "run_2 = status_step dbsm_nop_inspector 4 (\<lambda>b. 7) run_1 (no_packets (\<lambda>b. 0))"

definition run_3 :: "(dbsm \<times> unit fw) \<times> nat ghost" where
  "run_3 = status_step dbsm_nop_inspector 8 (\<lambda>b. 8) (fst run_2) (snd run_2)"

lemma run_1_reachable: "dbsm_run dbsm_nop_inspector any_env (fst run_1, snd run_1) (no_packets (\<lambda>b. 0::nat))"
proof -
  obtain sm w where i: "dbsm_init 2 no_args no_args idle_fw = Some (sm, w)"
    by (simp add: dbsm_init_def Let_def)
  have "pool_ok sm w"
    by (rule init_pool_ok [OF i]) (simp_all add: NBUFFERS_def idle_fw_def)
  then show ?thesis using dbsm_run.start [of sm w any_env] i by (simp add: run_1_def any_env_def)
qed

lemma run_3_reachable: "dbsm_run dbsm_nop_inspector any_env (fst (fst run_3), snd (fst run_3)) (snd run_3)"
proof -
  have 1: "dbsm_run dbsm_nop_inspector any_env run_1 (no_packets (\<lambda>b. 0::nat))"
    using run_1_reachable by simp
  have "hw_reports 4 run_1" "running (fst run_1)" by code_simp+
  from dbsm_run.status [OF 1 this(1), of "\<lambda>b. 7"]
    process_status_step [OF this(2), of dbsm_nop_inspector 4 "\<lambda>b. 7::nat" "no_packets (\<lambda>b. 0)"]
  have 2: "dbsm_run dbsm_nop_inspector any_env (fst run_2) (snd run_2)" by (simp add: run_2_def)
  have "hw_reports 8 (fst run_2)" "running (fst (fst run_2))" by code_simp+
  from dbsm_run.status [OF 2 this(1), of "\<lambda>b. 8"]
    process_status_step [OF this(2), of dbsm_nop_inspector 8 "\<lambda>b. 8" "snd run_2"]
  show ?thesis by (simp add: run_3_def)
qed

theorem dbsm_fifo_witness:
  "in_flight (fst (fst run_3)) (snd (fst run_3)) (snd run_3) = [7, 8]
   \<and> accepted (snd run_3) = gone (snd run_3) @ [7, 8]"
proof -
  have i: "in_flight (fst (fst run_3)) (snd (fst run_3)) (snd run_3) = [7, 8]" by code_simp
  show ?thesis
    using dbsm_fifo [OF nop.packet_inspector_axioms run_3_reachable] i by simp
qed

theorem dbsm_hardware_witness:
  "hw_mode (ctrl_log (snd (fst run_3))) 2 = hw_of_state (buffer_state (snd (fst run_3)) ! 2)
   \<and> hw_mode (ctrl_log (snd (fst run_3))) 3 = hw_of_state (buffer_state (snd (fst run_3)) ! 3)"
proof -
  have "2 \<in> pair (fst (fst run_3))" "3 \<in> pair (fst (fst run_3))" by code_simp+
  then show ?thesis
    using dbsm_hardware [OF nop.packet_inspector_axioms run_3_reachable, THEN conjunct1] by blast
qed

theorem dbsm_rx_overrun_stalls_witness:
  "buffer_state (snd (dbsm_handle_rx_overrun run_1)) ! 2 = BS_FILLING
   \<and> hw_mode (ctrl_log (snd (dbsm_handle_rx_overrun run_1))) 2 \<noteq> Hw_receive"
proof -
  have "\<forall>b \<in> pair (fst run_1). (0::u32) AND BPS_DONE b = 0 \<and> 0 AND BPS_ERROR b = 0" by simp
  note t = dbsm_rx_overrun_stalls [OF nop.packet_inspector_axioms run_1_reachable
      surjective_pairing [of "dbsm_handle_rx_overrun (fst run_1, snd run_1)"] this]
  have "buffer_state (snd run_1) ! 2 = BS_FILLING" "2 \<in> pair (fst run_1)" by code_simp+
  then show ?thesis using t by simp
qed

end
