(* ===== verification/Usrp2_Stream.thy ===== *)
theory Usrp2_Stream
  imports Usrp2_Db Dbsm_Fifo
begin

text \<open>
  Streaming received samples to the host (\<open>usrp2/firmware/apps/txrx.c\<close>, first half): the commands
  to the receive chain, the header preloaded into the two buffers, and the inspector that numbers
  the packets and keeps the chain supplied with commands.  The buffer memory is the byte array
  \<open>ram\<close> of the state, buffer \<open>n\<close> from byte \<open>2048 * n\<close> on; words in it are big endian.
\<close>

section \<open>State\<close>

record app = boards +
  ram :: "nat \<Rightarrow> u8"
  mac_addr :: "u8 list"            \<comment> \<open>what \<open>ethernet_mac_addr\<close> points to\<close>
  mac_eeprom_ok :: bool            \<comment> \<open>whether the EEPROM accepts a new address\<close>
  host_mac_addr :: "u8 list"
  streaming_p :: bool
  streaming_items_per_frame :: u32
  streaming_frame_count :: int
  fw_seqno :: u32                  \<comment> \<open>the bits of an \<open>int\<close>\<close>
  dsp_rx_sm :: dbsm
  dsp_tx_sm :: dbsm
  timer :: u32
  tick_control :: u32
  hw_rev_major :: u8
  hw_rev_minor :: u8
  bus :: "u32 \<Rightarrow> u32"              \<comment> \<open>what a load returns from memory and devices that are not modelled\<close>
  mimo_flags :: "u8 option"        \<comment> \<open>the last argument of \<open>clocks_mimo_config\<close>\<close>
  cpu_tx_buf_dest_port :: u32
  status_reads :: "u32 list"       \<comment> \<open>what the next reads of the buffer pool status return\<close>
  astray :: bool                   \<comment> \<open>a ghost that no code reads, see \<open>Usrp2_Control\<close>\<close>

type_synonym world = "app fw"

definition buffer_ram :: "nat \<Rightarrow> nat" where
  "buffer_ram n = n * 2048"

definition be16 :: "u16 \<Rightarrow> u8 list" where
  "be16 x = [ucast (drop_bit 8 x), ucast x]"

definition be32 :: "u32 \<Rightarrow> u8 list" where
  "be32 x = [ucast (drop_bit 24 x), ucast (drop_bit 16 x), ucast (drop_bit 8 x), ucast x]"

definition get16 :: "(nat \<Rightarrow> u8) \<Rightarrow> nat \<Rightarrow> u16" where
  "get16 r a = push_bit 8 (ucast (r a)) OR ucast (r (a + 1))"

definition get32 :: "(nat \<Rightarrow> u8) \<Rightarrow> nat \<Rightarrow> u32" where
  "get32 r a = push_bit 24 (ucast (r a)) OR push_bit 16 (ucast (r (a + 1)))
     OR push_bit 8 (ucast (r (a + 2))) OR ucast (r (a + 3))"

definition put_bytes :: "nat \<Rightarrow> u8 list \<Rightarrow> (nat \<Rightarrow> u8) \<Rightarrow> nat \<Rightarrow> u8" where
  "put_bytes a bs r = (\<lambda>i. if a \<le> i \<and> i < a + length bs then bs ! (i - a) else r i)"

definition DSP_RX_BUF_0 :: nat where "DSP_RX_BUF_0 = 2"
definition DSP_RX_BUF_1 :: nat where "DSP_RX_BUF_1 = 3"
definition DSP_TX_BUF_0 :: nat where "DSP_TX_BUF_0 = 4"
definition DSP_TX_BUF_1 :: nat where "DSP_TX_BUF_1 = 5"
definition DSP_TX_FIRST_LINE :: u16 where "DSP_TX_FIRST_LINE = 5"
definition DSP_RX_FIRST_LINE :: u16 where "DSP_RX_FIRST_LINE = 6"
definition FRAMES_PER_CMD :: u32 where "FRAMES_PER_CMD = 1000"

definition dsp_tx_recv_args :: buf_cmd_args where
  "dsp_tx_recv_args = \<lparr> port = ucast PORT_ETH, first_line = 0, last_line = BP_LAST_LINE \<rparr>"

definition dsp_tx_send_args :: buf_cmd_args where
  "dsp_tx_send_args = \<lparr> port = ucast PORT_DSP, first_line = DSP_TX_FIRST_LINE, last_line = 0 \<rparr>"

definition dsp_rx_recv_args :: buf_cmd_args where
  "dsp_rx_recv_args = \<lparr> port = ucast PORT_DSP, first_line = DSP_RX_FIRST_LINE, last_line = BP_LAST_LINE \<rparr>"

definition dsp_rx_send_args :: buf_cmd_args where
  "dsp_rx_send_args = \<lparr> port = ucast PORT_ETH, first_line = 0, last_line = 0 \<rparr>"

section \<open>Commands\<close>

definition MK_RX_CMD :: "u32 \<Rightarrow> u32 \<Rightarrow> u32 \<Rightarrow> u32 \<Rightarrow> u32" where
  "MK_RX_CMD num_lines lines_per_frame now chain =
     push_bit 9 num_lines OR (lines_per_frame AND 0x1ff)
     OR push_bit 31 (now AND 1) OR push_bit 30 (chain AND 1)"

definition start_dsp_rx :: "world \<Rightarrow> world" where
  "start_dsp_rx w = (let (sm, w) = dbsm_start (dsp_rx_sm (env w), w)
     in on_env (\<lambda>e. e\<lparr> dsp_rx_sm := sm \<rparr>) w)"

definition restart_streaming_with :: "u32 \<Rightarrow> u32 \<Rightarrow> world \<Rightarrow> world" where
  "restart_streaming_with now time w =
     (let w = io_write (Write Rx_clear_state 1) w;
          w = on_env (\<lambda>e. e\<lparr> streaming_p := True, streaming_frame_count := uint FRAMES_PER_CMD \<rparr>) w;
          n = streaming_items_per_frame (env w);
          w = io_write (Write Rx_command (MK_RX_CMD (FRAMES_PER_CMD * n) n now 1)) w;
          w = start_dsp_rx w;
          w = io_write (Write Rx_time time) w;
          w = io_write (Write Rx_command (MK_RX_CMD (FRAMES_PER_CMD * n) n 1 1)) w
      in io_write (Write Rx_time 0) w)"

definition restart_streaming :: "world \<Rightarrow> world" where
  "restart_streaming = restart_streaming_with 1 0"

definition restart_streaming_at :: "u32 \<Rightarrow> world \<Rightarrow> world" where
  "restart_streaming_at time = restart_streaming_with 0 time"

definition u2p_word0 :: "u32 \<Rightarrow> u32 \<Rightarrow> u32" where
  "u2p_word0 flags chan = (flags AND 7) OR push_bit 27 (chan AND 0x1f)"

text \<open>The header: destination, source, type, transport header, word 0 and the timestamp to fill in.\<close>

definition rx_header :: "u8 list \<Rightarrow> u8 list \<Rightarrow> u8 list" where
  "rx_header host mac = host @ mac @ be16 0xBEEF @ replicate 6 0 @ be32 (u2p_word0 0 0) @ be32 0"

definition preload_headers :: "u8 list \<Rightarrow> u32 \<Rightarrow> world \<Rightarrow> world" where
  "preload_headers host items = on_env (\<lambda>e.
     let pkt = rx_header host (mac_addr e)
     in e\<lparr> host_mac_addr := host,
           ram := put_bytes (buffer_ram DSP_RX_BUF_1) pkt (put_bytes (buffer_ram DSP_RX_BUF_0) pkt (ram e)),
           fw_seqno := 0, streaming_items_per_frame := items \<rparr>)"

definition start_rx_streaming_cmd :: "u8 list \<Rightarrow> u32 \<Rightarrow> world \<Rightarrow> world" where
  "start_rx_streaming_cmd host items w = restart_streaming (preload_headers host items w)"

definition start_rx_streaming_at_cmd :: "u8 list \<Rightarrow> u32 \<Rightarrow> u32 \<Rightarrow> world \<Rightarrow> world" where
  "start_rx_streaming_at_cmd host items time w = restart_streaming_at time (preload_headers host items w)"

definition stop_rx_cmd :: "world \<Rightarrow> world" where
  "stop_rx_cmd w =
     (let w = on_env (\<lambda>e. e\<lparr> streaming_p := False \<rparr>) w;
          w = io_write (Write Rx_clear_state 1) w;
          w = bp_clear_buf DSP_RX_BUF_0 w
      in bp_clear_buf DSP_RX_BUF_1 w)"

definition setup_tx :: "world \<Rightarrow> world" where
  "setup_tx w =
     (let w = io_write (Write Tx_clear_state 1) w;
          w = bp_clear_buf DSP_TX_BUF_0 w;
          w = bp_clear_buf DSP_TX_BUF_1 w;
          tx_scale = 256; interp = 32;
          w = io_write (Write Tx_freq 0) w;
          w = io_write (Write Tx_scale_iq (push_bit 16 tx_scale OR tx_scale)) w
      in io_write (Write Tx_interp_rate interp) w)"

section \<open>The inspector of received samples\<close>

definition fw_sets_seqno_inspector :: "app inspector" where
  "fw_sets_seqno_inspector sm buf_this w =
     (let p = buffer_ram buf_this;
          seqno = fw_seqno (env w);
          w = on_env (\<lambda>e. e\<lparr> fw_seqno := fw_seqno e + 1 \<rparr>) w;
          t = get32 (ram (env w)) (p + 16);
          t = (t AND 0xffff00ff) OR push_bit 8 (seqno AND 0xff);
          w = on_env (\<lambda>e. e\<lparr> ram := put_bytes (p + 16) (be32 t) (ram e) \<rparr>) w;
          w = (if streaming_p (env w) then
                 let w = on_env (\<lambda>e. e\<lparr> streaming_frame_count := streaming_frame_count e - 1 \<rparr>) w
                 in if streaming_frame_count (env w) = 0
                    then io_write (Write Rx_time 0)
                           (on_env (\<lambda>e. e\<lparr> streaming_frame_count := uint FRAMES_PER_CMD \<rparr>) w)
                    else w
               else w)
      in (False, w))"

lemma on_env_fw [simp]:
  "buffer_state (on_env f w) = buffer_state w" "ctrl_log (on_env f w) = ctrl_log w"
  "io_log (on_env f w) = io_log w" "line_regs (on_env f w) = line_regs w" "env (on_env f w) = f (env w)"
  by (simp_all add: on_env_def)

lemma io_write_fw [simp]:
  "buffer_state (io_write x w) = buffer_state w" "ctrl_log (io_write x w) = ctrl_log w"
  "io_log (io_write x w) = io_log w @ [x]" "line_regs (io_write x w) = line_regs w" "env (io_write x w) = env w"
  by (simp_all add: io_write_def)

lemma seqno_inspector_frame:
  "fst (fw_sets_seqno_inspector sm b w) = False"
  "buffer_state (snd (fw_sets_seqno_inspector sm b w)) = buffer_state w"
  "ctrl_log (snd (fw_sets_seqno_inspector sm b w)) = ctrl_log w"
  by (simp_all add: fw_sets_seqno_inspector_def Let_def)

interpretation seqno: packet_inspector fw_sets_seqno_inspector any_env
  by unfold_locales (simp_all add: seqno_inspector_frame any_env_def)

section \<open>What streaming does\<close>

lemma bit_u8_ge [simp]: "8 \<le> n \<Longrightarrow> \<not> bit (x :: u8) n"
  using bit_imp_le_length [of x n] by auto

lemma be32_stamp:
  "be32 ((get32 r a AND 0xffff00ff) OR push_bit 8 (s AND 0xff)) = [r a, r (a + 1), ucast s, r (a + 3)]"
proof -
  have m: "(0xffff00ff :: u32) = NOT (push_bit 8 (mask 8))" "(0xff :: u32) = mask 8"
    by (simp_all add: mask_eq_exp_minus_1)
  show ?thesis
    unfolding be32_def get32_def m
    by (auto intro!: bit_word_eqI simp: bit_simps)
qed

lemma be32_stamp':
  "be32 (get32 r a AND 0xffff00ff OR push_bit 8 s AND 65280) = [r a, r (a + 1), ucast s, r (a + 3)]"
  using be32_stamp [of r a s] by simp

lemma put_bytes_4:
  "put_bytes a [x0, x1, x2, x3] r = r(a := x0, a + 1 := x1, a + 2 := x2, a + 3 := x3)"
  by (auto simp: put_bytes_def fun_eq_iff nth_Cons')

lemma seqno_inspector_env:
  fixes w :: world
  shows "ram (env (snd (fw_sets_seqno_inspector sm b w)))
    = (ram (env w))(buffer_ram b + 18 := ucast (fw_seqno (env w)))"
    "fw_seqno (env (snd (fw_sets_seqno_inspector sm b w))) = fw_seqno (env w) + 1"
    "streaming_p (env (snd (fw_sets_seqno_inspector sm b w))) = streaming_p (env w)"
    "streaming_frame_count (env (snd (fw_sets_seqno_inspector sm b w))) =
       (if streaming_p (env w)
        then if streaming_frame_count (env w) = 1 then 1000 else streaming_frame_count (env w) - 1
        else streaming_frame_count (env w))"
    "io_log (snd (fw_sets_seqno_inspector sm b w)) = io_log w @
       (if streaming_p (env w) \<and> streaming_frame_count (env w) = 1 then [Write Rx_time 0] else [])"
  by (auto simp: fw_sets_seqno_inspector_def Let_def be32_stamp' put_bytes_4 FRAMES_PER_CMD_def
      fun_upd_idem fun_eq_iff)

lemma bit_less_exp: "unat x < 2 ^ k \<Longrightarrow> bit x i \<Longrightarrow> i < k" for x :: "'a::len word"
proof -
  assume "unat x < 2 ^ k" "bit x i"
  then have "bit (take_bit k (unat x)) i" by (simp add: take_bit_nat_eq_self bit_unsigned_iff bit_imp_le_length)
  then show "i < k" by (simp add: bit_take_bit_iff)
qed

text \<open>
  The command word: with a frame size and a total that fit, the four fields of a receive command
  can be read back from it: the sizes, and the flags for starting now and for chaining.
\<close>

theorem rx_cmd_fields:
  assumes "n < 2 ^ 21" "l < 512"
  shows "drop_bit 9 (MK_RX_CMD n l now chain) AND 0x1fffff = n
    \<and> MK_RX_CMD n l now chain AND 0x1ff = l
    \<and> bit (MK_RX_CMD n l now chain) 31 = odd now \<and> bit (MK_RX_CMD n l now chain) 30 = odd chain"
proof -
  have b: "bit n i \<Longrightarrow> i < 21" "bit l j \<Longrightarrow> j < 9" for i j
    using assms bit_less_exp [of n 21 i] bit_less_exp [of l 9 j] by (simp_all add: word_less_nat_alt)
  have nb: "21 \<le> i \<Longrightarrow> \<not> bit n i" "9 \<le> j \<Longrightarrow> \<not> bit l j" for i j
    using b(1) [of i] b(2) [of j] by auto
  have odd: "bit x 0 = odd x" for x :: u32 by (rule bit_0)
  have m: "(0x1ff :: u32) = mask 9" "(0x1fffff :: u32) = mask 21" by (simp_all add: mask_eq_exp_minus_1)
  show ?thesis
    unfolding MK_RX_CMD_def m
    by (auto intro!: bit_word_eqI simp: bit_simps odd nb) (use b in blast)+
qed

text \<open>
  The inspector over the packets that arrive, in the order of the buffers they arrive in.
\<close>

definition inspect_all :: "dbsm \<Rightarrow> nat list \<Rightarrow> world \<Rightarrow> world" where
  "inspect_all sm bs w = foldl (\<lambda>w b. snd (fw_sets_seqno_inspector sm b w)) w bs"

fun is_rx_time :: "io_write \<Rightarrow> bool" where
  "is_rx_time (Write Rx_time t) = True"
| "is_rx_time x = False"

definition commands_queued :: "io_write list \<Rightarrow> int" where
  "commands_queued log = int (length (filter is_rx_time log))"

lemma commands_queued_append [simp]: "commands_queued (xs @ ys) = commands_queued xs + commands_queued ys"
  "commands_queued [] = 0" "commands_queued [Write Rx_time t] = 1"
  by (simp_all add: commands_queued_def One_nat_def)

lemma inspect_all_state:
  assumes "streaming_p (env w)" "1 \<le> streaming_frame_count (env w)" "streaming_frame_count (env w) \<le> 1000"
  shows "streaming_p (env (inspect_all sm bs w))
    \<and> fw_seqno (env (inspect_all sm bs w)) = fw_seqno (env w) + of_nat (length bs)
    \<and> 1 \<le> streaming_frame_count (env (inspect_all sm bs w))
    \<and> streaming_frame_count (env (inspect_all sm bs w)) \<le> 1000
    \<and> 1000 * commands_queued (io_log (inspect_all sm bs w)) - streaming_frame_count (env (inspect_all sm bs w))
      = 1000 * commands_queued (io_log w) - streaming_frame_count (env w) + int (length bs)"
  using assms
proof (induction bs rule: rev_induct)
  case Nil
  then show ?case by (simp add: inspect_all_def)
next
  case (snoc b bs)
  have "inspect_all sm (bs @ [b]) w = snd (fw_sets_seqno_inspector sm b (inspect_all sm bs w))"
    by (simp add: inspect_all_def)
  then show ?case using snoc by (simp add: seqno_inspector_env)
qed

lemma restart_streaming_state:
  "streaming_p (env (restart_streaming w))" "fw_seqno (env (restart_streaming w)) = fw_seqno (env w)"
  "streaming_frame_count (env (restart_streaming w)) = 1000"
  "commands_queued (io_log (restart_streaming w)) = commands_queued (io_log w) + 2"
  by (simp_all add: restart_streaming_def restart_streaming_with_def start_dsp_rx_def dbsm_start_def
      fw_ops on_env_def Let_def FRAMES_PER_CMD_def commands_queued_def)

lemma inspect_all_snoc: "inspect_all sm (bs @ [b]) w = snd (fw_sets_seqno_inspector sm b (inspect_all sm bs w))"
  by (simp add: inspect_all_def)

text \<open>
  C36: streaming does not run dry: after \<open>restart_streaming\<close>, whatever buffers the packets arrive in,
  the receive chain has been given commands for between 1000 and 2000 frames more than have
  arrived, one new command for every 1000 of them; and the packets are numbered consecutively: when the
  inspector is done with the k-th packet, byte 18 of its buffer, the sequence number of the transport
  header, is \<open>k\<close> more than the number the first was given, modulo 256, and no other byte of memory has changed since
  the packet came.  (The counter is an \<open>int\<close>, taken to wrap around as the hardware does.)
\<close>

theorem stream_commands:
  "let w' = inspect_all sm bs (restart_streaming w);
       n = int (length bs);
       frames = 1000 * (commands_queued (io_log w') - commands_queued (io_log w))
   in frames = 2000 + 1000 * (n div 1000) \<and> 1000 < frames - n \<and> frames - n \<le> 2000
      \<and> (\<forall>k < length bs.
           ram (env (inspect_all sm (take (Suc k) bs) (restart_streaming w)))
           = (ram (env (inspect_all sm (take k bs) (restart_streaming w))))
               (buffer_ram (bs ! k) + 18 := ucast (fw_seqno (env w) + of_nat k)))"
proof -
  let ?r = "restart_streaming w" let ?w = "inspect_all sm bs ?r"
  have i: "1 \<le> streaming_frame_count (env ?w)" "streaming_frame_count (env ?w) \<le> 1000"
    "1000 * commands_queued (io_log ?w) - streaming_frame_count (env ?w)
      = 1000 * commands_queued (io_log w) + 1000 + int (length bs)"
    using inspect_all_state [of ?r sm bs] by (simp_all add: restart_streaming_state)
  define q where "q = commands_queued (io_log ?w) - commands_queued (io_log w) - 2"
  have n: "int (length bs) = 1000 * q + (1000 - streaming_frame_count (env ?w))"
    using i(3) by (simp add: q_def)
  then have "int (length bs) div 1000 = q" using i(1,2) by (intro int_div_pos_eq) auto
  moreover have "ram (env (inspect_all sm (take (Suc k) bs) ?r))
      = (ram (env (inspect_all sm (take k bs) ?r))) (buffer_ram (bs ! k) + 18 := ucast (fw_seqno (env w) + of_nat k))"
    if k: "k < length bs" for k
  proof -
    have "fw_seqno (env (inspect_all sm (take k bs) ?r)) = fw_seqno (env w) + of_nat k"
      using inspect_all_state [of ?r sm "take k bs"] k by (simp add: restart_streaming_state)
    then show ?thesis unfolding take_Suc_conv_app_nth [OF k] inspect_all_snoc seqno_inspector_env(1) by simp
  qed
  ultimately show ?thesis
    using i n by (simp add: Let_def q_def)
qed

text \<open>
  The inspector of received samples stamps the packet and never takes it: byte 18 of the buffer,
  the sequence number of the transport header, is the number of the packet modulo 256, and no other
  byte of the memory and no buffer changes.
\<close>

theorem seqno_stamped:
  "let (handled, w') = fw_sets_seqno_inspector sm b w
   in \<not> handled \<and> buffer_state w' = buffer_state w \<and> ctrl_log w' = ctrl_log w
      \<and> ram (env w') = (ram (env w))(buffer_ram b + 18 := ucast (fw_seqno (env w)))
      \<and> fw_seqno (env w') = fw_seqno (env w) + 1"
  using seqno_inspector_frame [of sm b w] seqno_inspector_env [of sm b w]
  by (simp add: Let_def split: prod.split) (metis fst_conv snd_conv)

theorem rx_cmd_fields_witness:
  "drop_bit 9 (MK_RX_CMD 370000 370 1 1) AND 0x1fffff = 370000 \<and> MK_RX_CMD 370000 370 1 1 AND 0x1ff = 370"
  using rx_cmd_fields [of 370000 370 1 1] by simp

end
