(* ===== verification/Usrp2_Control.thy ===== *)
theory Usrp2_Control
  imports Usrp2_Stream
begin

text \<open>
  The control channel of the USRP2 firmware (\<open>usrp2/firmware/apps/app_common_v2.c\<close>): a frame from
  the host holds a sequence of commands, the reply frame the answers in the same order.  A command
  is read from the buffer memory at its address; its answer is the list of bytes it adds to the
  reply.  \<open>None\<close> is a firmware that has ended itself (\<open>exit (1)\<close> in \<open>memcpy_wa\<close>) or overwritten its
  own memory; the loop over the commands is a partial function, because it can run for ever.

  Peek and poke reach the whole address space.  What the model holds of it is there: the buffers, where
  the frame itself is, the control register of the buffer pool, the pins, the switching registers and the
  registers of the receive and transmit chains.  The main memory below \<open>0x8000\<close> holds the program and its
  variables; a store there is taken as the end.  The ghost \<open>astray\<close> is set for ever when a poke has stored to the buffers
  or to the control register of the pool, behind the back of the code that manages them.
\<close>

section \<open>Opcodes and sizes\<close>

definition OP_REPLY_BIT :: u8 where "OP_REPLY_BIT = 0x80"
definition OP_EOP :: u8 where "OP_EOP = 0"
definition OP_ID :: u8 where "OP_ID = 1"
definition OP_BURN_MAC_ADDR :: u8 where "OP_BURN_MAC_ADDR = 2"
definition OP_READ_TIME :: u8 where "OP_READ_TIME = 3"
definition OP_CONFIG_RX_V2 :: u8 where "OP_CONFIG_RX_V2 = 4"
definition OP_CONFIG_TX_V2 :: u8 where "OP_CONFIG_TX_V2 = 5"
definition OP_START_RX_STREAMING :: u8 where "OP_START_RX_STREAMING = 6"
definition OP_STOP_RX :: u8 where "OP_STOP_RX = 7"
definition OP_CONFIG_MIMO :: u8 where "OP_CONFIG_MIMO = 8"
definition OP_DBOARD_INFO :: u8 where "OP_DBOARD_INFO = 9"
definition OP_SYNC_TO_PPS :: u8 where "OP_SYNC_TO_PPS = 10"
definition OP_PEEK :: u8 where "OP_PEEK = 11"
definition OP_POKE :: u8 where "OP_POKE = 12"
definition OP_SET_TX_LO_OFFSET :: u8 where "OP_SET_TX_LO_OFFSET = 13"
definition OP_SET_RX_LO_OFFSET :: u8 where "OP_SET_RX_LO_OFFSET = 14"
definition OP_RESET_DB :: u8 where "OP_RESET_DB = 15"
definition OP_SYNC_EVERY_PPS :: u8 where "OP_SYNC_EVERY_PPS = 16"
definition OP_GPIO_SET_DDR :: u8 where "OP_GPIO_SET_DDR = 17"
definition OP_GPIO_SET_SELS :: u8 where "OP_GPIO_SET_SELS = 18"
definition OP_GPIO_READ :: u8 where "OP_GPIO_READ = 19"
definition OP_GPIO_WRITE :: u8 where "OP_GPIO_WRITE = 20"
definition OP_GPIO_STREAM :: u8 where "OP_GPIO_STREAM = 21"
definition OP_RX_ANTENNA :: u8 where "OP_RX_ANTENNA = 22"
definition OP_TX_ANTENNA :: u8 where "OP_TX_ANTENNA = 23"

lemmas op_defs = OP_EOP_def OP_ID_def OP_BURN_MAC_ADDR_def OP_READ_TIME_def OP_CONFIG_RX_V2_def
  OP_CONFIG_TX_V2_def OP_START_RX_STREAMING_def OP_STOP_RX_def OP_CONFIG_MIMO_def OP_DBOARD_INFO_def
  OP_SYNC_TO_PPS_def OP_PEEK_def OP_POKE_def OP_SET_TX_LO_OFFSET_def OP_SET_RX_LO_OFFSET_def
  OP_RESET_DB_def OP_SYNC_EVERY_PPS_def OP_GPIO_SET_DDR_def OP_GPIO_SET_SELS_def OP_GPIO_READ_def
  OP_GPIO_WRITE_def OP_GPIO_STREAM_def OP_RX_ANTENNA_def OP_TX_ANTENNA_def

definition MAX_SUBPKT_LEN :: u32 where "MAX_SUBPKT_LEN = 252"
definition CPU_TX_BUF :: nat where "CPU_TX_BUF = 7"
definition CONTROL_CHAN :: u32 where "CONTROL_CHAN = 0x1f"
definition TSC_TRIGGER_EVERYPPS :: u32 where "TSC_TRIGGER_EVERYPPS = 16"

section \<open>Commands with an answer of their own\<close>

definition fxpt_hi :: "int \<Rightarrow> u32" where "fxpt_hi f = word_of_int (shr f 32)"
definition fxpt_lo :: "int \<Rightarrow> u32" where "fxpt_lo f = word_of_int f"
definition fxpt_from_hilo :: "u32 \<Rightarrow> u32 \<Rightarrow> int" where
  "fxpt_from_hilo hi lo = c_int64 (shl (uint hi) 32 OR uint lo)"

abbreviation mem :: "world \<Rightarrow> nat \<Rightarrow> u8" where "mem w \<equiv> ram (env w)"

definition sync_to_pps :: "world \<Rightarrow> world" where
  "sync_to_pps = io_write (Write Sync_on_next_pps 1)"

definition sync_every_pps :: "nat \<Rightarrow> world \<Rightarrow> world" where
  "sync_every_pps p w =
     (let t = (if mem w (p + 3) \<noteq> 0 then tick_control (env w) OR TSC_TRIGGER_EVERYPPS
               else tick_control (env w) AND NOT TSC_TRIGGER_EVERYPPS)
      in io_write (Write Tick_control t) (on_env (\<lambda>e. e\<lparr> tick_control := t \<rparr>) w))"

definition op_id_cmd :: "nat \<Rightarrow> int \<Rightarrow> world \<Rightarrow> u8 list" where
  "op_id_cmd p space w =
     (if space < 44 then []
      else [OP_ID OR OP_REPLY_BIT, 44, mem w (p + 2), 0] @ mac_addr (env w)
        @ be16 (push_bit 8 (ucast (hw_rev_major (env w))) OR ucast (hw_rev_minor (env w))) @ replicate 32 0)"

text \<open>
  The gain and the frequency of a configuration command; streaming stops while the board tunes.
\<close>

definition config_gain :: "nat \<Rightarrow> u16 \<Rightarrow> u16 \<Rightarrow> world \<Rightarrow> bool \<times> world" where
  "config_gain db valid gain w = (if bit valid 0 then db_set_gain db (sint gain) w else (True, w))"

definition no_tune :: tune_result where
  "no_tune = \<lparr> baseband_freq = 0, dxc_freq = 0, residual_freq = 0, inverted = False \<rparr>"

definition config_freq :: "nat \<Rightarrow> u16 \<Rightarrow> int \<Rightarrow> world \<Rightarrow> (bool \<times> tune_result) \<times> world" where
  "config_freq db valid f w =
     (if bit valid 1 then
        let was_streaming = streaming_p (env w);
            w = (if was_streaming then stop_rx_cmd w else w);
            (r, w) = db_tune db f w
        in (r, if was_streaming then restart_streaming w else w)
      else ((True, no_tune), w))"

text \<open>
  The rate: up to two factors of two go to the half band filters, the rest to the CIC filter, which
  accepts 1 to 128.  \<open>None\<close> when the rest is out of range.
\<close>

definition rate_word :: "u32 \<Rightarrow> u32 option" where
  "rate_word rate =
     (let r = sint rate;
          (r, hb2) = (if r AND 1 = 0 then (shr r 1, 1) else (r, 0));
          (r, hb1) = (if r AND 1 = 0 then (shr r 1, 1) else (r, 0))
      in if r < 1 \<or> r > 128 then None
         else Some (push_bit 9 hb1 OR push_bit 8 hb2 OR word_of_int r))"

definition config_rate :: "reg \<Rightarrow> u16 \<Rightarrow> u32 \<Rightarrow> world \<Rightarrow> bool \<times> world" where
  "config_rate reg valid rate w =
     (if bit valid 2 then
        case rate_word rate of None \<Rightarrow> (False, w) | Some v \<Rightarrow> (True, io_write (Write reg v) w)
      else (True, w))"

definition config_scale :: "reg \<Rightarrow> u16 \<Rightarrow> u32 \<Rightarrow> world \<Rightarrow> world" where
  "config_scale reg valid scale w = (if bit valid 3 then io_write (Write reg scale) w else w)"

definition config_reply :: "u8 \<Rightarrow> u8 \<Rightarrow> bool \<Rightarrow> tune_result \<Rightarrow> u8 list" where
  "config_reply opcode rid ok r =
     [opcode OR OP_REPLY_BIT, 32, rid, 0] @ be16 (of_bool ok) @ be16 (of_bool (inverted r))
     @ be32 (fxpt_hi (baseband_freq r)) @ be32 (fxpt_lo (baseband_freq r))
     @ be32 (fxpt_hi (dxc_freq r)) @ be32 (fxpt_lo (dxc_freq r))
     @ be32 (fxpt_hi (residual_freq r)) @ be32 (fxpt_lo (residual_freq r))"

definition config_tx_v2_cmd :: "nat \<Rightarrow> int \<Rightarrow> world \<Rightarrow> u8 list \<times> world" where
  "config_tx_v2_cmd p space w =
     (if space < 32 then ([], w)
      else
        let m = mem w; valid = get16 m (p + 4); db = tx_dboard (env w);
            (ok1, w) = config_gain db valid (get16 m (p + 6)) w;
            ((ok2, r), w) = config_freq db valid (fxpt_from_hilo (get32 m (p + 8)) (get32 m (p + 12))) w;
            (ok3, w) = config_rate Tx_interp_rate valid (get32 m (p + 16)) w;
            w = config_scale Tx_scale_iq valid (get32 m (p + 20)) w
        in (config_reply OP_CONFIG_TX_V2 (m (p + 2)) (ok1 \<and> ok2 \<and> ok3) r, w))"

definition config_rx_v2_cmd :: "nat \<Rightarrow> int \<Rightarrow> world \<Rightarrow> u8 list \<times> world" where
  "config_rx_v2_cmd p space w =
     (if space < 32 then ([], w)
      else
        let m = mem w; valid = get16 m (p + 4); db = rx_dboard (env w);
            (ok1, w) = config_gain db valid (get16 m (p + 6)) w;
            ((ok2, r), w) = config_freq db valid (fxpt_from_hilo (get32 m (p + 8)) (get32 m (p + 12))) w;
            (ok3, w) = config_rate Rx_decim_rate valid (get32 m (p + 16)) w;
            w = config_scale Rx_scale_iq valid (get32 m (p + 20)) w
        in (config_reply OP_CONFIG_RX_V2 (m (p + 2)) (ok1 \<and> ok2 \<and> ok3) r, w))"

definition read_time_cmd :: "nat \<Rightarrow> int \<Rightarrow> world \<Rightarrow> u8 list" where
  "read_time_cmd p space w =
     (if space < 8 then []
      else [OP_READ_TIME OR OP_REPLY_BIT, 8, mem w (p + 2), 0] @ be32 (timer (env w)))"

definition db_info :: "int \<Rightarrow> db_base \<Rightarrow> u8 list" where
  "db_info d db = be32 (word_of_int d)
     @ be32 (fxpt_hi (freq_min db)) @ be32 (fxpt_lo (freq_min db))
     @ be32 (fxpt_hi (freq_max db)) @ be32 (fxpt_lo (freq_max db))
     @ be16 (gain_min db) @ be16 (gain_max db) @ be16 (gain_step_size db) @ [0, 0]"

definition dboard_info_cmd :: "nat \<Rightarrow> int \<Rightarrow> world \<Rightarrow> u8 list" where
  "dboard_info_cmd p space w =
     (if space < 60 then []
      else [OP_DBOARD_INFO OR OP_REPLY_BIT, 60, mem w (p + 2), 1]
        @ db_info (read_dboard_eeprom I2C_ADDR_TX_A (env w)) (all_dboards (env w) ! tx_dboard (env w))
        @ db_info (read_dboard_eeprom I2C_ADDR_RX_A (env w)) (all_dboards (env w) ! rx_dboard (env w)))"

text \<open>Addresses and sizes of a \<open>memcpy_wa\<close> must be multiples of four, or the firmware exits.\<close>

definition wa_ok :: "u32 \<Rightarrow> u32 \<Rightarrow> bool" where
  "wa_ok addr n \<longleftrightarrow> addr AND 3 = 0 \<and> n AND 3 = 0"

text \<open>Loads and stores of a word by its address.\<close>

definition BUFFER_POOL_RAM_BASE :: u32 where "BUFFER_POOL_RAM_BASE = 0x8000"
definition SPI_BASE :: u32 where "SPI_BASE = 0xC000"
definition GPIO_BASE :: u32 where "GPIO_BASE = 0xC800"
definition BUFFER_POOL_STATUS_BASE :: u32 where "BUFFER_POOL_STATUS_BASE = 0xCC00"
definition BUFFER_POOL_CTRL_BASE :: u32 where "BUFFER_POOL_CTRL_BASE = 0xD500"
definition TIMER_BASE :: u32 where "TIMER_BASE = 0xDC00"
definition ATR_BASE :: u32 where "ATR_BASE = 0xE400"
definition TIMESYNC_BASE :: u32 where "TIMESYNC_BASE = 0xE800"

definition device_regs :: "(u32 \<times> reg) list" where
  "device_regs =
     [(0xD600, Tx_freq), (0xD604, Tx_scale_iq), (0xD608, Tx_interp_rate), (0xD60C, Tx_clear_state), (0xD610, Tx_mux),
      (0xD680, Rx_freq), (0xD684, Rx_scale_iq), (0xD688, Rx_decim_rate), (0xD68C, Rx_time), (0xD690, Rx_command),
      (0xD694, Rx_clear_state), (0xD6A0, Rx_mux), (0xD6A4, Rx_gpio_stream_enable),
      (0xD80C, Pic_pending), (0xE800, Tick_control), (0xE80C, Sync_on_next_pps)]"

definition load_word :: "u32 \<Rightarrow> world \<Rightarrow> u32" where
  "load_word a w =
     (let e = env w
      in if BUFFER_POOL_RAM_BASE \<le> a \<and> a < SPI_BASE then get32 (ram e) (unat (a - BUFFER_POOL_RAM_BASE))
         else if a = GPIO_BASE then gpio_io e
         else if a = GPIO_BASE + 4 then gpio_ddr e
         else if a = GPIO_BASE + 8 then gpio_tx_sel e
         else if a = GPIO_BASE + 12 then gpio_rx_sel e
         else if BUFFER_POOL_STATUS_BASE \<le> a \<and> a < BUFFER_POOL_STATUS_BASE + 32
              then line_regs w (unat (a - BUFFER_POOL_STATUS_BASE) div 4)
         else if a = TIMER_BASE then timer e
         else if ATR_BASE \<le> a \<and> unat (a - ATR_BASE) div 4 < length (atr_v e)
              then atr_v e ! (unat (a - ATR_BASE) div 4)
         else if a = TIMESYNC_BASE then tick_control e
         else bus e a)"

definition store_word :: "u32 \<Rightarrow> u32 \<Rightarrow> world \<Rightarrow> world option" where
  "store_word a v w =
     (if a < BUFFER_POOL_RAM_BASE then None
      else if a < SPI_BASE
           then Some (on_env (\<lambda>e. e\<lparr> ram := put_bytes (unat (a - BUFFER_POOL_RAM_BASE)) (be32 v) (ram e), astray := True \<rparr>) w)
      else if a = BUFFER_POOL_CTRL_BASE then Some (on_env (\<lambda>e. e\<lparr> astray := True \<rparr>) (ctrl_write v w))
      else if a = GPIO_BASE + 4 then Some (on_env (\<lambda>e. e\<lparr> gpio_ddr := v \<rparr>) w)
      else if a = GPIO_BASE + 8 then Some (on_env (\<lambda>e. e\<lparr> gpio_tx_sel := v \<rparr>) w)
      else if a = GPIO_BASE + 12 then Some (on_env (\<lambda>e. e\<lparr> gpio_rx_sel := v \<rparr>) w)
      else if ATR_BASE \<le> a \<and> unat (a - ATR_BASE) div 4 < length (atr_v (env w))
           then Some (on_env (\<lambda>e. e\<lparr> atr_v := (atr_v e)[unat (a - ATR_BASE) div 4 := v] \<rparr>) w)
      else case map_of device_regs a of
             Some r \<Rightarrow> Some (io_write (Write r v)
                         (if a = TIMESYNC_BASE then on_env (\<lambda>e. e\<lparr> tick_control := v \<rparr>) w else w))
           | None \<Rightarrow> Some (io_write (Store a v) w))"

definition peek_cmd :: "nat \<Rightarrow> int \<Rightarrow> world \<Rightarrow> u8 list option" where
  "peek_cmd p space w =
     (let addr = get32 (mem w) (p + 4); bytes = get32 (mem w) (p + 8)
      in if (word_of_int space :: u32) < 4 + bytes \<or> bytes > MAX_SUBPKT_LEN - 4 then Some []
         else if \<not> wa_ok addr bytes then None
         else Some ([OP_PEEK OR OP_REPLY_BIT, ucast (4 + bytes), mem w (p + 2), 1]
                    @ concat (map (\<lambda>i. be32 (load_word (addr + of_nat (4 * i)) w)) [0..<unat bytes div 4])))"

text \<open>
  The copy of a poke goes word by word; the words it reads are in the frame, which it may be writing to.
  A poke shorter than its header makes the number of bytes wrap to almost \<open>2 ^ 32\<close>: the copy does
  not stop before it has run over the firmware itself.
\<close>

fun copy_words :: "u32 \<Rightarrow> nat \<Rightarrow> nat \<Rightarrow> world \<Rightarrow> world option" where
  "copy_words addr src 0 w = Some w"
| "copy_words addr src (Suc n) w = Option.bind (store_word addr (get32 (mem w) src) w) (copy_words (addr + 4) (src + 4) n)"

definition poke_cmd :: "nat \<Rightarrow> world \<Rightarrow> world option" where
  "poke_cmd p w =
     (let len = mem w (p + 1); addr = get32 (mem w) (p + 4); n = (ucast len - 8 :: u32)
      in if \<not> wa_ok addr n then None
         else if len < 8 then None
         else copy_words addr (p + 8) (unat n div 4) w)"

definition set_lo_offset_cmd :: "nat \<Rightarrow> world \<Rightarrow> world" where
  "set_lo_offset_cmd p w =
     (let f = fxpt_from_hilo (get32 (mem w) (p + 4)) (get32 (mem w) (p + 8))
      in if mem w p = OP_SET_TX_LO_OFFSET
         then on_env (\<lambda>e. db_set_lo_offset (tx_dboard e) f e) w
         else on_env (\<lambda>e. db_set_lo_offset (rx_dboard e) f e) w)"

definition gpio_read_cmd :: "nat \<Rightarrow> int \<Rightarrow> world \<Rightarrow> u8 list" where
  "gpio_read_cmd p space w =
     (if space < 8 then []
      else [OP_GPIO_READ OR OP_REPLY_BIT, 8, mem w (p + 2), 1] @ be16 0
        @ be16 (ucast (hal_gpio_read (ucast (mem w (p + 3))) (env w))))"

definition generic_reply :: "nat \<Rightarrow> int \<Rightarrow> bool \<Rightarrow> world \<Rightarrow> u8 list" where
  "generic_reply p space ok w =
     (if space < 4 then [] else [mem w p OR OP_REPLY_BIT, 4, mem w (p + 2), of_bool ok])"

definition add_eop :: "int \<Rightarrow> u8 list" where
  "add_eop space = (if space < 4 then [] else [OP_EOP, 4, 0, 0])"

definition ethernet_set_mac_addr :: "u8 list \<Rightarrow> world \<Rightarrow> bool \<times> world" where
  "ethernet_set_mac_addr t w =
     (if mac_eeprom_ok (env w) then (True, on_env (\<lambda>e. e\<lparr> mac_addr := t \<rparr>) w) else (False, w))"

section \<open>One command\<close>

text \<open>\<open>goto generic_reply\<close>: the answer that only says whether the command worked.\<close>

definition with_generic :: "nat \<Rightarrow> int \<Rightarrow> bool \<times> world \<Rightarrow> (u8 list \<times> world) option" where
  "with_generic p space = (\<lambda>(ok, w). Some (generic_reply p space ok w, w))"

definition start_rx :: "nat \<Rightarrow> nat \<Rightarrow> world \<Rightarrow> world" where
  "start_rx pkt p w =
     (let host = map (mem w) [pkt + 6..<pkt + 12]; items = get32 (mem w) (p + 4);
          time = get32 (mem w) (pkt + 24)
      in if time = 0xffffffff then start_rx_streaming_cmd host items w
         else start_rx_streaming_at_cmd host items time w)"

definition subpacket :: "nat \<Rightarrow> nat \<Rightarrow> int \<Rightarrow> world \<Rightarrow> (u8 list \<times> world) option" where
  "subpacket pkt p space w =
     (let m = mem w; opc = m p; gen = with_generic p space
      in if opc = OP_ID then Some (op_id_cmd p space w, w)
         else if opc = OP_CONFIG_TX_V2 then Some (config_tx_v2_cmd p space w)
         else if opc = OP_CONFIG_RX_V2 then Some (config_rx_v2_cmd p space w)
         else if opc = OP_START_RX_STREAMING then gen (True, start_rx pkt p w)
         else if opc = OP_STOP_RX then gen (True, stop_rx_cmd w)
         else if opc = OP_RX_ANTENNA then
           gen (db_set_antenna (rx_dboard (env w)) (uint (m (p + 3))) w)
         else if opc = OP_TX_ANTENNA then
           gen (db_set_antenna (tx_dboard (env w)) (uint (m (p + 3))) w)
         else if opc = OP_BURN_MAC_ADDR then gen (ethernet_set_mac_addr (map m [p + 3..<p + 9]) w)
         else if opc = OP_CONFIG_MIMO then gen (True, on_env (\<lambda>e. e\<lparr> mimo_flags := Some (m (p + 3)) \<rparr>) w)
         else if opc = OP_READ_TIME then Some (read_time_cmd p space w, w)
         else if opc = OP_DBOARD_INFO then Some (dboard_info_cmd p space w, w)
         else if opc = OP_SYNC_TO_PPS then gen (True, sync_to_pps w)
         else if opc = OP_PEEK then map_option (\<lambda>r. (r, w)) (peek_cmd p space w)
         else if opc = OP_POKE then
           (case poke_cmd p w of None \<Rightarrow> None | Some w \<Rightarrow> gen (True, w))
         else if opc = OP_SET_TX_LO_OFFSET \<or> opc = OP_SET_RX_LO_OFFSET then
           gen (True, set_lo_offset_cmd p w)
         else if opc = OP_RESET_DB then gen (True, db_init w)
         else if opc = OP_SYNC_EVERY_PPS then gen (True, sync_every_pps p w)
         else if opc = OP_GPIO_SET_DDR then
           gen (True, on_env (hal_gpio_set_ddr (ucast (m (p + 3))) (ucast (get16 m (p + 4)))
                        (ucast (get16 m (p + 6)))) w)
         else if opc = OP_GPIO_SET_SELS then
           gen (True, on_env (hal_gpio_set_sels (ucast (m (p + 3))) (map m [p + 4..<p + 20])) w)
         else if opc = OP_GPIO_READ then Some (gpio_read_cmd p space w, w)
         else if opc = OP_GPIO_WRITE then
           gen (True, on_env (hal_gpio_write (ucast (m (p + 3))) (ucast (get16 m (p + 4)))
                        (ucast (get16 m (p + 6)))) w)
         else if opc = OP_GPIO_STREAM then
           gen (True, io_write (Write Rx_gpio_stream_enable (ucast (get16 m (p + 4)))) w)
         else Some ([], w))"

section \<open>All commands of a frame\<close>

definition round4 :: "nat \<Rightarrow> nat" where
  "round4 n = (n + 3) div 4 * 4"

text \<open>The answer with the padding the next one starts after; the reply buffer was cleared first.\<close>

definition pad4 :: "u8 list \<Rightarrow> u8 list" where
  "pad4 r = r @ replicate (round4 (length r) - length r) 0"

text \<open>
  The loop.  \<open>payload_len\<close> is an \<open>int\<close> that is compared with a \<open>size_t\<close>: a negative length counts
  as a large one.  The result is \<open>Some None\<close> when the firmware ends itself.
\<close>

partial_function (option) subpackets ::
  "nat \<Rightarrow> nat \<Rightarrow> int \<Rightarrow> u8 list \<Rightarrow> int \<Rightarrow> world \<Rightarrow> (u8 list \<times> int \<times> world) option option" where
  "subpackets pkt p payload_len reply space w =
     (if (word_of_int payload_len :: u32) < 4 \<or> mem w p = OP_EOP then Some (Some (reply, space, w))
      else case subpacket pkt p space w of
             None \<Rightarrow> Some None
           | Some (r, w') \<Rightarrow>
               let t = round4 (unat (mem w' (p + 1)))
               in subpackets pkt (p + t) (payload_len - int t) (reply @ pad4 r)
                    (space - int (length (pad4 r))) w')"

definition set_reply_hdr :: "nat \<Rightarrow> world \<Rightarrow> u8 list" where
  "set_reply_hdr pkt w = map (mem w) [pkt + 6..<pkt + 12] @ mac_addr (env w) @ be16 0xBEEF
     @ replicate 6 0 @ be32 (u2p_word0 0 CONTROL_CHAN) @ be32 (timer (env w))"

text \<open>A busy wait: reads of the status register are consumed up to one that satisfies the mask.\<close>

definition wait_status :: "u32 \<Rightarrow> world \<Rightarrow> world option" where
  "wait_status msk w =
     map_option (\<lambda>reads. on_env (\<lambda>e. e\<lparr> status_reads := reads \<rparr>) w) (poll_status msk (status_reads (env w)))"

definition wait_for_opening :: "world \<Rightarrow> world option" where
  "wait_for_opening w =
     map_option (\<lambda>reads. on_env (\<lambda>e. e\<lparr> status_reads := reads \<rparr>) w)
       (dbsm_wait_for_opening (dsp_rx_sm (env w), w) (status_reads (env w)))"

definition send_reply :: "u8 list \<Rightarrow> world \<Rightarrow> world option" where
  "send_reply reply w =
     (let reply = reply @ replicate (64 - length reply) 0;
          w = on_env (hal_set_leds 4 4) w
      in Option.bind (wait_status (BPS_IDLE CPU_TX_BUF) w) (\<lambda>w.
         let w = on_env (hal_set_leds 0 4) w;
             w = on_env (\<lambda>e. e\<lparr> ram := put_bytes (buffer_ram CPU_TX_BUF) reply (ram e) \<rparr>) w;
             w = on_env (hal_set_leds 8 8) w
         in Option.bind (wait_for_opening w) (\<lambda>w.
            let w = on_env (hal_set_leds 0 8) w;
                w = bp_send_from_buf CPU_TX_BUF (cpu_tx_buf_dest_port (env w)) 1 0
                      (of_nat (length reply div 4)) w
            in map_option (bp_clear_buf CPU_TX_BUF)
                 (wait_status (BPS_DONE CPU_TX_BUF OR BPS_ERROR CPU_TX_BUF) w))))"

text \<open>The space for answers: four times the largest subpacket type, \<open>op_id_reply_t\<close> of 44 bytes.\<close>

definition REPLY_SPACE :: int where "REPLY_SPACE = 176"

text \<open>\<open>None\<close> when it does not return, \<open>Some None\<close> when the firmware ends itself.\<close>

definition handle_control_chan_frame :: "nat \<Rightarrow> u32 \<Rightarrow> world \<Rightarrow> world option option" where
  "handle_control_chan_frame pkt len w =
     (let hdr = set_reply_hdr pkt w
      in case subpackets pkt (pkt + 28) (sint (len - 28)) [] REPLY_SPACE w of
           None \<Rightarrow> None
         | Some None \<Rightarrow> Some None
         | Some (Some (reply, space, w)) \<Rightarrow>
             map_option Some (send_reply (hdr @ reply @ pad4 (add_eop space)) w))"

text \<open>
  The inspector of frames from the host; the result says whether the firmware took the frame.
\<close>

definition eth_pkt_inspector :: "nat \<Rightarrow> world \<Rightarrow> (bool \<times> world) option option" where
  "eth_pkt_inspector bufno w =
     (let pkt = buffer_ram bufno; byte_len = (line_regs w bufno - 1) * 4
      in if get16 (mem w) (pkt + 12) \<noteq> 0xBEEF then Some (Some (True, w))
         else if drop_bit 27 (get32 (mem w) (pkt + 20)) AND 0x1f = CONTROL_CHAN
         then map_option (map_option (\<lambda>w. (True, w))) (handle_control_chan_frame pkt byte_len w)
         else Some (Some (False, w)))"

section \<open>What a command leaves alone\<close>

definition app_ok :: "app \<Rightarrow> bool" where
  "app_ok e \<longleftrightarrow> buf0 (dsp_rx_sm e) = DSP_RX_BUF_0 \<and> words_ok (dsp_rx_sm e) \<and> length (mac_addr e) = 6"

text \<open>
  Nothing but the receive buffers 2 and 3 and the processor's buffer 7 is touched, and the memory
  of the buffers in between, where the frame is, stays as it is.
\<close>

definition frame_same :: "world \<Rightarrow> world \<Rightarrow> bool" where
  "frame_same w w' \<longleftrightarrow> (app_ok (env w) \<longrightarrow> app_ok (env w')
     \<and> length (buffer_state w') = length (buffer_state w) \<and> line_regs w' = line_regs w
     \<and> (\<forall>b. b \<noteq> 2 \<and> b \<noteq> 3 \<longrightarrow> buffer_state w' ! b = buffer_state w ! b)
     \<and> (\<forall>b. b \<noteq> 2 \<and> b \<noteq> 3 \<and> b \<noteq> 7 \<longrightarrow> hw_mode (ctrl_log w') b = hw_mode (ctrl_log w) b)
     \<and> (\<forall>i. 8192 \<le> i \<and> i < 14336 \<longrightarrow> ram (env w') i = ram (env w) i))"

definition frame_kept :: "world \<Rightarrow> world \<Rightarrow> bool" where
  "frame_kept w w' \<longleftrightarrow> astray (env w') = astray (env w) \<and> frame_same w w'"

lemmas kept_defs = frame_kept_def frame_same_def

lemma kept_same: "frame_kept w w' \<Longrightarrow> frame_same w w'"
  by (simp add: frame_kept_def)

named_theorems kept

lemma kept_refl [kept]: "frame_kept w w"
  by (simp add: kept_defs)

lemma kept_trans [trans]: "frame_kept w w1 \<Longrightarrow> frame_kept w1 w2 \<Longrightarrow> frame_kept w w2"
  by (auto simp: kept_defs)

lemma kept_io_write: "frame_kept w w' \<Longrightarrow> frame_kept w (io_write x w')"
  by (simp add: kept_defs)

lemma kept_on_env:
  "frame_kept w w' \<Longrightarrow> ram (f (env w')) = ram (env w') \<Longrightarrow> dsp_rx_sm (f (env w')) = dsp_rx_sm (env w')
    \<Longrightarrow> mac_addr (f (env w')) = mac_addr (env w') \<Longrightarrow> astray (f (env w')) = astray (env w')
    \<Longrightarrow> frame_kept w (on_env f w')"
  by (simp add: kept_defs app_ok_def)

lemma kept_clear: "frame_kept w w' \<Longrightarrow> b = 2 \<or> b = 3 \<or> b = 7 \<Longrightarrow> frame_kept w (bp_clear_buf b w')"
  by (auto simp: kept_defs bp_clear_buf_def ctrl_write_def)

lemma kept_start_dsp_rx: "frame_kept w w' \<Longrightarrow> frame_kept w (start_dsp_rx w')"
proof (rule kept_trans)
  show "frame_kept w' (start_dsp_rx w')"
  proof (cases "app_ok (env w')")
    case True
    let ?sm = "dsp_rx_sm (env w')"
    have x: "(2::nat) XOR 1 = 3" by (simp add: xor_one_eq)
    have b: "buf0 ?sm = 2" "buf0 ?sm XOR 1 = 3" using True x by (auto simp: app_ok_def DSP_RX_BUF_0_def)
    have "2 \<in> pair ?sm" using b by (simp add: pair_def)
    then have wd: "ctrl_buffer (recv_words ?sm ! 0) = 2"
      using True by (auto simp: app_ok_def words_ok_def)
    have sm: "buf0 (?sm\<lparr>running := True, tx_idle := True, rx_idle := False\<rparr>) = buf0 ?sm"
      "words_ok (?sm\<lparr>running := True, tx_idle := True, rx_idle := False\<rparr>) = words_ok ?sm"
      by (simp_all add: words_ok_def pair_def)
    show ?thesis
      using True b wd sm x
      by (auto simp: kept_defs start_dsp_rx_def dbsm_start_def fw_ops Let_def app_ok_def)
  qed (simp add: kept_defs start_dsp_rx_def dbsm_start_def fw_ops Let_def on_env_def)
qed

definition same_app :: "app \<Rightarrow> app \<Rightarrow> bool" where
  "same_app e e' \<longleftrightarrow> ram e = ram e' \<and> dsp_rx_sm e = dsp_rx_sm e' \<and> mac_addr e = mac_addr e' \<and> astray e = astray e'"

lemma set_gpio_mode_app: "same_app (set_gpio_mode bank db e) e"
  unfolding set_gpio_mode_def
  by (rule foldl_preserves)
     (simp_all add: same_app_def set_atr_regs_def hal_gpio_set_ddr_def hal_gpio_set_sel_def
        set_sel_bits_def split: option.splits)

lemma hal_app [simp]:
  "ram (set_gpio_mode bank db e) = ram e" "dsp_rx_sm (set_gpio_mode bank db e) = dsp_rx_sm e" "mac_addr (set_gpio_mode bank db e) = mac_addr e" "astray (set_gpio_mode bank db e) = astray e"
  "ram (hal_gpio_set_ddr bank v msk e) = ram e" "dsp_rx_sm (hal_gpio_set_ddr bank v msk e) = dsp_rx_sm e" "mac_addr (hal_gpio_set_ddr bank v msk e) = mac_addr e" "astray (hal_gpio_set_ddr bank v msk e) = astray e"
  "ram (hal_gpio_write bank v msk e) = ram e" "dsp_rx_sm (hal_gpio_write bank v msk e) = dsp_rx_sm e" "mac_addr (hal_gpio_write bank v msk e) = mac_addr e" "astray (hal_gpio_write bank v msk e) = astray e"
  "ram (hal_gpio_set_sels bank c e) = ram e" "dsp_rx_sm (hal_gpio_set_sels bank c e) = dsp_rx_sm e" "mac_addr (hal_gpio_set_sels bank c e) = mac_addr e" "astray (hal_gpio_set_sels bank c e) = astray e"
  "ram (hal_set_leds v msk e) = ram e" "dsp_rx_sm (hal_set_leds v msk e) = dsp_rx_sm e" "mac_addr (hal_set_leds v msk e) = mac_addr e" "astray (hal_set_leds v msk e) = astray e"
  "ram (reset_lo_offset i e) = ram e" "dsp_rx_sm (reset_lo_offset i e) = dsp_rx_sm e" "mac_addr (reset_lo_offset i e) = mac_addr e" "astray (reset_lo_offset i e) = astray e"
  "ram (db_set_lo_offset i f e) = ram e" "dsp_rx_sm (db_set_lo_offset i f e) = dsp_rx_sm e" "mac_addr (db_set_lo_offset i f e) = mac_addr e" "astray (db_set_lo_offset i f e) = astray e"
  for e :: app
  using set_gpio_mode_app [of bank db e]
  by (simp_all add: same_app_def hal_gpio_set_ddr_def hal_gpio_write_def hal_gpio_set_sels_def
      set_sel_bits_def hal_set_leds_def reset_lo_offset_def db_set_lo_offset_def split: prod.split)

lemmas kept_ops = kept_refl kept_io_write kept_on_env kept_clear kept_start_dsp_rx

lemma kept_restart [simp]:
  "frame_kept w w' \<Longrightarrow> frame_kept w (restart_streaming w')"
  "frame_kept w w' \<Longrightarrow> frame_kept w (restart_streaming_at t w')"
  by (simp_all add: restart_streaming_def restart_streaming_at_def restart_streaming_with_def Let_def
      kept_ops)

lemma kept_preload: "length host = 6 \<Longrightarrow>
    frame_kept w w' \<Longrightarrow> frame_kept w (preload_headers host items w')"
  by (erule kept_trans)
     (auto simp: kept_defs preload_headers_def app_ok_def Let_def put_bytes_def rx_header_def
        be16_def be32_def buffer_ram_def DSP_RX_BUF_0_def DSP_RX_BUF_1_def)

lemma kept_start_rx:
  "frame_kept w (start_rx pkt p w)"
  by (auto simp: start_rx_def start_rx_streaming_cmd_def start_rx_streaming_at_cmd_def Let_def
      kept_refl kept_preload)

lemma kept_stop [simp]: "frame_kept w w' \<Longrightarrow> frame_kept w (stop_rx_cmd w')"
  by (simp add: stop_rx_cmd_def Let_def kept_ops DSP_RX_BUF_0_def DSP_RX_BUF_1_def)

lemma kept_tune:
  "db_tune db f w' = (r, w'') \<Longrightarrow> frame_kept w w' \<Longrightarrow> frame_kept w w''"
  by (cases "is_tx (all_dboards (env w') ! db)")
     (auto simp: db_tune_def set_dxc Let_def kept_io_write split: prod.splits)

lemma kept_db_init: "frame_kept w (db_init w)"
  by (simp add: db_init_def Let_def kept_ops)

lemma kept_config_gain:
  "config_gain db valid gain w' = (ok, w'') \<Longrightarrow> frame_kept w w' \<Longrightarrow> frame_kept w w''"
  by (auto simp: config_gain_def db_set_gain_def kept_io_write split: if_splits)

lemma kept_set_antenna:
  "db_set_antenna db ant w' = (ok, w'') \<Longrightarrow> frame_kept w w' \<Longrightarrow> frame_kept w w''"
  by (auto simp: db_set_antenna_def kept_io_write split: option.splits)

lemma kept_config_freq:
  "config_freq db valid f w' = (r, w'') \<Longrightarrow> frame_kept w w' \<Longrightarrow> frame_kept w w''"
  by (auto simp: config_freq_def Let_def split: if_splits prod.splits
      intro!: kept_restart
      dest!: kept_tune [where w = w and w' = "stop_rx_cmd w'", OF _ kept_stop]
        kept_tune [where w = w and w' = w'])

lemma kept_config_rate:
  "config_rate reg valid rate w' = (ok, w'') \<Longrightarrow> frame_kept w w' \<Longrightarrow> frame_kept w w''"
  by (auto simp: config_rate_def kept_io_write split: if_splits option.splits)

lemma kept_config_scale: "frame_kept w w' \<Longrightarrow> frame_kept w (config_scale reg valid scale w')"
  by (simp add: config_scale_def kept_io_write)

lemma kept_config_steps:
  assumes "config_gain db valid gain w = (ok1, w1)" "config_freq db valid f w1 = (r, w2)"
    "config_rate reg valid rate w2 = (ok3, w3)"
  shows "frame_kept w (config_scale reg' valid scale w3)"
  by (intro kept_config_scale kept_config_rate [OF assms(3)] kept_config_freq [OF assms(2)]
      kept_config_gain [OF assms(1)] kept_refl)

lemma kept_config:
  "config_tx_v2_cmd p space w = (r, w') \<Longrightarrow> frame_kept w w'"
  "config_rx_v2_cmd p space w = (r, w') \<Longrightarrow> frame_kept w w'"
  by (auto simp: config_tx_v2_cmd_def config_rx_v2_cmd_def Let_def kept_refl split: if_splits prod.splits
      intro: kept_config_steps)

lemma kept_burn: "ethernet_set_mac_addr t w = (ok, w') \<Longrightarrow> length t = 6 \<Longrightarrow> frame_kept w w'"
  by (auto simp: ethernet_set_mac_addr_def kept_defs app_ok_def split: if_splits)

text \<open>
  Only a poke can do more, and it sets the ghost then: without that, every command keeps what
  it should.
\<close>

definition kept_or_astray :: "world \<Rightarrow> world \<Rightarrow> bool" where
  "kept_or_astray w w' \<longleftrightarrow> (app_ok (env w) \<longrightarrow> app_ok (env w')) \<and> (astray (env w) \<longrightarrow> astray (env w'))
     \<and> (frame_kept w w' \<or> astray (env w'))"

lemma kept_or_astrayI: "frame_kept w w' \<Longrightarrow> kept_or_astray w w'"
  by (auto simp: kept_or_astray_def kept_defs)

lemma kept_or_astray_trans: "kept_or_astray w w1 \<Longrightarrow> kept_or_astray w1 w2 \<Longrightarrow> kept_or_astray w w2"
  using kept_trans by (auto simp: kept_or_astray_def)

definition device_addr :: "u32 \<Rightarrow> bool" where
  "device_addr a \<longleftrightarrow> SPI_BASE \<le> a \<and> a \<noteq> BUFFER_POOL_CTRL_BASE"

lemma device_store:
  assumes "device_addr a"
  shows "\<exists>w'. store_word a v w = Some w' \<and> frame_kept w w'"
proof -
  have "\<not> a < SPI_BASE" and c: "a \<noteq> BUFFER_POOL_CTRL_BASE"
    using assms by (auto simp: device_addr_def not_less)
  moreover have "BUFFER_POOL_RAM_BASE \<le> SPI_BASE" by (simp add: BUFFER_POOL_RAM_BASE_def SPI_BASE_def)
  ultimately have "\<not> a < BUFFER_POOL_RAM_BASE" "\<not> a < SPI_BASE" by (simp_all add: not_less)
  then have eq: "store_word a v w =
     (if a = GPIO_BASE + 4 then Some (on_env (\<lambda>e. e\<lparr> gpio_ddr := v \<rparr>) w)
      else if a = GPIO_BASE + 8 then Some (on_env (\<lambda>e. e\<lparr> gpio_tx_sel := v \<rparr>) w)
      else if a = GPIO_BASE + 12 then Some (on_env (\<lambda>e. e\<lparr> gpio_rx_sel := v \<rparr>) w)
      else if ATR_BASE \<le> a \<and> unat (a - ATR_BASE) div 4 < length (atr_v (env w))
           then Some (on_env (\<lambda>e. e\<lparr> atr_v := (atr_v e)[unat (a - ATR_BASE) div 4 := v] \<rparr>) w)
      else case map_of device_regs a of
             Some r \<Rightarrow> Some (io_write (Write r v)
                         (if a = TIMESYNC_BASE then on_env (\<lambda>e. e\<lparr> tick_control := v \<rparr>) w else w))
           | None \<Rightarrow> Some (io_write (Store a v) w))"
    using c by (simp only: store_word_def if_False simp_thms)
  have k: "frame_kept w (on_env (\<lambda>e. e\<lparr> gpio_ddr := v \<rparr>) w)" "frame_kept w (on_env (\<lambda>e. e\<lparr> gpio_tx_sel := v \<rparr>) w)"
    "frame_kept w (on_env (\<lambda>e. e\<lparr> gpio_rx_sel := v \<rparr>) w)" "frame_kept w (on_env (\<lambda>e. e\<lparr> atr_v := f e \<rparr>) w)"
    "frame_kept w (on_env (\<lambda>e. e\<lparr> tick_control := v \<rparr>) w)" for f
    by (rule kept_on_env [OF kept_refl]; simp)+
  have "frame_kept w (io_write x w)" for x by (rule kept_io_write [OF kept_refl])
  moreover have "frame_kept w (io_write x (on_env (\<lambda>e. e\<lparr> tick_control := v \<rparr>) w))" for x by (rule kept_io_write [OF k(5)])
  ultimately show ?thesis unfolding eq using k by (cases "map_of device_regs a") simp_all
qed

lemma store_kept: "store_word a v w = Some w' \<Longrightarrow> kept_or_astray w w'"
proof (cases "device_addr a")
  case True
  assume "store_word a v w = Some w'"
  then show ?thesis using device_store [OF True, of v w] kept_or_astrayI by auto
next
  case False
  assume "store_word a v w = Some w'"
  then show ?thesis using False
    by (auto simp: store_word_def device_addr_def kept_or_astray_def app_ok_def not_le ctrl_write_def split: if_splits)
qed

lemma copy_kept: "copy_words addr src n w = Some w' \<Longrightarrow> kept_or_astray w w'"
proof (induction n arbitrary: addr src w)
  case 0
  then show ?case by (auto intro: kept_or_astrayI kept_refl)
next
  case (Suc n)
  then obtain w1 where "store_word addr (get32 (mem w) src) w = Some w1" "copy_words (addr + 4) (src + 4) n w1 = Some w'"
    by (auto simp: Option.bind_eq_Some_conv)
  then show ?case using Suc.IH kept_or_astray_trans store_kept by blast
qed

lemma device_copy:
  "(\<And>i. i < n \<Longrightarrow> device_addr (addr + of_nat (4 * i))) \<Longrightarrow> \<exists>w'. copy_words addr src n w = Some w' \<and> frame_kept w w'"
proof (induction n arbitrary: addr src w)
  case 0
  then show ?case by (auto intro: kept_refl)
next
  case (Suc n)
  obtain w1 where w1: "store_word addr (get32 (mem w) src) w = Some w1" "frame_kept w w1"
    using device_store [of addr] Suc.prems [of 0] by auto
  have "device_addr (addr + 4 + of_nat (4 * i))" if "i < n" for i
    using Suc.prems [of "Suc i"] that by (simp add: algebra_simps)
  then obtain w' where "copy_words (addr + 4) (src + 4) n w1 = Some w'" "frame_kept w1 w'" using Suc.IH by blast
  then show ?case using w1 kept_trans by auto
qed

lemma kept_poke: "poke_cmd p w = Some w' \<Longrightarrow> kept_or_astray w w'"
  by (auto simp: poke_cmd_def Let_def split: if_splits intro: copy_kept)

lemma kept_other:
  assumes "subpacket pkt p space w = Some (r, w')" "mem w p \<noteq> OP_POKE"
  shows "frame_kept w w'"
  using assms
  by (auto simp: subpacket_def with_generic_def Let_def kept_ops kept_start_rx kept_db_init
      sync_to_pps_def sync_every_pps_def set_lo_offset_cmd_def
      dest: kept_config kept_burn kept_set_antenna [OF _ kept_refl]
      split: if_splits option.splits prod.splits)

lemma poke_subpacket:
  "mem w p = OP_POKE \<Longrightarrow> subpacket pkt p space w =
     (case poke_cmd p w of None \<Rightarrow> None | Some w' \<Rightarrow> Some (generic_reply p space True w', w'))"
  by (simp add: subpacket_def Let_def op_defs with_generic_def split: option.split)

lemma kept_subpacket:
  assumes "subpacket pkt p space w = Some (r, w')"
  shows "kept_or_astray w w'"
proof (cases "mem w p = OP_POKE")
  case True
  then show ?thesis using assms kept_poke by (auto simp: poke_subpacket split: option.splits)
qed (use kept_other [OF assms] kept_or_astrayI in blast)

section \<open>The answers\<close>

lemma length_be [simp]: "length (be16 x) = 2" "length (be32 y) = 4"
  by (simp_all add: be16_def be32_def)

text \<open>
  An answer to the command at \<open>p\<close>: nothing, or a subpacket with the reply opcode, its own length and
  the identifier of the request, which fits the space.
\<close>

definition answer_ok :: "world \<Rightarrow> nat \<Rightarrow> int \<Rightarrow> u8 list \<Rightarrow> bool" where
  "answer_ok w p space r \<longleftrightarrow> r = [] \<or>
     (r ! 0 = mem w p OR OP_REPLY_BIT \<and> r ! 1 = of_nat (length r) \<and> r ! 2 = mem w (p + 2)
      \<and> 4 \<le> length r \<and> length r \<le> 252 \<and> int (length r) \<le> space)"

lemma generic_answer:
  assumes "frame_kept w w'" "app_ok (env w)" "8192 \<le> p" "p + 2 < 14336"
  shows "answer_ok w p space (generic_reply p space ok w')"
proof -
  have "mem w' p = mem w p" "mem w' (p + 2) = mem w (p + 2)"
    using assms by (auto simp: kept_defs)
  then show ?thesis by (simp add: answer_ok_def generic_reply_def)
qed

lemma length_words: "length (concat (map (\<lambda>i. be32 (f i)) xs)) = 4 * length xs"
  by (induction xs) simp_all

text \<open>The size of an answer, for any command and wherever it stands.\<close>

definition answer_fits :: "int \<Rightarrow> u8 list \<Rightarrow> bool" where
  "answer_fits space r \<longleftrightarrow> r = [] \<or> r ! 1 = of_nat (length r) \<and> 4 \<le> length r \<and> length r \<le> 252 \<and> int (length r) \<le> space"

lemma peek_size:
  assumes "peek_cmd p space w = Some r" "0 \<le> space" "space < 2 ^ 31"
  shows "answer_fits space r \<and> (r = [] \<or> r ! 0 = OP_PEEK OR OP_REPLY_BIT \<and> r ! 2 = mem w (p + 2))"
proof (cases "r = []")
  case False
  let ?n = "get32 (mem w) (p + 8)"
  have n: "4 + ?n \<le> word_of_int space" "?n \<le> 248" "?n AND 3 = 0"
    and r: "r = [OP_PEEK OR OP_REPLY_BIT, ucast (4 + ?n), mem w (p + 2), 1]
      @ concat (map (\<lambda>i. be32 (load_word (get32 (mem w) (p + 4) + of_nat (4 * i)) w)) [0..<unat ?n div 4])"
    using assms(1) False
    by (auto simp: peek_cmd_def Let_def MAX_SUBPKT_LEN_def not_less wa_ok_def split: if_splits)
  have "(3 :: u32) = mask 2" by (simp add: mask_eq_exp_minus_1)
  then have "take_bit 2 ?n = 0" using n(3) by (simp add: take_bit_eq_mask)
  then have "take_bit 2 (unat ?n) = 0" by (simp add: unsigned_take_bit_eq [symmetric])
  then have four: "4 * (unat ?n div 4) = unat ?n" by (simp add: take_bit_eq_mod mod_0_imp_dvd)
  have l: "length r = 4 + unat ?n" unfolding r by (simp add: length_words four)
  have u: "unat ?n \<le> 248" using n(2) by (simp add: word_le_nat_alt)
  then have s: "unat (4 + ?n) = 4 + unat ?n" by (simp add: unat_word_ariths)
  have "unat (word_of_int space :: u32) = nat space"
    using assms(2,3) by (simp add: unsigned_of_int take_bit_int_eq_self)
  then have "4 + unat ?n \<le> nat space" using n(1) s by (simp add: word_le_nat_alt)
  then have "int (length r) \<le> space" using assms(2) l by linarith
  moreover have "ucast (4 + ?n) = (of_nat (length r) :: u8)"
    unfolding l s [symmetric] by simp
  moreover have "r ! 0 = OP_PEEK OR OP_REPLY_BIT" "r ! 1 = ucast (4 + ?n)" "r ! 2 = mem w (p + 2)" unfolding r by simp_all
  ultimately show ?thesis using u l by (simp add: answer_fits_def)
qed (simp add: answer_fits_def)

lemma generic_fits: "answer_fits space (generic_reply p space ok w)"
  by (simp add: answer_fits_def generic_reply_def)

lemma subpacket_fits:
  assumes sp: "subpacket pkt p space w = Some (r, w')" and e: "app_ok (env w)" and space: "0 \<le> space" "space < 2 ^ 31"
  shows "answer_fits space r"
proof -
  have m: "length (mac_addr (env w)) = 6" using e by (simp add: app_ok_def)
  show ?thesis
    using sp generic_fits peek_size [of p space w r] space m
    by (auto simp: subpacket_def with_generic_def Let_def answer_fits_def op_id_cmd_def
        config_tx_v2_cmd_def config_rx_v2_cmd_def config_reply_def read_time_cmd_def dboard_info_cmd_def
        db_info_def gpio_read_cmd_def
        split: if_splits option.splits prod.splits)
qed

lemma subpacket_answer:
  assumes sp: "subpacket pkt p space w = Some (r, w')" and k: "frame_kept w w'" and e: "app_ok (env w)"
    and p: "8192 \<le> p" "p + 2 < 14336" and space: "0 \<le> space" "space < 2 ^ 31"
  shows "answer_ok w p space r"
proof -
  note g = generic_answer [OF k e p]
  have m: "length (mac_addr (env w)) = 6" using e by (simp add: app_ok_def)
  have pk: "answer_ok w p space r" if "peek_cmd p space w = Some r" "mem w p = OP_PEEK"
    using peek_size [OF that(1) space] that(2) by (auto simp: answer_ok_def answer_fits_def)
  show ?thesis
    using sp g pk space m
    by (auto simp: subpacket_def with_generic_def Let_def answer_ok_def op_id_cmd_def
        config_tx_v2_cmd_def config_rx_v2_cmd_def config_reply_def read_time_cmd_def dboard_info_cmd_def
        db_info_def gpio_read_cmd_def
        split: if_splits option.splits prod.splits)
qed

section \<open>Properties of the loop\<close>

lemma round4_bounds: "n \<le> round4 n" "round4 n < n + 4" "4 dvd round4 n"
  by (auto simp: round4_def)

lemma length_pad4 [simp]: "length (pad4 r) = round4 (length r)"
  using round4_bounds(1) [of "length r"] by (simp add: pad4_def)

text \<open>An answer that fits a multiple of four bytes still fits with its padding.\<close>

lemma round4_fits: "int n \<le> space \<Longrightarrow> 4 dvd space \<Longrightarrow> int (round4 n) \<le> space"
  by (auto simp: round4_def elim!: dvdE)

lemma answer_padded: "answer_fits space r \<Longrightarrow> 0 \<le> space \<Longrightarrow> 4 dvd space \<Longrightarrow> int (round4 (length r)) \<le> space"
  by (rule round4_fits) (auto simp: answer_fits_def)

text \<open>
  The commands of a well-formed frame: each is longer than nothing, and they end with an end marker
  or with the payload.
\<close>

fun frame_commands :: "(nat \<Rightarrow> u8) \<Rightarrow> nat \<Rightarrow> int \<Rightarrow> nat \<Rightarrow> bool" where
  "frame_commands m p len 0 \<longleftrightarrow> 0 \<le> len \<and> len < 2 ^ 31 \<and> (len < 4 \<or> m p = OP_EOP)"
| "frame_commands m p len (Suc n) \<longleftrightarrow> 4 \<le> len \<and> len < 2 ^ 31 \<and> m p \<noteq> OP_EOP
     \<and> frame_commands m (p + round4 (unat (m (p + 1)))) (len - int (round4 (unat (m (p + 1))))) n"

text \<open>The specification of the loop: the commands one after the other.\<close>

fun run_commands :: "nat \<Rightarrow> nat \<Rightarrow> nat \<Rightarrow> u8 list \<Rightarrow> int \<Rightarrow> world \<Rightarrow> (u8 list \<times> int \<times> world) option" where
  "run_commands pkt p 0 reply space w = Some (reply, space, w)"
| "run_commands pkt p (Suc n) reply space w =
     (case subpacket pkt p space w of
        None \<Rightarrow> None
      | Some (r, w') \<Rightarrow> run_commands pkt (p + round4 (unat (mem w (p + 1)))) n (reply @ pad4 r)
                         (space - int (round4 (length r))) w')"

lemma unsigned_less_4:
  assumes "0 \<le> len" "len < 2 ^ 31"
  shows "(word_of_int len :: u32) < 4 \<longleftrightarrow> len < 4"
proof -
  have "uint (word_of_int len :: u32) = len"
    using assms by (simp add: unsigned_of_int take_bit_int_eq_self)
  then show ?thesis by (simp add: word_less_def)
qed

lemma frame_commands_cong:
  assumes "frame_commands m p len n" "\<And>i. p \<le> i \<Longrightarrow> i < 14336 \<Longrightarrow> m' i = m i" "int p + len < 14336"
  shows "frame_commands m' p len n"
  using assms
proof (induction n arbitrary: p len)
  case 0
  then show ?case by auto
next
  case (Suc n)
  have l: "4 \<le> len" using Suc.prems(1) by simp
  then have eq: "m' p = m p" "m' (p + 1) = m (p + 1)" using Suc.prems(2,3) by auto
  show ?case
    using Suc.prems Suc.IH [of "p + round4 (unat (m (p + 1)))" "len - int (round4 (unat (m (p + 1))))"]
    by (simp add: eq)
qed

text \<open>Where these commands are, and commands that leave the firmware in order.\<close>

fun command_places :: "(nat \<Rightarrow> u8) \<Rightarrow> nat \<Rightarrow> nat \<Rightarrow> nat list" where
  "command_places m p 0 = []"
| "command_places m p (Suc n) = p # command_places m (p + round4 (unat (m (p + 1)))) n"

definition command_safe :: "(nat \<Rightarrow> u8) \<Rightarrow> nat \<Rightarrow> bool" where
  "command_safe m p \<longleftrightarrow>
     (m p = OP_PEEK \<longrightarrow> wa_ok (get32 m (p + 4)) (get32 m (p + 8)))
     \<and> (m p = OP_POKE \<longrightarrow> 8 \<le> m (p + 1) \<and> wa_ok (get32 m (p + 4)) (ucast (m (p + 1)) - 8)
          \<and> (\<forall>i < unat (ucast (m (p + 1)) - 8 :: u32) div 4. device_addr (get32 m (p + 4) + of_nat (4 * i))))"

lemma with_generic_Some: "with_generic p space x \<noteq> None"
  by (cases x) (simp add: with_generic_def)

lemma subpacket_None:
  "subpacket pkt p space w = None \<Longrightarrow> mem w p = OP_PEEK \<and> peek_cmd p space w = None \<or> mem w p = OP_POKE \<and> poke_cmd p w = None"
  unfolding subpacket_def Let_def by (simp add: with_generic_Some split: if_splits option.splits)

lemma safe_subpacket:
  assumes "command_safe (mem w) p"
  shows "\<exists>r w'. subpacket pkt p space w = Some (r, w') \<and> frame_kept w w'"
proof -
  have "\<exists>w'. poke_cmd p w = Some w' \<and> frame_kept w w'" if "mem w p = OP_POKE"
  proof -
    have "\<not> mem w (p + 1) < 8" using assms that by (simp add: command_safe_def not_less)
    then show ?thesis
      using assms that device_copy [of "unat (ucast (mem w (p + 1)) - 8 :: u32) div 4" "get32 (mem w) (p + 4)" "p + 8" w]
      by (simp add: poke_cmd_def Let_def command_safe_def)
  qed
  moreover have "\<exists>r. peek_cmd p space w = Some r" if "mem w p = OP_PEEK"
    using assms that by (simp add: peek_cmd_def Let_def command_safe_def)
  ultimately have "\<exists>r w'. subpacket pkt p space w = Some (r, w')"
    using subpacket_None [of pkt p space w] by (cases "subpacket pkt p space w") fastforce+
  then obtain r w' where sp: "subpacket pkt p space w = Some (r, w')" by blast
  have "frame_kept w w'"
  proof (cases "mem w p = OP_POKE")
    case True
    then obtain w1 where "poke_cmd p w = Some w1" "frame_kept w w1"
      using \<open>mem w p = OP_POKE \<Longrightarrow> \<exists>w'. poke_cmd p w = Some w' \<and> frame_kept w w'\<close> by blast
    then show ?thesis using sp True by (simp add: poke_subpacket)
  qed (rule kept_other [OF sp])
  then show ?thesis using sp by blast
qed

lemma command_safe_cong:
  "(\<And>i. i < 12 \<Longrightarrow> m' (p + i) = m (p + i)) \<Longrightarrow> command_safe m' p = command_safe m p"
proof -
  assume a: "\<And>i. i < 12 \<Longrightarrow> m' (p + i) = m (p + i)"
  have b: "m' p = m p" "m' (p + 1) = m (p + 1)" using a [of 0] a [of 1] by simp_all
  have w: "get32 m' (p + k) = get32 m (p + k)" if "k \<le> 8" for k
    using a [of k] a [of "k + 1"] a [of "k + 2"] a [of "k + 3"] that by (simp add: get32_def add.assoc)
  show ?thesis by (simp add: command_safe_def b [unfolded Suc_eq_plus1 [symmetric]] w)
qed

lemma places_cong:
  assumes "frame_commands m p len n" "\<And>i. p \<le> i \<Longrightarrow> i < 14336 \<Longrightarrow> m' i = m i" "int p + len < 14336"
  shows "command_places m' p n = command_places m p n \<and> (\<forall>q \<in> set (command_places m p n). p \<le> q \<and> int q + 4 \<le> int p + len)"
  using assms
proof (induction n arbitrary: p len)
  case (Suc n)
  let ?t = "round4 (unat (m (p + 1)))"
  have l: "4 \<le> len" using Suc.prems(1) by simp
  then have eq: "m' (p + 1) = m (p + 1)" using Suc.prems(2,3) by auto
  have "command_places m' (p + ?t) n = command_places m (p + ?t) n
      \<and> (\<forall>q \<in> set (command_places m (p + ?t) n). p + ?t \<le> q \<and> int q + 4 \<le> int (p + ?t) + (len - int ?t))"
    by (rule Suc.IH) (use Suc.prems in auto)
  then show ?case using l by (auto simp: eq [unfolded Suc_eq_plus1 [symmetric]])
qed simp

lemma subpackets_run:
  assumes "frame_commands (mem w) p len n" "8192 \<le> p" "int p + len \<le> 12288" "app_ok (env w)"
    "\<forall>q \<in> set (command_places (mem w) p n). command_safe (mem w) q"
  shows "\<exists>reply' space' w'. run_commands pkt p n reply space w = Some (reply', space', w')
    \<and> subpackets pkt p len reply space w = Some (Some (reply', space', w')) \<and> frame_kept w w'"
  using assms
proof (induction n arbitrary: p len reply space w)
  case 0
  then show ?case by (subst subpackets.simps) (auto simp: unsigned_less_4 kept_refl)
next
  case (Suc n)
  let ?t = "round4 (unat (mem w (p + 1)))"
  have l: "4 \<le> len" "len < 2 ^ 31" "mem w p \<noteq> OP_EOP"
    and f: "frame_commands (mem w) (p + ?t) (len - int ?t) n" using Suc.prems(1) by auto
  have go: "\<not> ((word_of_int len :: u32) < 4 \<or> mem w p = OP_EOP)" using l by (simp add: unsigned_less_4)
  have safe: "command_safe (mem w) p" "\<forall>q \<in> set (command_places (mem w) (p + ?t) n). command_safe (mem w) q"
    using Suc.prems(5) by simp_all
  obtain r w' where sp: "subpacket pkt p space w = Some (r, w')" and k: "frame_kept w w'"
    using safe_subpacket [OF safe(1)] by blast
  have e: "app_ok (env w')" and m: "\<And>i. 8192 \<le> i \<Longrightarrow> i < 14336 \<Longrightarrow> mem w' i = mem w i"
    using k Suc.prems(4) by (auto simp: kept_defs)
  have t: "mem w' (p + 1) = mem w (p + 1)" using m Suc.prems(2,3) l(1) by simp
  have bound: "int (p + ?t) + (len - int ?t) < 14336" using Suc.prems(3) by simp
  have m': "\<And>i. p + ?t \<le> i \<Longrightarrow> i < 14336 \<Longrightarrow> mem w' i = mem w i" using m Suc.prems(2) by auto
  note pl = places_cong [OF f m' bound]
  have "\<forall>q \<in> set (command_places (mem w') (p + ?t) n). command_safe (mem w') q"
  proof
    fix q
    assume q: "q \<in> set (command_places (mem w') (p + ?t) n)"
    then have "q \<in> set (command_places (mem w) (p + ?t) n)" "8192 \<le> q" "int q + 4 \<le> 12288"
      using pl Suc.prems(2,3) by force+
    then show "command_safe (mem w') q"
      using safe(2) command_safe_cong [of "mem w'" q "mem w"] m by auto
  qed
  moreover have "frame_commands (mem w') (p + ?t) (len - int ?t) n"
    by (rule frame_commands_cong [OF f m' bound])
  ultimately have ih: "\<exists>reply' space' w''. run_commands pkt (p + ?t) n (reply @ pad4 r) (space - int (round4 (length r))) w'
        = Some (reply', space', w'')
      \<and> subpackets pkt (p + ?t) (len - int ?t) (reply @ pad4 r) (space - int (round4 (length r))) w'
        = Some (Some (reply', space', w'')) \<and> frame_kept w' w''"
    by (intro Suc.IH) (use Suc.prems(2,3) e in auto)
  then show ?case
    using go sp t kept_trans [OF k] by (subst subpackets.simps) (auto simp: Let_def)
qed

section \<open>What the loop adds to the reply\<close>

text \<open>Whatever the frame holds.\<close>

lemma subpackets_reply:
  "subpackets pkt p len reply space w = Some y \<Longrightarrow> app_ok (env w) \<Longrightarrow> 0 \<le> space \<Longrightarrow> space < 2 ^ 31 \<Longrightarrow> 4 dvd space
    \<Longrightarrow> (case y of None \<Rightarrow> True | Some (reply', space', w') \<Rightarrow>
          int (length reply') + space' = int (length reply) + space \<and> 0 \<le> space' \<and> 4 dvd space'
          \<and> (\<exists>rs. reply' = reply @ concat (map pad4 rs) \<and> (\<forall>r \<in> set rs. answer_fits space r)))"
proof (induction rule: subpackets.raw_induct [rotated, consumes 1, case_names step])
  case (step f pkt p len reply space w y)
  show ?case
  proof (cases "(word_of_int len :: u32) < 4 \<or> mem w p = OP_EOP")
    case True
    then have "y = Some (reply, space, w)" using step(2) by simp
    then show ?thesis using step(4,6) by (auto intro: exI [of _ "[]"])
  next
    case False
    show ?thesis
    proof (cases "subpacket pkt p space w")
      case None
      then show ?thesis using step(2) False by auto
    next
      case (Some rw)
      obtain r w1 where sp: "subpacket pkt p space w = Some (r, w1)" using Some by (cases rw) auto
      let ?space = "space - int (round4 (length r))"
      have rec: "f pkt (p + round4 (unat (mem w1 (p + 1)))) (len - int (round4 (unat (mem w1 (p + 1)))))
          (reply @ pad4 r) ?space w1 = Some y"
        using step(2) False sp by (simp add: Let_def)
      have e: "app_ok (env w1)" using kept_subpacket [OF sp] step(3) by (simp add: kept_or_astray_def)
      have fits: "answer_fits space r" by (rule subpacket_fits [OF sp step(3-5)])
      have sz: "0 \<le> ?space" "?space < 2 ^ 31" "4 dvd ?space"
        using answer_padded [OF fits step(4,6)] step(5,6) round4_bounds(3) [of "length r"] by auto
      from step(1) [OF rec e sz]
      have ih: "case y of None \<Rightarrow> True | Some (reply', space', w') \<Rightarrow>
          int (length reply') + space' = int (length (reply @ pad4 r)) + ?space \<and> 0 \<le> space' \<and> 4 dvd space'
          \<and> (\<exists>rs. reply' = (reply @ pad4 r) @ concat (map pad4 rs) \<and> (\<forall>r \<in> set rs. answer_fits ?space r))" .
      show ?thesis
      proof (cases y)
        case (Some z)
        obtain reply' space' w' where z: "z = (reply', space', w')" by (cases z)
        obtain rs where rs: "reply' = (reply @ pad4 r) @ concat (map pad4 rs)" "\<forall>r \<in> set rs. answer_fits ?space r"
          using ih Some z by auto
        have "\<forall>r \<in> set rs. answer_fits space r" using rs(2) by (fastforce simp: answer_fits_def)
        then have "reply' = reply @ concat (map pad4 (r # rs)) \<and> (\<forall>r \<in> set (r # rs). answer_fits space r)"
          using rs(1) fits by simp
        then show ?thesis using ih Some z by (auto intro!: exI [of _ "r # rs"])
      qed simp
    qed
  qed
qed

section \<open>The control channel beside the data stream\<close>

lemma kept_subpackets:
  "subpackets pkt p len reply space w = Some y
    \<Longrightarrow> (case y of None \<Rightarrow> True | Some (reply', space', w') \<Rightarrow> kept_or_astray w w')"
proof (induction rule: subpackets.raw_induct [rotated, consumes 1, case_names step])
  case (step f pkt p len reply space w y)
  show ?case
  proof (cases "(word_of_int len :: u32) < 4 \<or> mem w p = OP_EOP")
    case True
    then have "y = Some (reply, space, w)" using step(2) by simp
    then show ?thesis by (simp add: kept_or_astrayI kept_refl)
  next
    case False
    show ?thesis
    proof (cases "subpacket pkt p space w")
      case None
      then show ?thesis using step(2) False by auto
    next
      case (Some rw)
      obtain r w1 where sp: "subpacket pkt p space w = Some (r, w1)" using Some by (cases rw) auto
      have "f pkt (p + round4 (unat (mem w1 (p + 1)))) (len - int (round4 (unat (mem w1 (p + 1)))))
          (reply @ pad4 r) (space - int (length (pad4 r))) w1 = Some y"
        using step(2) False sp by (simp add: Let_def)
      from step(1) [OF this] show ?thesis
        using kept_or_astray_trans [OF kept_subpacket [OF sp]] by (auto split: option.splits)
    qed
  qed
qed

lemma kept_reply_buffer:
  "frame_kept w w' \<Longrightarrow> frame_kept w (on_env (\<lambda>e. e\<lparr> ram := put_bytes (buffer_ram CPU_TX_BUF) bs (ram e) \<rparr>) w')"
  by (auto simp: kept_defs app_ok_def put_bytes_def buffer_ram_def CPU_TX_BUF_def)

lemma kept_send: "frame_kept w w' \<Longrightarrow> frame_kept w (bp_send_from_buf CPU_TX_BUF pt step f l w')"
  by (auto simp: kept_defs bp_send_from_buf_def ctrl_write_def CPU_TX_BUF_def)

lemma kept_wait:
  "wait_status msk w' = Some w'' \<Longrightarrow> frame_kept w w' \<Longrightarrow> frame_kept w w''"
  "wait_for_opening w' = Some w'' \<Longrightarrow> frame_kept w w' \<Longrightarrow> frame_kept w w''"
  by (auto simp: wait_status_def wait_for_opening_def kept_on_env)

lemma kept_send_reply:
  assumes "send_reply reply w' = Some w''" "frame_kept w w'"
  shows "frame_kept w w''"
proof -
  let ?r = "reply @ replicate (64 - length reply) 0"
  obtain w1 where 1: "wait_status (BPS_IDLE CPU_TX_BUF) (on_env (hal_set_leds 4 4) w') = Some w1"
    using assms(1) by (auto simp: send_reply_def Let_def Option.bind_eq_Some_conv)
  have k1: "frame_kept w w1" using kept_wait(1) [OF 1] assms(2) by (simp add: kept_on_env)
  let ?w2 = "on_env (hal_set_leds 8 8) (on_env (\<lambda>e. e\<lparr> ram := put_bytes (buffer_ram CPU_TX_BUF) ?r (ram e) \<rparr>)
      (on_env (hal_set_leds 0 4) w1))"
  obtain w3 where 3: "wait_for_opening ?w2 = Some w3"
    using assms(1) 1 by (auto simp: send_reply_def Let_def Option.bind_eq_Some_conv)
  have k3: "frame_kept w w3"
    by (rule kept_wait(2) [OF 3]) (simp add: k1 kept_on_env kept_reply_buffer)
  let ?w4 = "on_env (hal_set_leds 0 8) w3"
  let ?w5 = "bp_send_from_buf CPU_TX_BUF (cpu_tx_buf_dest_port (env ?w4)) 1 0 (of_nat (length ?r div 4)) ?w4"
  obtain w6 where 6: "wait_status (BPS_DONE CPU_TX_BUF OR BPS_ERROR CPU_TX_BUF) ?w5 = Some w6"
    and w'': "w'' = bp_clear_buf CPU_TX_BUF w6"
    using assms(1) 1 3 by (auto simp: send_reply_def Let_def Option.bind_eq_Some_conv)
  have "frame_kept w w6" by (rule kept_wait(1) [OF 6]) (simp add: k3 kept_on_env kept_send)
  then show ?thesis using w'' by (simp add: kept_clear CPU_TX_BUF_def)
qed

lemma kept_eth_pkt_inspector:
  assumes "eth_pkt_inspector b w = Some (Some (h, w'))"
  shows "kept_or_astray w w'"
proof (cases "w' = w")
  case False
  then obtain len reply space w1 where w1: "subpackets (buffer_ram b) (buffer_ram b + 28) len [] REPLY_SPACE w = Some (Some (reply, space, w1))"
    and s: "send_reply (set_reply_hdr (buffer_ram b) w @ reply @ pad4 (add_eop space)) w1 = Some w'"
    using assms by (auto simp: eth_pkt_inspector_def handle_control_chan_frame_def Let_def split: if_splits option.splits)
  have "kept_or_astray w w1" using kept_subpackets [OF w1] by simp
  moreover have "kept_or_astray w1 w'" by (rule kept_or_astrayI [OF kept_send_reply [OF s kept_refl]])
  ultimately show ?thesis by (rule kept_or_astray_trans)
qed (simp add: kept_or_astrayI kept_refl)

text \<open>
  The inspector as the double buffer calls it.  Where it does not come back no step of the firmware
  follows, and where a poke has stored to the buffer pool nothing is claimed of what follows: the ghost is set
  then, for good, and the value here does not matter.
\<close>

definition eth_inspect :: "app inspector" where
  "eth_inspect sm b w =
     (case eth_pkt_inspector b w of
        Some (Some (h, w')) \<Rightarrow> if astray (env w') then (True, on_env (\<lambda>e. e\<lparr> astray := True \<rparr>) w) else (h, w')
      | _ \<Rightarrow> (True, on_env (\<lambda>e. e\<lparr> astray := True \<rparr>) w))"

lemma eth_inspect_real:
  "\<not> astray (env (snd (eth_inspect sm b w))) \<Longrightarrow> eth_pkt_inspector b w = Some (Some (eth_inspect sm b w)) \<and> \<not> astray (env w)"
  using kept_eth_pkt_inspector [of b w]
  by (auto simp: eth_inspect_def kept_or_astray_def split: option.splits prod.splits if_splits)

definition eth_env_ok :: "nat \<Rightarrow> app \<Rightarrow> bool" where
  "eth_env_ok b e \<longleftrightarrow> b = DSP_TX_BUF_0 \<and> app_ok e"

lemma same_astray: "frame_same w (on_env (\<lambda>e. e\<lparr> astray := True \<rparr>) w)"
  by (simp add: frame_same_def app_ok_def)

lemma kept_eth_inspect: "frame_same w (snd (eth_inspect sm b w))"
  using kept_eth_pkt_inspector [of b w]
  by (auto simp: eth_inspect_def same_astray kept_or_astray_def kept_same split: option.splits prod.splits)

interpretation eth: packet_inspector eth_inspect eth_env_ok
proof
  fix sm :: dbsm and w :: world and b c :: nat
  assume ok: "pool_ok sm w" "eth_env_ok (buf0 sm) (env w)"
  then have k: "buf0 sm = 4" "app_ok (env w)" by (simp_all add: eth_env_ok_def DSP_TX_BUF_0_def)
  note f = kept_eth_inspect [of w sm b, unfolded frame_same_def, rule_format, OF k(2)]
  show "length (buffer_state (snd (eth_inspect sm b w))) = length (buffer_state w)"
    "eth_env_ok (buf0 sm) (env (snd (eth_inspect sm b w)))"
    using f k by (auto simp: eth_env_ok_def DSP_TX_BUF_0_def)
  assume "c \<in> pair sm"
  moreover have "(4::nat) XOR 1 = 5" by (simp add: xor_one_eq)
  ultimately have "c = 4 \<or> c = 5" using k(1) by (auto simp: pair_def)
  then show "buffer_state (snd (eth_inspect sm b w)) ! c = buffer_state w ! c"
    "hw_mode (ctrl_log (snd (eth_inspect sm b w))) c = hw_mode (ctrl_log w) c"
    using f by auto
qed

lemma stuck_command:
  "subpackets pkt p len reply space w = Some y \<Longrightarrow> \<not> (word_of_int len :: u32) < 4
    \<Longrightarrow> 24 \<le> mem w p \<Longrightarrow> mem w (p + 1) = 0 \<Longrightarrow> False"
proof (induction rule: subpackets.raw_induct [rotated, consumes 1, case_names step])
  case (step f pkt p len reply space w y)
  have op: "mem w p \<noteq> 0" "\<And>c. c < 24 \<Longrightarrow> mem w p \<noteq> c" using step(4) by auto
  have sp: "subpacket pkt p space w = Some ([], w)"
    using op by (simp add: subpacket_def Let_def op_defs)
  have "f pkt p len reply space w = Some y"
    using step(2,3,5) op sp by (simp add: Let_def OP_EOP_def round4_def pad4_def)
  from step(1) [OF this step(3-5)] show ?case .
qed

section \<open>The properties\<close>

text \<open>
  C24: a frame whose commands all have a length and end with the end marker or with the payload, whose
  peeks and pokes are of aligned words and whose pokes go to devices other than the buffer pool (so that none
  stores to the frame that is being read), is handled: the loop returns, without the firmware
  having ended itself, and has run each command once and in order, and nothing behind them; the frame and its neighbours
  are as they were.
\<close>

theorem control_commands:
  assumes "frame_commands (mem w) p len n" "8192 \<le> p" "int p + len \<le> 12288" "app_ok (env w)"
    and "\<forall>q \<in> set (command_places (mem w) p n). command_safe (mem w) q"
  shows "\<exists>reply' space' w'. run_commands pkt p n reply space w = Some (reply', space', w')
    \<and> subpackets pkt p len reply space w = Some (Some (reply', space', w'))
    \<and> (\<forall>i. 8192 \<le> i \<and> i < 12288 \<longrightarrow> mem w' i = mem w i)"
proof -
  obtain reply' space' w' where r: "run_commands pkt p n reply space w = Some (reply', space', w')"
    "subpackets pkt p len reply space w = Some (Some (reply', space', w'))" "frame_kept w w'"
    using subpackets_run [OF assms] by blast
  then show ?thesis using assms(4) by (auto simp: kept_defs)
qed

text \<open>
  A command of length zero that the firmware does not know is never left: the loop does not
  return, whatever stands behind it and however long the frame is.
\<close>

theorem control_hang:
  assumes "4 \<le> len" "len < 2 ^ 31" "24 \<le> mem w p" "mem w (p + 1) = 0"
  shows "subpackets pkt p len reply space w = None"
  using stuck_command [of pkt p len reply space w] assms unsigned_less_4 [of len]
  by (cases "subpackets pkt p len reply space w") auto

text \<open>
  The answer to a command is empty or carries the reply opcode, its length and the identifier of
  the request, and fits the space that was left, for every command and any parameters.
\<close>

theorem control_answers:
  assumes "subpacket pkt p space w = Some (r, w')" "\<not> astray (env w')" "app_ok (env w)" "8192 \<le> p" "p + 2 < 14336"
    "0 \<le> space" "space < 2 ^ 31"
  shows "answer_ok w p space r"
proof -
  have "frame_kept w w'" using kept_subpacket [OF assms(1)] assms(2) by (simp add: kept_or_astray_def)
  then show ?thesis using assms by (intro subpacket_answer) auto
qed

text \<open>
  C25: the reply fits its buffer, whatever the frame holds, well-formed or not, and whatever its pokes do: if
  the loop comes back, the header of 28 bytes, the answers with their padding and the end
  marker take at most the 204 bytes of the reply buffer; every answer carries its own length, and the end
  marker is missing exactly when the answers fill the buffer.
\<close>

theorem control_reply_fits:
  assumes "app_ok (env w)" "subpackets pkt p len [] REPLY_SPACE w = Some (Some (reply, space, w'))"
  shows "28 + length reply + length (pad4 (add_eop space)) \<le> 204
    \<and> (\<exists>rs. reply = concat (map pad4 rs) \<and> (\<forall>r \<in> set rs. r = [] \<or> 4 \<le> length r \<and> r ! 1 = of_nat (length r)))
    \<and> add_eop space = (if length reply = 176 then [] else [0, 4, 0, 0])"
proof -
  have sp: "0 \<le> REPLY_SPACE" "REPLY_SPACE < 2 ^ 31" "4 dvd REPLY_SPACE" by (simp_all add: REPLY_SPACE_def)
  from subpackets_reply [OF assms(2,1) sp]
  have r: "int (length reply) + space = 176" "0 \<le> space" "4 dvd space"
    and rs: "\<exists>rs. reply = concat (map pad4 rs) \<and> (\<forall>r \<in> set rs. answer_fits REPLY_SPACE r)"
    by (simp_all add: REPLY_SPACE_def)
  have "\<exists>rs. reply = concat (map pad4 rs) \<and> (\<forall>r \<in> set rs. r = [] \<or> 4 \<le> length r \<and> r ! 1 = of_nat (length r))"
    using rs unfolding answer_fits_def by blast
  moreover have "space = 0 \<or> 4 \<le> space" using r(2,3) by (auto elim!: dvdE)
  ultimately show ?thesis
    using r(1,2) by (auto simp: add_eop_def OP_EOP_def round4_def)
qed

text \<open>
  A host can end the firmware: a peek of a number of bytes that is not a multiple of four, or at
  an address that is not, passes the size check and makes \<open>memcpy_wa\<close> exit.
\<close>

theorem control_exit:
  assumes "4 \<le> len" "len < 2 ^ 31" "mem w p = OP_PEEK" "get32 (mem w) (p + 8) \<le> 168"
    and "\<not> wa_ok (get32 (mem w) (p + 4)) (get32 (mem w) (p + 8))"
  shows "subpackets pkt p len reply REPLY_SPACE w = Some None"
proof -
  let ?n = "get32 (mem w) (p + 8)"
  have u: "unat ?n \<le> 168" using assms(4) by (simp add: word_le_nat_alt)
  then have "unat (4 + ?n) = 4 + unat ?n" by (simp add: unat_word_ariths)
  then have "\<not> (176 :: u32) < 4 + ?n" "\<not> 248 < ?n"
    using u by (simp_all add: word_less_nat_alt)
  then have "subpacket pkt p REPLY_SPACE w = None"
    using assms(3,5) by (simp add: subpacket_def Let_def op_defs peek_cmd_def REPLY_SPACE_def MAX_SUBPKT_LEN_def)
  then show ?thesis
    using assms(1-3) by (subst subpackets.simps) (simp add: unsigned_less_4 op_defs)
qed

text \<open>
  The control channel does not disturb the stream it is embedded in: in every run of the double
  buffer from the Ethernet to the transmitter with the firmware's own inspector, whatever frames it
  handles and whatever they command, the sample frames leave in the order they came in.
\<close>

theorem eth_to_dsp_fifo:
  assumes "dbsm_run eth_inspect eth_env_ok (sm, w) g"
  shows "accepted g = gone g @ in_flight sm w g \<and> app_ok (env w)
    \<and> (\<forall>b \<in> pair sm. hw_mode (ctrl_log w) b = hw_of_state (buffer_state w ! b))"
  using eth.run_ok [OF assms] by (auto simp: dbsm_ok_def fifo_def eth_env_ok_def)

section \<open>A frame, evaluated\<close>

definition demo_frame :: "u8 list \<Rightarrow> nat \<Rightarrow> u8" where
  "demo_frame cmds = put_bytes 8192 (replicate 12 1 @ be16 0xBEEF @ replicate 6 0
     @ be32 (u2p_word0 0 CONTROL_CHAN) @ be32 0xffffffff @ cmds) (\<lambda>i. 0)"

definition demo :: "u8 list \<Rightarrow> world" where
  "demo cmds = (case dbsm_init 2 dsp_rx_recv_args dsp_rx_send_args some_fw of
     None \<Rightarrow> undefined
   | Some (sm, w) \<Rightarrow>
       \<lparr> buffer_state = buffer_state w, ctrl_log = [], io_log = [], line_regs = (\<lambda>b. 0x20),
         env = boards.extend (env w) (app.fields (demo_frame cmds) [0, 0x50, 0xC2, 0x85, 0x3f, 0xff] True
           (replicate 6 0) False 0 0 0 sm sm 0x12345678 0 4 0 (\<lambda>a. 0) None PORT_ETH
           [BPS_IDLE 7, BPS_DONE 7] False) \<rparr>)"

lemma demo_state:
  "ram (env (demo cmds)) = demo_frame cmds" "timer (env (demo cmds)) = 0x12345678"
  "app_ok (env (demo cmds))" "length (buffer_state (demo cmds)) = NBUFFERS" "\<not> astray (env (demo cmds))"
proof -
  obtain sm w where i: "dbsm_init 2 dsp_rx_recv_args dsp_rx_send_args some_fw = Some (sm, w)"
    by (simp add: dbsm_init_def Let_def)
  then have d: "demo cmds = \<lparr> buffer_state = buffer_state w, ctrl_log = [], io_log = [], line_regs = (\<lambda>b. 0x20),
         env = boards.extend (env w) (app.fields (demo_frame cmds) [0, 0x50, 0xC2, 0x85, 0x3f, 0xff] True
           (replicate 6 0) False 0 0 0 sm sm 0x12345678 0 4 0 (\<lambda>a. 0) None PORT_ETH
           [BPS_IDLE 7, BPS_DONE 7] False) \<rparr>" by (simp add: demo_def)
  have p: "pool_ok sm w"
    by (rule init_pool_ok [OF i]) (simp_all add: NBUFFERS_def some_fw_def)
  have "buf0 sm = 2" using i by (auto simp: dbsm_init_def Let_def)
  then show "ram (env (demo cmds)) = demo_frame cmds" "timer (env (demo cmds)) = 0x12345678"
    "app_ok (env (demo cmds))" "length (buffer_state (demo cmds)) = NBUFFERS" "\<not> astray (env (demo cmds))"
    using p d by (auto simp: app.defs boards.defs app_ok_def pool_ok_def DSP_RX_BUF_0_def)
qed

lemma demo_seqno: "fw_seqno (env (demo cmds)) = 0"
  by (simp add: demo_def dbsm_init_def Let_def app.defs boards.defs)

text \<open>Two packets, in the buffers 0 and 1, after streaming was started: they carry the numbers 0 and 1.\<close>

theorem stream_commands_witness:
  "let w = demo []; sm = dsp_rx_sm (env w); w' = inspect_all sm [0, 1] (restart_streaming w)
   in 1000 * (commands_queued (io_log w') - commands_queued (io_log w)) = 2000
      \<and> ram (env w') 18 = 0 \<and> ram (env w') 2066 = 1"
proof -
  define w where "w = demo []"
  note s = stream_commands [of "dsp_rx_sm (env w)" "[0, 1]" w, unfolded Let_def]
  note k = conjunct2 [OF conjunct2 [OF conjunct2 [OF s]]]
  have seq: "fw_seqno (env w) = 0" by (simp add: w_def demo_seqno)
  show ?thesis
    using conjunct1 [OF s] spec [OF k, of 0] spec [OF k, of 1] seq
    unfolding w_def [symmetric] by (simp add: buffer_ram_def Let_def)
qed

definition time_cmd :: "u8 list" where "time_cmd = [3, 4, 9, 0, 0, 4, 0, 0]"

lemma demo_byte: "k < length cmds \<Longrightarrow> demo_frame cmds (8220 + k) = cmds ! k"
  by (simp add: demo_frame_def put_bytes_def nth_append)

lemma time_bytes:
  "demo_frame time_cmd 8220 = 3" "demo_frame time_cmd 8221 = 4" "demo_frame time_cmd 8222 = 9"
  "demo_frame time_cmd 8224 = 0"
  using demo_byte [of 0 time_cmd] demo_byte [of 1 time_cmd] demo_byte [of 2 time_cmd] demo_byte [of 4 time_cmd]
  by (simp_all add: time_cmd_def nth_Cons')

lemma time_frame: "frame_commands (mem (demo time_cmd)) 8220 8 1"
  unfolding One_nat_def by (simp add: demo_state time_bytes op_defs round4_def)

lemma time_run:
  "run_commands 8192 8220 1 [] REPLY_SPACE (demo time_cmd)
    = Some ([0x83, 8, 9, 0, 0x12, 0x34, 0x56, 0x78], 168, demo time_cmd)"
  unfolding One_nat_def
  by (simp add: subpacket_def Let_def op_defs demo_state time_bytes read_time_cmd_def OP_REPLY_BIT_def
      be32_def pad4_def round4_def REPLY_SPACE_def)

lemma time_safe: "\<forall>q \<in> set (command_places (mem (demo time_cmd)) 8220 1). command_safe (mem (demo time_cmd)) q"
  unfolding One_nat_def by (simp add: demo_state time_bytes command_safe_def op_defs)

theorem control_commands_witness:
  "subpackets 8192 8220 8 [] REPLY_SPACE (demo time_cmd)
    = Some (Some ([0x83, 8, 9, 0, 0x12, 0x34, 0x56, 0x78], 168, demo time_cmd))"
proof -
  obtain reply space w' where "run_commands 8192 8220 1 [] REPLY_SPACE (demo time_cmd) = Some (reply, space, w')"
    "subpackets 8192 8220 8 [] REPLY_SPACE (demo time_cmd) = Some (Some (reply, space, w'))"
    using control_commands [OF time_frame _ _ demo_state(3) time_safe, of 8192 "[]" REPLY_SPACE] by auto
  then show ?thesis using time_run by (simp only: option.inject prod.inject)
qed

theorem control_hang_witness: "subpackets 8192 8220 8 [] REPLY_SPACE (demo [0x20, 0, 0, 0]) = None"
proof -
  have "demo_frame [0x20, 0, 0, 0] 8220 = 0x20" "demo_frame [0x20, 0, 0, 0] 8221 = 0"
    using demo_byte [of 0 "[0x20, 0, 0, 0]"] demo_byte [of 1 "[0x20, 0, 0, 0]"] by (simp_all add: nth_Cons')
  then show ?thesis by (intro control_hang) (simp_all add: demo_state)
qed

theorem control_answers_witness:
  "answer_ok (demo time_cmd) 8220 176 [0x83, 8, 9, 0, 0x12, 0x34, 0x56, 0x78]"
proof -
  have "subpacket 8192 8220 176 (demo time_cmd)
    = Some ([0x83, 8, 9, 0, 0x12, 0x34, 0x56, 0x78], demo time_cmd)"
    by (simp add: subpacket_def Let_def op_defs demo_state time_bytes read_time_cmd_def OP_REPLY_BIT_def be32_def)
  from control_answers [OF this demo_state(5,3)] show ?thesis by simp
qed

theorem control_reply_fits_witness:
  "\<exists>reply space w'. subpackets 8192 8220 8 [] REPLY_SPACE (demo time_cmd) = Some (Some (reply, space, w'))
     \<and> 28 + length reply + length (pad4 (add_eop space)) \<le> 204"
proof -
  obtain reply space w' where s: "subpackets 8192 8220 8 [] REPLY_SPACE (demo time_cmd) = Some (Some (reply, space, w'))"
    using subpackets_run [OF time_frame _ _ demo_state(3) time_safe, of 8192 "[]" REPLY_SPACE] by auto
  show ?thesis using control_reply_fits [OF demo_state(3) s] s by auto
qed

definition peek_cmd_3 :: "u8 list" where "peek_cmd_3 = [11, 12, 1, 0, 0, 0, 0x10, 0, 0, 0, 0, 3]"

theorem control_exit_witness:
  "subpackets 8192 8220 12 [] REPLY_SPACE (demo peek_cmd_3) = Some None"
proof -
  have m: "demo_frame peek_cmd_3 8220 = 11" "get32 (demo_frame peek_cmd_3) 8228 = 3"
    using demo_byte [of 0 peek_cmd_3] demo_byte [of 8 peek_cmd_3] demo_byte [of 9 peek_cmd_3]
      demo_byte [of 10 peek_cmd_3] demo_byte [of 11 peek_cmd_3]
    by (simp_all add: get32_def peek_cmd_3_def nth_Cons')
  then have "\<not> wa_ok (get32 (demo_frame peek_cmd_3) 8224) (get32 (demo_frame peek_cmd_3) 8228)"
    by (simp add: wa_ok_def)
  then show ?thesis using control_exit [of 12 "demo peek_cmd_3" 8220] m by (simp add: demo_state OP_PEEK_def)
qed

theorem eth_to_dsp_fifo_witness:
  "\<exists>s. dbsm_run eth_inspect eth_env_ok s (no_packets (\<lambda>b. 0::nat)) \<and> app_ok (env (snd s))"
proof -
  obtain sm w where i: "dbsm_init 4 dsp_tx_recv_args dsp_tx_send_args (demo []) = Some (sm, w)"
    by (simp add: dbsm_init_def Let_def)
  have "pool_ok sm w"
    by (rule init_pool_ok [OF i]) (simp_all add: NBUFFERS_def demo_state)
  moreover have "eth_env_ok (buf0 sm) (env w)"
    using i demo_state(3) [of "[]"]
    by (auto simp: dbsm_init_def Let_def eth_env_ok_def DSP_TX_BUF_0_def set_buffer_def)
  ultimately have r: "dbsm_run eth_inspect eth_env_ok
      (fst (dbsm_start (sm, w)), snd (dbsm_start (sm, w))) (no_packets (\<lambda>b. 0::nat))"
    using dbsm_run.start [of sm w eth_env_ok] by simp
  show ?thesis using eth_to_dsp_fifo [OF r] r by (intro exI [of _ "dbsm_start (sm, w)"]) simp
qed

end
