(* ===== verification/Usrp2_Main.thy ===== *)
theory Usrp2_Main
  imports Usrp2_Control
begin

text \<open>
  The main program of the USRP2 firmware (\<open>usrp2/firmware/apps/txrx.c\<close>, second half): it sets up the
  two double buffers, Ethernet to transmitter in buffers 4 and 5 and receiver to Ethernet in buffers
  2 and 3, and then polls.  One turn of the loop gets the status word of the buffer pool and the
  pending interrupts as arguments.
\<close>

definition PIC_UNDERRUN_INT :: u32 where "PIC_UNDERRUN_INT = push_bit 5 1"
definition PIC_OVERRUN_INT :: u32 where "PIC_OVERRUN_INT = push_bit 6 1"

definition on_tx_sm :: "(dbsm \<times> world \<Rightarrow> dbsm \<times> world) \<Rightarrow> world \<Rightarrow> world" where
  "on_tx_sm f w = (let (sm, w) = f (dsp_tx_sm (env w), w) in on_env (\<lambda>e. e\<lparr> dsp_tx_sm := sm \<rparr>) w)"

definition on_rx_sm :: "(dbsm \<times> world \<Rightarrow> dbsm \<times> world) \<Rightarrow> world \<Rightarrow> world" where
  "on_rx_sm f w = (let (sm, w) = f (dsp_rx_sm (env w), w) in on_env (\<lambda>e. e\<lparr> dsp_rx_sm := sm \<rparr>) w)"

definition buffer_irq_handler :: "u32 \<Rightarrow> world \<Rightarrow> world" where
  "buffer_irq_handler status w =
     on_rx_sm (dbsm_process_status fw_sets_seqno_inspector status)
       (on_tx_sm (dbsm_process_status eth_inspect status) w)"

text \<open>The part of \<open>main\<close> before the loop that concerns the double buffers.\<close>

definition main_init :: "world \<Rightarrow> world option" where
  "main_init w =
     Option.bind (dbsm_init DSP_TX_BUF_0 dsp_tx_recv_args dsp_tx_send_args w) (\<lambda>(tx, w).
     Option.bind (dbsm_init DSP_RX_BUF_0 dsp_rx_recv_args dsp_rx_send_args w) (\<lambda>(rx, w).
     let w = on_env (\<lambda>e. e\<lparr> dsp_tx_sm := tx, dsp_rx_sm := rx \<rparr>) w;
         w = setup_tx w
     in Some (on_tx_sm dbsm_start w)))"

definition check_underrun :: "u32 \<Rightarrow> world \<Rightarrow> world" where
  "check_underrun pending w =
     (if pending AND PIC_UNDERRUN_INT \<noteq> 0 then
        io_write (Putchar (CHR ''U'')) (io_write (Write Pic_pending PIC_UNDERRUN_INT)
          (on_tx_sm (dbsm_handle_tx_underrun eth_inspect) w))
      else w)"

definition check_overrun :: "u32 \<Rightarrow> world \<Rightarrow> world" where
  "check_overrun pending w =
     (if pending AND PIC_OVERRUN_INT \<noteq> 0 then
        io_write (Putchar (CHR ''O'')) (io_write (Write Pic_pending PIC_OVERRUN_INT)
          (on_rx_sm dbsm_handle_rx_overrun w))
      else w)"

definition main_turn :: "u32 \<Rightarrow> u32 \<Rightarrow> world \<Rightarrow> world" where
  "main_turn status pending w =
     check_overrun pending (check_underrun pending (buffer_irq_handler status w))"

section \<open>The receive side stays in its buffers\<close>

definition rx_step :: "dbsm \<times> world \<Rightarrow> dbsm \<times> world \<Rightarrow> bool" where
  "rx_step = (\<lambda>(sm, w) (sm', w'). buf0 sm = 2 \<and> words_ok sm \<longrightarrow>
     buf0 sm' = 2 \<and> words_ok sm' \<and> frame_kept w w' \<and> dsp_tx_sm (env w') = dsp_tx_sm (env w))"

lemma rx_step_refl: "rx_step s s"
  by (simp add: rx_step_def kept_refl split: prod.split)

lemma rx_step_trans: "rx_step s t \<Longrightarrow> rx_step t u \<Longrightarrow> rx_step s u"
  using kept_trans by (fastforce simp: rx_step_def split: prod.splits)

lemma kept_set_buffer: "b = 2 \<or> b = 3 \<Longrightarrow> frame_kept w w' \<Longrightarrow> frame_kept w (set_buffer b x w')"
  by (auto simp: kept_defs set_buffer_def)

lemma kept_ctrl: "ctrl_buffer c = 2 \<or> ctrl_buffer c = 3 \<Longrightarrow> frame_kept w w' \<Longrightarrow> frame_kept w (ctrl_write c w')"
  by (auto simp: kept_defs ctrl_write_def)

lemma kept_rx_words:
  assumes "buf0 sm = 2" "words_ok sm" "b = 2 \<or> b = 3" "frame_kept w w'"
  shows "frame_kept w (dbsm_receive_to_buf sm b w')" "frame_kept w (dbsm_send_from_buf sm b w')"
proof -
  have "b \<in> pair sm" using assms(1,3) by (auto simp: pair_def xor_one_eq)
  then have "ctrl_buffer (recv_words sm ! (b mod 2)) = b" "ctrl_buffer (send_words sm ! (b mod 2)) = b"
    using assms(2) by (auto simp: words_ok_def)
  then show "frame_kept w (dbsm_receive_to_buf sm b w')" "frame_kept w (dbsm_send_from_buf sm b w')"
    using assms(3,4) by (auto simp: dbsm_receive_to_buf_def dbsm_send_from_buf_def ctrl_with_last_line intro!: kept_ctrl)
qed

lemma kept_seqno:
  assumes "b = 2 \<or> b = 3" "frame_kept w w'"
  shows "frame_kept w (snd (fw_sets_seqno_inspector sm b w'))"
  using assms(2)
proof (rule kept_trans)
  have "app_ok (env (snd (fw_sets_seqno_inspector sm b w'))) = app_ok (env w')"
    "line_regs (snd (fw_sets_seqno_inspector sm b w')) = line_regs w'"
    "astray (env (snd (fw_sets_seqno_inspector sm b w'))) = astray (env w')"
    by (simp_all add: fw_sets_seqno_inspector_def Let_def app_ok_def)
  then show "frame_kept w' (snd (fw_sets_seqno_inspector sm b w'))"
    using assms(1) seqno_inspector_frame [of sm b w'] seqno_inspector_env(1) [of sm b w']
    by (auto simp: kept_defs buffer_ram_def)
qed

lemma seqno_tx_sm: "dsp_tx_sm (env (snd (fw_sets_seqno_inspector sm b w))) = dsp_tx_sm (env w)"
  by (simp add: fw_sets_seqno_inspector_def Let_def)

lemmas fw_env = set_buffer_def ctrl_write_def bp_clear_buf_def dbsm_receive_to_buf_def dbsm_send_from_buf_def

lemma fw_ops_env [simp]:
  "env (set_buffer b x w) = env w" "env (ctrl_write c w) = env w" "env (bp_clear_buf b w) = env w"
  "env (dbsm_receive_to_buf sm b w) = env w" "env (dbsm_send_from_buf sm b w) = env w"
  by (simp_all add: fw_env)

lemma dma_flags [simp]:
  "dbsm_send_from_buf (sm\<lparr> rx_idle := x \<rparr>) = dbsm_send_from_buf sm"
  "dbsm_receive_to_buf (sm\<lparr> rx_idle := x \<rparr>) = dbsm_receive_to_buf sm"
  "dbsm_send_from_buf (sm\<lparr> tx_idle := x \<rparr>) = dbsm_send_from_buf sm"
  "dbsm_receive_to_buf (sm\<lparr> tx_idle := x \<rparr>) = dbsm_receive_to_buf sm"
  by (rule ext, rule ext, simp add: dbsm_receive_to_buf_def dbsm_send_from_buf_def)+

lemma rx_stepI:
  assumes "buf0 sm = 2 \<Longrightarrow> words_ok sm \<Longrightarrow> buf0 sm' = 2 \<and> words_ok sm' \<and> frame_kept w w'"
    "dsp_tx_sm (env w') = dsp_tx_sm (env w)"
  shows "rx_step (sm, w) (sm', w')"
  using assms by (simp add: rx_step_def)

lemma rx_step_helper:
  assumes b: "b = 2 \<or> b = 3"
  shows "rx_step (sm, w) (dbsm_process_helper fw_sets_seqno_inspector b (sm, w))"
proof -
  have x: "b XOR 1 = 2 \<or> b XOR 1 = 3" using b by (auto simp: xor_one_eq)
  let ?w0 = "set_buffer b BS_FULL (bp_clear_buf b w)"
  obtain w1 where w1: "fw_sets_seqno_inspector sm b ?w0 = (False, w1)"
    using seqno_inspector_frame(1) [of sm b ?w0] by (metis prod.collapse)
  have k0: "frame_kept w ?w0" using b by (auto intro!: kept_set_buffer kept_clear kept_refl)
  have k1: "frame_kept w w1" using kept_seqno [OF b k0, of sm] w1 by simp
  have t1: "dsp_tx_sm (env w1) = dsp_tx_sm (env w)" using seqno_tx_sm [of sm b ?w0] w1 by simp
  let ?wc = "bp_clear_buf b w"
  have kc: "frame_kept w ?wc" using b by (auto intro!: kept_clear kept_refl)
  show ?thesis
  proof (cases "buffer_state ?wc ! b = BS_FILLING")
    case True
    let ?w2 = "set_buffer (b XOR 1) BS_FILLING (dbsm_receive_to_buf sm (b XOR 1) w1)"
    have k2: "buf0 sm = 2 \<Longrightarrow> words_ok sm \<Longrightarrow> frame_kept w ?w2"
      by (intro kept_set_buffer [OF x] kept_rx_words(1) [OF _ _ x] k1)
    have send: "frame_kept w v \<Longrightarrow> buf0 sm = 2 \<Longrightarrow> words_ok sm
        \<Longrightarrow> frame_kept w (set_buffer b BS_EMPTYING (dbsm_send_from_buf sm b v))" for v
      by (intro kept_set_buffer [OF b] kept_rx_words(2) [OF _ _ b])
    show ?thesis
      using True w1 k1 t1 k2 send [OF k1] send [OF k2]
      by (simp add: dbsm_process_helper_def Let_def rx_step_def)
  next
    case False
    let ?w1 = "set_buffer b BS_EMPTY ?wc" let ?w2 = "set_buffer b BS_FILLING (dbsm_receive_to_buf sm b ?w1)"
    have k1: "frame_kept w ?w1" by (rule kept_set_buffer [OF b kc])
    have k2: "buf0 sm = 2 \<Longrightarrow> words_ok sm \<Longrightarrow> frame_kept w ?w2"
      by (intro kept_set_buffer [OF b] kept_rx_words(1) [OF _ _ b] k1)
    have send: "frame_kept w v \<Longrightarrow> buf0 sm = 2 \<Longrightarrow> words_ok sm
        \<Longrightarrow> frame_kept w (set_buffer (b XOR 1) BS_EMPTYING (dbsm_send_from_buf sm (b XOR 1) v))" for v
      by (intro kept_set_buffer [OF x] kept_rx_words(2) [OF _ _ x])
    show ?thesis
      using False k1 k2 send [OF k1] send [OF k2]
      by (simp add: dbsm_process_helper_def Let_def rx_step_def)
  qed
qed

lemma rx_step_error:
  assumes b: "b = 2 \<or> b = 3"
  shows "rx_step (sm, w) (dbsm_error_helper b (sm, w))"
proof -
  have "frame_kept w (bp_clear_buf b w)" using b by (auto intro!: kept_clear kept_refl)
  then show ?thesis
    using kept_rx_words [OF _ _ b, of sm w "bp_clear_buf b w"]
    by (simp add: dbsm_error_helper_def Let_def rx_step_def)
qed

lemma rx_step_putchar: "rx_step (sm, w) (sm, io_write x w)"
  by (simp add: rx_step_def kept_io_write kept_refl)

lemma rx_step_other: "buf0 (fst s) \<noteq> 2 \<Longrightarrow> rx_step s t"
  by (cases s; cases t) (simp add: rx_step_def)

lemma rx_step_status: "rx_step s (dbsm_process_status fw_sets_seqno_inspector status s)"
proof (cases "buf0 (fst s) = 2 \<and> running (fst s)")
  case False
  then show ?thesis
    by (cases s) (auto simp: dbsm_process_status_def rx_step_refl intro: rx_step_other)
next
  case True
  obtain sm w where s: "s = (sm, w)" by force
  have h: "rx_step s (dbsm_process_helper fw_sets_seqno_inspector 2 s)"
    "rx_step s (dbsm_process_helper fw_sets_seqno_inspector 3 s)"
    "rx_step s (dbsm_error_helper 2 s)" "rx_step s (dbsm_error_helper 3 s)" for s
    using rx_step_helper rx_step_error by (cases s; blast)+
  have x: "(2::nat) XOR 1 = 3" by (simp add: xor_one_eq)
  show ?thesis
    using True s x
    by (auto simp add: dbsm_process_status_def Let_def One_nat_def
        intro!: rx_step_refl rx_step_putchar h [THEN [2] rx_step_trans])
qed

lemma rx_step_overrun: "rx_step s (dbsm_handle_rx_overrun s)"
proof (cases "buf0 (fst s) = 2")
  case True
  have x: "(2::nat) XOR 1 = 3" by (simp add: xor_one_eq)
  show ?thesis
    using True x
    by (cases s) (auto simp: dbsm_handle_rx_overrun_def Let_def rx_step_def kept_io_write kept_refl
        intro!: kept_clear)
qed (rule rx_step_other)

section \<open>The main loop refines the run of the double buffer\<close>

abbreviation tx :: "world \<Rightarrow> dbsm \<times> world" where
  "tx w \<equiv> (dsp_tx_sm (env w), w)"

text \<open>
  A run of the program with the packets it carries from the Ethernet: the start of \<open>main\<close>, then turns
  of the loop in which the hardware reports on the transmit pair what it was asked to do, and between the turns
  whatever the hardware does to the memory of the buffers, to the registers that the program reads and to the pins.  On the
  receive pair, and about interrupts, anything may be reported.
\<close>

inductive main_run :: "world \<Rightarrow> 'p ghost \<Rightarrow> bool" where
  start: "length (buffer_state w) = NBUFFERS \<Longrightarrow> length (mac_addr (env w)) = 6 \<Longrightarrow> main_init w = Some w'
    \<Longrightarrow> main_run w' (no_packets c)"
| turn: "main_run w g \<Longrightarrow> hw_reports status (tx w)
    \<Longrightarrow> g' = snd (status_step eth_inspect status arrive (tx w) g)
    \<Longrightarrow> main_run (main_turn status pending w)
          (if pending AND PIC_UNDERRUN_INT \<noteq> 0
           then underrun_step eth_inspect (tx (buffer_irq_handler status w)) g' else g')"
| arrive: "main_run w g \<Longrightarrow> main_run (on_env (\<lambda>e. e\<lparr> ram := m, timer := t, gpio_io := io, status_reads := reads, bus := bs \<rparr>)
    (w\<lparr> line_regs := lines \<rparr>)) g"

definition tx_run :: "world \<Rightarrow> 'p ghost \<Rightarrow> bool" where
  "tx_run w g = dbsm_run eth_inspect eth_env_ok (tx w) g"

lemma tx_run_env: "tx_run w g \<Longrightarrow> buf0 (dsp_tx_sm (env w)) = 4 \<and> app_ok (env w) \<and> running (dsp_tx_sm (env w))"
  using eth.run_ok [of "tx w" g] by (auto simp: tx_run_def eth_env_ok_def DSP_TX_BUF_0_def dbsm_ok_def)

lemma tx_run_elsewhere:
  assumes "dbsm_run eth_inspect eth_env_ok (sm, w) g" "frame_same w w'" "dsp_tx_sm (env w') = sm"
  shows "tx_run w' g"
proof -
  have e: "buf0 sm = 4" "app_ok (env w)"
    using eth.run_ok [OF assms(1)] by (auto simp: eth_env_ok_def DSP_TX_BUF_0_def)
  note k = assms(2) [unfolded frame_same_def, rule_format, OF e(2)]
  have "b \<in> pair sm \<Longrightarrow> b = 4 \<or> b = 5" for b using e(1) by (auto simp: pair_def xor_one_eq)
  then have "\<forall>c \<in> pair sm. buffer_state w' ! c = buffer_state w ! c
      \<and> hw_mode (ctrl_log w') c = hw_mode (ctrl_log w) c"
    using k by fastforce
  then show ?thesis
    using dbsm_run.elsewhere [OF assms(1), of w'] assms(3) k e
    by (simp add: tx_run_def eth_env_ok_def DSP_TX_BUF_0_def)
qed

lemma tx_run_on_tx:
  assumes "dbsm_run eth_inspect eth_env_ok (f (tx w)) g"
  shows "tx_run (on_tx_sm f w) g"
proof -
  obtain sm w1 where f: "f (tx w) = (sm, w1)" by force
  then show ?thesis
    using tx_run_elsewhere [of sm w1 g "on_env (\<lambda>e. e\<lparr> dsp_tx_sm := sm \<rparr>) w1"] assms
      kept_same [OF kept_on_env [OF kept_refl, of "\<lambda>e. e\<lparr> dsp_tx_sm := sm \<rparr>" w1]]
    by (simp add: on_tx_sm_def)
qed

lemma tx_run_on_rx:
  assumes run: "tx_run w g" and step: "\<And>s. rx_step s (f s)"
  shows "tx_run (on_rx_sm f w) g"
proof -
  obtain sm w1 where f: "f (dsp_rx_sm (env w), w) = (sm, w1)" by force
  have "app_ok (env w)" using tx_run_env [OF run] by simp
  then have "buf0 (dsp_rx_sm (env w)) = 2" "words_ok (dsp_rx_sm (env w))"
    by (simp_all add: app_ok_def DSP_RX_BUF_0_def)
  then have s: "buf0 sm = 2" "words_ok sm" "frame_kept w w1" "dsp_tx_sm (env w1) = dsp_tx_sm (env w)"
    using step [of "(dsp_rx_sm (env w), w)"] f by (simp_all add: rx_step_def)
  then have "frame_kept w (on_env (\<lambda>e. e\<lparr> dsp_rx_sm := sm \<rparr>) w1)"
    by (simp add: kept_defs app_ok_def DSP_RX_BUF_0_def)
  then show ?thesis
    using tx_run_elsewhere [OF run [unfolded tx_run_def]] s f by (simp add: on_rx_sm_def kept_same)
qed

lemma tx_run_io: "tx_run w g \<Longrightarrow> tx_run (io_write x w) g"
  unfolding tx_run_def [of w]
  by (erule tx_run_elsewhere) (simp_all add: kept_same kept_io_write kept_refl)

lemma tx_run_irq:
  assumes "tx_run w g" "hw_reports status (tx w)"
  shows "tx_run (buffer_irq_handler status w) (snd (status_step eth_inspect status arrive (tx w) g))"
  unfolding buffer_irq_handler_def
  using assms by (intro tx_run_on_rx tx_run_on_tx rx_step_status dbsm_run.status) (simp_all add: tx_run_def)

lemma tx_run_start:
  assumes "length (buffer_state w) = NBUFFERS" "length (mac_addr (env w)) = 6" "main_init w = Some w'"
  shows "tx_run w' (no_packets c)"
proof -
  obtain tsm w1 rsm w2 where i: "dbsm_init 4 dsp_tx_recv_args dsp_tx_send_args w = Some (tsm, w1)"
      "dbsm_init 2 dsp_rx_recv_args dsp_rx_send_args w1 = Some (rsm, w2)"
    and w': "w' = on_tx_sm dbsm_start (setup_tx (on_env (\<lambda>e. e\<lparr> dsp_tx_sm := tsm, dsp_rx_sm := rsm \<rparr>) w2))"
    using assms(3) by (auto simp: main_init_def DSP_TX_BUF_0_def DSP_RX_BUF_0_def Option.bind_eq_Some_conv Let_def)
  have l: "length (buffer_state w1) = NBUFFERS" "length (buffer_state w2) = NBUFFERS"
    "env w1 = env w" "env w2 = env w"
    using i assms(1) by (auto simp: dbsm_init_def Let_def set_buffer_def split: if_splits)
  have p: "pool_ok tsm w1" "pool_ok rsm w2"
    using init_pool_ok [OF i(1)] init_pool_ok [OF i(2)] assms(1) l by (simp_all add: NBUFFERS_def)
  have b: "buf0 tsm = 4" "buf0 rsm = 2" using i by (auto simp: dbsm_init_def Let_def split: if_splits)
  let ?w = "setup_tx (on_env (\<lambda>e. e\<lparr> dsp_tx_sm := tsm, dsp_rx_sm := rsm \<rparr>) w2)"
  have w: "buffer_state ?w = buffer_state w2" "env ?w = (env w)\<lparr> dsp_tx_sm := tsm, dsp_rx_sm := rsm \<rparr>"
    using l by (simp_all add: setup_tx_def Let_def bp_clear_buf_def ctrl_write_def)
  have "pool_ok tsm ?w" using p(1) l w(1) by (simp add: pool_ok_def)
  moreover have "eth_env_ok (buf0 tsm) (env ?w)"
    using b p(2) w(2) assms(2) by (simp add: eth_env_ok_def app_ok_def DSP_TX_BUF_0_def DSP_RX_BUF_0_def pool_ok_def)
  ultimately have "dbsm_run eth_inspect eth_env_ok (dbsm_start (tx ?w)) (no_packets c)"
    using dbsm_run.start [of tsm ?w eth_env_ok eth_inspect c] w(2) by simp
  then show ?thesis unfolding w' by (rule tx_run_on_tx)
qed

lemma main_refines: "main_run w g \<Longrightarrow> tx_run w g"
proof (induction rule: main_run.induct)
  case (start w w' c)
  then show ?case by (rule tx_run_start)
next
  case (turn w g status g' arrive pending)
  have irq: "tx_run (buffer_irq_handler status w) g'"
    using tx_run_irq [OF turn.IH turn.hyps(2)] turn.hyps(3) by simp
  show ?case
    unfolding main_turn_def check_overrun_def check_underrun_def
    using irq by (auto intro!: tx_run_io tx_run_on_rx tx_run_on_tx rx_step_overrun dbsm_run.underrun
        simp flip: tx_run_def)
next
  case (arrive w g bs reads io t m lines)
  let ?w = "on_env (\<lambda>e. e\<lparr> ram := m, timer := t, gpio_io := io, status_reads := reads, bus := bs \<rparr>) (w\<lparr> line_regs := lines \<rparr>)"
  note run = arrive.IH [unfolded tx_run_def]
  have "eth_env_ok (buf0 (dsp_tx_sm (env w))) (env ?w)"
    using tx_run_env [OF arrive.IH] by (simp add: eth_env_ok_def app_ok_def DSP_TX_BUF_0_def on_env_def)
  then show ?case
    using dbsm_run.elsewhere [OF run, of ?w] by (simp add: tx_run_def on_env_def)
qed

lemma main_runs: "length (buffer_state w) = NBUFFERS \<Longrightarrow> \<exists>w'. main_init w = Some w'"
  by (simp add: main_init_def dbsm_init_def DSP_TX_BUF_0_def DSP_RX_BUF_0_def Let_def)

section \<open>The property\<close>

text \<open>
  C19: the program as a whole keeps the frames for the transmitter in order: from the start of \<open>main\<close>
  and over any number of turns of its loop, with the second double buffer, the control channel,
  underruns and overruns in between, the frames accepted from the Ethernet are, in order, those
  that have left or were dropped after an underrun, followed by the at most two that are in the
  buffers; the transmit machine is always running and the hardware does what its table says.  It holds as long as the
  ghost \<open>astray\<close> is not set: as long as no frame from the host has hung or ended the firmware and no poke has
  stored to the buffers or to the control register of the buffer pool.  Until then the inspector is the
  firmware's own.
\<close>

theorem main_loop_fifo:
  assumes "main_run w g" "\<not> astray (env w)"
  shows "accepted g = gone g @ in_flight (dsp_tx_sm (env w)) w g
    \<and> length (in_flight (dsp_tx_sm (env w)) w g) \<le> 2
    \<and> running (dsp_tx_sm (env w)) \<and> app_ok (env w)
    \<and> (\<forall>b \<in> {DSP_TX_BUF_0, DSP_TX_BUF_1}. hw_mode (ctrl_log w) b = hw_of_state (buffer_state w ! b))"
proof -
  have run: "tx_run w g" using assms(1) by (rule main_refines)
  note ok = eth.run_ok [OF run [unfolded tx_run_def]]
  have p: "pair (dsp_tx_sm (env w)) = {4, 5}" using tx_run_env [OF run] by (simp add: pair_def xor_one_eq)
  obtain b where b: "b \<in> pair (dsp_tx_sm (env w))" "shape (dsp_tx_sm (env w)) w b"
    "pool_ok (dsp_tx_sm (env w)) w"
    using ok by (auto simp: dbsm_ok_def)
  have "length (in_flight (dsp_tx_sm (env w)) w g) \<le> 2"
    using in_flight_pair [OF b(3,1,2), of g] by simp
  then show ?thesis
    using ok p tx_run_env [OF run] by (auto simp: dbsm_ok_def fifo_def DSP_TX_BUF_0_def DSP_TX_BUF_1_def)
qed

section \<open>A frame of samples on its way\<close>

definition sample_frame :: "u8 list" where
  "sample_frame = replicate 12 1 @ be16 0xBEEF @ replicate 6 0 @ be32 (u2p_word0 7 0) @ be32 0"

definition before_main :: world where
  "before_main = on_env (\<lambda>e. e\<lparr> ram := put_bytes 8192 sample_frame (ram e) \<rparr>) (demo [])"

lemma main_init_state:
  assumes "main_init w = Some w'" "length (buffer_state w) = NBUFFERS"
  shows "buf0 (dsp_tx_sm (env w')) = 4" "buffer_state w' ! 4 = BS_FILLING" "mem w' = mem w" "astray (env w') = astray (env w)"
  using assms
  by (auto simp: main_init_def DSP_TX_BUF_0_def DSP_RX_BUF_0_def dbsm_init_def dbsm_start_def Let_def
      Option.bind_eq_Some_conv on_tx_sm_def setup_tx_def fw_ops NBUFFERS_def on_env_def)

lemma sample_frame_passes:
  assumes "mem w = mem before_main" "\<not> astray (env w)"
  shows "eth_inspect sm 4 w = (False, w)"
proof -
  have "get16 (mem w) 8204 = 0xBEEF" "get32 (mem w) 8212 = 7"
    by (simp_all add: assms(1) before_main_def sample_frame_def put_bytes_def nth_append get16_def get32_def
        be16_def be32_def u2p_word0_def nth_Cons')
  then show ?thesis
    using assms(2) by (simp add: eth_inspect_def eth_pkt_inspector_def buffer_ram_def Let_def CONTROL_CHAN_def)
qed

lemma frame_taken:
  assumes "buf0 sm = 4" "running sm" "buffer_state w ! 4 = BS_FILLING" "mem w = mem before_main" "\<not> astray (env w)"
  shows "env (snd (dbsm_process_status eth_inspect (BPS_DONE 4) (sm, w))) = env w"
proof -
  have x: "(4::nat) XOR 1 = 5" by (simp add: xor_one_eq)
  have m: "BPS_DONE 4 AND BPS_DONE 4 \<noteq> 0" "BPS_DONE 4 AND BPS_DONE 5 = 0" "BPS_DONE 4 AND (BPS_ERROR 4 OR BPS_ERROR 5) = 0"
    by code_simp+
  have "mem (set_buffer 4 BS_FULL (bp_clear_buf 4 w)) = mem before_main"
    "\<not> astray (env (set_buffer 4 BS_FULL (bp_clear_buf 4 w)))" using assms(4,5) by simp_all
  note e = sample_frame_passes [OF this, of sm]
  have f: "buffer_state (bp_clear_buf 4 w) ! 4 = BS_FILLING" using assms(3) by (simp add: bp_clear_buf_def ctrl_write_def)
  show ?thesis using assms(1,2) x m e f
    by (simp add: dbsm_process_status_def dbsm_process_helper_def Let_def)
qed

theorem main_loop_fifo_witness:
  "\<exists>w (g :: nat ghost). main_run w g \<and> accepted g = [7] \<and> in_flight (dsp_tx_sm (env w)) w g = [7]"
proof -
  have l: "length (buffer_state before_main) = NBUFFERS" "length (mac_addr (env before_main)) = 6"
    using demo_state(3,4) [of "[]"] by (simp_all add: before_main_def app_ok_def)
  obtain w where i: "main_init before_main = Some w" using main_runs [OF l(1)] by blast
  note st = main_init_state [OF i l(1)]
  have "\<not> astray (env before_main)" using demo_state(5) [of "[]"] by (simp add: before_main_def)
  note st = st(1-3) this [folded st(4)]
  have 1: "main_run w (no_packets (\<lambda>b. 0 :: nat))" using l i by (intro main_run.start)
  have p: "pair (dsp_tx_sm (env w)) = {4, 5}" "(4::nat) XOR 1 = 5" using st(1) by (simp_all add: pair_def xor_one_eq)
  have m: "BPS_DONE 4 AND BPS_DONE 4 \<noteq> 0" "BPS_DONE 4 AND BPS_DONE 5 = 0"
    "BPS_DONE 4 AND BPS_ERROR 4 = 0" "BPS_DONE 4 AND BPS_ERROR 5 = 0" by code_simp+
  have "\<forall>b \<in> {DSP_TX_BUF_0, DSP_TX_BUF_1}. hw_mode (ctrl_log w) b = hw_of_state (buffer_state w ! b)"
    using tx_run_start [OF l i, of "\<lambda>b. 0 :: nat"] eth.run_ok p
    by (fastforce simp: tx_run_def dbsm_ok_def DSP_TX_BUF_0_def DSP_TX_BUF_1_def)
  then have "hw_mode (ctrl_log w) 4 = Hw_receive" using st(2) by (simp add: DSP_TX_BUF_0_def)
  then have "hw_reports (BPS_DONE 4) (tx w)" using p m by (simp add: hw_reports_def)
  note 2 = main_run.turn [OF 1 this refl, where arrive = "\<lambda>b. 7" and pending = 0]
  define g' where "g' = snd (status_step eth_inspect (BPS_DONE 4) (\<lambda>b. 7) (tx w) (no_packets (\<lambda>b. 0 :: nat)))"
  have "mem (set_buffer 4 BS_FULL (bp_clear_buf 4 w)) = mem before_main"
    "\<not> astray (env (set_buffer 4 BS_FULL (bp_clear_buf 4 w)))" using st(3,4) by simp_all
  note e = sample_frame_passes [OF this]
  have g: "accepted g' = [7]" "gone g' = []"
    using st(1,2) m p(2) e
    by (simp_all add: g'_def status_step_def status_errors_def status_done_def transfer_done_def no_packets_def
        Let_def bit.conj_disj_distrib)
  have 3: "main_run (main_turn (BPS_DONE 4) 0 w) g'" using 2 by (simp add: g'_def)
  have run: "running (dsp_tx_sm (env w))" using tx_run_env [OF main_refines [OF 1]] by simp
  let ?w1 = "on_tx_sm (dbsm_process_status eth_inspect (BPS_DONE 4)) w"
  have a1: "astray (env ?w1) = astray (env w)"
    using frame_taken [OF st(1) run st(2,3,4)] by (simp add: on_tx_sm_def split_beta)
  have "tx_run ?w1 g'"
    using tx_run_on_tx [OF dbsm_run.status] main_refines [OF 1] \<open>hw_reports (BPS_DONE 4) (tx w)\<close>
    by (simp add: g'_def tx_run_def)
  then have "app_ok (env ?w1)" using tx_run_env by blast
  then have "astray (env (on_rx_sm (dbsm_process_status fw_sets_seqno_inspector (BPS_DONE 4)) ?w1)) = astray (env ?w1)"
    using rx_step_status [of "(dsp_rx_sm (env ?w1), ?w1)" "BPS_DONE 4"]
    by (auto simp: on_rx_sm_def rx_step_def app_ok_def DSP_RX_BUF_0_def frame_kept_def split: prod.splits)
  then have "\<not> astray (env (main_turn (BPS_DONE 4) 0 w))"
    using a1 st(4) by (simp add: main_turn_def check_overrun_def check_underrun_def buffer_irq_handler_def)
  then show ?thesis
    using main_loop_fifo [OF 3] 3 g by (intro exI [of _ "main_turn (BPS_DONE 4) 0 w"] exI [of _ g']) simp
qed

end
