(* ===== verification/Pmt.thy ===== *)
theory Pmt
  imports GR_Prelude
begin

text \<open>
  Polymorphic types (\<open>gruel/src/lib/pmt/pmt.cc\<close>): the dynamically typed objects that GNU Radio
  passes in messages and tags.  A \<open>pmt_t\<close> is a pointer to an object, so an object is an address in a
  store of cells here; equality of pointers, sharing and the updates of pairs and vectors keep
  their meaning.  Cells are never freed: reference counting frees only what nothing points to.
  A function that raises an exception returns it as a value, and one that may run for ever, on
  circular lists, is a partial function.  A \<open>double\<close> is its 64-bit pattern.
\<close>

section \<open>Objects\<close>

type_synonym addr = nat
type_synonym name = "u8 list"

datatype cell =
    C_bool | C_null
  | C_symbol name "addr option"      \<comment> \<open>its name, and the next symbol in the hash table\<close>
  | C_integer int
  | C_uint64 u64
  | C_real u64
  | C_complex u64 u64
  | C_pair addr addr
  | C_vector "addr list"
  | C_tuple "addr list"
  | C_uniform nat "u8 list"          \<comment> \<open>number of items, and their bytes\<close>
  | C_any nat                        \<comment> \<open>a boxed C++ object, by an identifier\<close>

record pmts =
  cells :: "cell list"
  symtab :: "addr option list"

datatype pmt_error =
    Wrong_type addr | Out_of_range nat | Not_implemented | Malformed

type_synonym 'a res = "pmt_error + 'a"

definition PMT_T :: addr where "PMT_T = 0"
definition PMT_F :: addr where "PMT_F = 1"
definition PMT_NIL :: addr where "PMT_NIL = 2"
definition PMT_EOF :: addr where "PMT_EOF = 3"

lemmas pmt_constants = PMT_T_def PMT_F_def PMT_NIL_def PMT_EOF_def

lemma pmt_constants_distinct [simp]:
  "PMT_T \<noteq> PMT_F" "PMT_F \<noteq> PMT_T" "PMT_T \<noteq> PMT_NIL" "PMT_NIL \<noteq> PMT_T" "PMT_F \<noteq> PMT_NIL" "PMT_NIL \<noteq> PMT_F"
  by (simp_all add: pmt_constants)

definition SYMBOL_HASH_TABLE_SIZE :: nat where "SYMBOL_HASH_TABLE_SIZE = 701"

definition pmt_start :: pmts where
  "pmt_start = \<lparr> cells = [C_bool, C_bool, C_null, C_pair PMT_NIL PMT_NIL],
                 symtab = replicate SYMBOL_HASH_TABLE_SIZE None \<rparr>"

definition new :: "cell \<Rightarrow> pmts \<Rightarrow> addr \<times> pmts" where
  "new c s = (length (cells s), s\<lparr> cells := cells s @ [c] \<rparr>)"

section \<open>Tests\<close>

definition is_bool :: "pmts \<Rightarrow> addr \<Rightarrow> bool" where
  "is_bool s x = (case cells s ! x of C_bool \<Rightarrow> True | _ \<Rightarrow> False)"
definition is_symbol :: "pmts \<Rightarrow> addr \<Rightarrow> bool" where
  "is_symbol s x = (case cells s ! x of C_symbol n nxt \<Rightarrow> True | _ \<Rightarrow> False)"
definition is_number :: "pmts \<Rightarrow> addr \<Rightarrow> bool" where
  "is_number s x = (case cells s ! x of C_integer i \<Rightarrow> True | C_uint64 i \<Rightarrow> True
     | C_real r \<Rightarrow> True | C_complex r i \<Rightarrow> True | _ \<Rightarrow> False)"
definition is_integer :: "pmts \<Rightarrow> addr \<Rightarrow> bool" where
  "is_integer s x = (case cells s ! x of C_integer i \<Rightarrow> True | _ \<Rightarrow> False)"
definition is_uint64 :: "pmts \<Rightarrow> addr \<Rightarrow> bool" where
  "is_uint64 s x = (case cells s ! x of C_uint64 i \<Rightarrow> True | _ \<Rightarrow> False)"
definition is_real :: "pmts \<Rightarrow> addr \<Rightarrow> bool" where
  "is_real s x = (case cells s ! x of C_real r \<Rightarrow> True | _ \<Rightarrow> False)"
definition is_complex :: "pmts \<Rightarrow> addr \<Rightarrow> bool" where
  "is_complex s x = (case cells s ! x of C_complex r i \<Rightarrow> True | _ \<Rightarrow> False)"
definition is_pair :: "pmts \<Rightarrow> addr \<Rightarrow> bool" where
  "is_pair s x = (case cells s ! x of C_pair a d \<Rightarrow> True | _ \<Rightarrow> False)"
definition is_null :: "addr \<Rightarrow> bool" where
  "is_null x = (x = PMT_NIL)"
definition is_dict :: "pmts \<Rightarrow> addr \<Rightarrow> bool" where
  "is_dict s x = (is_null x \<or> is_pair s x)"
definition is_true :: "addr \<Rightarrow> bool" where
  "is_true x = (x \<noteq> PMT_F)"
definition is_false :: "addr \<Rightarrow> bool" where
  "is_false x = (x = PMT_F)"
definition is_eof_object :: "addr \<Rightarrow> bool" where
  "is_eof_object x = (x = PMT_EOF)"

section \<open>Booleans, symbols, numbers\<close>

definition pmt_from_bool :: "bool \<Rightarrow> addr" where
  "pmt_from_bool v = (if v then PMT_T else PMT_F)"

definition pmt_to_bool :: "addr \<Rightarrow> bool res" where
  "pmt_to_bool x = (if x = PMT_T then Inr True else if x = PMT_F then Inr False else Inl (Wrong_type x))"

definition hash_step :: "u32 \<Rightarrow> u8 \<Rightarrow> u32" where
  "hash_step h c =
     (let h = push_bit 4 h + ucast c; g = h AND 0xf0000000
      in if g \<noteq> 0 then (h XOR drop_bit 24 g) XOR g else h)"

definition hash_string :: "name \<Rightarrow> u32" where
  "hash_string n = foldl hash_step 0 n"

text \<open>The search for a symbol along its hash chain.\<close>

partial_function (option) find_symbol :: "pmts \<Rightarrow> name \<Rightarrow> addr option \<Rightarrow> addr option option" where
  "find_symbol s n p =
     (case p of
        None \<Rightarrow> Some None
      | Some a \<Rightarrow> (case cells s ! a of
            C_symbol m nxt \<Rightarrow> if n = m then Some (Some a) else find_symbol s n nxt
          | _ \<Rightarrow> Some None))"

definition pmt_string_to_symbol :: "name \<Rightarrow> pmts \<Rightarrow> (addr \<times> pmts) option" where
  "pmt_string_to_symbol n s =
     (let k = unat (hash_string n) mod SYMBOL_HASH_TABLE_SIZE
      in case find_symbol s n (symtab s ! k) of
           None \<Rightarrow> None
         | Some (Some a) \<Rightarrow> Some (a, s)
         | Some None \<Rightarrow>
             let (a, s') = new (C_symbol n (symtab s ! k)) s
             in Some (a, s'\<lparr> symtab := (symtab s')[k := Some a] \<rparr>))"

definition pmt_symbol_to_string :: "pmts \<Rightarrow> addr \<Rightarrow> name res" where
  "pmt_symbol_to_string s x = (case cells s ! x of C_symbol n nxt \<Rightarrow> Inr n | _ \<Rightarrow> Inl (Wrong_type x))"

definition pmt_from_long :: "int \<Rightarrow> pmts \<Rightarrow> addr \<times> pmts" where
  "pmt_from_long x = new (C_integer x)"

definition pmt_to_long :: "pmts \<Rightarrow> addr \<Rightarrow> int res" where
  "pmt_to_long s x = (case cells s ! x of C_integer i \<Rightarrow> Inr i | _ \<Rightarrow> Inl (Wrong_type x))"

definition pmt_from_uint64 :: "u64 \<Rightarrow> pmts \<Rightarrow> addr \<times> pmts" where
  "pmt_from_uint64 x = new (C_uint64 x)"

definition pmt_to_uint64 :: "pmts \<Rightarrow> addr \<Rightarrow> u64 res" where
  "pmt_to_uint64 s x =
     (case cells s ! x of
        C_uint64 i \<Rightarrow> Inr i
      | C_integer i \<Rightarrow> if i \<ge> 0 then Inr (word_of_int i) else Inl (Wrong_type x)
      | _ \<Rightarrow> Inl (Wrong_type x))"

definition pmt_from_double :: "u64 \<Rightarrow> pmts \<Rightarrow> addr \<times> pmts" where
  "pmt_from_double x = new (C_real x)"

definition pmt_make_rectangular :: "u64 \<Rightarrow> u64 \<Rightarrow> pmts \<Rightarrow> addr \<times> pmts" where
  "pmt_make_rectangular re im = new (C_complex re im)"

section \<open>Pairs, vectors, tuples\<close>

definition pmt_cons :: "addr \<Rightarrow> addr \<Rightarrow> pmts \<Rightarrow> addr \<times> pmts" where
  "pmt_cons x y = new (C_pair x y)"

definition pmt_car :: "pmts \<Rightarrow> addr \<Rightarrow> addr res" where
  "pmt_car s x = (case cells s ! x of C_pair a d \<Rightarrow> Inr a | _ \<Rightarrow> Inl (Wrong_type x))"

definition pmt_cdr :: "pmts \<Rightarrow> addr \<Rightarrow> addr res" where
  "pmt_cdr s x = (case cells s ! x of C_pair a d \<Rightarrow> Inr d | _ \<Rightarrow> Inl (Wrong_type x))"

definition set_cell :: "addr \<Rightarrow> cell \<Rightarrow> pmts \<Rightarrow> pmts" where
  "set_cell x c s = s\<lparr> cells := (cells s)[x := c] \<rparr>"

definition pmt_set_car :: "addr \<Rightarrow> addr \<Rightarrow> pmts \<Rightarrow> pmts res" where
  "pmt_set_car x v s = (case cells s ! x of C_pair a d \<Rightarrow> Inr (set_cell x (C_pair v d) s) | _ \<Rightarrow> Inl (Wrong_type x))"

definition pmt_set_cdr :: "addr \<Rightarrow> addr \<Rightarrow> pmts \<Rightarrow> pmts res" where
  "pmt_set_cdr x v s = (case cells s ! x of C_pair a d \<Rightarrow> Inr (set_cell x (C_pair a v) s) | _ \<Rightarrow> Inl (Wrong_type x))"

definition pmt_make_vector :: "nat \<Rightarrow> addr \<Rightarrow> pmts \<Rightarrow> addr \<times> pmts" where
  "pmt_make_vector k fill = new (C_vector (replicate k fill))"

definition pmt_vector_ref :: "pmts \<Rightarrow> addr \<Rightarrow> nat \<Rightarrow> addr res" where
  "pmt_vector_ref s x k = (case cells s ! x of
     C_vector v \<Rightarrow> if k \<ge> length v then Inl (Out_of_range k) else Inr (v ! k) | _ \<Rightarrow> Inl (Wrong_type x))"

definition pmt_vector_set :: "addr \<Rightarrow> nat \<Rightarrow> addr \<Rightarrow> pmts \<Rightarrow> pmts res" where
  "pmt_vector_set x k obj s = (case cells s ! x of
     C_vector v \<Rightarrow> if k \<ge> length v then Inl (Out_of_range k) else Inr (set_cell x (C_vector (v[k := obj])) s)
   | _ \<Rightarrow> Inl (Wrong_type x))"

definition pmt_vector_fill :: "addr \<Rightarrow> addr \<Rightarrow> pmts \<Rightarrow> pmts res" where
  "pmt_vector_fill x obj s = (case cells s ! x of
     C_vector v \<Rightarrow> Inr (set_cell x (C_vector (replicate (length v) obj)) s) | _ \<Rightarrow> Inl (Wrong_type x))"

text \<open>The eleven overloads of \<open>pmt_make_tuple\<close>, for up to ten elements, as one function of the list.\<close>

definition pmt_make_tuple :: "addr list \<Rightarrow> pmts \<Rightarrow> addr \<times> pmts" where
  "pmt_make_tuple es = new (C_tuple es)"

definition pmt_tuple_ref :: "pmts \<Rightarrow> addr \<Rightarrow> nat \<Rightarrow> addr res" where
  "pmt_tuple_ref s x k = (case cells s ! x of
     C_tuple v \<Rightarrow> if k \<ge> length v then Inl (Out_of_range k) else Inr (v ! k) | _ \<Rightarrow> Inl (Wrong_type x))"

section \<open>Equality\<close>

text \<open>\<open>==\<close> on doubles, by their bits: no NaN equals anything, and the two zeros are equal.\<close>

definition is_nan :: "u64 \<Rightarrow> bool" where
  "is_nan d \<longleftrightarrow> drop_bit 52 d AND 0x7ff = 0x7ff \<and> d AND 0xfffffffffffff \<noteq> 0"

definition real_eq :: "u64 \<Rightarrow> u64 \<Rightarrow> bool" where
  "real_eq x y \<longleftrightarrow> \<not> is_nan x \<and> \<not> is_nan y \<and> (x = y \<or> push_bit 1 x = 0 \<and> push_bit 1 y = 0)"

definition pmt_eq :: "addr \<Rightarrow> addr \<Rightarrow> bool" where
  "pmt_eq x y = (x = y)"

definition eqv_cells :: "cell \<Rightarrow> cell \<Rightarrow> bool" where
  "eqv_cells c d = (case (c, d) of
     (C_integer i, C_integer j) \<Rightarrow> i = j
   | (C_uint64 i, C_uint64 j) \<Rightarrow> i = j
   | (C_real i, C_real j) \<Rightarrow> real_eq i j
   | (C_complex r i, C_complex r' i') \<Rightarrow> real_eq r r' \<and> real_eq i i'
   | _ \<Rightarrow> False)"

definition pmt_eqv :: "pmts \<Rightarrow> addr \<Rightarrow> addr \<Rightarrow> bool" where
  "pmt_eqv s x y = (x = y \<or> eqv_cells (cells s ! x) (cells s ! y))"

text \<open>The loop over two vectors of the same length, up to the first difference.\<close>

fun all_equal :: "(addr \<Rightarrow> addr \<Rightarrow> bool option) \<Rightarrow> addr list \<Rightarrow> addr list \<Rightarrow> bool option" where
  "all_equal eq (x # xs) (y # ys) =
     (case eq x y of None \<Rightarrow> None | Some e \<Rightarrow> if e then all_equal eq xs ys else Some False)"
| "all_equal eq xs ys = Some True"

text \<open>
  Recursion to the given depth; \<open>None\<close> when a structure is deeper, as circular ones are.
  Two uniform vectors are compared with \<open>memcmp\<close>, but both results lead to \<open>return true\<close>.
\<close>

fun pmt_equal :: "nat \<Rightarrow> pmts \<Rightarrow> addr \<Rightarrow> addr \<Rightarrow> bool option" where
  "pmt_equal 0 s x y = None"
| "pmt_equal (Suc n) s x y =
     (if pmt_eqv s x y then Some True
      else case (cells s ! x, cells s ! y) of
             (C_pair a d, C_pair a' d') \<Rightarrow>
               (case pmt_equal n s a a' of
                  None \<Rightarrow> None | Some e \<Rightarrow> if e then pmt_equal n s d d' else Some False)
           | (C_vector v, C_vector v') \<Rightarrow>
               if length v \<noteq> length v' then Some False else all_equal (pmt_equal n s) v v'
           | (C_tuple v, C_tuple v') \<Rightarrow>
               if length v \<noteq> length v' then Some False else all_equal (pmt_equal n s) v v'
           | (C_uniform k bs, C_uniform k' bs') \<Rightarrow>
               if k \<noteq> k' then Some False else if bs = take (length bs) bs' then Some True else Some True
           | _ \<Rightarrow> Some False)"

section \<open>The store grows\<close>

text \<open>The constants are in place.\<close>

definition heap_ok :: "pmts \<Rightarrow> bool" where
  "heap_ok s \<longleftrightarrow> 4 \<le> length (cells s) \<and> cells s ! PMT_T = C_bool \<and> cells s ! PMT_F = C_bool
     \<and> cells s ! PMT_NIL = C_null \<and> is_pair s PMT_EOF"

text \<open>Nothing that was there has changed.\<close>

definition extends :: "pmts \<Rightarrow> pmts \<Rightarrow> bool" where
  "extends s s' \<longleftrightarrow> (\<exists>cs. cells s' = cells s @ cs)"

lemma extends_refl [simp]: "extends s s"
  by (simp add: extends_def)

lemma extends_trans [trans]: "extends s t \<Longrightarrow> extends t u \<Longrightarrow> extends s u"
  by (auto simp: extends_def)

lemma extends_cell: "extends s s' \<Longrightarrow> a < length (cells s) \<Longrightarrow> cells s' ! a = cells s ! a"
  by (auto simp: extends_def nth_append)

lemma extends_length: "extends s s' \<Longrightarrow> length (cells s) \<le> length (cells s')"
  by (auto simp: extends_def)

lemma extends_less: "extends s s' \<Longrightarrow> a < length (cells s) \<Longrightarrow> a < length (cells s')"
  using extends_length by fastforce

lemma new_extends: "new c s = (a, s') \<Longrightarrow> extends s s'"
  by (auto simp: new_def extends_def)

lemma new_cell:
  "new c s = (a, s') \<Longrightarrow> cells s' ! a = c \<and> a < length (cells s') \<and> a = length (cells s) \<and> symtab s' = symtab s"
  by (auto simp: new_def)

lemma heap_ok_extends: "heap_ok s \<Longrightarrow> extends s s' \<Longrightarrow> heap_ok s'"
  by (auto simp: heap_ok_def is_pair_def pmt_constants extends_def nth_append)

lemma heap_okD:
  assumes "heap_ok s"
  shows "PMT_NIL < length (cells s)" "PMT_F < length (cells s)" "PMT_T < length (cells s)"
    "cells s ! PMT_NIL = C_null" "cells s ! PMT_F = C_bool" "cells s ! PMT_T = C_bool"
    "\<not> is_pair s PMT_NIL" "\<not> is_pair s PMT_F"
  using assms by (auto simp: heap_ok_def is_pair_def pmt_constants)

lemma pmt_start_ok: "heap_ok pmt_start"
  by (simp add: heap_ok_def pmt_start_def pmt_constants is_pair_def)

lemma is_pair_cell: "is_pair s x \<longleftrightarrow> (\<exists>a d. cells s ! x = C_pair a d)"
  by (auto simp: is_pair_def split: cell.splits)

end
