(* ===== verification/Pmt_Lists.thy ===== *)
theory Pmt_Lists
  imports Pmt
begin

text \<open>
  Lists and dictionaries of polymorphic types (\<open>gruel/src/lib/pmt/pmt.cc\<close>, the second half): the walks
  along pairs, and the dictionaries, which are lists of pairs of a key and a value.  A walk along
  a circular list has no end, so the loops are partial functions; the outer option is for that,
  the sum for an exception.
\<close>

section \<open>Walks along lists\<close>

partial_function (option) count_pairs :: "pmts \<Rightarrow> addr \<Rightarrow> nat \<Rightarrow> (addr \<times> nat) option" where
  "count_pairs s it n =
     (case cells s ! it of C_pair a d \<Rightarrow> count_pairs s d (n + 1) | _ \<Rightarrow> Some (it, n))"

definition pmt_length :: "pmts \<Rightarrow> addr \<Rightarrow> nat res option" where
  "pmt_length s x =
     (case cells s ! x of
        C_vector v \<Rightarrow> Some (Inr (length v))
      | C_uniform n bs \<Rightarrow> Some (Inr n)
      | C_tuple v \<Rightarrow> Some (Inr (length v))
      | C_null \<Rightarrow> Some (Inr 0)
      | C_pair a d \<Rightarrow>
          (case count_pairs s d 1 of
             None \<Rightarrow> None
           | Some (it, n) \<Rightarrow> Some (if is_null it then Inr n else Inl (Wrong_type x)))
      | _ \<Rightarrow> Some (Inl (Wrong_type x)))"

text \<open>The three searches of an alist differ in the comparison, which may not end for \<open>pmt_assoc\<close>.\<close>

partial_function (option) ass_loop ::
  "(addr \<Rightarrow> addr \<Rightarrow> bool option) \<Rightarrow> pmts \<Rightarrow> addr \<Rightarrow> addr \<Rightarrow> addr option" where
  "ass_loop same s obj alist =
     (case cells s ! alist of
        C_pair p rest \<Rightarrow>
          (case cells s ! p of
             C_pair k v \<Rightarrow>
               (case same obj k of
                  None \<Rightarrow> None
                | Some e \<Rightarrow> if e then Some p else ass_loop same s obj rest)
           | _ \<Rightarrow> Some PMT_F)
      | _ \<Rightarrow> Some PMT_F)"

definition pmt_assq :: "pmts \<Rightarrow> addr \<Rightarrow> addr \<Rightarrow> addr option" where
  "pmt_assq s = ass_loop (\<lambda>x y. Some (pmt_eq x y)) s"

definition pmt_assv :: "pmts \<Rightarrow> addr \<Rightarrow> addr \<Rightarrow> addr option" where
  "pmt_assv s = ass_loop (\<lambda>x y. Some (pmt_eqv s x y)) s"

definition pmt_assoc :: "nat \<Rightarrow> pmts \<Rightarrow> addr \<Rightarrow> addr \<Rightarrow> addr option" where
  "pmt_assoc n s = ass_loop (pmt_equal n s) s"

partial_function (option) mem_loop ::
  "(addr \<Rightarrow> addr \<Rightarrow> bool option) \<Rightarrow> pmts \<Rightarrow> addr \<Rightarrow> addr \<Rightarrow> addr option" where
  "mem_loop same s obj l =
     (case cells s ! l of
        C_pair a rest \<Rightarrow>
          (case same obj a of None \<Rightarrow> None | Some e \<Rightarrow> if e then Some l else mem_loop same s obj rest)
      | _ \<Rightarrow> Some PMT_F)"

definition pmt_memq :: "pmts \<Rightarrow> addr \<Rightarrow> addr \<Rightarrow> addr option" where
  "pmt_memq s = mem_loop (\<lambda>x y. Some (pmt_eq x y)) s"

definition pmt_memv :: "pmts \<Rightarrow> addr \<Rightarrow> addr \<Rightarrow> addr option" where
  "pmt_memv s = mem_loop (\<lambda>x y. Some (pmt_eqv s x y)) s"

definition pmt_member :: "nat \<Rightarrow> pmts \<Rightarrow> addr \<Rightarrow> addr \<Rightarrow> addr option" where
  "pmt_member n s = mem_loop (pmt_equal n s) s"

partial_function (option) pmt_subsetp :: "pmts \<Rightarrow> addr \<Rightarrow> addr \<Rightarrow> bool option" where
  "pmt_subsetp s l1 l2 =
     (case cells s ! l1 of
        C_pair p rest \<Rightarrow>
          (case pmt_memv s p l2 of
             None \<Rightarrow> None
           | Some m \<Rightarrow> if is_false m then Some False else pmt_subsetp s rest l2)
      | _ \<Rightarrow> Some True)"

partial_function (option) reverse_loop :: "addr \<Rightarrow> addr \<Rightarrow> pmts \<Rightarrow> (addr \<times> addr \<times> pmts) option" where
  "reverse_loop l r s =
     (case cells s ! l of
        C_pair a d \<Rightarrow> (case pmt_cons a r s of (r', s') \<Rightarrow> reverse_loop d r' s')
      | _ \<Rightarrow> Some (l, r, s))"

definition pmt_reverse :: "addr \<Rightarrow> pmts \<Rightarrow> (addr \<times> pmts) res option" where
  "pmt_reverse listx s =
     (case reverse_loop listx PMT_NIL s of
        None \<Rightarrow> None
      | Some (l, r, s') \<Rightarrow> Some (if is_null l then Inr (r, s') else Inl (Wrong_type listx)))"

definition pmt_reverse_x :: "addr \<Rightarrow> pmts \<Rightarrow> (addr \<times> pmts) res option" where
  "pmt_reverse_x = pmt_reverse"

partial_function (option) map_loop ::
  "(pmts \<Rightarrow> addr \<Rightarrow> addr res) \<Rightarrow> addr \<Rightarrow> addr \<Rightarrow> pmts \<Rightarrow> (addr \<times> pmts) res option" where
  "map_loop proc l r s =
     (case cells s ! l of
        C_pair a d \<Rightarrow>
          (case proc s a of
             Inl e \<Rightarrow> Some (Inl e)
           | Inr b \<Rightarrow> (case pmt_cons b r s of (r', s') \<Rightarrow> map_loop proc d r' s'))
      | _ \<Rightarrow> Some (Inr (r, s)))"

definition pmt_map :: "(pmts \<Rightarrow> addr \<Rightarrow> addr res) \<Rightarrow> addr \<Rightarrow> pmts \<Rightarrow> (addr \<times> pmts) res option" where
  "pmt_map proc l s =
     (case map_loop proc l PMT_NIL s of
        None \<Rightarrow> None
      | Some (Inl e) \<Rightarrow> Some (Inl e)
      | Some (Inr (r, s')) \<Rightarrow> pmt_reverse_x r s')"

fun nthcdr_loop :: "pmts \<Rightarrow> nat \<Rightarrow> addr \<Rightarrow> addr res" where
  "nthcdr_loop s 0 l = Inr l"
| "nthcdr_loop s (Suc n) l =
     (case cells s ! l of
        C_pair a d \<Rightarrow> nthcdr_loop s n d
      | _ \<Rightarrow> if is_null l then Inr PMT_NIL else Inl (Wrong_type l))"

definition pmt_nthcdr :: "pmts \<Rightarrow> nat \<Rightarrow> addr \<Rightarrow> addr res" where
  "pmt_nthcdr s n l = (if \<not> (is_pair s l \<or> is_null l) then Inl (Wrong_type l) else nthcdr_loop s n l)"

definition pmt_nth :: "pmts \<Rightarrow> nat \<Rightarrow> addr \<Rightarrow> addr res" where
  "pmt_nth s n l =
     (case pmt_nthcdr s n l of
        Inl e \<Rightarrow> Inl e
      | Inr t \<Rightarrow> if is_pair s t then pmt_car s t else Inr PMT_NIL)"

text \<open>\<open>pmt_list1\<close> to \<open>pmt_list6\<close> as one function of the elements.\<close>

fun pmt_list :: "addr list \<Rightarrow> pmts \<Rightarrow> addr \<times> pmts" where
  "pmt_list [] s = (PMT_NIL, s)"
| "pmt_list (x # xs) s = (case pmt_list xs s of (l, s') \<Rightarrow> pmt_cons x l s')"

definition pmt_list_add :: "addr \<Rightarrow> addr \<Rightarrow> pmts \<Rightarrow> (addr \<times> pmts) res option" where
  "pmt_list_add l item s =
     (case pmt_reverse l s of
        None \<Rightarrow> None
      | Some (Inl e) \<Rightarrow> Some (Inl e)
      | Some (Inr (r, s')) \<Rightarrow> (case pmt_cons item r s' of (c, s'') \<Rightarrow> pmt_reverse c s''))"

definition bind_res :: "'a res \<Rightarrow> ('a \<Rightarrow> 'b res) \<Rightarrow> 'b res" where
  "bind_res x f = (case x of Inl e \<Rightarrow> Inl e | Inr y \<Rightarrow> f y)"

definition pmt_caar :: "pmts \<Rightarrow> addr \<Rightarrow> addr res" where
  "pmt_caar s x = bind_res (pmt_car s x) (pmt_car s)"
definition pmt_cadr :: "pmts \<Rightarrow> addr \<Rightarrow> addr res" where
  "pmt_cadr s x = bind_res (pmt_cdr s x) (pmt_car s)"
definition pmt_cdar :: "pmts \<Rightarrow> addr \<Rightarrow> addr res" where
  "pmt_cdar s x = bind_res (pmt_car s x) (pmt_cdr s)"
definition pmt_cddr :: "pmts \<Rightarrow> addr \<Rightarrow> addr res" where
  "pmt_cddr s x = bind_res (pmt_cdr s x) (pmt_cdr s)"
definition pmt_caddr :: "pmts \<Rightarrow> addr \<Rightarrow> addr res" where
  "pmt_caddr s x = bind_res (pmt_cddr s x) (pmt_car s)"
definition pmt_cadddr :: "pmts \<Rightarrow> addr \<Rightarrow> addr res" where
  "pmt_cadddr s x = bind_res (bind_res (pmt_cddr s x) (pmt_cdr s)) (pmt_car s)"

fun cars :: "pmts \<Rightarrow> nat \<Rightarrow> addr \<Rightarrow> addr list res" where
  "cars s 0 y = Inr []"
| "cars s (Suc n) y = bind_res (pmt_car s y) (\<lambda>e. bind_res (pmt_cdr s y) (\<lambda>z. map_sum id ((#) e) (cars s n z)))"

definition pmt_to_tuple :: "addr \<Rightarrow> pmts \<Rightarrow> (addr \<times> pmts) res option" where
  "pmt_to_tuple x s =
     (case cells s ! x of
        C_tuple v \<Rightarrow> Some (Inr (x, s))
      | _ \<Rightarrow>
        (case pmt_length s x of
           None \<Rightarrow> None
         | Some (Inl e) \<Rightarrow> Some (Inl e)
         | Some (Inr len) \<Rightarrow> Some
             (case cells s ! x of
                C_vector v \<Rightarrow> Inr (new (C_tuple v) s)
              | C_pair a d \<Rightarrow> bind_res (cars s len x) (\<lambda>es. Inr (new (C_tuple es) s))
              | _ \<Rightarrow> Inl (Wrong_type x))))"

section \<open>Dictionaries\<close>

definition pmt_acons :: "addr \<Rightarrow> addr \<Rightarrow> addr \<Rightarrow> pmts \<Rightarrow> addr \<times> pmts" where
  "pmt_acons x y a s = (case pmt_cons x y s of (p, s') \<Rightarrow> pmt_cons p a s')"

definition pmt_dict_has_key :: "pmts \<Rightarrow> addr \<Rightarrow> addr \<Rightarrow> bool option" where
  "pmt_dict_has_key s d key = map_option (is_pair s) (pmt_assv s key d)"

partial_function (option) pmt_dict_delete :: "addr \<Rightarrow> addr \<Rightarrow> pmts \<Rightarrow> (addr \<times> pmts) res option" where
  "pmt_dict_delete d key s =
     (if is_null d then Some (Inr (d, s))
      else case pmt_caar s d of
             Inl e \<Rightarrow> Some (Inl e)
           | Inr k \<Rightarrow>
               (case cells s ! d of
                  C_pair p rest \<Rightarrow>
                    if pmt_eqv s k key then Some (Inr (rest, s))
                    else Option.bind (pmt_dict_delete rest key s)
                           (\<lambda>r. Some (bind_res r (\<lambda>(r, s'). Inr (pmt_cons p r s'))))
                | _ \<Rightarrow> Some (Inl (Wrong_type d))))"

definition pmt_dict_add :: "addr \<Rightarrow> addr \<Rightarrow> addr \<Rightarrow> pmts \<Rightarrow> (addr \<times> pmts) res option" where
  "pmt_dict_add d key v s =
     (if is_null d then Some (Inr (pmt_acons key v PMT_NIL s))
      else case pmt_dict_has_key s d key of
             None \<Rightarrow> None
           | Some has \<Rightarrow>
               if has then
                 (case pmt_dict_delete d key s of
                    None \<Rightarrow> None
                  | Some (Inl e) \<Rightarrow> Some (Inl e)
                  | Some (Inr (r, s')) \<Rightarrow> Some (Inr (pmt_acons key v r s')))
               else Some (Inr (pmt_acons key v d s)))"

definition pmt_dict_ref :: "pmts \<Rightarrow> addr \<Rightarrow> addr \<Rightarrow> addr \<Rightarrow> addr res option" where
  "pmt_dict_ref s d key not_found =
     map_option (\<lambda>p. if is_pair s p then pmt_cdr s p else Inr not_found) (pmt_assv s key d)"

definition pmt_dict_items :: "pmts \<Rightarrow> addr \<Rightarrow> addr res" where
  "pmt_dict_items s d = (if is_dict s d then Inr d else Inl (Wrong_type d))"

definition pmt_dict_keys :: "addr \<Rightarrow> pmts \<Rightarrow> (addr \<times> pmts) res option" where
  "pmt_dict_keys d s = (if is_dict s d then pmt_map pmt_car d s else Some (Inl (Wrong_type d)))"

definition pmt_dict_values :: "addr \<Rightarrow> pmts \<Rightarrow> (addr \<times> pmts) res option" where
  "pmt_dict_values d s = (if is_dict s d then pmt_map pmt_cdr d s else Some (Inl (Wrong_type d)))"

section \<open>Proper lists\<close>

fun list_at :: "pmts \<Rightarrow> addr \<Rightarrow> addr list \<Rightarrow> bool" where
  "list_at s l [] \<longleftrightarrow> l = PMT_NIL"
| "list_at s l (x # xs) \<longleftrightarrow> l < length (cells s)
     \<and> (case cells s ! l of C_pair a d \<Rightarrow> a = x \<and> list_at s d xs | _ \<Rightarrow> False)"

lemma list_at_Cons:
  "list_at s l (x # xs) \<longleftrightarrow> l < length (cells s) \<and> (\<exists>d. cells s ! l = C_pair x d \<and> list_at s d xs)"
  by (auto split: cell.splits)

declare list_at.simps(2) [simp del]

lemma list_at_extends: "list_at s l xs \<Longrightarrow> extends s s' \<Longrightarrow> list_at s' l xs"
  by (induction xs arbitrary: l) (auto simp: list_at_Cons extends_cell extends_less)

lemma list_at_cons:
  assumes "list_at s l xs" "pmt_cons x l s = (a, s')"
  shows "list_at s' a (x # xs)" "extends s s'"
proof -
  show e: "extends s s'" using assms(2) unfolding pmt_cons_def by (rule new_extends)
  show "list_at s' a (x # xs)"
    using new_cell [OF assms(2) [unfolded pmt_cons_def]] list_at_extends [OF assms(1) e]
    by (auto simp: list_at_Cons)
qed

lemma reverse_loop_list:
  "list_at s l xs \<Longrightarrow> heap_ok s \<Longrightarrow> list_at s r ys
    \<Longrightarrow> \<exists>r' s'. reverse_loop l r s = Some (PMT_NIL, r', s') \<and> extends s s' \<and> list_at s' r' (rev xs @ ys)"
proof (induction xs arbitrary: l r s ys)
  case Nil
  then show ?case by (subst reverse_loop.simps) (simp add: heap_okD)
next
  case (Cons x xs)
  obtain d where d: "cells s ! l = C_pair x d" "list_at s d xs" using Cons.prems(1) by (auto simp: list_at_Cons)
  obtain a s1 where c: "pmt_cons x r s = (a, s1)" by force
  note k = list_at_cons [OF Cons.prems(3) c]
  obtain r' s' where r: "reverse_loop d a s1 = Some (PMT_NIL, r', s')" "extends s1 s'"
    "list_at s' r' (rev xs @ (x # ys))"
    using Cons.IH [OF list_at_extends [OF d(2) k(2)] heap_ok_extends [OF Cons.prems(2) k(2)] k(1)] by blast
  then show ?case
    using d c k(2) by (subst reverse_loop.simps) (auto intro: extends_trans)
qed

lemma reverse_list:
  assumes "list_at s l xs" "heap_ok s"
  shows "\<exists>r s'. pmt_reverse l s = Some (Inr (r, s')) \<and> extends s s' \<and> list_at s' r (rev xs)"
  using reverse_loop_list [OF assms, of PMT_NIL "[]"] by (auto simp: pmt_reverse_def is_null_def)

lemma list_add_list:
  assumes "list_at s l xs" "heap_ok s"
  shows "\<exists>r s'. pmt_list_add l item s = Some (Inr (r, s')) \<and> extends s s' \<and> list_at s' r (xs @ [item])"
proof -
  obtain r s1 where 1: "pmt_reverse l s = Some (Inr (r, s1))" "extends s s1" "list_at s1 r (rev xs)"
    using reverse_list [OF assms] by blast
  obtain c s2 where 2: "pmt_cons item r s1 = (c, s2)" by force
  note k = list_at_cons [OF 1(3) 2]
  obtain r' s' where 3: "pmt_reverse c s2 = Some (Inr (r', s'))" "extends s2 s'" "list_at s' r' (rev (item # rev xs))"
    using reverse_list [OF k(1) heap_ok_extends [OF heap_ok_extends [OF assms(2) 1(2)] k(2)]] by blast
  then show ?thesis
    using 1 2 k(2) extends_trans [OF extends_trans [OF 1(2) k(2)] 3(2)] by (auto simp: pmt_list_add_def)
qed

lemma map_loop_list:
  assumes "\<And>a s'. a \<in> set xs \<Longrightarrow> extends s0 s' \<Longrightarrow> proc s' a = Inr (f a)"
  shows "list_at s l xs \<Longrightarrow> heap_ok s \<Longrightarrow> extends s0 s \<Longrightarrow> list_at s r ys
    \<Longrightarrow> \<exists>r' s'. map_loop proc l r s = Some (Inr (r', s')) \<and> extends s s' \<and> list_at s' r' (rev (map f xs) @ ys)"
  using assms
proof (induction xs arbitrary: l r s ys)
  case Nil
  then show ?case by (subst map_loop.simps) (simp add: heap_okD)
next
  case (Cons x xs)
  obtain d where d: "cells s ! l = C_pair x d" "list_at s d xs" using Cons.prems(1) by (auto simp: list_at_Cons)
  obtain a s1 where c: "pmt_cons (f x) r s = (a, s1)" by force
  note k = list_at_cons [OF Cons.prems(4) c]
  have "\<exists>r' s'. map_loop proc d a s1 = Some (Inr (r', s')) \<and> extends s1 s' \<and> list_at s' r' (rev (map f xs) @ (f x # ys))"
    by (rule Cons.IH [OF list_at_extends [OF d(2) k(2)] heap_ok_extends [OF Cons.prems(2) k(2)]
          extends_trans [OF Cons.prems(3) k(2)] k(1)]) (simp add: Cons.prems(5))
  then obtain r' s' where r: "map_loop proc d a s1 = Some (Inr (r', s'))" "extends s1 s'"
    "list_at s' r' (rev (map f xs) @ (f x # ys))" by blast
  then show ?case
    using d c k(2) Cons.prems(3,5) by (subst map_loop.simps) (auto intro: extends_trans)
qed

lemma map_list:
  assumes "\<And>a s'. a \<in> set xs \<Longrightarrow> extends s s' \<Longrightarrow> proc s' a = Inr (f a)" "list_at s l xs" "heap_ok s"
  shows "\<exists>r s'. pmt_map proc l s = Some (Inr (r, s')) \<and> extends s s' \<and> list_at s' r (map f xs)"
proof -
  obtain r s1 where 1: "map_loop proc l PMT_NIL s = Some (Inr (r, s1))" "extends s s1" "list_at s1 r (rev (map f xs))"
    using map_loop_list [of xs s proc f s l PMT_NIL "[]"] assms by auto
  show ?thesis
    using reverse_list [OF 1(3) heap_ok_extends [OF assms(3) 1(2)]] 1 extends_trans
    by (fastforce simp: pmt_map_def pmt_reverse_x_def)
qed

lemma count_pairs_list:
  "list_at s l xs \<Longrightarrow> heap_ok s \<Longrightarrow> count_pairs s l n = Some (PMT_NIL, n + length xs)"
proof (induction xs arbitrary: l n)
  case Nil
  then show ?case by (subst count_pairs.simps) (simp add: heap_okD)
next
  case (Cons x xs)
  then show ?case by (subst count_pairs.simps) (auto simp: list_at_Cons)
qed

lemma length_list:
  assumes "list_at s l xs" "heap_ok s"
  shows "pmt_length s l = Some (Inr (length xs))"
proof (cases xs)
  case Nil
  then show ?thesis using assms by (simp add: pmt_length_def heap_okD)
next
  case (Cons x ys)
  then show ?thesis
    using assms count_pairs_list [OF _ assms(2)] by (auto simp: pmt_length_def list_at_Cons is_null_def)
qed

lemma nthcdr_list:
  "list_at s l xs \<Longrightarrow> heap_ok s \<Longrightarrow> \<exists>t. nthcdr_loop s n l = Inr t \<and> list_at s t (drop n xs)"
proof (induction n arbitrary: l xs)
  case (Suc n)
  then show ?case by (cases xs) (auto simp: list_at_Cons heap_okD is_null_def)
qed simp

lemma nth_list:
  assumes "list_at s l xs" "heap_ok s"
  shows "pmt_nth s n l = Inr (if n < length xs then xs ! n else PMT_NIL)"
proof -
  obtain t where t: "nthcdr_loop s n l = Inr t" "list_at s t (drop n xs)"
    using nthcdr_list [OF assms] by blast
  have "is_pair s l \<or> is_null l"
    using assms(1) by (cases xs) (auto simp: list_at_Cons is_null_def is_pair_def)
  then have n: "pmt_nthcdr s n l = Inr t" using t(1) by (simp add: pmt_nthcdr_def)
  show ?thesis
  proof (cases "n < length xs")
    case True
    then have "drop n xs = xs ! n # drop (Suc n) xs" by (simp add: Cons_nth_drop_Suc)
    then show ?thesis using t(2) n True by (auto simp: pmt_nth_def list_at_Cons is_pair_def pmt_car_def)
  next
    case False
    then show ?thesis using t(2) n heap_okD(7) [OF assms(2)] by (simp add: pmt_nth_def)
  qed
qed

section \<open>Equivalence of keys\<close>

lemma eqv_cells_sym: "eqv_cells c d = eqv_cells d c"
  by (cases c; cases d) (auto simp: eqv_cells_def real_eq_def)

lemma eqv_cells_trans: "eqv_cells c d \<Longrightarrow> eqv_cells d e \<Longrightarrow> eqv_cells c e"
  by (cases c; cases d; cases e) (auto simp: eqv_cells_def real_eq_def)

lemma eqv_refl [simp]: "pmt_eqv s x x"
  by (simp add: pmt_eqv_def)

lemma eqv_sym: "pmt_eqv s x y = pmt_eqv s y x"
  using eqv_cells_sym by (auto simp: pmt_eqv_def)

lemma eqv_trans: "pmt_eqv s x y \<Longrightarrow> pmt_eqv s y z \<Longrightarrow> pmt_eqv s x z"
  using eqv_cells_trans by (auto simp: pmt_eqv_def)

lemma eqv_extends:
  "extends s s' \<Longrightarrow> x < length (cells s) \<Longrightarrow> y < length (cells s) \<Longrightarrow> pmt_eqv s' x y = pmt_eqv s x y"
  by (simp add: pmt_eqv_def extends_cell)

section \<open>Dictionaries as association lists\<close>

fun dict_at :: "pmts \<Rightarrow> addr \<Rightarrow> (addr \<times> addr) list \<Rightarrow> bool" where
  "dict_at s d [] \<longleftrightarrow> d = PMT_NIL"
| "dict_at s d (e # es) \<longleftrightarrow> d < length (cells s)
     \<and> (case cells s ! d of
          C_pair p r \<Rightarrow> p < length (cells s) \<and> cells s ! p = C_pair (fst e) (snd e)
            \<and> fst e < length (cells s) \<and> snd e < length (cells s) \<and> dict_at s r es
        | _ \<Rightarrow> False)"

lemma dict_at_Cons:
  "dict_at s d (e # es) \<longleftrightarrow> d < length (cells s) \<and> fst e < length (cells s) \<and> snd e < length (cells s)
     \<and> (\<exists>p r. cells s ! d = C_pair p r \<and> p < length (cells s) \<and> cells s ! p = C_pair (fst e) (snd e)
          \<and> dict_at s r es)"
  by (auto split: cell.splits)

declare dict_at.simps(2) [simp del]

lemma dict_at_extends: "dict_at s d es \<Longrightarrow> extends s s' \<Longrightarrow> dict_at s' d es"
  by (induction es arbitrary: d) (auto simp: dict_at_Cons extends_cell extends_less)

lemma dict_at_keys: "dict_at s d es \<Longrightarrow> e \<in> set es \<Longrightarrow> fst e < length (cells s)"
  by (induction es arbitrary: d) (auto simp: dict_at_Cons)

definition lookup :: "pmts \<Rightarrow> addr \<Rightarrow> (addr \<times> addr) list \<Rightarrow> (addr \<times> addr) option" where
  "lookup s k es = find (\<lambda>e. pmt_eqv s k (fst e)) es"

fun remove_key :: "pmts \<Rightarrow> addr \<Rightarrow> (addr \<times> addr) list \<Rightarrow> (addr \<times> addr) list" where
  "remove_key s k [] = []"
| "remove_key s k (e # es) = (if pmt_eqv s (fst e) k then es else e # remove_key s k es)"

definition keys_distinct :: "pmts \<Rightarrow> (addr \<times> addr) list \<Rightarrow> bool" where
  "keys_distinct s es = sorted_wrt (\<lambda>e e'. \<not> pmt_eqv s (fst e) (fst e')) es"

lemma lookup_simps [simp]:
  "lookup s k [] = None"
  "lookup s k (e # es) = (if pmt_eqv s k (fst e) then Some e else lookup s k es)"
  by (simp_all add: lookup_def)

lemma lookup_None: "lookup s k es = None \<longleftrightarrow> (\<forall>e \<in> set es. \<not> pmt_eqv s k (fst e))"
  by (auto simp: lookup_def find_None_iff)

lemma lookup_extends:
  assumes "extends s s'" "dict_at s d es" "k < length (cells s)"
  shows "lookup s' k es = lookup s k es"
proof -
  have "\<And>e. e \<in> set es \<Longrightarrow> pmt_eqv s' k (fst e) = pmt_eqv s k (fst e)"
    using dict_at_keys [OF assms(2)] eqv_extends [OF assms(1,3)] by blast
  then show ?thesis by (induction es) auto
qed

lemma remove_key_set: "set (remove_key s k es) \<subseteq> set es"
  by (induction es) auto

lemma remove_key_length: "length (remove_key s k es) \<le> length es"
  by (induction es) auto

lemma remove_key_lookup:
  assumes "keys_distinct s es"
  shows "lookup s k (remove_key s key es) = (if pmt_eqv s k key then None else lookup s k es)"
  using assms
proof (induction es)
  case (Cons e es)
  have eq: "pmt_eqv s (fst e) key \<Longrightarrow> pmt_eqv s k key = pmt_eqv s k (fst e)"
    using eqv_trans eqv_sym by blast
  have "pmt_eqv s k (fst e) \<Longrightarrow> lookup s k es = None"
    using Cons.prems eqv_trans [of s "fst e" k] eqv_sym [of s k "fst e"]
    by (auto simp: keys_distinct_def lookup_None)
  moreover have "pmt_eqv s k (fst e) \<Longrightarrow> pmt_eqv s k key \<Longrightarrow> pmt_eqv s (fst e) key"
    using eqv_trans [of s "fst e" k key] eqv_sym [of s k "fst e"] by simp
  ultimately show ?case using Cons eq by (auto simp: keys_distinct_def)
qed (simp add: lookup_def)

lemma remove_key_distinct: "keys_distinct s es \<Longrightarrow> keys_distinct s (remove_key s k es)"
  using remove_key_set by (induction es) (fastforce simp: keys_distinct_def)+

lemma remove_key_missing: "lookup s k es = None \<Longrightarrow> remove_key s k es = es"
  by (induction es) (auto simp: eqv_sym [of s k] split: if_splits)

lemma assv_dict:
  "dict_at s d es \<Longrightarrow> heap_ok s \<Longrightarrow>
    \<exists>p. pmt_assv s k d = Some p \<and> (case lookup s k es of
        None \<Rightarrow> p = PMT_F | Some e \<Rightarrow> cells s ! p = C_pair (fst e) (snd e))"
proof (induction es arbitrary: d)
  case Nil
  then show ?case by (simp add: pmt_assv_def) (subst ass_loop.simps, simp add: heap_okD)
next
  case (Cons e es)
  obtain p r where c: "cells s ! d = C_pair p r" "cells s ! p = C_pair (fst e) (snd e)" "dict_at s r es"
    using Cons.prems(1) by (auto simp: dict_at_Cons)
  have step: "pmt_assv s k d = (if pmt_eqv s k (fst e) then Some p else pmt_assv s k r)"
    unfolding pmt_assv_def by (subst ass_loop.simps) (simp add: c)
  show ?case
    using Cons.IH [OF c(3) Cons.prems(2)] c(2) by (simp add: step)
qed

lemma has_key_dict:
  assumes "dict_at s d es" "heap_ok s"
  shows "pmt_dict_has_key s d k = Some (lookup s k es \<noteq> None)"
  using assv_dict [OF assms, of k] heap_okD(8) [OF assms(2)]
  by (auto simp: pmt_dict_has_key_def is_pair_cell split: option.splits)

lemma ref_dict:
  assumes "dict_at s d es" "heap_ok s"
  shows "pmt_dict_ref s d k nf = Some (Inr (case lookup s k es of None \<Rightarrow> nf | Some e \<Rightarrow> snd e))"
  using assv_dict [OF assms, of k] heap_okD(8) [OF assms(2)]
  by (auto simp: pmt_dict_ref_def is_pair_cell pmt_cdr_def split: option.splits)

lemma cons_dict:
  assumes "dict_at s d es" "cells s ! p = C_pair (fst e) (snd e)" "p < length (cells s)"
    "fst e < length (cells s)" "snd e < length (cells s)" "pmt_cons p d s = (a, s')"
  shows "dict_at s' a (e # es)" "extends s s'"
proof -
  show e: "extends s s'" using assms(6) unfolding pmt_cons_def by (rule new_extends)
  show "dict_at s' a (e # es)"
    using new_cell [OF assms(6) [unfolded pmt_cons_def]] dict_at_extends [OF assms(1) e] assms(2-5)
      extends_cell [OF e] extends_less [OF e]
    by (auto simp: dict_at_Cons)
qed

lemma acons_dict:
  assumes "dict_at s d es" "k < length (cells s)" "v < length (cells s)" "pmt_acons k v d s = (a, s')"
  shows "dict_at s' a ((k, v) # es)" "extends s s'"
proof -
  obtain p s1 where p: "pmt_cons k v s = (p, s1)" by force
  have e: "extends s s1" using p unfolding pmt_cons_def by (rule new_extends)
  have c: "pmt_cons p d s1 = (a, s')" using assms(4) p by (simp add: pmt_acons_def)
  note n = new_cell [OF p [unfolded pmt_cons_def]]
  have "dict_at s' a ((k, v) # es) \<and> extends s1 s'"
    using cons_dict [OF dict_at_extends [OF assms(1) e] _ _ _ _ c, of "(k, v)"] n assms(2,3) extends_less [OF e]
    by auto
  then show "dict_at s' a ((k, v) # es)" "extends s s'" using e extends_trans by blast+
qed

lemma delete_dict:
  "dict_at s d es \<Longrightarrow> heap_ok s \<Longrightarrow> \<exists>d' s'. pmt_dict_delete d key s = Some (Inr (d', s')) \<and> extends s s'
     \<and> dict_at s' d' (remove_key s key es)"
proof (induction es arbitrary: d)
  case Nil
  then show ?case by (subst pmt_dict_delete.simps) (simp add: is_null_def)
next
  case (Cons e es)
  obtain p r where c: "cells s ! d = C_pair p r" "p < length (cells s)" "cells s ! p = C_pair (fst e) (snd e)"
      "dict_at s r es" "fst e < length (cells s)" "snd e < length (cells s)"
    using Cons.prems(1) by (auto simp: dict_at_Cons)
  have nn: "\<not> is_null d" using c(1) heap_okD(4) [OF Cons.prems(2)] by (auto simp: is_null_def)
  have k: "pmt_caar s d = Inr (fst e)" using c by (simp add: pmt_caar_def pmt_car_def bind_res_def)
  obtain r' s1 where 1: "pmt_dict_delete r key s = Some (Inr (r', s1))" "extends s s1"
      "dict_at s1 r' (remove_key s key es)"
    using Cons.IH [OF c(4) Cons.prems(2)] by blast
  obtain a s2 where 2: "pmt_cons p r' s1 = (a, s2)" by force
  have "dict_at s2 a (e # remove_key s key es) \<and> extends s1 s2"
    using cons_dict [OF 1(3) _ _ _ _ 2, of e] c extends_cell [OF 1(2)] extends_less [OF 1(2)] by simp
  then show ?case
    using c nn k 1 2 extends_trans [OF 1(2)]
    by (subst pmt_dict_delete.simps) (auto simp: bind_res_def)
qed

lemma add_dict:
  assumes "dict_at s d es" "heap_ok s" "key < length (cells s)" "v < length (cells s)"
  shows "\<exists>d' s'. pmt_dict_add d key v s = Some (Inr (d', s')) \<and> extends s s'
    \<and> dict_at s' d' ((key, v) # remove_key s key es)"
proof -
  have at: "\<And>a s1 d1 es1 s'. dict_at s1 d1 es1 \<Longrightarrow> extends s s1 \<Longrightarrow> pmt_acons key v d1 s1 = (a, s')
      \<Longrightarrow> dict_at s' a ((key, v) # es1) \<and> extends s s'"
    using acons_dict extends_less assms(3,4) extends_trans by blast
  show ?thesis
  proof (cases "lookup s key es")
    case None
    obtain a s' where a: "pmt_acons key v d s = (a, s')" by force
    have "is_null d \<Longrightarrow> es = []" using assms(1) heap_okD(4) [OF assms(2)] by (cases es) (auto simp: dict_at_Cons is_null_def)
    then show ?thesis
      using at [OF assms(1) extends_refl a] a None has_key_dict [OF assms(1,2), of key]
      by (auto simp: pmt_dict_add_def remove_key_missing is_null_def)
  next
    case (Some e)
    have nn: "\<not> is_null d" using assms(1) Some heap_okD(4) [OF assms(2)] by (cases es) (auto simp: dict_at_Cons is_null_def)
    obtain r s1 where r: "pmt_dict_delete d key s = Some (Inr (r, s1))" "extends s s1"
      "dict_at s1 r (remove_key s key es)" using delete_dict [OF assms(1,2)] by blast
    obtain a s' where a: "pmt_acons key v r s1 = (a, s')" by force
    show ?thesis
      using at [OF r(3,2) a] a nn Some has_key_dict [OF assms(1,2), of key] r(1)
      by (auto simp: pmt_dict_add_def)
  qed
qed

section \<open>The properties\<close>

text \<open>
  List operations on a proper list compute what they say and change nothing that was there:
  length, the n-th element (or the empty list behind the end), the reversed list, the list with an
  element added at its end, and the mapped list.
\<close>

theorem list_operations:
  assumes "list_at s l xs" "heap_ok s" "\<And>a s'. a \<in> set xs \<Longrightarrow> extends s s' \<Longrightarrow> proc s' a = Inr (f a)"
  shows "pmt_length s l = Some (Inr (length xs))
    \<and> pmt_nth s n l = Inr (if n < length xs then xs ! n else PMT_NIL)
    \<and> (\<exists>r s'. pmt_reverse l s = Some (Inr (r, s')) \<and> extends s s' \<and> list_at s' r (rev xs))
    \<and> (\<exists>r s'. pmt_list_add l item s = Some (Inr (r, s')) \<and> extends s s' \<and> list_at s' r (xs @ [item]))
    \<and> (\<exists>r s'. pmt_map proc l s = Some (Inr (r, s')) \<and> extends s s' \<and> list_at s' r (map f xs))"
  by (intro conjI length_list nth_list reverse_list list_add_list map_list assms)

text \<open>The list of the integers 5 and 6, and a dictionary that maps 5 to 6, with another 5.\<close>

definition lists_sample :: pmts where
  "lists_sample = pmt_start\<lparr> cells := cells pmt_start @
     [C_integer 5, C_integer 6, C_pair 5 2, C_pair 4 6, C_pair 4 5, C_pair 8 2, C_integer 5] \<rparr>"

lemma lists_sample_cells [simp]:
  "length (cells lists_sample) = 11" "cells lists_sample ! 4 = C_integer 5" "cells lists_sample ! 5 = C_integer 6"
  "cells lists_sample ! 6 = C_pair 5 2" "cells lists_sample ! 7 = C_pair 4 6" "cells lists_sample ! 8 = C_pair 4 5"
  "cells lists_sample ! 9 = C_pair 8 2" "cells lists_sample ! 10 = C_integer 5"
  by (simp_all add: lists_sample_def pmt_start_def)

lemma lists_sample_ok: "heap_ok lists_sample"
  by (rule heap_ok_extends [OF pmt_start_ok]) (simp add: lists_sample_def extends_def)

theorem list_operations_witness:
  "pmt_length lists_sample 7 = Some (Inr 2) \<and> pmt_nth lists_sample 1 7 = Inr 5
    \<and> (\<exists>r s'. pmt_reverse 7 lists_sample = Some (Inr (r, s')) \<and> list_at s' r [5, 4])
    \<and> (\<exists>r s'. pmt_map (\<lambda>s x. Inr (pmt_from_bool (is_integer s x))) 7 lists_sample = Some (Inr (r, s'))
          \<and> list_at s' r [PMT_T, PMT_T])"
proof -
  have l: "list_at lists_sample 7 [4, 5]" by (simp add: list_at_Cons PMT_NIL_def)
  have p: "Inr (pmt_from_bool (is_integer s' a)) = Inr PMT_T" if "a \<in> set [4, 5]" "extends lists_sample s'" for a s'
    using that extends_cell [OF that(2), of a] by (auto simp: is_integer_def pmt_from_bool_def)
  note ops = list_operations [OF l lists_sample_ok,
      where proc = "\<lambda>s x. Inr (pmt_from_bool (is_integer s x))" and f = "\<lambda>a. PMT_T" and n = 1 and item = 4]
  show ?thesis using ops [OF p] by auto
qed

text \<open>
  Dictionaries are maps: adding an entry to a dictionary without equivalent keys gives one
  without equivalent keys, in which the key, and every key equivalent to it, has the new value and
  every other key what it had; the dictionary that was there is unchanged, and it grows by at most
  one entry.
\<close>

theorem dict_laws:
  assumes "dict_at s d es" "keys_distinct s es" "heap_ok s" "key < length (cells s)" "v < length (cells s)"
  shows "\<exists>d' s' es'. pmt_dict_add d key v s = Some (Inr (d', s')) \<and> extends s s'
    \<and> dict_at s' d' es' \<and> keys_distinct s' es' \<and> length es' \<le> length es + 1
    \<and> (\<forall>k nf. k < length (cells s) \<longrightarrow> pmt_dict_ref s' d' k nf =
          (if pmt_eqv s k key then Some (Inr v) else pmt_dict_ref s d k nf))"
proof -
  let ?es = "(key, v) # remove_key s key es"
  obtain d' s' where a: "pmt_dict_add d key v s = Some (Inr (d', s'))" "extends s s'" "dict_at s' d' ?es"
    using add_dict [OF assms(1,3,4,5)] by blast
  have ok: "heap_ok s'" using heap_ok_extends [OF assms(3) a(2)] .
  have less: "e \<in> set (remove_key s key es) \<Longrightarrow> fst e < length (cells s)" for e
    using dict_at_keys [OF assms(1)] remove_key_set by blast
  have "keys_distinct s ?es"
    using remove_key_distinct [OF assms(2)] remove_key_lookup [OF assms(2), of key key]
    by (auto simp: keys_distinct_def lookup_None)
  then have "keys_distinct s' ?es"
    using less eqv_extends [OF a(2)] assms(4)
    by (auto simp: keys_distinct_def elim!: sorted_wrt_mono_rel [rotated])
  moreover have "pmt_dict_ref s' d' k nf = (if pmt_eqv s k key then Some (Inr v) else pmt_dict_ref s d k nf)"
    if "k < length (cells s)" for k nf
  proof -
    have "pmt_eqv s' k key = pmt_eqv s k key" using eqv_extends [OF a(2) that assms(4)] .
    moreover have "lookup s' k (remove_key s key es) = lookup s k (remove_key s key es)"
      using less eqv_extends [OF a(2) that] by (simp add: lookup_def cong: find_cong)
    ultimately show ?thesis
      using remove_key_lookup [OF assms(2), of k key]
      by (simp add: ref_dict [OF a(3) ok] ref_dict [OF assms(1,3)])
  qed
  ultimately show ?thesis
    using a remove_key_length [of s key es] by (intro exI [of _ d'] exI [of _ s'] exI [of _ ?es]) simp
qed

theorem dict_laws_witness:
  "\<exists>d' s'. pmt_dict_add 9 10 4 lists_sample = Some (Inr (d', s')) \<and> pmt_dict_ref s' d' 4 PMT_NIL = Some (Inr 4)"
proof -
  have d: "dict_at lists_sample 9 [(4, 5)]" by (simp add: dict_at_Cons PMT_NIL_def)
  have "pmt_eqv lists_sample 4 10" by (simp add: pmt_eqv_def eqv_cells_def)
  then show ?thesis
    using dict_laws [OF d _ lists_sample_ok, of 10 4] by (auto simp: keys_distinct_def)
qed

end
