(* ===== verification/Pmt_Tree.thy ===== *)
theory Pmt_Tree
  imports Pmt
begin

text \<open>
  What objects stand for.  Interning makes a symbol its name: the table of symbols is an invariant,
  and two symbols are the same object exactly when they have the same name.  Objects without
  cycles stand for trees, and \<open>pmt_equal\<close> compares the trees, but for uniform vectors.
\<close>

section \<open>The symbol table\<close>

definition bucket :: "name \<Rightarrow> nat" where
  "bucket n = unat (hash_string n) mod SYMBOL_HASH_TABLE_SIZE"

lemma bucket_less: "bucket n < SYMBOL_HASH_TABLE_SIZE"
  by (simp add: bucket_def SYMBOL_HASH_TABLE_SIZE_def)

text \<open>The symbols along a chain, with their names.\<close>

fun chain_at :: "pmts \<Rightarrow> addr option \<Rightarrow> (addr \<times> name) list \<Rightarrow> bool" where
  "chain_at s p [] \<longleftrightarrow> p = None"
| "chain_at s p (e # es) \<longleftrightarrow> p = Some (fst e) \<and> fst e < length (cells s)
     \<and> (case cells s ! fst e of C_symbol n nxt \<Rightarrow> n = snd e \<and> chain_at s nxt es | _ \<Rightarrow> False)"

lemma chain_at_Cons:
  "chain_at s p (e # es) \<longleftrightarrow> p = Some (fst e) \<and> fst e < length (cells s)
     \<and> (\<exists>nxt. cells s ! fst e = C_symbol (snd e) nxt \<and> chain_at s nxt es)"
  by (auto split: cell.splits)

declare chain_at.simps(2) [simp del]

definition symbols :: "pmts \<Rightarrow> (addr \<times> name) set" where
  "symbols s = {(a, n). a < length (cells s) \<and> (\<exists>nxt. cells s ! a = C_symbol n nxt)}"

text \<open>Every symbol is in the chain of its name, and no two have the same name.\<close>

definition symtab_ok :: "pmts \<Rightarrow> bool" where
  "symtab_ok s \<longleftrightarrow> length (symtab s) = SYMBOL_HASH_TABLE_SIZE
     \<and> (\<forall>k < SYMBOL_HASH_TABLE_SIZE. \<exists>es. chain_at s (symtab s ! k) es
          \<and> set es = {(a, n) \<in> symbols s. bucket n = k})
     \<and> (\<forall>a b n. (a, n) \<in> symbols s \<longrightarrow> (b, n) \<in> symbols s \<longrightarrow> a = b)"

lemma chain_at_extends: "chain_at s p es \<Longrightarrow> extends s s' \<Longrightarrow> chain_at s' p es"
  by (induction es arbitrary: p) (auto simp: chain_at_Cons extends_cell extends_less)

lemma symtab_start: "symtab_ok pmt_start"
proof -
  have "cells pmt_start ! a \<noteq> C_symbol n nxt" if "a < 4" for a n nxt
  proof -
    have "a \<in> {0, 1, 2, 3}" using that by auto
    then show ?thesis by (auto simp: pmt_start_def)
  qed
  then have "symbols pmt_start = {}" by (auto simp: symbols_def pmt_start_def)
  then show ?thesis
    by (auto simp: symtab_ok_def pmt_start_def intro!: exI [of _ "[]"])
qed

lemma symbols_new:
  "symbols (s\<lparr> cells := cells s @ [c] \<rparr>) = symbols s \<union>
     (case c of C_symbol n nxt \<Rightarrow> {(length (cells s), n)} | _ \<Rightarrow> {})"
  by (auto simp: symbols_def nth_append less_Suc_eq split: cell.splits)

text \<open>Other objects leave the table in order.\<close>

definition no_symbol :: "cell \<Rightarrow> bool" where
  "no_symbol c = (case c of C_symbol n nxt \<Rightarrow> False | _ \<Rightarrow> True)"

lemma symtab_okI:
  assumes "length (symtab s) = SYMBOL_HASH_TABLE_SIZE"
    "\<And>k. k < SYMBOL_HASH_TABLE_SIZE \<Longrightarrow> \<exists>es. chain_at s (symtab s ! k) es
        \<and> set es = {(a, n) \<in> symbols s. bucket n = k}"
    "\<And>a b n. (a, n) \<in> symbols s \<Longrightarrow> (b, n) \<in> symbols s \<Longrightarrow> a = b"
  shows "symtab_ok s"
  unfolding symtab_ok_def using assms by blast

lemma symtab_okE:
  assumes "symtab_ok s"
  shows "length (symtab s) = SYMBOL_HASH_TABLE_SIZE"
    "k < SYMBOL_HASH_TABLE_SIZE \<Longrightarrow> \<exists>es. chain_at s (symtab s ! k) es
        \<and> set es = {(a, n) \<in> symbols s. bucket n = k}"
    "(a, n) \<in> symbols s \<Longrightarrow> (b, n) \<in> symbols s \<Longrightarrow> a = b"
  using assms unfolding symtab_ok_def by blast+

lemma symtab_ok_cong:
  assumes "symtab_ok s" "symtab s' = symtab s" "symbols s' = symbols s"
    "\<And>p es. chain_at s p es \<Longrightarrow> chain_at s' p es"
  shows "symtab_ok s'"
proof (rule symtab_okI)
  show "length (symtab s') = SYMBOL_HASH_TABLE_SIZE" using symtab_okE(1) [OF assms(1)] assms(2) by simp
  show "\<exists>es. chain_at s' (symtab s' ! k) es \<and> set es = {(a, n) \<in> symbols s'. bucket n = k}"
    if "k < SYMBOL_HASH_TABLE_SIZE" for k
    using symtab_okE(2) [OF assms(1) that] assms(2-4) by auto
  show "\<And>a b n. (a, n) \<in> symbols s' \<Longrightarrow> (b, n) \<in> symbols s' \<Longrightarrow> a = b"
    using symtab_okE(3) [OF assms(1)] assms(3) by simp
qed

lemma symtab_ok_new:
  assumes "symtab_ok s" "new c s = (a, s')" "no_symbol c"
  shows "symtab_ok s'"
proof (rule symtab_ok_cong [OF assms(1)])
  have s': "s' = s\<lparr> cells := cells s @ [c] \<rparr>" using assms(2) by (simp add: new_def)
  then show "symtab s' = symtab s" by simp
  show "symbols s' = symbols s"
    using assms(3) s' symbols_new [of s c] by (simp add: no_symbol_def split: cell.splits)
  show "\<And>p es. chain_at s p es \<Longrightarrow> chain_at s' p es"
    by (rule chain_at_extends [OF _ new_extends [OF assms(2)]])
qed

lemma symtab_ok_set_cell:
  assumes "symtab_ok s" "no_symbol c" "no_symbol (cells s ! a)"
  shows "symtab_ok (set_cell a c s)"
proof (rule symtab_ok_cong [OF assms(1)])
  have eq: "cells (set_cell a c s) ! b = C_symbol n nxt \<longleftrightarrow> cells s ! b = C_symbol n nxt" for b n nxt
    using assms(2,3) by (cases "b = a"; cases "a < length (cells s)") (auto simp: set_cell_def no_symbol_def list_update_beyond not_less)
  have len: "length (cells (set_cell a c s)) = length (cells s)" by (simp add: set_cell_def)
  show "symtab (set_cell a c s) = symtab s" by (simp add: set_cell_def)
  show "symbols (set_cell a c s) = symbols s" by (simp add: symbols_def eq len)
  show "chain_at s p es \<Longrightarrow> chain_at (set_cell a c s) p es" for p es
    by (induction es arbitrary: p) (auto simp: chain_at_Cons eq len)
qed

lemma find_symbol_chain:
  "chain_at s p es \<Longrightarrow> find_symbol s n p = Some (map_option fst (find (\<lambda>e. n = snd e) es))"
proof (induction es arbitrary: p)
  case Nil
  then show ?case by (subst find_symbol.simps) simp
next
  case (Cons e es)
  then show ?case by (subst find_symbol.simps) (auto simp: chain_at_Cons)
qed

lemma find_symbol_ok:
  assumes "symtab_ok s"
  shows "find_symbol s n (symtab s ! bucket n) = Some (if \<exists>a. (a, n) \<in> symbols s
    then Some (THE a. (a, n) \<in> symbols s) else None)"
proof -
  obtain es where es: "chain_at s (symtab s ! bucket n) es" "set es = {(a, m) \<in> symbols s. bucket m = bucket n}"
    using symtab_okE(2) [OF assms bucket_less] by blast
  note one = symtab_okE(3) [OF assms]
  show ?thesis
  proof (cases "find (\<lambda>e. n = snd e) es")
    case None
    then have "(a, n) \<notin> symbols s" for a using es(2) by (auto simp: find_None_iff)
    then show ?thesis using find_symbol_chain [OF es(1), of n] None by simp
  next
    case (Some e)
    then have "e \<in> set es" "n = snd e" by (auto simp: find_Some_iff)
    then have e: "(fst e, n) \<in> symbols s" using es(2) by auto
    then have "(THE a. (a, n) \<in> symbols s) = fst e" using one by (intro the_equality) auto
    then show ?thesis using find_symbol_chain [OF es(1), of n] Some e by auto
  qed
qed

lemma intern_known:
  assumes "symtab_ok s" "(a, n) \<in> symbols s"
  shows "pmt_string_to_symbol n s = Some (a, s)"
proof -
  have "(THE a. (a, n) \<in> symbols s) = a"
    using assms(2) symtab_okE(3) [OF assms(1)] by (intro the_equality) auto
  then show ?thesis
    using find_symbol_ok [OF assms(1), of n] assms(2)
    by (auto simp: pmt_string_to_symbol_def Let_def simp flip: bucket_def)
qed

lemma intern_new:
  assumes "symtab_ok s" "\<And>a. (a, n) \<notin> symbols s"
  shows "\<exists>a s'. pmt_string_to_symbol n s = Some (a, s') \<and> extends s s' \<and> symtab_ok s' \<and> (a, n) \<in> symbols s'
    \<and> length (cells s') = length (cells s) + 1"
proof -
  let ?k = "bucket n" let ?a = "length (cells s)"
  let ?s1 = "s\<lparr> cells := cells s @ [C_symbol n (symtab s ! ?k)] \<rparr>"
  let ?s = "?s1\<lparr> symtab := (symtab s)[?k := Some ?a] \<rparr>"
  have r: "pmt_string_to_symbol n s = Some (?a, ?s)"
    using find_symbol_ok [OF assms(1), of n] assms(2)
    by (auto simp: pmt_string_to_symbol_def Let_def new_def simp flip: bucket_def)
  have e: "extends s ?s" by (simp add: extends_def)
  have sy: "symbols ?s = symbols s \<union> {(?a, n)}" using symbols_new [of s "C_symbol n (symtab s ! ?k)"] by (simp add: symbols_def)
  note len = symtab_okE(1) [OF assms(1)]
  have chains: "\<exists>es. chain_at ?s (symtab ?s ! k) es \<and> set es = {(a, m) \<in> symbols ?s. bucket m = k}"
    if k: "k < SYMBOL_HASH_TABLE_SIZE" for k
  proof -
    obtain es where es: "chain_at s (symtab s ! k) es" "set es = {(a, m) \<in> symbols s. bucket m = k}"
      using symtab_okE(2) [OF assms(1) k] by blast
    note es' = chain_at_extends [OF es(1) e]
    show ?thesis
    proof (cases "k = ?k")
      case True
      have "chain_at ?s (symtab ?s ! k) ((?a, n) # es)"
        using es' True len k by (simp add: chain_at_Cons nth_append)
      then show ?thesis using es(2) sy True by (intro exI [of _ "(?a, n) # es"]) auto
    next
      case False
      then show ?thesis using es' es(2) sy by (intro exI [of _ es]) auto
    qed
  qed
  have "symtab_ok ?s"
  proof (rule symtab_okI [OF _ chains])
    show "length (symtab ?s) = SYMBOL_HASH_TABLE_SIZE" using len by simp
    show "\<And>a b m. (a, m) \<in> symbols ?s \<Longrightarrow> (b, m) \<in> symbols ?s \<Longrightarrow> a = b"
      using assms(2) symtab_okE(3) [OF assms(1)] unfolding sy by blast
  qed
  then show ?thesis using r e sy by (intro exI [of _ ?a] exI [of _ ?s]) simp
qed

lemma intern_ok:
  assumes "symtab_ok s"
  shows "\<exists>a s'. pmt_string_to_symbol n s = Some (a, s') \<and> extends s s' \<and> symtab_ok s' \<and> (a, n) \<in> symbols s'"
  using intern_known [OF assms] intern_new [OF assms] assms by (cases "\<exists>a. (a, n) \<in> symbols s") fastforce+

lemma symtab_ok_append:
  assumes "symtab_ok s" "list_all no_symbol cs"
  shows "symtab_ok (s\<lparr> cells := cells s @ cs \<rparr>)"
  using assms(2)
proof (induction cs rule: rev_induct)
  case (snoc c cs)
  then have "symtab_ok (s\<lparr> cells := cells s @ cs \<rparr>)" "no_symbol c" by auto
  then show ?case
    using symtab_ok_new [of "s\<lparr> cells := cells s @ cs \<rparr>" c] by (simp add: new_def)
qed (simp add: assms(1))

lemma symbol_name: "x < length (cells s) \<and> pmt_symbol_to_string s x = Inr n \<longleftrightarrow> (x, n) \<in> symbols s"
  by (auto simp: pmt_symbol_to_string_def symbols_def split: cell.splits)

text \<open>
  C39: interning a name always ends, gives the symbol of that name, and keeps the table of symbols in
  order; no other object is a symbol of that name, and interning it again gives the same object and
  leaves the store alone.  So \<open>pmt_eq\<close> on symbols compares their names.
\<close>

theorem symbols_interned:
  assumes "symtab_ok s"
  shows "\<exists>x s'. pmt_string_to_symbol n s = Some (x, s') \<and> extends s s' \<and> symtab_ok s'
    \<and> {y. y < length (cells s') \<and> pmt_symbol_to_string s' y = Inr n} = {x}
    \<and> pmt_string_to_symbol n s' = Some (x, s')"
proof -
  obtain x s' where x: "pmt_string_to_symbol n s = Some (x, s')" "extends s s'" "symtab_ok s'" "(x, n) \<in> symbols s'"
    using intern_ok [OF assms] by blast
  moreover have "{y. y < length (cells s') \<and> pmt_symbol_to_string s' y = Inr n} = {x}"
    unfolding symbol_name using x(4) symtab_okE(3) [OF x(3)] by blast
  ultimately show ?thesis using intern_known [OF x(3,4)] by blast
qed

theorem symbols_interned_witness:
  "\<exists>x s'. pmt_string_to_symbol [100, 111, 103] pmt_start = Some (x, s') \<and> symtab_ok s'
    \<and> {y. y < length (cells s') \<and> pmt_symbol_to_string s' y = Inr [100, 111, 103]} = {x}"
  using symbols_interned [OF symtab_start, of "[100, 111, 103]"] by blast

section \<open>Trees\<close>

datatype tree =
    T_bool bool | T_null | T_symbol name | T_integer int | T_uint64 u64 | T_real u64
  | T_complex u64 u64 | T_pair tree tree | T_vector "tree list" | T_tuple "tree list"
  | T_uniform nat "u8 list" | T_any nat

fun repr :: "pmts \<Rightarrow> tree \<Rightarrow> addr \<Rightarrow> bool" where
  "repr s (T_bool b) x \<longleftrightarrow> x = (if b then PMT_T else PMT_F)"
| "repr s T_null x \<longleftrightarrow> x = PMT_NIL"
| "repr s (T_symbol n) x \<longleftrightarrow> (x, n) \<in> symbols s"
| "repr s (T_integer i) x \<longleftrightarrow> x < length (cells s) \<and> cells s ! x = C_integer i"
| "repr s (T_uint64 i) x \<longleftrightarrow> x < length (cells s) \<and> cells s ! x = C_uint64 i"
| "repr s (T_real r) x \<longleftrightarrow> x < length (cells s) \<and> cells s ! x = C_real r"
| "repr s (T_complex r i) x \<longleftrightarrow> x < length (cells s) \<and> cells s ! x = C_complex r i"
| "repr s (T_pair t u) x \<longleftrightarrow> x < length (cells s)
     \<and> (\<exists>a d. cells s ! x = C_pair a d \<and> repr s t a \<and> repr s u d)"
| "repr s (T_vector ts) x \<longleftrightarrow> x < length (cells s)
     \<and> (\<exists>v. cells s ! x = C_vector v \<and> list_all2 (repr s) ts v)"
| "repr s (T_tuple ts) x \<longleftrightarrow> x < length (cells s)
     \<and> (\<exists>v. cells s ! x = C_tuple v \<and> list_all2 (repr s) ts v)"
| "repr s (T_uniform n bs) x \<longleftrightarrow> x < length (cells s) \<and> cells s ! x = C_uniform n bs"
| "repr s (T_any i) x \<longleftrightarrow> x < length (cells s) \<and> cells s ! x = C_any i"

lemma symbols_extends: "extends s s' \<Longrightarrow> e \<in> symbols s \<Longrightarrow> e \<in> symbols s'"
  by (auto simp: symbols_def extends_cell extends_less)

lemma repr_agree:
  assumes "\<And>a. a < length (cells s) \<Longrightarrow> a < length (cells s') \<and> cells s' ! a = cells s ! a"
  shows "repr s t x \<Longrightarrow> repr s' t x"
proof (induction t arbitrary: x)
  case (T_vector ts)
  then show ?case using assms by (auto simp: list_all2_conv_all_nth)
next
  case (T_tuple ts)
  then show ?case using assms by (auto simp: list_all2_conv_all_nth)
qed (use assms in \<open>auto simp: symbols_def\<close>)

lemma repr_extends: "repr s t x \<Longrightarrow> extends s s' \<Longrightarrow> repr s' t x"
  by (rule repr_agree) (auto simp: extends_cell extends_less)

lemma repr_less: "heap_ok s \<Longrightarrow> repr s t x \<Longrightarrow> x < length (cells s)"
  by (cases t) (auto simp: heap_okD symbols_def)

text \<open>An object stands for one tree.\<close>

lemma repr_unique:
  "heap_ok s \<Longrightarrow> repr s t x \<Longrightarrow> repr s u x \<Longrightarrow> t = u"
proof (induction t arbitrary: u x)
  case (T_vector ts)
  then show ?case
    by (cases u) (auto simp: heap_okD symbols_def list_all2_conv_all_nth split: if_splits
        intro!: nth_equalityI)
next
  case (T_tuple ts)
  then show ?case
    by (cases u) (auto simp: heap_okD symbols_def list_all2_conv_all_nth split: if_splits
        intro!: nth_equalityI)
next
  case (T_pair a b)
  then show ?case by (cases u) (auto simp: heap_okD symbols_def split: if_splits)
qed (case_tac u; auto simp: heap_okD symbols_def split: if_splits)+

section \<open>Structural equality\<close>

fun max_list :: "nat list \<Rightarrow> nat" where
  "max_list [] = 0"
| "max_list (n # ns) = max n (max_list ns)"

lemma max_list_ge: "n \<in> set ns \<Longrightarrow> n \<le> max_list ns"
  by (induction ns) auto

text \<open>
  What \<open>pmt_equal\<close> decides: equality of the trees, with the two zeros equal, and with uniform vectors
  equal as soon as they have as many items.
\<close>

fun tree_eq :: "tree \<Rightarrow> tree \<Rightarrow> bool" where
  "tree_eq (T_real x) u = (case u of T_real y \<Rightarrow> real_eq x y | _ \<Rightarrow> False)"
| "tree_eq (T_complex x i) u = (case u of T_complex y j \<Rightarrow> real_eq x y \<and> real_eq i j | _ \<Rightarrow> False)"
| "tree_eq (T_pair a b) u = (case u of T_pair c d \<Rightarrow> tree_eq a c \<and> tree_eq b d | _ \<Rightarrow> False)"
| "tree_eq (T_vector ts) u = (case u of T_vector us \<Rightarrow> list_all2 tree_eq ts us | _ \<Rightarrow> False)"
| "tree_eq (T_tuple ts) u = (case u of T_tuple us \<Rightarrow> list_all2 tree_eq ts us | _ \<Rightarrow> False)"
| "tree_eq (T_uniform n bs) u = (case u of T_uniform k cs \<Rightarrow> n = k | _ \<Rightarrow> False)"
| "tree_eq (T_bool x) u = (u = T_bool x)"
| "tree_eq T_null u = (u = T_null)"
| "tree_eq (T_symbol n) u = (u = T_symbol n)"
| "tree_eq (T_integer i) u = (u = T_integer i)"
| "tree_eq (T_uint64 i) u = (u = T_uint64 i)"
| "tree_eq (T_any i) u = (u = T_any i)"

text \<open>
  Objects without a NaN and without boxed C++ objects: the former differ from themselves unless they
  are the same object, the latter are the same only as objects.
\<close>

fun comparable :: "tree \<Rightarrow> bool" where
  "comparable (T_real x) = (\<not> is_nan x)"
| "comparable (T_complex x y) = (\<not> is_nan x \<and> \<not> is_nan y)"
| "comparable (T_pair a b) = (comparable a \<and> comparable b)"
| "comparable (T_vector ts) = list_all comparable ts"
| "comparable (T_tuple ts) = list_all comparable ts"
| "comparable (T_any i) = False"
| "comparable t = True"

fun depth :: "tree \<Rightarrow> nat" where
  "depth (T_pair a b) = 1 + max (depth a) (depth b)"
| "depth (T_vector ts) = 1 + max_list (map depth ts)"
| "depth (T_tuple ts) = 1 + max_list (map depth ts)"
| "depth t = 1"

lemma depth_item:
  "depth (T_vector ts) \<le> Suc m \<Longrightarrow> t \<in> set ts \<Longrightarrow> depth t \<le> m"
  "depth (T_tuple ts) \<le> Suc m \<Longrightarrow> t \<in> set ts \<Longrightarrow> depth t \<le> m"
  using max_list_ge [of "depth t" "map depth ts"] by auto

lemma tree_eq_refl: "comparable t \<Longrightarrow> tree_eq t t"
  by (induction t) (auto simp: real_eq_def list_all2_same list_all_iff)

lemma eqv_trees:
  assumes "heap_ok s" "repr s t x" "repr s u y" "comparable t" "pmt_eqv s x y"
  shows "tree_eq t u"
proof (cases "x = y")
  case True
  then show ?thesis using repr_unique [OF assms(1-2)] assms(3,4) tree_eq_refl by blast
next
  case False
  then have "eqv_cells (cells s ! x) (cells s ! y)" using assms(5) by (simp add: pmt_eqv_def)
  then show ?thesis
    using assms(1-3)
    by (cases t; cases u) (auto simp: eqv_cells_def heap_okD symbols_def split: if_splits cell.splits)
qed

lemma all_equal_trees:
  assumes "\<And>t u x y. t \<in> set ts \<Longrightarrow> repr s t x \<Longrightarrow> repr s u y \<Longrightarrow> eq x y = Some (tree_eq t u)"
    "list_all2 (repr s) ts v" "list_all2 (repr s) us v'" "length v = length v'"
  shows "all_equal eq v v' = Some (list_all2 tree_eq ts us)"
  using assms
proof (induction ts arbitrary: us v v')
  case (Cons t ts)
  obtain x xs y ys u us' where l: "v = x # xs" "v' = y # ys" "us = u # us'"
  proof -
    obtain x xs where "v = x # xs" using Cons.prems(2) by (auto simp: list_all2_Cons1)
    moreover from this obtain y ys where "v' = y # ys" using Cons.prems(4) by (cases v') auto
    moreover from this obtain u us' where "us = u # us'" using Cons.prems(3) by (auto simp: list_all2_Cons2)
    ultimately show ?thesis using that by blast
  qed
  have r: "repr s t x" "repr s u y" "list_all2 (repr s) ts xs" "list_all2 (repr s) us' ys" "length xs = length ys"
    using Cons.prems(2-4) l by auto
  have "all_equal eq xs ys = Some (list_all2 tree_eq ts us')"
    by (rule Cons.IH [OF _ r(3-5)]) (use Cons.prems(1) in auto)
  then show ?case using Cons.prems(1) [of t x u y] r(1,2) l by auto
qed auto

lemma items_equal:
  assumes "\<And>t u x y. t \<in> set ts \<Longrightarrow> repr s t x \<Longrightarrow> repr s u y \<Longrightarrow> eq x y = Some (tree_eq t u)"
    "list_all2 (repr s) ts v" "list_all2 (repr s) us v'"
  shows "(if length v \<noteq> length v' then Some False else all_equal eq v v') = Some (list_all2 tree_eq ts us)"
proof (cases "length v = length v'")
  case True
  then show ?thesis using all_equal_trees [OF assms] by simp
next
  case False
  then have "length ts \<noteq> length us" using assms(2,3) by (auto dest!: list_all2_lengthD)
  then have "\<not> list_all2 tree_eq ts us" by (auto dest: list_all2_lengthD)
  then show ?thesis using False by simp
qed

text \<open>Objects without components.\<close>

fun atomic :: "tree \<Rightarrow> bool" where
  "atomic (T_pair a b) = False"
| "atomic (T_vector ts) = False"
| "atomic (T_tuple ts) = False"
| "atomic t = True"

lemma pmt_equal_atomic:
  assumes "heap_ok s" "symtab_ok s" "atomic t" "repr s t x" "repr s u y" "comparable t" "depth t \<le> n"
  shows "pmt_equal n s x y = Some (tree_eq t u)"
proof (cases "pmt_eqv s x y")
  case True
  then show ?thesis using eqv_trees [OF assms(1,4,5,6)] assms(3,7) by (cases n; cases t) auto
next
  case False
  then have ne: "x \<noteq> y" "\<not> eqv_cells (cells s ! x) (cells s ! y)" by (auto simp: pmt_eqv_def)
  obtain m where n: "n = Suc m" using assms(3,7) by (cases n; cases t) auto
  have same: "(x, a) \<in> symbols s \<Longrightarrow> (y, a) \<in> symbols s \<Longrightarrow> False" for a
    using symtab_okE(3) [OF assms(2)] ne(1) by blast
  show ?thesis
    using assms(3-6) False n ne same
    by (cases t; cases u)
       (auto simp: eqv_cells_def heap_okD [OF assms(1)] symbols_def split: if_splits cell.splits)
qed

lemma pmt_equal_tree:
  assumes "heap_ok s" "symtab_ok s"
  shows "repr s t x \<Longrightarrow> repr s u y \<Longrightarrow> comparable t \<Longrightarrow> depth t \<le> n \<Longrightarrow> pmt_equal n s x y = Some (tree_eq t u)"
proof (induction t arbitrary: n u x y)
  case (T_pair a b)
  show ?case
  proof (cases "pmt_eqv s x y")
    case True
    then show ?thesis using eqv_trees [OF assms(1) T_pair.prems(1-3)] T_pair.prems(4) by (cases n) auto
  next
    case False
    obtain m where n: "n = Suc m" "depth a \<le> m" "depth b \<le> m" using T_pair.prems(4) by (cases n) auto
    show ?thesis
      using T_pair False n
      by (cases u) (auto simp: heap_okD [OF assms(1)] symbols_def split: if_splits option.splits)
  qed
next
  case (T_vector ts)
  show ?case
  proof (cases "pmt_eqv s x y")
    case True
    then show ?thesis using eqv_trees [OF assms(1) T_vector.prems(1-3)] T_vector.prems(4) by (cases n) auto
  next
    case False
    obtain m where n: "n = Suc m" "\<And>t. t \<in> set ts \<Longrightarrow> depth t \<le> m"
      using T_vector.prems(4) by (cases n) (simp, blast intro: depth_item)
    have eq: "\<And>t u x y. t \<in> set ts \<Longrightarrow> repr s t x \<Longrightarrow> repr s u y \<Longrightarrow> pmt_equal m s x y = Some (tree_eq t u)"
      using T_vector.IH T_vector.prems(3) n(2) by (simp add: list_all_iff)
    show ?thesis
      using T_vector.prems(1,2) False n(1)
      by (cases u) (auto simp: heap_okD [OF assms(1)] symbols_def items_equal [OF eq] simp del: if_split split: if_split_asm)
  qed
next
  case (T_tuple ts)
  show ?case
  proof (cases "pmt_eqv s x y")
    case True
    then show ?thesis using eqv_trees [OF assms(1) T_tuple.prems(1-3)] T_tuple.prems(4) by (cases n) auto
  next
    case False
    obtain m where n: "n = Suc m" "\<And>t. t \<in> set ts \<Longrightarrow> depth t \<le> m"
      using T_tuple.prems(4) by (cases n) (simp, blast intro: depth_item)
    have eq: "\<And>t u x y. t \<in> set ts \<Longrightarrow> repr s t x \<Longrightarrow> repr s u y \<Longrightarrow> pmt_equal m s x y = Some (tree_eq t u)"
      using T_tuple.IH T_tuple.prems(3) n(2) by (simp add: list_all_iff)
    show ?thesis
      using T_tuple.prems(1,2) False n(1)
      by (cases u) (auto simp: heap_okD [OF assms(1)] symbols_def items_equal [OF eq] simp del: if_split split: if_split_asm)
  qed
qed (rule pmt_equal_atomic [OF assms]; simp)+

text \<open>
  C40: on objects without cycles \<open>pmt_equal\<close> returns, from a depth of the recursion that the structure
  bounds, and says whether the trees are equal: symbols by name, numbers by value within their type,
  pairs, vectors and tuples item by item; uniform vectors by their length alone.
\<close>

theorem pmt_equal_correct:
  assumes "heap_ok s" "symtab_ok s" "repr s t x" "repr s u y" "comparable t" "depth t \<le> n"
  shows "pmt_equal n s x y = Some (tree_eq t u)"
  by (rule pmt_equal_tree [OF assms])

text \<open>Two lists of one item, and one with another item.\<close>

definition sample_store :: pmts where
  "sample_store = pmt_start\<lparr> cells := cells pmt_start @
     [C_integer 5, C_pair 4 2, C_integer 5, C_pair 6 2, C_uniform 2 [1, 2], C_uniform 2 [3, 4]] \<rparr>"

lemma sample_ok: "heap_ok sample_store" "symtab_ok sample_store"
proof -
  show "heap_ok sample_store"
    by (rule heap_ok_extends [OF pmt_start_ok]) (simp add: sample_store_def extends_def)
  show "symtab_ok sample_store"
    unfolding sample_store_def by (rule symtab_ok_append [OF symtab_start]) (simp add: no_symbol_def)
qed

theorem pmt_equal_correct_witness:
  "pmt_equal 2 sample_store 5 7 = Some True \<and> pmt_equal 1 sample_store 8 9 = Some True"
proof -
  have len: "length (cells sample_store) = 10" by (simp add: sample_store_def pmt_start_def)
  have r: "repr sample_store (T_pair (T_integer 5) T_null) 5" "repr sample_store (T_pair (T_integer 5) T_null) 7"
      "repr sample_store (T_uniform 2 [1, 2]) 8" "repr sample_store (T_uniform 2 [3, 4]) 9"
    by (simp_all add: len) (simp_all add: sample_store_def pmt_start_def PMT_NIL_def)
  show ?thesis
    using pmt_equal_correct [OF sample_ok r(1,2), of 2] pmt_equal_correct [OF sample_ok r(3,4), of 1] by simp
qed

end
