(* ===== verification/Pmt_Serialize.thy ===== *)
theory Pmt_Serialize
  imports Pmt_Tree
begin

text \<open>
  Objects as bytes (\<open>gruel/src/lib/pmt/pmt_serialize.cc\<close>), with the tags of
  \<open>gruel/src/scheme/gnuradio/pmt-serial-tags.scm\<close>.  The stream is a \<open>stringbuf\<close>: writing never fails
  and reading fails at its end only.  After an exception neither the store nor the stream is kept.
\<close>

section \<open>Bytes\<close>

definition PST_TRUE :: u8 where "PST_TRUE = 0x00"
definition PST_FALSE :: u8 where "PST_FALSE = 0x01"
definition PST_SYMBOL :: u8 where "PST_SYMBOL = 0x02"
definition PST_INT32 :: u8 where "PST_INT32 = 0x03"
definition PST_DOUBLE :: u8 where "PST_DOUBLE = 0x04"
definition PST_COMPLEX :: u8 where "PST_COMPLEX = 0x05"
definition PST_NULL :: u8 where "PST_NULL = 0x06"
definition PST_PAIR :: u8 where "PST_PAIR = 0x07"
definition PST_VECTOR :: u8 where "PST_VECTOR = 0x08"
definition PST_DICT :: u8 where "PST_DICT = 0x09"
definition PST_UNIFORM_VECTOR :: u8 where "PST_UNIFORM_VECTOR = 0x0a"
definition PST_COMMENT :: u8 where "PST_COMMENT = 0x3b"

lemmas pst_tags = PST_TRUE_def PST_FALSE_def PST_SYMBOL_def PST_INT32_def PST_DOUBLE_def PST_COMPLEX_def
  PST_NULL_def PST_PAIR_def PST_VECTOR_def PST_DICT_def PST_UNIFORM_VECTOR_def PST_COMMENT_def

definition out_u16 :: "u32 \<Rightarrow> u8 list" where
  "out_u16 i = [ucast (drop_bit 8 i), ucast i]"

definition out_u32 :: "u32 \<Rightarrow> u8 list" where
  "out_u32 i = [ucast (drop_bit 24 i), ucast (drop_bit 16 i), ucast (drop_bit 8 i), ucast i]"

definition out_f64 :: "u64 \<Rightarrow> u8 list" where
  "out_f64 i = [ucast (drop_bit 56 i), ucast (drop_bit 48 i), ucast (drop_bit 40 i), ucast (drop_bit 32 i),
                ucast (drop_bit 24 i), ucast (drop_bit 16 i), ucast (drop_bit 8 i), ucast i]"

text \<open>The shift register of the readers: eight more bits at the low end.\<close>

definition shift_in :: "'a::len word \<Rightarrow> u8 \<Rightarrow> 'a word" where
  "shift_in w b = push_bit 8 w OR ucast b"

fun in_u16 :: "u8 list \<Rightarrow> (u16 \<times> u8 list) option" where
  "in_u16 (a # b # bs) = Some (shift_in (ucast a) b, bs)"
| "in_u16 bs = None"

fun in_u32 :: "u8 list \<Rightarrow> (u32 \<times> u8 list) option" where
  "in_u32 (a # b # c # d # bs) = Some (shift_in (shift_in (shift_in (ucast a) b) c) d, bs)"
| "in_u32 bs = None"

fun in_f64 :: "u8 list \<Rightarrow> (u64 \<times> u8 list) option" where
  "in_f64 (a # b # c # d # e # f # g # h # bs) = Some (shift_in (shift_in (shift_in (shift_in
      (shift_in (shift_in (shift_in (ucast a) b) c) d) e) f) g) h, bs)"
| "in_f64 bs = None"

lemma shift_in_byte: "shift_in (drop_bit 8 w) (ucast w) = (w :: 'a::len word)"
proof (rule bit_word_eqI)
  fix n assume "n < LENGTH('a)"
  then show "bit (shift_in (drop_bit 8 w) (ucast w)) n \<longleftrightarrow> bit w n"
    by (cases "n < 8") (simp_all add: shift_in_def bit_simps)
qed

lemma first_byte:
  "ucast (ucast (drop_bit 24 i) :: u8) = drop_bit 24 (i :: u32)"
  "ucast (ucast (drop_bit 56 d) :: u8) = drop_bit 56 (d :: u64)"
  "ucast (ucast (drop_bit 8 h) :: u8) = drop_bit 8 (h :: u16)"
  by (rule bit_word_eqI; auto simp: bit_simps dest: bit_imp_le_length)+

lemma shift_in_bytes:
  "shift_in (drop_bit 56 w) (ucast (drop_bit 48 w)) = drop_bit 48 (w :: 'a::len word)"
  "shift_in (drop_bit 48 w) (ucast (drop_bit 40 w)) = drop_bit 40 w"
  "shift_in (drop_bit 40 w) (ucast (drop_bit 32 w)) = drop_bit 32 w"
  "shift_in (drop_bit 32 w) (ucast (drop_bit 24 w)) = drop_bit 24 w"
  "shift_in (drop_bit 24 w) (ucast (drop_bit 16 w)) = drop_bit 16 w"
  "shift_in (drop_bit 16 w) (ucast (drop_bit 8 w)) = drop_bit 8 w"
  using shift_in_byte [of "drop_bit 48 w"] shift_in_byte [of "drop_bit 40 w"] shift_in_byte [of "drop_bit 32 w"]
    shift_in_byte [of "drop_bit 24 w"] shift_in_byte [of "drop_bit 16 w"] shift_in_byte [of "drop_bit 8 w"]
  by (simp_all add: drop_bit_drop_bit)

lemma in_out_u16: "in_u16 (out_u16 i @ bs) = Some (ucast i, bs)"
proof -
  have "ucast (ucast (drop_bit 8 i) :: u8) = drop_bit 8 (ucast i :: u16)"
    by (rule bit_word_eqI) (simp add: bit_simps)
  moreover have "(ucast i :: u8) = ucast (ucast i :: u16)"
    by (rule bit_word_eqI) (simp add: bit_simps)
  ultimately show ?thesis by (simp add: out_u16_def shift_in_byte)
qed

lemma in_out_u32: "in_u32 (out_u32 i @ bs) = Some (i, bs)"
  by (simp add: out_u32_def first_byte shift_in_bytes shift_in_byte)

lemma in_out_f64: "in_f64 (out_f64 i @ bs) = Some (i, bs)"
  by (simp add: out_f64_def first_byte shift_in_bytes shift_in_byte)

lemma length_out [simp]: "length (out_u16 i) = 2" "length (out_u32 i) = 4" "length (out_f64 d) = 8"
  by (simp_all add: out_u16_def out_u32_def out_f64_def)

lemma length_in:
  "in_u16 bs = Some (a, cs) \<Longrightarrow> length cs < length bs"
  "in_u32 bs = Some (b, cs) \<Longrightarrow> length cs < length bs"
  "in_f64 bs = Some (c, cs) \<Longrightarrow> length cs < length bs"
  by (erule in_u16.elims in_u32.elims in_f64.elims; simp; fail)+

section \<open>A double through a float\<close>

text \<open>
  \<open>float i = pmt_to_double(obj)\<close>, and back: rounding to the nearest float, ties to even, overflow to
  infinity, subnormal floats in steps of \<open>2 ^ -149\<close>; a NaN loses its low bits and is made quiet.
\<close>

definition round_even :: "nat \<Rightarrow> nat \<Rightarrow> nat" where
  "round_even k n =
     (let q = n div 2 ^ k; r = n mod 2 ^ k
      in if 2 * r > 2 ^ k \<or> (2 * r = 2 ^ k \<and> odd q) then q + 1 else q)"

fun log2 :: "nat \<Rightarrow> nat" where
  "log2 n = (if n < 2 then 0 else log2 (n div 2) + 1)"

declare log2.simps [simp del]

definition narrow_magnitude :: "nat \<Rightarrow> nat \<Rightarrow> nat" where
  "narrow_magnitude e m =
     (if e = 0x7ff then (if m = 0 then 0x7ff * 2 ^ 52 else 0x7ff * 2 ^ 52 + (m div 2 ^ 29 OR 2 ^ 22) * 2 ^ 29)
      else if e = 0 then 0
      else if e < 897 then
        let q = round_even (926 - e) (2 ^ 52 + m); l = log2 q
        in if q = 0 then 0 else (874 + l) * 2 ^ 52 + (q - 2 ^ l) * 2 ^ (52 - l)
      else let g = round_even 29 (e * 2 ^ 52 + m) * 2 ^ 29
           in if g \<ge> 1151 * 2 ^ 52 then 0x7ff * 2 ^ 52 else g)"

definition narrow :: "u64 \<Rightarrow> u64" where
  "narrow d = (d AND 0x8000000000000000) OR
     of_nat (narrow_magnitude (unat d div 2 ^ 52 mod 2 ^ 11) (unat d mod 2 ^ 52))"

section \<open>Writing\<close>

text \<open>A value, an exception, or no result at all.\<close>

definition next_do :: "'a res option \<Rightarrow> ('a \<Rightarrow> 'b res option) \<Rightarrow> 'b res option" where
  "next_do r f = (case r of None \<Rightarrow> None | Some (Inl e) \<Rightarrow> Some (Inl e) | Some (Inr x) \<Rightarrow> f x)"

lemma next_do_simps [simp]:
  "next_do None f = None" "next_do (Some (Inl e)) f = Some (Inl e)" "next_do (Some (Inr x)) f = f x"
  by (simp_all add: next_do_def)

lemma next_do_bind: "next_do r f = Option.bind r (\<lambda>y. case y of Inl e \<Rightarrow> Some (Inl e) | Inr x \<Rightarrow> f x)"
  by (simp add: next_do_def split: option.split)

lemma next_do_mono [partial_function_mono]:
  assumes "mono_option r" "\<And>x. mono_option (\<lambda>f. g f x)"
  shows "mono_option (\<lambda>f. next_do (r f) (g f))"
  unfolding next_do_bind
proof (rule bind_mono [OF assms(1)])
  show "mono_option (\<lambda>f. case y of Inl e \<Rightarrow> Some (Inl e) | Inr x \<Rightarrow> g f x)" for y
    using assms(2) by (cases y) (simp_all add: option.const_mono)
qed

partial_function (option) pmt_serialize :: "pmts \<Rightarrow> addr \<Rightarrow> u8 list res option" where
  "pmt_serialize s x =
     (if is_bool s x then Some (Inr [if pmt_eq x PMT_T then PST_TRUE else PST_FALSE])
      else if is_null x then Some (Inr [PST_NULL])
      else case cells s ! x of
        C_symbol n nxt \<Rightarrow> Some (Inr (PST_SYMBOL # out_u16 (of_nat (length n)) @ n))
      | C_pair a d \<Rightarrow>
          next_do (pmt_serialize s a) (\<lambda>bs. next_do (pmt_serialize s d) (\<lambda>cs. Some (Inr (PST_PAIR # bs @ cs))))
      | C_integer i \<Rightarrow>
          if i < - 2147483647 \<or> i > 2147483647 then Some (Inl Not_implemented)
          else Some (Inr (PST_INT32 # out_u32 (word_of_int i)))
      | C_real r \<Rightarrow> Some (Inr (PST_DOUBLE # out_f64 (narrow r)))
      | C_complex r i \<Rightarrow> Some (Inr (PST_COMPLEX # out_f64 r @ out_f64 i))
      | _ \<Rightarrow> Some (Inl Not_implemented))"

section \<open>Reading\<close>

text \<open>
  To the given depth of calls.  The argument \<open>j\<close> is what the uninitialised imaginary part of a complex
  number happens to hold: as \<open>&&\<close> stops at the first half that was read, the second is never read.
  \<open>parse_pair\<close> is its loop: the last pair built so far, null at first, and the first one.
\<close>

fun pmt_deserialize :: "nat \<Rightarrow> u64 \<Rightarrow> pmts \<Rightarrow> u8 list \<Rightarrow> (addr \<times> pmts \<times> u8 list) res option"
  and parse_pair :: "nat \<Rightarrow> u64 \<Rightarrow> addr \<Rightarrow> addr \<Rightarrow> pmts \<Rightarrow> u8 list \<Rightarrow> (addr \<times> pmts \<times> u8 list) res option" where
  "pmt_deserialize 0 j s bs = None"
| "pmt_deserialize (Suc n) j s [] = Some (Inr (PMT_EOF, s, []))"
| "pmt_deserialize (Suc n) j s (tag # bs) =
     (if tag = PST_TRUE then Some (Inr (PMT_T, s, bs))
      else if tag = PST_FALSE then Some (Inr (PMT_F, s, bs))
      else if tag = PST_NULL then Some (Inr (PMT_NIL, s, bs))
      else if tag = PST_SYMBOL then
        (case in_u16 bs of None \<Rightarrow> Some (Inl Malformed)
         | Some (k, bs) \<Rightarrow>
             if unat k > 1024 then Some (Inl Not_implemented)
             else if length bs < unat k then Some (Inl Malformed)
             else (case pmt_string_to_symbol (take (unat k) bs) s of None \<Rightarrow> None
                   | Some (x, s) \<Rightarrow> Some (Inr (x, s, drop (unat k) bs))))
      else if tag = PST_INT32 then
        (case in_u32 bs of None \<Rightarrow> Some (Inl Malformed)
         | Some (i, bs) \<Rightarrow> let (x, s) = pmt_from_long (sint i) s in Some (Inr (x, s, bs)))
      else if tag = PST_PAIR then parse_pair n j PMT_NIL PMT_NIL s bs
      else if tag = PST_DOUBLE then
        (case in_f64 bs of None \<Rightarrow> Some (Inl Malformed)
         | Some (d, bs) \<Rightarrow> let (x, s) = pmt_from_double d s in Some (Inr (x, s, bs)))
      else if tag = PST_COMPLEX then
        (case in_f64 bs of None \<Rightarrow> Some (Inl Malformed)
         | Some (r, bs) \<Rightarrow> let (x, s) = pmt_make_rectangular r j s in Some (Inr (x, s, bs)))
      else if tag \<in> {PST_VECTOR, PST_DICT, PST_UNIFORM_VECTOR, PST_COMMENT} then Some (Inl Not_implemented)
      else Some (Inl Malformed))"
| "parse_pair 0 j lastn val s bs = None"
| "parse_pair (Suc n) j lastn val s bs =
     next_do (pmt_deserialize n j s bs) (\<lambda>(expr, s, bs).
       let (nptr, s) = pmt_cons expr PMT_NIL s
       in next_do (Some (if is_null lastn then Inr (nptr, s)
                         else map_sum id (Pair val) (pmt_set_cdr lastn nptr s))) (\<lambda>(val, s).
         case bs of
           [] \<Rightarrow> Some (Inl Malformed)
         | tag # bs' \<Rightarrow>
             if tag = PST_PAIR then parse_pair n j nptr val s bs'
             else if tag = PST_NULL
             then Some (map_sum id (\<lambda>s. (val, s, bs')) (pmt_set_cdr nptr PMT_NIL s))
             else next_do (pmt_deserialize n j s bs) (\<lambda>(expr, s, bs).
                    Some (map_sum id (\<lambda>s. (val, s, bs)) (pmt_set_cdr nptr expr s)))))"

section \<open>What is written\<close>

fun encode :: "tree \<Rightarrow> u8 list res" where
  "encode (T_bool b) = Inr [if b then PST_TRUE else PST_FALSE]"
| "encode T_null = Inr [PST_NULL]"
| "encode (T_symbol n) = Inr (PST_SYMBOL # out_u16 (of_nat (length n)) @ n)"
| "encode (T_integer i) =
     (if i < - 2147483647 \<or> i > 2147483647 then Inl Not_implemented else Inr (PST_INT32 # out_u32 (word_of_int i)))"
| "encode (T_real r) = Inr (PST_DOUBLE # out_f64 (narrow r))"
| "encode (T_complex r i) = Inr (PST_COMPLEX # out_f64 r @ out_f64 i)"
| "encode (T_pair a b) =
     (case encode a of Inl e \<Rightarrow> Inl e
      | Inr bs \<Rightarrow> (case encode b of Inl e \<Rightarrow> Inl e | Inr cs \<Rightarrow> Inr (PST_PAIR # bs @ cs)))"
| "encode t = Inl Not_implemented"

lemma serialize_encode:
  assumes "heap_ok s"
  shows "repr s t x \<Longrightarrow> pmt_serialize s x = Some (encode t)"
proof (induction t arbitrary: x)
  case (T_pair t u)
  obtain a d where c: "cells s ! x = C_pair a d" "repr s t a" "repr s u d" using T_pair.prems by auto
  then have "x \<noteq> PMT_NIL" using heap_okD [OF assms] by auto
  then show ?case
    using T_pair.IH(1) [OF c(2)] T_pair.IH(2) [OF c(3)] c(1)
    by (subst pmt_serialize.simps) (auto simp: is_bool_def is_null_def split: sum.splits)
qed (subst pmt_serialize.simps;
     auto simp: is_bool_def is_null_def pmt_eq_def symbols_def heap_okD [OF assms] split: if_splits)+

text \<open>
  C38: serialising an object without cycles always returns, with the bytes of its tree, or the
  exception for what has no representation: vectors, tuples, boxed objects, 64-bit unsigned integers
  and integers outside of the 32-bit range (without its lowest number).
\<close>

theorem pmt_serialize_correct:
  assumes "heap_ok s" "repr s t x"
  shows "pmt_serialize s x = Some (encode t)"
  by (rule serialize_encode [OF assms])

theorem pmt_serialize_correct_witness:
  "pmt_serialize sample_store 5 = Some (Inr [7, 3, 0, 0, 0, 5, 6])
    \<and> pmt_serialize sample_store 8 = Some (Inl Not_implemented)"
proof -
  have len: "length (cells sample_store) = 10" by (simp add: sample_store_def pmt_start_def)
  have r: "repr sample_store (T_pair (T_integer 5) T_null) 5" "repr sample_store (T_uniform 2 [1, 2]) 8"
    by (simp_all add: len) (simp_all add: sample_store_def pmt_start_def PMT_NIL_def)
  show ?thesis
    using pmt_serialize_correct [OF sample_ok(1) r(1)] pmt_serialize_correct [OF sample_ok(1) r(2)]
    by (simp add: pst_tags out_u32_def)
qed

section \<open>Reading always returns\<close>

lemma extends_iff:
  "extends s s' \<longleftrightarrow> length (cells s) \<le> length (cells s') \<and> (\<forall>a < length (cells s). cells s' ! a = cells s ! a)"
proof
  assume "length (cells s) \<le> length (cells s') \<and> (\<forall>a < length (cells s). cells s' ! a = cells s ! a)"
  then have "take (length (cells s)) (cells s') = cells s" by (intro nth_equalityI) auto
  then have "cells s' = cells s @ drop (length (cells s)) (cells s')" by (metis append_take_drop_id)
  then show "extends s s'" unfolding extends_def by blast
qed (auto simp: extends_def nth_append)

lemma set_cell_simps [simp]:
  "length (cells (set_cell a c s)) = length (cells s)" "cells (set_cell a c s) = (cells s)[a := c]"
  "symtab (set_cell a c s) = symtab s"
  by (simp_all add: set_cell_def)

text \<open>
  What reading does to the store: it grows, and what was there stays but for one pair, the one that
  is given a new tail.
\<close>

definition relinked :: "addr \<Rightarrow> addr \<Rightarrow> pmts \<Rightarrow> pmts \<Rightarrow> bool" where
  "relinked x p s s' \<longleftrightarrow> length (cells s) \<le> length (cells s') \<and> (\<forall>c < length (cells s). cells s' ! c =
     (if c = x \<and> x \<noteq> PMT_NIL then (case cells s ! c of C_pair a d \<Rightarrow> C_pair a p | oth \<Rightarrow> oth) else cells s ! c))"

lemma relinked_nil [simp]: "relinked PMT_NIL p s s' = extends s s'"
  by (auto simp: relinked_def extends_iff)

definition place :: "pmts \<Rightarrow> addr \<Rightarrow> bool" where
  "place s x \<longleftrightarrow> x = PMT_NIL \<or> 4 \<le> x \<and> x < length (cells s) \<and> is_pair s x"

lemma relinked_heap_ok:
  assumes "heap_ok s" "place s x" "relinked x p s s'"
  shows "heap_ok s'"
proof -
  have "c < 4 \<Longrightarrow> cells s' ! c = cells s ! c" for c
    using assms by (auto simp: heap_ok_def place_def relinked_def)
  moreover have "length (cells s) \<le> length (cells s')" using assms(3) by (simp add: relinked_def)
  ultimately show ?thesis using assms(1) by (auto simp: heap_ok_def is_pair_def pmt_constants)
qed

lemma relinked_trans:
  assumes "relinked x p s s3" "length (cells s) \<le> n" "relinked n q s3 s4"
  shows "relinked x p s s4"
  using assms by (auto simp: relinked_def)

lemma set_cdr_relinked:
  assumes "cells s ! x = C_pair a d" "x < length (cells s)" "symtab_ok s" "x \<noteq> PMT_NIL"
  shows "\<exists>s'. pmt_set_cdr x v s = Inr s' \<and> relinked x v s s' \<and> symtab_ok s' \<and> cells s' ! x = C_pair a v
    \<and> length (cells s') = length (cells s)"
  using assms symtab_ok_set_cell [of s "C_pair a v" x]
  by (auto simp: pmt_set_cdr_def relinked_def no_symbol_def nth_list_update)

lemma cons_step:
  assumes "symtab_ok s" "pmt_cons x y s = (n, s')"
  shows "extends s s'" "n = length (cells s)" "cells s' ! n = C_pair x y" "symtab_ok s'"
    "length (cells s') = Suc (length (cells s))"
  using assms symtab_ok_new [of s "C_pair x y"] new_extends [of "C_pair x y" s n s']
  by (auto simp: pmt_cons_def new_def no_symbol_def)

text \<open>The node that \<open>parse_pair\<close> builds for an item, linked behind the last one.\<close>

lemma link_step:
  assumes "symtab_ok s1" "heap_ok s1" "place s x" "extends s s1" "pmt_cons e PMT_NIL s1 = (n, s2)"
  shows "\<exists>v s3. (if is_null x then Inr (n, s2) else map_sum id (Pair val) (pmt_set_cdr x n s2)) = Inr (v, s3)
    \<and> v = (if x = PMT_NIL then n else val) \<and> relinked x n s1 s3 \<and> symtab_ok s3
    \<and> cells s3 ! n = C_pair e PMT_NIL \<and> n = length (cells s1) \<and> length (cells s3) = Suc n"
proof (cases "x = PMT_NIL")
  case True
  then show ?thesis using cons_step [OF assms(1,5)] by (auto simp: is_null_def)
next
  case False
  note c = cons_step [OF assms(1,5)]
  obtain a d where x: "cells s ! x = C_pair a d" "x < length (cells s)"
    using assms(3) False by (auto simp: place_def is_pair_cell)
  have e: "extends s s2" using extends_trans [OF assms(4) c(1)] .
  have x2: "cells s2 ! x = C_pair a d" "x < length (cells s2)" "x < length (cells s1)"
    using x extends_cell [OF e] extends_less [OF e] extends_less [OF assms(4)] by auto
  obtain s3 where s3: "pmt_set_cdr x n s2 = Inr s3" "relinked x n s2 s3" "symtab_ok s3"
      "length (cells s3) = length (cells s2)"
    using set_cdr_relinked [OF x2(1,2) c(4) False] by blast
  have "relinked x n s1 s3"
    using s3(2) c(1,5) extends_cell [OF c(1)] by (auto simp: relinked_def)
  moreover have "cells s3 ! n = C_pair e PMT_NIL"
    using s3(2) c(2,3,5) x2(3) by (auto simp: relinked_def)
  ultimately show ?thesis using False s3 c(2,5) by (simp add: is_null_def)
qed

definition read_ok :: "addr \<Rightarrow> pmts \<Rightarrow> u8 list \<Rightarrow> (addr \<times> pmts \<times> u8 list) res option \<Rightarrow> bool" where
  "read_ok x s bs r \<longleftrightarrow> (\<exists>q. r = Some q \<and> (\<forall>y s' bs'. q = Inr (y, s', bs') \<longrightarrow>
     (\<exists>p. relinked x p s s') \<and> symtab_ok s' \<and> length bs' \<le> length bs \<and> y < length (cells s')))"

lemma read_ok_error [simp]: "read_ok x s bs (Some (Inl e))"
  by (simp add: read_ok_def)

lemma read_ok_constant:
  "symtab_ok s \<Longrightarrow> length bs' \<le> length bs \<Longrightarrow> y < length (cells s) \<Longrightarrow> read_ok PMT_NIL s bs (Some (Inr (y, s, bs')))"
  by (simp add: read_ok_def)

lemma read_ok_new:
  assumes "symtab_ok s" "no_symbol c" "length bs' \<le> length bs"
  shows "read_ok PMT_NIL s bs (case new c s of (x, s) \<Rightarrow> Some (Inr (x, s, bs')))"
  using assms symtab_ok_new [OF assms(1) _ assms(2)] new_extends [of c s] new_cell [of c s]
  by (cases "new c s") (auto simp: read_ok_def)

lemma read_ok_symbol:
  assumes "symtab_ok s" "length bs' \<le> length bs"
  shows "read_ok PMT_NIL s bs (case pmt_string_to_symbol n s of None \<Rightarrow> None | Some (x, s) \<Rightarrow> Some (Inr (x, s, bs')))"
  using intern_ok [OF assms(1), of n] assms(2) by (auto simp: read_ok_def symbols_def)

lemma read_ok_longer:
  assumes "read_ok x s bs r" "length bs \<le> length bs'"
  shows "read_ok x s bs' r"
proof -
  obtain q where q: "r = Some q" using assms(1) by (auto simp: read_ok_def)
  then show ?thesis using assms by (cases q) (auto simp: read_ok_def)
qed

lemma read_ok_case:
  assumes "\<And>a cs. inp = Some (a, cs) \<Longrightarrow> read_ok x s bs (f a cs)"
  shows "read_ok x s bs (case inp of None \<Rightarrow> Some (Inl e) | Some (a, cs) \<Rightarrow> f a cs)"
  using assms by (auto split: option.split)

lemma deserialize_step:
  assumes "heap_ok s" "symtab_ok s" "\<And>bs'. bs = PST_PAIR # bs' \<Longrightarrow> read_ok PMT_NIL s bs' (parse_pair n j PMT_NIL PMT_NIL s bs')"
  shows "read_ok PMT_NIL s bs (pmt_deserialize (Suc n) j s bs)"
proof (cases bs)
  case Nil
  have "PMT_EOF < length (cells s)" using assms(1) by (simp add: heap_ok_def PMT_EOF_def)
  then show ?thesis using Nil read_ok_constant [OF assms(2)] by simp
next
  case (Cons tag cs)
  have le: "length cs \<le> length bs" using Cons by simp
  have pair: "read_ok PMT_NIL s bs (parse_pair n j PMT_NIL PMT_NIL s cs)" if "tag = PST_PAIR"
  proof -
    have "bs = PST_PAIR # cs" unfolding Cons that ..
    then show ?thesis by (rule read_ok_longer [OF assms(3) le])
  qed
  note less = heap_okD(1-3) [OF assms(1)]
  have const: "y \<in> {PMT_T, PMT_F, PMT_NIL} \<Longrightarrow> read_ok PMT_NIL s bs (Some (Inr (y, s, cs)))" for y
    using less by (intro read_ok_constant [OF assms(2) le]) auto
  have sym: "read_ok PMT_NIL s bs (case in_u16 cs of None \<Rightarrow> Some (Inl Malformed)
         | Some (k, bs) \<Rightarrow>
             if unat k > 1024 then Some (Inl Not_implemented)
             else if length bs < unat k then Some (Inl Malformed)
             else (case pmt_string_to_symbol (take (unat k) bs) s of None \<Rightarrow> None
                   | Some (x, s) \<Rightarrow> Some (Inr (x, s, drop (unat k) bs))))"
  proof (rule read_ok_case)
    fix k ds assume "in_u16 cs = Some (k, ds)"
    then have "length (drop (unat k) ds) \<le> length bs" using length_in(1) le by fastforce
    then show "read_ok PMT_NIL s bs (if unat k > 1024 then Some (Inl Not_implemented)
             else if length ds < unat k then Some (Inl Malformed)
             else (case pmt_string_to_symbol (take (unat k) ds) s of None \<Rightarrow> None
                   | Some (x, s) \<Rightarrow> Some (Inr (x, s, drop (unat k) ds))))"
      using read_ok_symbol [OF assms(2)] by simp
  qed
  have int: "read_ok PMT_NIL s bs (case in_u32 cs of None \<Rightarrow> Some (Inl Malformed)
         | Some (i, bs) \<Rightarrow> let (x, s) = pmt_from_long (sint i) s in Some (Inr (x, s, bs)))"
    unfolding pmt_from_long_def Let_def
  proof (rule read_ok_case)
    fix i ds assume "in_u32 cs = Some (i, ds)"
    then show "read_ok PMT_NIL s bs (case new (C_integer (sint i)) s of (x, s) \<Rightarrow> Some (Inr (x, s, ds)))"
      using length_in(2) le by (intro read_ok_new [OF assms(2)]) (fastforce simp: no_symbol_def)+
  qed
  have real: "read_ok PMT_NIL s bs (case in_f64 cs of None \<Rightarrow> Some (Inl Malformed)
         | Some (d, bs) \<Rightarrow> let (x, s) = new (c d) s in Some (Inr (x, s, bs)))"
    if "\<And>d. no_symbol (c d)" for c
    unfolding Let_def
  proof (rule read_ok_case)
    fix d ds assume "in_f64 cs = Some (d, ds)"
    then show "read_ok PMT_NIL s bs (case new (c d) s of (x, s) \<Rightarrow> Some (Inr (x, s, ds)))"
      using length_in(3) le by (intro read_ok_new [OF assms(2) that]) fastforce
  qed
  have reals: "\<And>d. no_symbol (C_real d)" "\<And>d. no_symbol (C_complex d j)" by (simp_all add: no_symbol_def)
  show ?thesis
    unfolding Cons pmt_deserialize.simps unfolding Cons [symmetric]
    unfolding pmt_from_double_def pmt_make_rectangular_def
    using pair const sym int real [OF reals(1)] real [OF reals(2)] by simp
qed

lemma read_ok_relink:
  assumes "read_ok y s3 cs r" "\<And>d s4. relinked y d s3 s4 \<Longrightarrow> relinked x p s s4" "length cs \<le> length bs"
  shows "read_ok x s bs r"
proof -
  obtain q where q: "r = Some q" using assms(1) by (auto simp: read_ok_def)
  show ?thesis
    unfolding read_ok_def q
  proof (intro exI conjI allI impI)
    show "Some q = Some q" ..
  next
    fix z s' bs' assume z: "q = Inr (z, s', bs')"
    then obtain d where d: "relinked y d s3 s'" "symtab_ok s'" "length bs' \<le> length cs" "z < length (cells s')"
      using assms(1) q by (auto simp: read_ok_def)
    show "relinked x p s s'" by (rule assms(2) [OF d(1)])
    show "symtab_ok s'" "length bs' \<le> length bs" "z < length (cells s')" using d(2-4) assms(3) by auto
  qed
qed

text \<open>After the item has been read and its node linked; and the last tail.\<close>

lemma car_step:
  assumes "heap_ok s" "place s x" "pmt_deserialize n j s bs = Some (Inr (e, s1, bs1))" "extends s s1" "symtab_ok s1"
  obtains p v s3 where
    "parse_pair (Suc n) j x val s bs = (case bs1 of
         [] \<Rightarrow> Some (Inl Malformed)
       | tag # cs \<Rightarrow>
           if tag = PST_PAIR then parse_pair n j p v s3 cs
           else if tag = PST_NULL then Some (map_sum id (\<lambda>s. (v, s, cs)) (pmt_set_cdr p PMT_NIL s3))
           else next_do (pmt_deserialize n j s3 bs1) (\<lambda>(expr, s, bs).
                  Some (map_sum id (\<lambda>s. (v, s, bs)) (pmt_set_cdr p expr s))))"
    "v = (if x = PMT_NIL then p else val)" "relinked x p s1 s3" "symtab_ok s3" "heap_ok s3" "place s3 p"
    "cells s3 ! p = C_pair e PMT_NIL" "p = length (cells s1)" "length (cells s3) = Suc p" "p \<noteq> PMT_NIL"
    "\<And>d s4. relinked p d s3 s4 \<Longrightarrow> relinked x p s s4"
proof -
  obtain p s2 where c: "pmt_cons e PMT_NIL s1 = (p, s2)" by fastforce
  have h1: "heap_ok s1" using heap_ok_extends [OF assms(1,4)] .
  obtain v s3 where l:
    "(if is_null x then Inr (p, s2) else map_sum id (Pair val) (pmt_set_cdr x p s2)) = Inr (v, s3)"
    "v = (if x = PMT_NIL then p else val)" "relinked x p s1 s3" "symtab_ok s3"
    "cells s3 ! p = C_pair e PMT_NIL" "p = length (cells s1)" "length (cells s3) = Suc p"
    using link_step [OF assms(5) h1 assms(2,4) c, of val] by metis
  have x1: "place s1 x" using assms(2) extends_cell [OF assms(4)] extends_less [OF assms(4)]
    by (auto simp: place_def is_pair_def)
  have h3: "heap_ok s3" by (rule relinked_heap_ok [OF h1 x1 l(3)])
  have p4: "4 \<le> p" "p \<noteq> PMT_NIL" using h1 l(6,7) by (auto simp: heap_ok_def PMT_NIL_def)
  have rel3: "relinked x p s s3"
    using assms(4) l(3) by (auto simp: relinked_def extends_iff)
  have len3: "length (cells s) \<le> p" using extends_length [OF assms(4)] l(6) by simp
  show ?thesis
  proof (rule that [OF _ l(2-4) h3 _ l(5-7) p4(2)])
    show "place s3 p" using p4 l(5,7) by (simp add: place_def is_pair_def)
    show "\<And>d s4. relinked p d s3 s4 \<Longrightarrow> relinked x p s s4" by (rule relinked_trans [OF rel3 len3])
  qed (use assms(3) c l(1) in simp)
qed

lemma last_cdr:
  assumes "cells s3 ! p = C_pair e PMT_NIL" "p < length (cells s3)" "p \<noteq> PMT_NIL" "extends s3 s4" "symtab_ok s4"
  obtains s5 where "pmt_set_cdr p d s4 = Inr s5" "relinked p d s3 s5" "symtab_ok s5" "cells s5 ! p = C_pair e d"
    "length (cells s5) = length (cells s4)" "\<And>c. c < length (cells s4) \<Longrightarrow> c \<noteq> p \<Longrightarrow> cells s5 ! c = cells s4 ! c"
proof -
  have p: "cells s4 ! p = C_pair e PMT_NIL" "p < length (cells s4)"
    using extends_cell [OF assms(4,2)] assms(1) extends_less [OF assms(4,2)] by auto
  obtain s5 where s5: "pmt_set_cdr p d s4 = Inr s5" "relinked p d s4 s5" "symtab_ok s5" "cells s5 ! p = C_pair e d"
      "length (cells s5) = length (cells s4)"
    using set_cdr_relinked [OF p assms(5,3)] by blast
  show ?thesis
    by (rule that [OF s5(1) _ s5(3-5)]) (use s5(2) assms(4) in \<open>auto simp: relinked_def extends_iff\<close>)
qed

lemma pair_step:
  assumes "heap_ok s" "symtab_ok s" "place s x" "val < length (cells s)"
    "read_ok PMT_NIL s bs (pmt_deserialize n j s bs)"
    "\<And>s' bs'. heap_ok s' \<Longrightarrow> symtab_ok s' \<Longrightarrow> length bs' \<le> length bs \<Longrightarrow> read_ok PMT_NIL s' bs' (pmt_deserialize n j s' bs')"
    "\<And>s' bs' y v. heap_ok s' \<Longrightarrow> symtab_ok s' \<Longrightarrow> place s' y \<Longrightarrow> v < length (cells s') \<Longrightarrow> length bs' < length bs
        \<Longrightarrow> read_ok y s' bs' (parse_pair n j y v s' bs')"
  shows "read_ok x s bs (parse_pair (Suc n) j x val s bs)"
proof -
  obtain q where q: "pmt_deserialize n j s bs = Some q" using assms(5) by (auto simp: read_ok_def)
  show ?thesis
  proof (cases q)
    case (Inl e)
    then show ?thesis using q by simp
  next
    case (Inr r)
    obtain e s1 bs1 where r: "q = Inr (e, s1, bs1)" using Inr by (cases r) auto
    have s1: "extends s s1" "symtab_ok s1" "length bs1 \<le> length bs"
      using assms(5) unfolding q r by (simp_all add: read_ok_def)
    note pr = car_step [OF assms(1,3) q [unfolded r] s1(1,2), of val]
    show ?thesis
    proof (rule pr)
      fix p v s3
      assume c: "parse_pair (Suc n) j x val s bs = (case bs1 of
           [] \<Rightarrow> Some (Inl Malformed)
         | tag # cs \<Rightarrow>
             if tag = PST_PAIR then parse_pair n j p v s3 cs
             else if tag = PST_NULL then Some (map_sum id (\<lambda>s. (v, s, cs)) (pmt_set_cdr p PMT_NIL s3))
             else next_do (pmt_deserialize n j s3 bs1) (\<lambda>(expr, s, bs).
                    Some (map_sum id (\<lambda>s. (v, s, bs)) (pmt_set_cdr p expr s))))"
        and l: "v = (if x = PMT_NIL then p else val)" "relinked x p s1 s3" "symtab_ok s3" "heap_ok s3" "place s3 p"
          "cells s3 ! p = C_pair e PMT_NIL" "p = length (cells s1)" "length (cells s3) = Suc p" "p \<noteq> PMT_NIL"
        and rel: "\<And>d s4. relinked p d s3 s4 \<Longrightarrow> relinked x p s s4"
      have v: "v < length (cells s3)" using l(1,7,8) assms(4) extends_length [OF s1(1)] by auto
      have p3: "p < length (cells s3)" using l(8) by simp
      have fin: "read_ok x s bs (Some (map_sum id (\<lambda>s. (v, s, cs)) (pmt_set_cdr p d s4)))"
        if "extends s3 s4" "symtab_ok s4" "length cs \<le> length bs" for d s4 cs
        by (rule last_cdr [OF l(6) p3 l(9) that(1,2), of d])
           (use that v extends_length [OF that(1)] in \<open>auto simp: read_ok_def intro!: exI [of _ p] rel\<close>)
      show "read_ok x s bs (parse_pair (Suc n) j x val s bs)"
      proof (cases bs1)
        case Nil
        then show ?thesis using c by simp
      next
        case (Cons tag cs)
        have next_: "read_ok x s bs (parse_pair n j p v s3 cs)"
          using Cons s1(3) by (intro read_ok_relink [OF assms(7) [OF l(4,3,5) v] rel]) auto
        obtain q2 where q2: "pmt_deserialize n j s3 bs1 = Some q2"
            "\<And>y s4 ds. q2 = Inr (y, s4, ds) \<Longrightarrow> extends s3 s4 \<and> symtab_ok s4 \<and> length ds \<le> length bs"
          using read_ok_longer [OF assms(6) [OF l(4,3) s1(3)] s1(3)] by (auto simp: read_ok_def)
        have last: "read_ok x s bs (next_do (Some q2) (\<lambda>(e, s, bs). Some (map_sum id (\<lambda>s. (v, s, bs)) (pmt_set_cdr p e s))))"
          using q2(2) fin by (cases q2) auto
        show ?thesis
          using next_ last fin [OF extends_refl l(3), of cs PMT_NIL] s1(3) c q2(1) Cons by simp
      qed
    qed
  qed
qed

lemma reads:
  assumes "heap_ok s" "symtab_ok s"
  shows "2 * length bs + 1 \<le> n \<Longrightarrow> read_ok PMT_NIL s bs (pmt_deserialize n j s bs)"
    "place s x \<Longrightarrow> val < length (cells s) \<Longrightarrow> 2 * length bs + 2 \<le> n \<Longrightarrow> read_ok x s bs (parse_pair n j x val s bs)"
  using assms
proof (induction n arbitrary: s bs x val)
  case (Suc n)
  {
    case 1
    show ?case
      using 1 Suc.IH(2) [of s PMT_NIL PMT_NIL] heap_okD(1) by (intro deserialize_step) (auto simp: place_def)
  next
    case 2
    show ?case using 2 Suc.IH by (intro pair_step) auto
  }
qed auto

text \<open>
  C37: deserialising any bytes whatever returns, an object or an exception, with twice their number
  of nested calls at most; what was in the store is unchanged, its constants and the table of
  symbols are in order, and the object is in it.
\<close>

theorem pmt_deserialize_returns:
  assumes "heap_ok s" "symtab_ok s" "2 * length bs + 1 \<le> n"
  shows "\<exists>r. pmt_deserialize n j s bs = Some r \<and> (\<forall>x s' rest. r = Inr (x, s', rest) \<longrightarrow>
     extends s s' \<and> heap_ok s' \<and> symtab_ok s' \<and> x < length (cells s') \<and> length rest \<le> length bs)"
proof -
  obtain q where "pmt_deserialize n j s bs = Some q" "\<And>x s' rest. q = Inr (x, s', rest) \<Longrightarrow>
      extends s s' \<and> symtab_ok s' \<and> length rest \<le> length bs \<and> x < length (cells s')"
    using reads(1) [OF assms, of j] by (auto simp: read_ok_def)
  then show ?thesis using heap_ok_extends [OF assms(1)] by blast
qed

theorem pmt_deserialize_returns_witness:
  "\<exists>r. pmt_deserialize 11 0 pmt_start [7, 7, 2, 0, 1] = Some r"
  using pmt_deserialize_returns [OF pmt_start_ok symtab_start, of "[7, 7, 2, 0, 1]" 11 0] by auto

section \<open>What is read back\<close>

text \<open>
  The tree that arrives, and which ones do: reals have gone through a float; symbols of more than
  1024 bytes are refused, and complex numbers leave bytes behind.
\<close>

fun wire :: "tree \<Rightarrow> tree" where
  "wire (T_real r) = T_real (narrow r)"
| "wire (T_pair a b) = T_pair (wire a) (wire b)"
| "wire t = t"

fun readable :: "tree \<Rightarrow> bool" where
  "readable (T_symbol n) = (length n \<le> 1024)"
| "readable (T_complex r i) = False"
| "readable (T_pair a b) = (readable a \<and> readable b)"
| "readable t = True"

text \<open>
  An object that does not depend on the pairs that were there before, whose tails may still be set.
\<close>

definition agrees :: "pmts \<Rightarrow> pmts \<Rightarrow> pmts \<Rightarrow> bool" where
  "agrees s s' s'' \<longleftrightarrow> (\<forall>c < length (cells s'). c < length (cells s'')
     \<and> (cells s'' ! c = cells s' ! c \<or> c < length (cells s) \<and> is_pair s c))"

definition settled :: "pmts \<Rightarrow> pmts \<Rightarrow> tree \<Rightarrow> addr \<Rightarrow> bool" where
  "settled s s' t x \<longleftrightarrow> (\<forall>s''. agrees s s' s'' \<longrightarrow> repr s'' t x)"

lemma settled_repr: "settled s s' t x \<Longrightarrow> repr s' t x"
  by (auto simp: settled_def agrees_def)

lemma settled_new:
  assumes "new c s = (x, s')" "\<And>s''. x < length (cells s'') \<Longrightarrow> cells s'' ! x = c \<Longrightarrow> repr s'' t x"
  shows "settled s s' t x"
  using assms new_cell [OF assms(1)] by (auto simp: settled_def agrees_def)

lemma settled_symbol:
  assumes "(x, n) \<in> symbols s'" "extends s s'"
  shows "settled s s' (T_symbol n) x"
proof -
  have "x < length (cells s) \<Longrightarrow> \<not> is_pair s x"
    using assms extends_cell [OF assms(2), of x] by (auto simp: symbols_def is_pair_cell)
  then show ?thesis using assms(1) by (auto simp: settled_def agrees_def symbols_def)
qed

lemma settled_pair:
  assumes a: "settled s s1 ta e" and s1: "extends s s1" "place s x"
    and s3: "relinked x p s1 s3" "p = length (cells s1)" "length (cells s3) = Suc p" "cells s3 ! p = C_pair e z"
    and b: "settled s3 s4 tb d" and s4: "\<And>c. c < length (cells s3) \<Longrightarrow> c \<noteq> p \<Longrightarrow> cells s4 ! c = cells s3 ! c"
    and s5: "\<And>c. c < length (cells s4) \<Longrightarrow> c < length (cells s5) \<and> (c \<noteq> p \<longrightarrow> cells s5 ! c = cells s4 ! c)"
      "cells s5 ! p = C_pair e d" "length (cells s3) \<le> length (cells s4)"
  shows "settled s s5 (T_pair ta tb) p"
  unfolding settled_def
proof (intro allI impI)
  fix s'' assume ag: "agrees s s5 s''"
  have len: "length (cells s) \<le> p" "p < length (cells s4)" using extends_length [OF s1(1)] s3(2,3) s5(3) by auto
  then have p: "p < length (cells s'')" "cells s'' ! p = C_pair e d"
    using ag s5(1) [OF len(2)] s5(2) len(1) unfolding agrees_def by (auto dest!: spec [of _ p])
  have pairs: "c < length (cells s3) \<and> is_pair s3 c" if "c < length (cells s)" "is_pair s c" for c
  proof -
    have "cells s1 ! c = cells s ! c" "c < length (cells s1)"
      using extends_cell [OF s1(1) that(1)] extends_less [OF s1(1) that(1)] by auto
    then show ?thesis using s3(1-3) that by (auto simp: relinked_def is_pair_cell)
  qed
  have "agrees s s1 s''"
    unfolding agrees_def
  proof (intro allI impI)
    fix c assume c: "c < length (cells s1)"
    then have c4: "c < length (cells s4)" "c \<noteq> p" "cells s4 ! c = cells s3 ! c" using s3(2,3) s4 s5(3) by auto
    then have s'': "c < length (cells s'')" "cells s'' ! c = cells s3 ! c \<or> c < length (cells s) \<and> is_pair s c"
      using ag s5(1) [OF c4(1)] by (auto simp: agrees_def)
    have "cells s3 ! c = cells s1 ! c \<or> c < length (cells s) \<and> is_pair s c"
      using s3(1) c s1(2) by (auto simp: relinked_def place_def)
    then show "c < length (cells s'') \<and> (cells s'' ! c = cells s1 ! c \<or> c < length (cells s) \<and> is_pair s c)"
      using s'' by auto
  qed
  then have ra: "repr s'' ta e" using a by (simp add: settled_def)
  have "agrees s3 s4 s''"
    unfolding agrees_def
  proof (intro allI impI)
    fix c assume c: "c < length (cells s4)"
    have "c < length (cells s'')" "cells s'' ! c = cells s5 ! c \<or> c < length (cells s) \<and> is_pair s c"
      using ag s5(1) [OF c] by (auto simp: agrees_def)
    moreover have "cells s5 ! c = cells s4 ! c \<or> c < length (cells s3) \<and> is_pair s3 c"
      using s5(1) [OF c] s3(3,4) by (auto simp: is_pair_cell)
    ultimately show "c < length (cells s'') \<and> (cells s'' ! c = cells s4 ! c \<or> c < length (cells s3) \<and> is_pair s3 c)"
      using pairs by auto
  qed
  then have "repr s'' tb d" using b by (simp add: settled_def)
  then show "repr s'' (T_pair ta tb) p" using p ra by simp
qed

lemma encode_tag:
  assumes "encode t = Inr bs"
  shows "\<exists>tag cs. bs = tag # cs \<and> (tag = PST_PAIR \<longleftrightarrow> (\<exists>a b. t = T_pair a b)) \<and> (tag = PST_NULL \<longleftrightarrow> t = T_null)"
  using assms by (cases t) (auto simp: pst_tags split: if_splits sum.splits)

lemma int_survives:
  assumes "- 2147483647 \<le> i" "i \<le> 2147483647"
  shows "sint (word_of_int i :: u32) = i"
  using assms by (simp add: sint_sbintrunc' signed_take_bit_int_eq_self)

lemma size_survives: "k \<le> 1024 \<Longrightarrow> unat (ucast (word_of_nat k :: u32) :: u16) = k"
  by (simp add: unsigned_ucast_eq unsigned_of_nat take_bit_eq_mod)

lemma reads_atom:
  assumes "encode t = Inr bs" "readable t" "\<And>a b. t \<noteq> T_pair a b" "heap_ok s" "symtab_ok s"
  shows "\<exists>x s'. pmt_deserialize (Suc n) j s (bs @ rest) = Some (Inr (x, s', rest)) \<and> extends s s' \<and> symtab_ok s'
    \<and> settled s s' (wire t) x"
proof -
  have new: "\<exists>x s'. new c s = (x, s') \<and> extends s s' \<and> symtab_ok s' \<and> settled s s' u x"
    if "no_symbol c" "\<And>x s''. x < length (cells s'') \<Longrightarrow> cells s'' ! x = c \<Longrightarrow> repr s'' u x" for c u
    using that settled_new [of c s] symtab_ok_new [OF assms(5) _ that(1)] new_extends [of c s]
    by (cases "new c s") auto
  show ?thesis
  proof (cases t)
    case (T_symbol n)
    obtain x s' where "pmt_string_to_symbol n s = Some (x, s')" "extends s s'" "symtab_ok s'" "(x, n) \<in> symbols s'"
      using intern_ok [OF assms(5)] by blast
    then show ?thesis
      using T_symbol assms(1,2) settled_symbol
      by (auto simp: in_out_u16 size_survives pst_tags)
  next
    case (T_integer i)
    obtain x s' where "new (C_integer i) s = (x, s')" "extends s s'" "symtab_ok s'" "settled s s' (T_integer i) x"
      using new [of "C_integer i" "T_integer i"] by (auto simp: no_symbol_def)
    then show ?thesis
      using T_integer assms(1) int_survives [of i]
      by (auto simp: in_out_u32 pst_tags pmt_from_long_def split: if_splits)
  next
    case (T_real r)
    obtain x s' where "new (C_real (narrow r)) s = (x, s')" "extends s s'" "symtab_ok s'"
        "settled s s' (T_real (narrow r)) x"
      using new [of "C_real (narrow r)" "T_real (narrow r)"] by (auto simp: no_symbol_def)
    then show ?thesis
      using T_real assms(1) by (auto simp: in_out_f64 pst_tags pmt_from_double_def)
  qed (use assms in \<open>auto simp: pst_tags settled_def split: if_splits\<close>)
qed

definition tree_reads :: "u64 \<Rightarrow> tree \<Rightarrow> bool" where
  "tree_reads j t \<longleftrightarrow> (\<forall>n s bs rest. encode t = Inr bs \<longrightarrow> heap_ok s \<longrightarrow> symtab_ok s \<longrightarrow> 2 * length (bs @ rest) + 1 \<le> n \<longrightarrow>
     (\<exists>x s'. pmt_deserialize n j s (bs @ rest) = Some (Inr (x, s', rest)) \<and> extends s s' \<and> symtab_ok s'
        \<and> settled s s' (wire t) x))"

definition pair_reads :: "u64 \<Rightarrow> tree \<Rightarrow> tree \<Rightarrow> bool" where
  "pair_reads j t u \<longleftrightarrow> (\<forall>n s x val bs cs rest. encode t = Inr bs \<longrightarrow> encode u = Inr cs \<longrightarrow> heap_ok s \<longrightarrow> symtab_ok s \<longrightarrow>
     place s x \<longrightarrow> 2 * length (bs @ cs @ rest) + 2 \<le> n \<longrightarrow>
     (\<exists>p s'. parse_pair n j x val s (bs @ cs @ rest) = Some (Inr (if x = PMT_NIL then p else val, s', rest))
        \<and> relinked x p s s' \<and> symtab_ok s' \<and> settled s s' (T_pair (wire t) (wire u)) p))"

lemma tree_readsD:
  assumes "tree_reads j t" "encode t = Inr bs" "heap_ok s" "symtab_ok s" "2 * length (bs @ rest) + 1 \<le> n"
  obtains x s' where "pmt_deserialize n j s (bs @ rest) = Some (Inr (x, s', rest))" "extends s s'" "symtab_ok s'"
    "settled s s' (wire t) x"
  using assms unfolding tree_reads_def by blast

lemma pair_readsD:
  assumes "pair_reads j t u" "encode t = Inr bs" "encode u = Inr cs" "heap_ok s" "symtab_ok s" "place s x"
    "2 * length (bs @ cs @ rest) + 2 \<le> n"
  obtains p s' where "parse_pair n j x val s (bs @ cs @ rest) = Some (Inr (if x = PMT_NIL then p else val, s', rest))"
    "relinked x p s s'" "symtab_ok s'" "settled s s' (T_pair (wire t) (wire u)) p"
  using assms unfolding pair_reads_def by blast

lemma pair_reads_step:
  assumes t: "tree_reads j t" and u: "tree_reads j u" and pair: "\<And>a b. u = T_pair a b \<Longrightarrow> pair_reads j a b"
  shows "pair_reads j t u"
  unfolding pair_reads_def
proof (intro allI impI)
  fix n s x val bs cs rest
  assume e: "encode t = Inr bs" "encode u = Inr cs" and s: "heap_ok s" "symtab_ok s" "place s x"
    and fuel: "2 * length (bs @ cs @ rest) + 2 \<le> n"
  obtain m where m: "n = Suc m" "2 * length (bs @ cs @ rest) + 1 \<le> m" using fuel by (cases n) auto
  obtain a s1 where a: "pmt_deserialize m j s (bs @ cs @ rest) = Some (Inr (a, s1, cs @ rest))" "extends s s1" "symtab_ok s1"
      "settled s s1 (wire t) a"
    using tree_readsD [OF t e(1) s(1,2) m(2)] .
  obtain tag ds where tag: "cs = tag # ds" "tag = PST_PAIR \<longleftrightarrow> (\<exists>a b. u = T_pair a b)" "tag = PST_NULL \<longleftrightarrow> u = T_null"
    using encode_tag [OF e(2)] by blast
  note step = car_step [OF s(1,3) a(1-3), of val]
  show "\<exists>p s'. parse_pair n j x val s (bs @ cs @ rest) = Some (Inr (if x = PMT_NIL then p else val, s', rest))
        \<and> relinked x p s s' \<and> symtab_ok s' \<and> settled s s' (T_pair (wire t) (wire u)) p"
  proof (rule step)
    fix p v s3
    assume c: "parse_pair (Suc m) j x val s (bs @ cs @ rest) = (case cs @ rest of
           [] \<Rightarrow> Some (Inl Malformed)
         | tag # ds \<Rightarrow>
             if tag = PST_PAIR then parse_pair m j p v s3 ds
             else if tag = PST_NULL then Some (map_sum id (\<lambda>s. (v, s, ds)) (pmt_set_cdr p PMT_NIL s3))
             else next_do (pmt_deserialize m j s3 (cs @ rest)) (\<lambda>(expr, s, bs).
                    Some (map_sum id (\<lambda>s. (v, s, bs)) (pmt_set_cdr p expr s))))"
      and l: "v = (if x = PMT_NIL then p else val)" "relinked x p s1 s3" "symtab_ok s3" "heap_ok s3" "place s3 p"
        "cells s3 ! p = C_pair a PMT_NIL" "p = length (cells s1)" "length (cells s3) = Suc p" "p \<noteq> PMT_NIL"
      and rel: "\<And>d s4. relinked p d s3 s4 \<Longrightarrow> relinked x p s s4"
    note c = c [unfolded tag(1), simplified]
    have p3: "p < length (cells s3)" using l(8) by simp
    note settle = settled_pair [OF a(4,2) s(3) l(2,7,8,6)]
    show ?thesis
    proof (cases "\<exists>a b. u = T_pair a b")
      case True
      then obtain u1 u2 where u12: "u = T_pair u1 u2" by blast
      then obtain bs1 bs2 where b12: "encode u1 = Inr bs1" "encode u2 = Inr bs2" "ds = bs1 @ bs2"
        using e(2) tag(1) by (auto split: sum.splits)
      have f: "2 * length (bs1 @ bs2 @ rest) + 2 \<le> m" using m(2) tag(1) b12(3) by simp
      obtain q s4 where q: "parse_pair m j p v s3 (bs1 @ bs2 @ rest) = Some (Inr (v, s4, rest))"
          "relinked p q s3 s4" "symtab_ok s4" "settled s3 s4 (T_pair (wire u1) (wire u2)) q"
        by (rule pair_readsD [OF pair [OF u12] b12(1,2) l(4,3,5) f, of v]) (rule that; use l(9) in simp)
      have "settled s s4 (T_pair (wire t) (T_pair (wire u1) (wire u2))) p"
        by (rule settle [OF q(4)]) (use q(2) l(6,9) p3 in \<open>auto simp: relinked_def\<close>)
      then show ?thesis
        using c q(1,3) rel [OF q(2)] tag(2) True l(1) m(1) b12(3) u12 tag(1) by auto
    next
      case False
      show ?thesis
      proof (cases "u = T_null")
        case True
        obtain s5 where s5: "pmt_set_cdr p PMT_NIL s3 = Inr s5" "relinked p PMT_NIL s3 s5" "symtab_ok s5"
            "cells s5 ! p = C_pair a PMT_NIL" "length (cells s5) = length (cells s3)"
            "\<And>c. c < length (cells s3) \<Longrightarrow> c \<noteq> p \<Longrightarrow> cells s5 ! c = cells s3 ! c"
          by (rule last_cdr [OF l(6) p3 l(9) extends_refl l(3), of PMT_NIL]) (rule that)
        have "settled s3 s3 T_null PMT_NIL" by (simp add: settled_def)
        then have "settled s s5 (T_pair (wire t) T_null) p"
          by (rule settle) (use s5 in auto)
        then show ?thesis
          using c s5(1,3) rel [OF s5(2)] tag True False l(1) m(1) e(2) by auto
      next
        case null: False
        have f: "2 * length (cs @ rest) + 1 \<le> m" using m(2) by simp
        obtain d s4 where d: "pmt_deserialize m j s3 (cs @ rest) = Some (Inr (d, s4, rest))" "extends s3 s4" "symtab_ok s4"
            "settled s3 s4 (wire u) d"
          using tree_readsD [OF u e(2) l(4,3) f] .
        obtain s5 where s5: "pmt_set_cdr p d s4 = Inr s5" "relinked p d s3 s5" "symtab_ok s5"
            "cells s5 ! p = C_pair a d" "length (cells s5) = length (cells s4)"
            "\<And>c. c < length (cells s4) \<Longrightarrow> c \<noteq> p \<Longrightarrow> cells s5 ! c = cells s4 ! c"
          by (rule last_cdr [OF l(6) p3 l(9) d(2,3), of d]) (rule that)
        have "settled s s5 (T_pair (wire t) (wire u)) p"
          by (rule settle [OF d(4)]) (use s5 extends_cell [OF d(2)] extends_length [OF d(2)] in auto)
        then show ?thesis
          using c d(1) s5(1,3) rel [OF s5(2)] tag null False l(1) m(1) by auto
      qed
    qed
  qed
qed

lemma pair_tree_reads:
  assumes "pair_reads j t u"
  shows "tree_reads j (T_pair t u)"
  unfolding tree_reads_def
proof (intro allI impI)
  fix n s bs rest
  assume e: "encode (T_pair t u) = Inr bs" and s: "heap_ok s" "symtab_ok s" and fuel: "2 * length (bs @ rest) + 1 \<le> n"
  obtain bs1 bs2 where b: "encode t = Inr bs1" "encode u = Inr bs2" "bs = PST_PAIR # bs1 @ bs2"
    using e by (auto split: sum.splits)
  obtain m where m: "n = Suc m" "2 * length (bs1 @ bs2 @ rest) + 2 \<le> m" using fuel b(3) by (cases n) auto
  have "place s PMT_NIL" by (simp add: place_def)
  then obtain p s' where "parse_pair m j PMT_NIL PMT_NIL s (bs1 @ bs2 @ rest) = Some (Inr (p, s', rest))"
      "relinked PMT_NIL p s s'" "symtab_ok s'" "settled s s' (T_pair (wire t) (wire u)) p"
    by (rule pair_readsD [OF assms b(1,2) s _ m(2), of PMT_NIL PMT_NIL]) (rule that; simp)
  then show "\<exists>x s'. pmt_deserialize n j s (bs @ rest) = Some (Inr (x, s', rest)) \<and> extends s s' \<and> symtab_ok s'
        \<and> settled s s' (wire (T_pair t u)) x"
    using m(1) b(3) by (auto simp: pst_tags)
qed

lemma atom_tree_reads:
  assumes "readable t" "\<And>a b. t \<noteq> T_pair a b"
  shows "tree_reads j t"
  unfolding tree_reads_def
proof (intro allI impI)
  fix n s bs rest
  assume "encode t = Inr bs" "heap_ok s" "symtab_ok s" "2 * length (bs @ rest) + 1 \<le> n"
  then show "\<exists>x s'. pmt_deserialize n j s (bs @ rest) = Some (Inr (x, s', rest)) \<and> extends s s' \<and> symtab_ok s'
        \<and> settled s s' (wire t) x"
    using reads_atom [of t bs s] assms by (cases n) auto
qed

lemma readable_reads:
  "readable t \<Longrightarrow> tree_reads j t \<and> (\<forall>a b. t = T_pair a b \<longrightarrow> pair_reads j a b)"
proof (induction t)
  case (T_pair t u)
  have r: "readable t" "readable u" using T_pair.prems by simp_all
  note t = conjunct1 [OF T_pair.IH(1) [OF r(1)]]
  note u = T_pair.IH(2) [OF r(2)]
  have "pair_reads j t u" by (rule pair_reads_step [OF t conjunct1 [OF u]]) (use u in blast)
  then show ?case by (simp add: pair_tree_reads)
qed (rule conjI, rule atom_tree_reads, assumption, simp (no_asm), simp (no_asm))+

text \<open>
  C5: round trip.  What one process serialises, another reads back as an object that stands for the
  same tree, except that reals are rounded to floats, and leaves the bytes behind it alone: for
  every object that can be serialised and has no complex number and no symbol of more than 1024
  bytes in it.
\<close>

theorem deserialize_serialize:
  assumes "heap_ok s" "repr s t x" "pmt_serialize s x = Some (Inr bs)" "readable t"
    "heap_ok s2" "symtab_ok s2" "2 * length (bs @ rest) + 1 \<le> n"
  shows "\<exists>y s3. pmt_deserialize n j s2 (bs @ rest) = Some (Inr (y, s3, rest))
    \<and> extends s2 s3 \<and> symtab_ok s3 \<and> repr s3 (wire t) y"
proof -
  have e: "encode t = Inr bs" using serialize_encode [OF assms(1,2)] assms(3) by simp
  have t: "tree_reads j t" using readable_reads [OF assms(4)] by blast
  obtain y s3 where "pmt_deserialize n j s2 (bs @ rest) = Some (Inr (y, s3, rest))" "extends s2 s3" "symtab_ok s3"
      "settled s2 s3 (wire t) y"
    by (rule tree_readsD [OF t e assms(5-7)])
  then show ?thesis using settled_repr by blast
qed

theorem deserialize_serialize_witness:
  "\<exists>y s3. pmt_deserialize 17 0 pmt_start [7, 3, 0, 0, 0, 5, 6, 9] = Some (Inr (y, s3, [9]))
    \<and> repr s3 (T_pair (T_integer 5) T_null) y"
proof -
  have len: "length (cells sample_store) = 10" by (simp add: sample_store_def pmt_start_def)
  have r: "repr sample_store (T_pair (T_integer 5) T_null) 5"
    by (simp_all add: len) (simp_all add: sample_store_def pmt_start_def PMT_NIL_def)
  have e: "pmt_serialize sample_store 5 = Some (Inr [7, 3, 0, 0, 0, 5, 6])"
    using serialize_encode [OF sample_ok(1) r] by (simp add: pst_tags out_u32_def)
  show ?thesis
    using deserialize_serialize [OF sample_ok(1) r e _ pmt_start_ok symtab_start, of "[9]" 17 0] by auto
qed

text \<open>
  A complex number does not survive.  Its sixteen bytes are written, but the reader takes eight
  for the real part, gives the imaginary part whatever was in the variable, and leaves the other
  eight bytes in the stream, where they are taken for the next object.
\<close>

theorem complex_lost:
  assumes "heap_ok s" "x < length (cells s)" "cells s ! x = C_complex re im"
  shows "\<exists>bs y s3. pmt_serialize s x = Some (Inr bs)
    \<and> pmt_deserialize (Suc n) j s2 (bs @ rest) = Some (Inr (y, s3, out_f64 im @ rest))
    \<and> cells s3 ! y = C_complex re j"
proof -
  have "pmt_serialize s x = Some (Inr (PST_COMPLEX # out_f64 re @ out_f64 im))"
    using serialize_encode [OF assms(1), of "T_complex re im" x] assms(2,3) by simp
  moreover have "pmt_deserialize (Suc n) j s2 ((PST_COMPLEX # out_f64 re @ out_f64 im) @ rest) =
      Some (Inr (length (cells s2), s2\<lparr> cells := cells s2 @ [C_complex re j] \<rparr>, out_f64 im @ rest))"
    by (simp add: in_out_f64 pst_tags pmt_make_rectangular_def new_def)
  moreover have "(cells s2 @ [C_complex re j]) ! length (cells s2) = C_complex re j" by simp
  ultimately show ?thesis by fastforce
qed

definition complex_store :: pmts where
  "complex_store = pmt_start\<lparr> cells := cells pmt_start @ [C_complex 0 0x3ff0000000000000] \<rparr>"

theorem complex_lost_witness:
  "\<exists>bs y s3. pmt_serialize complex_store 4 = Some (Inr bs)
    \<and> pmt_deserialize (Suc 0) 7 pmt_start bs = Some (Inr (y, s3, [0x3f, 0xf0, 0, 0, 0, 0, 0, 0]))
    \<and> cells s3 ! y = C_complex 0 7"
proof -
  have "heap_ok complex_store"
    by (rule heap_ok_extends [OF pmt_start_ok]) (simp add: complex_store_def extends_def)
  moreover have "4 < length (cells complex_store)" "cells complex_store ! 4 = C_complex 0 0x3ff0000000000000"
    by (simp_all add: complex_store_def pmt_start_def)
  moreover have "out_f64 0x3ff0000000000000 = [0x3f, 0xf0, 0, 0, 0, 0, 0, 0]" by code_simp
  ultimately show ?thesis
    using complex_lost [of complex_store 4 0 "0x3ff0000000000000" 0 7 pmt_start "[]"] by simp
qed

text \<open>A tenth is not a float.\<close>

lemma narrow_tenth: "narrow 0x3fb999999999999a = 0x3fb99999a0000000"
  by (simp add: narrow_def narrow_magnitude_def round_even_def)

end
