(* ===== verification/Gr_Buffer.thy ===== *)
theory Gr_Buffer
  imports Pmt_Lists "HOL-Library.AList" "HOL-Library.Signed_Division"
begin

text \<open>
  The buffers between blocks (\<open>gr_buffer.h\<close>, \<open>gr_buffer.cc\<close> under
  \<open>gnuradio-core/src/lib/runtime\<close>): one writer, any number of readers, and the tags on items.  The
  memory is a list of items; the source maps it twice in a row, so a pointer to an item may be used
  for as many items as the buffer has, and positions count modulo its size.  A failed assertion
  and an exception are results.  Readers are named by their addresses.
\<close>

section \<open>State\<close>

datatype gr_error =
    Assertion_failed | Invalid_argument | Runtime_error | Bad_alloc | Null_pointer | Pmt_exception pmt_error

type_synonym 'a gr = "gr_error + 'a"

definition gr_bind :: "'a gr \<Rightarrow> ('a \<Rightarrow> 'b gr) \<Rightarrow> 'b gr" where
  "gr_bind x f = (case x of Inl e \<Rightarrow> Inl e | Inr y \<Rightarrow> f y)"

lemma gr_bind_simps [simp]: "gr_bind (Inl e) f = Inl e" "gr_bind (Inr x) f = f x"
  by (simp_all add: gr_bind_def)

lemma gr_bind_Inr_iff: "gr_bind x f = Inr z \<longleftrightarrow> (\<exists>y. x = Inr y \<and> f y = Inr z)"
  by (cases x) auto

lemma map_sum_Inr_iff: "map_sum f g x = Inr z \<longleftrightarrow> (\<exists>y. x = Inr y \<and> z = g y)"
  by (cases x) auto

record reader =
  d_read_index :: u32
  d_abs_read_offset :: u64

record 'a buffer =
  d_base :: "'a list"
  d_bufsize :: u32
  d_readers :: "(nat \<times> reader) list"
  d_write_index :: u32
  d_abs_write_offset :: u64
  d_done :: bool
  d_item_tags :: "addr list"
  d_last_min_items_read :: u64

section \<open>Allocation\<close>

definition minimum_buffer_items :: "int \<Rightarrow> int \<Rightarrow> int" where
  "minimum_buffer_items type_size page_size = page_size div gcd type_size page_size"

definition round_up_items :: "int \<Rightarrow> int \<Rightarrow> int" where
  "round_up_items nitems min_nitems =
     (if nitems smod min_nitems \<noteq> 0 then (nitems sdiv min_nitems + 1) * min_nitems else nitems)"

text \<open>
  A new buffer: the granularity of the machine and the memory that its mapping gives, if any, are
  parameters.
\<close>

definition gr_make_buffer :: "int \<Rightarrow> int \<Rightarrow> int \<Rightarrow> (u32 \<Rightarrow> 'a list option) \<Rightarrow> 'a buffer option" where
  "gr_make_buffer granularity nitems sizeof_item map_memory =
     (let n = word_of_int (round_up_items nitems (minimum_buffer_items sizeof_item granularity))
      in map_option (\<lambda>base. \<lparr> d_base = base, d_bufsize = n, d_readers = [], d_write_index = 0,
           d_abs_write_offset = 0, d_done = False, d_item_tags = [], d_last_min_items_read = 0 \<rparr>) (map_memory n))"

section \<open>Indices\<close>

definition index_add :: "'a buffer \<Rightarrow> u32 \<Rightarrow> u32 \<Rightarrow> u32 gr" where
  "index_add b x y =
     (let s = x + y; s = (if s \<ge> d_bufsize b then s - d_bufsize b else s)
      in if s < d_bufsize b then Inr s else Inl Assertion_failed)"

definition index_sub :: "'a buffer \<Rightarrow> u32 \<Rightarrow> u32 \<Rightarrow> u32 gr" where
  "index_sub b x y =
     (let s = x - y; s = (if s <s 0 then s + d_bufsize b else s)
      in if s < d_bufsize b then Inr s else Inl Assertion_failed)"

section \<open>Readers\<close>

definition items_available :: "'a buffer \<Rightarrow> reader \<Rightarrow> int gr" where
  "items_available b r = map_sum id sint (index_sub b (d_write_index b) (d_read_index r))"

definition max_possible_items_available :: "'a buffer \<Rightarrow> int" where
  "max_possible_items_available b = sint (d_bufsize b - 1)"

definition gr_buffer_add_reader :: "nat \<Rightarrow> int \<Rightarrow> 'a buffer \<Rightarrow> 'a buffer gr" where
  "gr_buffer_add_reader r nzero_preload b =
     (if nzero_preload < 0 then Inl Invalid_argument
      else gr_bind (index_sub b (d_write_index b) (word_of_int nzero_preload)) (\<lambda>i.
        Inr (b\<lparr> d_readers := d_readers b @ [(r, \<lparr> d_read_index = i, d_abs_read_offset = 0 \<rparr>)] \<rparr>)))"

fun erase_reader :: "nat \<Rightarrow> (nat \<times> reader) list \<Rightarrow> (nat \<times> reader) list gr" where
  "erase_reader r [] = Inl Invalid_argument"
| "erase_reader r (e # es) = (if fst e = r then Inr es else map_sum id ((#) e) (erase_reader r es))"

definition drop_reader :: "nat \<Rightarrow> 'a buffer \<Rightarrow> 'a buffer gr" where
  "drop_reader r b = map_sum id (\<lambda>rs. b\<lparr> d_readers := rs \<rparr>) (erase_reader r (d_readers b))"

definition update_read_pointer :: "nat \<Rightarrow> int \<Rightarrow> 'a buffer \<Rightarrow> 'a buffer gr" where
  "update_read_pointer r nitems b =
     (case map_of (d_readers b) r of
        None \<Rightarrow> Inl Runtime_error
      | Some rd \<Rightarrow>
          gr_bind (index_add b (d_read_index rd) (word_of_int nitems)) (\<lambda>i.
            Inr (b\<lparr> d_readers := AList.update r (rd\<lparr> d_read_index := i,
                     d_abs_read_offset := d_abs_read_offset rd + word_of_int nitems \<rparr>) (d_readers b) \<rparr>)))"

section \<open>The writer\<close>

definition update_write_pointer :: "int \<Rightarrow> 'a buffer \<Rightarrow> 'a buffer gr" where
  "update_write_pointer nitems b =
     gr_bind (index_add b (d_write_index b) (word_of_int nitems)) (\<lambda>i.
       Inr (b\<lparr> d_write_index := i, d_abs_write_offset := d_abs_write_offset b + word_of_int nitems \<rparr>))"

definition set_done :: "bool \<Rightarrow> 'a buffer \<Rightarrow> 'a buffer" where
  "set_done done b = b\<lparr> d_done := done \<rparr>"

text \<open>The item that a tag is on: \<open>pmt_to_uint64(pmt_tuple_ref(tag, 0))\<close>, which may raise.\<close>

definition item_time :: "pmts \<Rightarrow> addr \<Rightarrow> u64 gr" where
  "item_time s tag = map_sum Pmt_exception id (bind_res (pmt_tuple_ref s tag 0) (pmt_to_uint64 s))"

definition add_item_tag :: "addr \<Rightarrow> 'a buffer \<Rightarrow> 'a buffer" where
  "add_item_tag tag b = b\<lparr> d_item_tags := d_item_tags b @ [tag] \<rparr>"

text \<open>The scan for a tag to erase, which starts again from the first tag after every erasure.\<close>

fun find_old :: "pmts \<Rightarrow> u64 \<Rightarrow> addr list \<Rightarrow> nat option gr" where
  "find_old s max_time [] = Inr None"
| "find_old s max_time (t # ts) =
     gr_bind (item_time s t) (\<lambda>item_time.
       if item_time < max_time then Inr (Some 0)
       else map_sum id (map_option Suc) (find_old s max_time ts))"

lemma find_old_less: "find_old s m ts = Inr (Some k) \<Longrightarrow> k < length ts"
proof (induction ts arbitrary: k)
  case (Cons t ts)
  then show ?case by (cases "find_old s m ts") (auto simp: gr_bind_Inr_iff split: if_splits)
qed simp

function prune_loop :: "pmts \<Rightarrow> u64 \<Rightarrow> addr list \<Rightarrow> addr list gr" where
  "prune_loop s max_time ts =
     (case find_old s max_time ts of
        Inl e \<Rightarrow> Inl e
      | Inr None \<Rightarrow> Inr ts
      | Inr (Some k) \<Rightarrow> prune_loop s max_time (take k ts @ drop (Suc k) ts))"
  by pat_completeness auto
termination
  by (relation "measure (\<lambda>(s, m, ts). length ts)") (auto dest: find_old_less)

declare prune_loop.simps [simp del]

definition prune_tags :: "pmts \<Rightarrow> u64 \<Rightarrow> 'a buffer \<Rightarrow> 'a buffer gr" where
  "prune_tags s max_time b = map_sum id (\<lambda>ts. b\<lparr> d_item_tags := ts \<rparr>) (prune_loop s max_time (d_item_tags b))"

fun most_data :: "'a buffer \<Rightarrow> (nat \<times> reader) list \<Rightarrow> int \<Rightarrow> u64 \<Rightarrow> (int \<times> u64) gr" where
  "most_data b [] most min_read = Inr (most, min_read)"
| "most_data b (r # rs) most min_read =
     gr_bind (items_available b (snd r)) (\<lambda>n.
       most_data b rs (max most n) (min min_read (d_abs_read_offset (snd r))))"

definition space_available :: "pmts \<Rightarrow> 'a buffer \<Rightarrow> (int \<times> 'a buffer) gr" where
  "space_available s b =
     (case d_readers b of
        [] \<Rightarrow> Inr (sint (d_bufsize b - 1), b)
      | r # rs \<Rightarrow>
          gr_bind (items_available b (snd r)) (\<lambda>n.
          gr_bind (most_data b rs n (d_abs_read_offset (snd r))) (\<lambda>(most, min_read).
          gr_bind (if min_read \<noteq> d_last_min_items_read b
                   then map_sum id (\<lambda>b. b\<lparr> d_last_min_items_read := min_read \<rparr>)
                          (prune_tags s (d_last_min_items_read b) b)
                   else Inr b) (\<lambda>b'.
          Inr (sint (d_bufsize b - word_of_int most - 1), b')))))"

fun tags_in_range :: "pmts \<Rightarrow> u64 \<Rightarrow> u64 \<Rightarrow> addr list \<Rightarrow> addr list gr" where
  "tags_in_range s abs_start abs_end [] = Inr []"
| "tags_in_range s abs_start abs_end (t # ts) =
     gr_bind (item_time s t) (\<lambda>item_time.
       map_sum id (if item_time \<ge> abs_start \<and> item_time < abs_end then (#) t else id)
         (tags_in_range s abs_start abs_end ts))"

definition get_tags_in_range :: "pmts \<Rightarrow> 'a buffer \<Rightarrow> u64 \<Rightarrow> u64 \<Rightarrow> addr list gr" where
  "get_tags_in_range s b abs_start abs_end = tags_in_range s abs_start abs_end (d_item_tags b)"

section \<open>Memory\<close>

text \<open>What is read and written through the pointers, around the end of the memory.\<close>

definition ring_get :: "'a list \<Rightarrow> nat \<Rightarrow> nat \<Rightarrow> 'a list" where
  "ring_get m i n = map (\<lambda>k. m ! ((i + k) mod length m)) [0..<n]"

fun ring_put :: "'a list \<Rightarrow> nat \<Rightarrow> 'a list \<Rightarrow> 'a list" where
  "ring_put m i [] = m"
| "ring_put m i (x # xs) = ring_put (m[i mod length m := x]) (Suc i) xs"

definition read_items :: "'a buffer \<Rightarrow> reader \<Rightarrow> nat \<Rightarrow> 'a list" where
  "read_items b r n = ring_get (d_base b) (unat (d_read_index r)) n"

definition write_items :: "'a list \<Rightarrow> 'a buffer \<Rightarrow> 'a buffer" where
  "write_items xs b = b\<lparr> d_base := ring_put (d_base b) (unat (d_write_index b)) xs \<rparr>"

end
