(* ===== verification/Gr_Fifo.thy ===== *)
theory Gr_Fifo
  imports Gr_Buffer
begin

text \<open>
  What a buffer promises: every reader gets the items that were written, in order and without loss,
  behind the zeros it was attached with, whatever the wrapping of the indices; no assertion fails.
  Tags stay as long as their item is still to be read.
\<close>

section \<open>Indices modulo the size\<close>

declare of_nat_unat [simp del]

lemma sint_u32: "sint (w :: u32) = (if unat w < 2 ^ 31 then int (unat w) else int (unat w) - 2 ^ 32)"
proof -
  have "LENGTH(32) - Suc 0 = 31" "Suc 31 = 32" by simp_all
  then have s: "sint w = (uint w + 2 ^ 31) mod 2 ^ 32 - 2 ^ 31"
    unfolding sint_uint signed_take_bit_eq_take_bit_shift take_bit_eq_mod by (simp only:)
  define n where "n = unat w"
  have u: "uint w = int n" unfolding n_def by (rule uint_nat)
  have n: "n < 2 ^ 32" using uint_bounded [of w] unfolding u by simp
  show ?thesis
  proof (cases "n < 2 ^ 31")
    case True
    then show ?thesis unfolding s u n_def [symmetric] by (simp add: mod_pos_pos_trivial)
  next
    case False
    have "(int n + 2 ^ 31) mod 2 ^ 32 = (int n + 2 ^ 31 - 2 ^ 32) mod 2 ^ 32" by (rule minus_mod_self2 [symmetric])
    also have "\<dots> = int n + 2 ^ 31 - 2 ^ 32" by (rule mod_pos_pos_trivial) (use False n in simp_all)
    finally show ?thesis using False unfolding s u n_def [symmetric] by simp
  qed
qed

lemma sint_small: "unat w < 2 ^ 31 \<Longrightarrow> sint (w :: u32) = int (unat w)"
  unfolding sint_u32 by simp

lemma unat_word_of_int: "0 \<le> n \<Longrightarrow> n < 2 ^ 32 \<Longrightarrow> unat (word_of_int n :: u32) = nat n"
  by (simp add: unat_eq_nat_uint uint_word_of_int take_bit_eq_mod)

lemma index_add_unat:
  assumes "unat (d_bufsize b) < 2 ^ 31" "unat x < unat (d_bufsize b)" "unat y \<le> unat (d_bufsize b)"
  shows "\<exists>s. index_add b x y = Inr s \<and> unat s = (unat x + unat y) mod unat (d_bufsize b)"
proof -
  let ?n = "unat (d_bufsize b)"
  have add: "unat (x + y) = unat x + unat y" using assms by (simp add: unat_plus_if')
  show ?thesis
  proof (cases "unat x + unat y < ?n")
    case True
    then show ?thesis using add by (auto simp: index_add_def Let_def word_le_nat_alt word_less_nat_alt)
  next
    case False
    then have "unat (x + y - d_bufsize b) = unat x + unat y - ?n" using add by (simp add: unat_sub_if')
    moreover have "(unat x + unat y) mod ?n = unat x + unat y - ?n"
      using False assms(2,3) by (simp add: mod_if)
    ultimately show ?thesis
      using False add assms(2,3) by (auto simp: index_add_def Let_def word_le_nat_alt word_less_nat_alt)
  qed
qed

lemma index_sub_unat:
  assumes "unat (d_bufsize b) < 2 ^ 31" "unat x < unat (d_bufsize b)" "unat y < unat (d_bufsize b)"
  shows "\<exists>s. index_sub b x y = Inr s \<and> unat s = (unat x + unat (d_bufsize b) - unat y) mod unat (d_bufsize b)"
proof (cases "unat y \<le> unat x")
  case True
  then have "unat (x - y) = unat x - unat y" by (simp add: unat_sub_if')
  moreover from this have "\<not> x - y <s 0" using assms by (simp add: word_sless_alt sint_small)
  moreover have "(unat x + unat (d_bufsize b) - unat y) mod unat (d_bufsize b) = unat x - unat y"
    using True assms(2) by (simp add: mod_if)
  ultimately show ?thesis using assms(2) True by (auto simp: index_sub_def Let_def word_less_nat_alt)
next
  case False
  let ?n = "unat (d_bufsize b)"
  have s: "unat (x - y) = 2 ^ 32 + unat x - unat y" using False by (simp add: unat_sub_if')
  have "\<not> unat (x - y) < 2 ^ 31" "unat (x - y) < 2 ^ 32" using s assms False by auto
  then have "sint (x - y) < 0" unfolding sint_u32 [of "x - y"] by (simp only: if_False) simp
  then have "x - y <s 0" by (simp add: word_sless_alt)
  moreover have "unat (x - y + d_bufsize b) = unat x + ?n - unat y"
    using s False assms by (simp add: unat_plus_if')
  ultimately show ?thesis using False assms by (auto simp: index_sub_def Let_def word_less_nat_alt)
qed

lemma mod_diff_back: "q \<le> p \<Longrightarrow> p < q + n \<Longrightarrow> (p mod n + n - q mod n) mod n = p - (q :: nat)"
proof -
  assume a: "q \<le> p" "p < q + n"
  then have n: "0 < n" by simp
  have "int (p mod n + n - q mod n) = int p mod int n - int q mod int n + int n"
    using mod_less_divisor [OF n, of q] by (simp add: zmod_int of_nat_diff less_imp_le)
  then have "int ((p mod n + n - q mod n) mod n) = (int p mod int n - int q mod int n) mod int n"
    by (simp only: zmod_int mod_add_self2)
  also have "\<dots> = (int p - int q) mod int n" by (rule mod_diff_eq)
  also have "\<dots> = int (p - q)" using a by (simp add: of_nat_diff)
  finally show ?thesis by linarith
qed

section \<open>The ring\<close>

lemma length_ring_put [simp]: "length (ring_put m i xs) = length m"
  by (induction m i xs rule: ring_put.induct) auto

lemma length_ring_get [simp]: "length (ring_get m i n) = n"
  by (simp add: ring_get_def)

lemma ring_put_mod: "ring_put m (i mod length m) xs = ring_put m i xs"
  by (induction xs arbitrary: m i) (simp_all, metis length_list_update mod_Suc_eq)

text \<open>The memory holds the last items of a history, as many as it has room for.\<close>

definition window :: "'a list \<Rightarrow> 'a list \<Rightarrow> bool" where
  "window m hist \<longleftrightarrow> (\<forall>i < length hist. length hist \<le> i + length m \<longrightarrow> m ! (i mod length m) = hist ! i)"

lemma window_start: "window m m"
  by (simp add: window_def)

lemma mod_neq_near:
  assumes "i < j" "j < i + n"
  shows "i mod n \<noteq> j mod (n :: nat)"
proof
  assume "i mod n = j mod n"
  then have "n dvd j - i" using mod_eq_dvd_iff_nat [of i j n] assms(1) by simp
  then show False using assms by (auto dest: dvd_imp_le)
qed

lemma window_snoc:
  assumes "window m hist" "m \<noteq> []"
  shows "window (m[length hist mod length m := x]) (hist @ [x])"
  unfolding window_def
proof (intro allI impI)
  fix i assume i: "i < length (hist @ [x])" "length (hist @ [x]) \<le> i + length (m[length hist mod length m := x])"
  show "m[length hist mod length m := x] ! (i mod length (m[length hist mod length m := x])) = (hist @ [x]) ! i"
  proof (cases "i = length hist")
    case True
    then show ?thesis using assms(2) by simp
  next
    case False
    then have "i mod length m \<noteq> length hist mod length m" using i by (intro mod_neq_near) auto
    then show ?thesis using assms(1) False i by (simp add: window_def nth_append)
  qed
qed

lemma window_put: "window m hist \<Longrightarrow> m \<noteq> [] \<Longrightarrow> window (ring_put m (length hist) xs) (hist @ xs)"
proof (induction xs arbitrary: m hist)
  case (Cons x xs)
  from Cons.IH [OF window_snoc [OF Cons.prems(1,2), of x]] Cons.prems(2) show ?case by simp
qed simp

lemma window_get:
  assumes "window m hist" "p + n \<le> length hist" "length hist \<le> p + length m"
  shows "ring_get m (p mod length m) n = take n (drop p hist)"
proof (rule nth_equalityI)
  fix k assume "k < length (ring_get m (p mod length m) n)"
  then have k: "k < n" by simp
  then have "m ! ((p + k) mod length m) = hist ! (p + k)" using assms by (simp add: window_def)
  then show "ring_get m (p mod length m) n ! k = take n (drop p hist) ! k"
    using k assms(2) by (simp add: ring_get_def mod_simps)
qed (use assms in simp)

section \<open>The invariant\<close>

text \<open>
  The history is the memory at the start and all that was written since; every reader has a
  position in it, at most a buffer's size behind.
\<close>

definition reader_at :: "nat \<Rightarrow> nat \<Rightarrow> nat \<Rightarrow> reader \<Rightarrow> bool" where
  "reader_at n w p r \<longleftrightarrow> p \<le> w \<and> w < p + n \<and> unat (d_read_index r) = p mod n"

definition buffer_ok :: "'a buffer \<Rightarrow> 'a list \<Rightarrow> (nat \<Rightarrow> nat) \<Rightarrow> bool" where
  "buffer_ok b hist pos \<longleftrightarrow> length (d_base b) = unat (d_bufsize b) \<and> 0 < unat (d_bufsize b) \<and> unat (d_bufsize b) < 2 ^ 31
     \<and> window (d_base b) hist \<and> unat (d_bufsize b) \<le> length hist
     \<and> unat (d_write_index b) = length hist mod unat (d_bufsize b)
     \<and> distinct (map fst (d_readers b))
     \<and> (\<forall>e \<in> set (d_readers b). reader_at (unat (d_bufsize b)) (length hist) (pos (fst e)) (snd e))"

lemma buffer_okD:
  assumes "buffer_ok b hist pos"
  shows "length (d_base b) = unat (d_bufsize b)" "0 < unat (d_bufsize b)" "unat (d_bufsize b) < 2 ^ 31"
    "window (d_base b) hist" "unat (d_bufsize b) \<le> length hist"
    "unat (d_write_index b) = length hist mod unat (d_bufsize b)" "distinct (map fst (d_readers b))"
    "(i, r) \<in> set (d_readers b) \<Longrightarrow> reader_at (unat (d_bufsize b)) (length hist) (pos i) r"
  using assms by (auto simp: buffer_ok_def)

lemma available_ok:
  assumes "buffer_ok b hist pos" "(i, r) \<in> set (d_readers b)"
  shows "items_available b r = Inr (int (length hist - pos i))"
proof -
  let ?n = "unat (d_bufsize b)"
  note ok = buffer_okD [OF assms(1)]
  have r: "pos i \<le> length hist" "length hist < pos i + ?n" "unat (d_read_index r) = pos i mod ?n"
    using ok(8) [OF assms(2)] by (auto simp: reader_at_def)
  have less: "unat (d_write_index b) < ?n" "unat (d_read_index r) < ?n" using ok(2,6) r(3) by simp_all
  obtain s where s: "index_sub b (d_write_index b) (d_read_index r) = Inr s"
      "unat s = (length hist mod ?n + ?n - pos i mod ?n) mod ?n"
    using index_sub_unat [OF ok(3) less] r(3) ok(6) by metis
  then have "unat s = length hist - pos i" using mod_diff_back [OF r(1,2)] by simp
  moreover from this have "sint s = int (unat s)" using r ok(3) by (intro sint_small) simp
  ultimately show ?thesis using s(1) by (simp add: items_available_def)
qed

lemma most_data_ok:
  assumes "\<And>e. e \<in> set rs \<Longrightarrow> items_available b (snd e) = Inr (f e)"
  shows "\<exists>k t'. most_data b rs m t = Inr (k, t') \<and> m \<le> k \<and> (\<forall>e \<in> set rs. f e \<le> k) \<and> (k = m \<or> k \<in> f ` set rs)
    \<and> t' \<le> t \<and> (\<forall>e \<in> set rs. t' \<le> d_abs_read_offset (snd e)) \<and> (t' = t \<or> t' \<in> (d_abs_read_offset \<circ> snd) ` set rs)"
  using assms
proof (induction rs arbitrary: m t)
  case (Cons e rs)
  have e: "items_available b (snd e) = Inr (f e)" using Cons.prems by simp
  obtain k t' where k: "most_data b rs (max m (f e)) (min t (d_abs_read_offset (snd e))) = Inr (k, t')"
      "max m (f e) \<le> k" "\<forall>e \<in> set rs. f e \<le> k" "k = max m (f e) \<or> k \<in> f ` set rs"
      "t' \<le> min t (d_abs_read_offset (snd e))" "\<forall>e \<in> set rs. t' \<le> d_abs_read_offset (snd e)"
      "t' = min t (d_abs_read_offset (snd e)) \<or> t' \<in> (d_abs_read_offset \<circ> snd) ` set rs"
    using Cons.IH [of "max m (f e)" "min t (d_abs_read_offset (snd e))"] Cons.prems by auto
  then show ?case using e by (intro exI [of _ k] exI [of _ t']) (auto simp: max_def min_def split: if_splits)
qed simp

lemma sint_minus_1:
  assumes "unat n < 2 ^ 31" "k < unat n"
  shows "sint (n - word_of_int (int k) - 1 :: u32) = int (unat n - k - 1)"
proof -
  have k: "unat (word_of_int (int k) :: u32) = k" using assms unat_word_of_int [of "int k"] by simp
  have "unat (n - word_of_int (int k)) = unat n - k" using assms k by (simp add: unat_sub_if' del: of_int_of_nat_eq)
  then have s: "unat (n - word_of_int (int k) - 1) = unat n - k - 1"
    using assms by (simp add: unat_sub_if' del: of_int_of_nat_eq)
  then have "sint (n - word_of_int (int k) - 1) = int (unat (n - word_of_int (int k) - 1))"
    using assms by (intro sint_small) simp
  then show ?thesis unfolding s .
qed

text \<open>Another set of tags.\<close>

definition retagged :: "'a buffer \<Rightarrow> 'a buffer \<Rightarrow> bool" where
  "retagged b b' \<longleftrightarrow> (\<exists>ts t. b' = b\<lparr> d_item_tags := ts, d_last_min_items_read := t \<rparr>)"

lemma retagged_refl [simp]: "retagged b b"
  unfolding retagged_def by (intro exI [of _ "d_item_tags b"] exI [of _ "d_last_min_items_read b"]) simp

lemma retagged_fields:
  assumes "retagged b b'"
  shows "d_base b' = d_base b" "d_bufsize b' = d_bufsize b" "d_readers b' = d_readers b"
    "d_write_index b' = d_write_index b" "d_abs_write_offset b' = d_abs_write_offset b" "d_done b' = d_done b"
  using assms by (auto simp: retagged_def)

lemma retagged_ok: "retagged b b' \<Longrightarrow> buffer_ok b' hist pos = buffer_ok b hist pos"
  by (simp add: buffer_ok_def retagged_fields)

lemma prune_retagged:
  assumes "prune_tags s m b = Inr b'"
  shows "retagged b (b'\<lparr> d_last_min_items_read := t \<rparr>)"
  using assms by (auto simp: prune_tags_def map_sum_Inr_iff retagged_def)

text \<open>What the writer may rely on, unless a tag raises an exception.\<close>

lemma space_ok:
  assumes "buffer_ok b hist pos" "space_available s b = Inr (k, b')"
  shows "retagged b b'" "0 \<le> k" "k < int (unat (d_bufsize b))"
    "(i, r) \<in> set (d_readers b) \<Longrightarrow> length hist + nat k < pos i + unat (d_bufsize b)"
proof -
  let ?n = "unat (d_bufsize b)"
  note ok = buffer_okD [OF assms(1)]
  have "retagged b b' \<and> 0 \<le> k \<and> k < int ?n
    \<and> (\<forall>e \<in> set (d_readers b). length hist + nat k < pos (fst e) + ?n)"
  proof (cases "d_readers b")
    case Nil
    have "k = int (?n - 1)" using assms(2) Nil sint_minus_1 [OF ok(3), of 0] ok(2) by (auto simp: space_available_def)
    moreover have "retagged b b'" using assms(2) Nil by (auto simp: space_available_def)
    ultimately show ?thesis using Nil ok(2) by auto
  next
    case (Cons e rs)
    let ?f = "\<lambda>e. int (length hist - pos (fst e))"
    have av: "items_available b (snd e') = Inr (?f e')" if "e' \<in> set (e # rs)" for e'
      using available_ok [OF assms(1), of "fst e'" "snd e'"] that Cons by simp
    obtain m t where m: "most_data b rs (?f e) (d_abs_read_offset (snd e)) = Inr (m, t)" "?f e \<le> m"
        "\<forall>e \<in> set rs. ?f e \<le> m" "m = ?f e \<or> m \<in> ?f ` set rs"
      using most_data_ok [of rs b ?f "?f e" "d_abs_read_offset (snd e)"] av by auto
    have less: "?f e' < int ?n" "pos (fst e') \<le> length hist" if "e' \<in> set (e # rs)" for e'
      using ok(8) [of "fst e'" "snd e'"] that Cons by (auto simp: reader_at_def)
    obtain e' where e': "e' \<in> set (e # rs)" "m = ?f e'" using m(4) by fastforce
    define q where "q = length hist - pos (fst e')"
    have q: "m = int q" "q < ?n" using e' less [OF e'(1)] unfolding q_def by simp_all
    have k: "k = int (?n - q - 1)" and b': "retagged b b'"
    proof -
      from assms(2) have "k = sint (d_bufsize b - word_of_int m - 1)
          \<and> (if t \<noteq> d_last_min_items_read b
               then map_sum id (\<lambda>b. b\<lparr> d_last_min_items_read := t \<rparr>) (prune_tags s (d_last_min_items_read b) b)
               else Inr b) = Inr b'"
        using av m(1) Cons by (auto simp: space_available_def gr_bind_Inr_iff)
      then show "k = int (?n - q - 1)" "retagged b b'"
        using sint_minus_1 [OF ok(3) q(2)] q(1) prune_retagged
        by (auto simp: map_sum_Inr_iff split: if_splits)
    qed
    have "length hist + nat k < pos (fst e') + ?n" if "e' \<in> set (e # rs)" for e'
    proof -
      have "length hist - pos (fst e') \<le> q" using m(2,3) q(1) that by auto
      then show ?thesis using k q(2) less(2) [OF that] by simp
    qed
    then show ?thesis using k b' q(2) unfolding Cons by auto
  qed
  then show "retagged b b'" "0 \<le> k" "k < int (unat (d_bufsize b))"
    "(i, r) \<in> set (d_readers b) \<Longrightarrow> length hist + nat k < pos i + unat (d_bufsize b)"
    by auto
qed

section \<open>Operations keep the invariant\<close>

lemma write_ok:
  assumes "buffer_ok b hist pos" "length xs < unat (d_bufsize b)"
    "\<And>i r. (i, r) \<in> set (d_readers b) \<Longrightarrow> length hist + length xs < pos i + unat (d_bufsize b)"
  shows "\<exists>b'. update_write_pointer (int (length xs)) (write_items xs b) = Inr b' \<and> buffer_ok b' (hist @ xs) pos
    \<and> d_bufsize b' = d_bufsize b \<and> map fst (d_readers b') = map fst (d_readers b)"
proof -
  let ?n = "unat (d_bufsize b)"
  note ok = buffer_okD [OF assms(1)]
  have base: "d_base b \<noteq> []" using ok(1,2) by auto
  have w: "unat (d_write_index b) < ?n" using ok(2,6) by simp
  have len: "unat (word_of_int (int (length xs)) :: u32) = length xs"
    using unat_word_of_int [of "int (length xs)"] assms(2) ok(3) by simp
  let ?b = "write_items xs b"
  have b: "d_bufsize ?b = d_bufsize b" "d_write_index ?b = d_write_index b" "d_readers ?b = d_readers b"
    by (simp_all add: write_items_def)
  have hyps: "unat (d_bufsize ?b) < 2 ^ 31" "unat (d_write_index b) < unat (d_bufsize ?b)"
      "unat (word_of_int (int (length xs)) :: u32) \<le> unat (d_bufsize ?b)"
    using ok(3) w len assms(2) b(1) by auto
  obtain s where s: "index_add ?b (d_write_index b) (word_of_int (int (length xs))) = Inr s"
      "unat s = (unat (d_write_index b) + length xs) mod ?n"
    using index_add_unat [OF hyps] len b(1) by auto
  have "window (ring_put (d_base b) (length hist) xs) (hist @ xs)" by (rule window_put [OF ok(4) base])
  then have win: "window (ring_put (d_base b) (unat (d_write_index b)) xs) (hist @ xs)"
    using ring_put_mod [of "d_base b" "length hist" xs] ok(1,6) by simp
  have s': "unat s = (length hist + length xs) mod ?n" using s(2) ok(6) by (simp add: mod_simps)
  have readers: "reader_at ?n (length hist + length xs) (pos (fst e)) (snd e)" if "e \<in> set (d_readers b)" for e
    using ok(8) [of "fst e" "snd e"] assms(3) [of "fst e" "snd e"] that by (auto simp: reader_at_def)
  show ?thesis
    unfolding update_write_pointer_def b(2)
    using s(1) s' ok win readers by (auto simp: buffer_ok_def write_items_def)
qed

lemma read_what:
  assumes "buffer_ok b hist pos" "(i, r) \<in> set (d_readers b)" "n \<le> length hist - pos i"
  shows "read_items b r n = take n (drop (pos i) hist)"
proof -
  have r: "reader_at (unat (d_bufsize b)) (length hist) (pos i) r" by (rule buffer_okD(8) [OF assms(1,2)])
  then have "pos i + n \<le> length hist" using assms(3) by (auto simp: reader_at_def)
  then show ?thesis
    using window_get [of "d_base b" hist "pos i" n] buffer_okD(1,4) [OF assms(1)] r
    by (simp add: read_items_def reader_at_def)
qed

lemma update_fst: "i \<in> fst ` set es \<Longrightarrow> map fst (AList.update i x es) = map fst es"
  by (induction es) auto

lemma set_update: "distinct (map fst es) \<Longrightarrow> e \<in> set (AList.update i x es) \<Longrightarrow> e = (i, x) \<or> (e \<in> set es \<and> fst e \<noteq> i)"
  by (induction es) (auto split: if_splits)

lemma consume_ok:
  assumes "buffer_ok b hist pos" "(i, r) \<in> set (d_readers b)" "n \<le> length hist - pos i"
  shows "\<exists>b'. update_read_pointer i (int n) b = Inr b' \<and> buffer_ok b' hist (pos(i := pos i + n))
    \<and> d_bufsize b' = d_bufsize b \<and> map fst (d_readers b') = map fst (d_readers b)"
proof -
  let ?n = "unat (d_bufsize b)"
  note ok = buffer_okD [OF assms(1)]
  have r: "reader_at ?n (length hist) (pos i) r" using ok(8) [OF assms(2)] .
  have n: "n < ?n" using r assms(3) by (auto simp: reader_at_def)
  have len: "unat (word_of_int (int n) :: u32) = n" using unat_word_of_int [of "int n"] n ok(3) by simp
  have map: "map_of (d_readers b) i = Some r" using assms(2) ok(7) by simp
  have hyps: "unat (d_read_index r) < ?n" "unat (word_of_int (int n) :: u32) \<le> ?n" using r ok(2) n len by (auto simp: reader_at_def)
  obtain s where s: "index_add b (d_read_index r) (word_of_int (int n)) = Inr s" "unat s = (unat (d_read_index r) + n) mod ?n"
    using index_add_unat [OF ok(3) hyps] len by auto
  then have s': "unat s = (pos i + n) mod ?n" using r by (simp add: reader_at_def mod_simps)
  define r' where "r' = r\<lparr> d_read_index := s, d_abs_read_offset := d_abs_read_offset r + word_of_int (int n) \<rparr>"
  define b' where "b' = b\<lparr> d_readers := AList.update i r' (d_readers b) \<rparr>"
  have u: "update_read_pointer i (int n) b = Inr b'"
    unfolding update_read_pointer_def map b'_def r'_def by (simp add: s(1) del: of_int_of_nat_eq)
  have fst: "map fst (d_readers b') = map fst (d_readers b)"
    using update_fst [of i "d_readers b" r'] assms(2) by (force simp: b'_def)
  have "reader_at ?n (length hist) ((pos(i := pos i + n)) (fst e)) (snd e)" if "e \<in> set (d_readers b')" for e
    using set_update [OF ok(7), of e i r'] that ok(8) [of "fst e" "snd e"] r s' assms(3)
    by (auto simp: b'_def r'_def reader_at_def)
  then have "buffer_ok b' hist (pos(i := pos i + n))"
    using ok fst unfolding buffer_ok_def by (simp add: b'_def)
  then show ?thesis using u fst by (simp add: b'_def)
qed

lemma attach_ok:
  assumes "buffer_ok b hist pos" "i \<notin> fst ` set (d_readers b)" "z < unat (d_bufsize b)"
  shows "\<exists>b'. gr_buffer_add_reader i (int z) b = Inr b' \<and> buffer_ok b' hist (pos(i := length hist - z))
    \<and> d_bufsize b' = d_bufsize b \<and> map fst (d_readers b') = map fst (d_readers b) @ [i]"
proof -
  let ?n = "unat (d_bufsize b)"
  note ok = buffer_okD [OF assms(1)]
  have z: "unat (word_of_int (int z) :: u32) = z" using unat_word_of_int [of "int z"] assms(3) ok(3) by simp
  have hyps: "unat (d_write_index b) < ?n" "unat (word_of_int (int z) :: u32) < ?n" using ok(2,6) z assms(3) by auto
  obtain s where s: "index_sub b (d_write_index b) (word_of_int (int z)) = Inr s"
      "unat s = (length hist mod ?n + ?n - z) mod ?n"
    using index_sub_unat [OF ok(3) hyps] z ok(6) by metis
  have "(length hist mod ?n + ?n - z) mod ?n = (length hist - z) mod ?n"
  proof -
    have "int (length hist mod ?n + ?n - z) = int (length hist) mod int ?n - int z + int ?n"
      using assms(3) by (simp add: zmod_int of_nat_diff)
    then have "int ((length hist mod ?n + ?n - z) mod ?n) = (int (length hist) mod int ?n - int z) mod int ?n"
      by (simp only: zmod_int mod_add_self2)
    also have "\<dots> = int ((length hist - z) mod ?n)"
      using assms(3) ok(5) by (simp add: zmod_int of_nat_diff mod_simps)
    finally show ?thesis by linarith
  qed
  then have at: "reader_at ?n (length hist) (length hist - z) \<lparr> d_read_index = s, d_abs_read_offset = 0 \<rparr>"
    using s(2) assms(3) ok(5) by (auto simp: reader_at_def)
  have old: "reader_at ?n (length hist) ((pos(i := length hist - z)) (fst e)) (snd e)" if "e \<in> set (d_readers b)" for e
    using ok(8) [of "fst e" "snd e"] that assms(2) by (auto simp: rev_image_eqI)
  show ?thesis
    using s(1) ok at old assms(2)
    by (auto simp: gr_buffer_add_reader_def buffer_ok_def simp del: of_int_of_nat_eq)
qed

lemma erase_reader_ok:
  "i \<in> fst ` set es \<Longrightarrow> distinct (map fst es) \<Longrightarrow> \<exists>es'. erase_reader i es = Inr es' \<and> set es' \<subseteq> set es \<and> distinct (map fst es')
     \<and> fst ` set es' = fst ` set es - {i}"
proof (induction es)
  case (Cons e es)
  show ?case
  proof (cases "fst e = i")
    case True
    then show ?thesis using Cons.prems by (intro exI [of _ es]) auto
  next
    case False
    then obtain es' where "erase_reader i es = Inr es'" "set es' \<subseteq> set es" "distinct (map fst es')" "fst ` set es' = fst ` set es - {i}"
      using Cons by auto
    then show ?thesis using False Cons.prems by (intro exI [of _ "e # es'"]) auto
  qed
qed simp

lemma detach_ok:
  assumes "buffer_ok b hist pos" "i \<in> fst ` set (d_readers b)"
  shows "\<exists>b'. drop_reader i b = Inr b' \<and> buffer_ok b' hist pos \<and> d_bufsize b' = d_bufsize b
    \<and> fst ` set (d_readers b') = fst ` set (d_readers b) - {i}"
proof -
  obtain es where "erase_reader i (d_readers b) = Inr es" "set es \<subseteq> set (d_readers b)" "distinct (map fst es)"
      "fst ` set es = fst ` set (d_readers b) - {i}"
    using erase_reader_ok [OF assms(2)] buffer_okD(7) [OF assms(1)] by blast
  then show ?thesis using assms(1) by (auto simp: drop_reader_def buffer_ok_def)
qed

section \<open>Runs\<close>

text \<open>
  Any sequence of operations in which the writer keeps to the space it was told and the readers to
  the items they were told.  Ghosts: all that was written, for every reader the position in memory
  and writing where it started, and what it has read.
\<close>

inductive buffer_run ::
  "pmts \<Rightarrow> 'a list \<Rightarrow> 'a buffer \<Rightarrow> 'a list \<Rightarrow> (nat \<Rightarrow> nat) \<Rightarrow> (nat \<Rightarrow> 'a list) \<Rightarrow> bool" for s m0 where
  run_start: "gr_make_buffer g n sz (\<lambda>k. Some m0) = Some b \<Longrightarrow> length m0 = unat (d_bufsize b) \<Longrightarrow> 0 < unat (d_bufsize b)
    \<Longrightarrow> unat (d_bufsize b) < 2 ^ 31 \<Longrightarrow> buffer_run s m0 b [] (\<lambda>i. 0) (\<lambda>i. [])"
| run_write: "buffer_run s m0 b w f got \<Longrightarrow> space_available s b = Inr (k, b1) \<Longrightarrow> int (length xs) \<le> k
    \<Longrightarrow> update_write_pointer (int (length xs)) (write_items xs b1) = Inr b2 \<Longrightarrow> buffer_run s m0 b2 (w @ xs) f got"
| run_read: "buffer_run s m0 b w f got \<Longrightarrow> (i, r) \<in> set (d_readers b) \<Longrightarrow> items_available b r = Inr k \<Longrightarrow> int n \<le> k
    \<Longrightarrow> update_read_pointer i (int n) b = Inr b' \<Longrightarrow> buffer_run s m0 b' w f (got(i := got i @ read_items b r n))"
| run_attach: "buffer_run s m0 b w f got \<Longrightarrow> i \<notin> fst ` set (d_readers b) \<Longrightarrow> z < unat (d_bufsize b)
    \<Longrightarrow> gr_buffer_add_reader i (int z) b = Inr b' \<Longrightarrow> buffer_run s m0 b' w (f(i := length (m0 @ w) - z)) (got(i := []))"
| run_detach: "buffer_run s m0 b w f got \<Longrightarrow> i \<in> fst ` set (d_readers b) \<Longrightarrow> drop_reader i b = Inr b' \<Longrightarrow> buffer_run s m0 b' w f got"
| run_tag: "buffer_run s m0 b w f got \<Longrightarrow> buffer_run s m0 (add_item_tag t b) w f got"
| run_finish: "buffer_run s m0 b w f got \<Longrightarrow> buffer_run s m0 (set_done d b) w f got"

definition got_ok :: "'a list \<Rightarrow> (nat \<Rightarrow> nat) \<Rightarrow> (nat \<Rightarrow> nat) \<Rightarrow> (nat \<Rightarrow> 'a list) \<Rightarrow> nat \<Rightarrow> bool" where
  "got_ok hist pos f got i \<longleftrightarrow> f i \<le> pos i \<and> pos i \<le> length hist \<and> got i = take (pos i - f i) (drop (f i) hist)"

lemma got_ok_append: "got_ok hist pos f got i \<Longrightarrow> got_ok (hist @ xs) pos f got i"
  by (auto simp: got_ok_def)

lemma got_ok_read:
  assumes "got_ok hist pos f got i" "n \<le> length hist - pos i"
  shows "got_ok hist (pos(i := pos i + n)) f (got(i := got i @ take n (drop (pos i) hist))) i"
proof -
  have i: "f i \<le> pos i" "pos i \<le> length hist" "got i = take (pos i - f i) (drop (f i) hist)"
    using assms(1) by (auto simp: got_ok_def)
  then have d: "drop (pos i) hist = drop (pos i - f i) (drop (f i) hist)" by simp
  have "got i @ take n (drop (pos i) hist) = take (pos i - f i + n) (drop (f i) hist)"
    unfolding i(3) d by (simp only: take_add)
  moreover have "pos i + n - f i = pos i - f i + n" using i(1) by simp
  moreover have "f i \<le> pos i + n" "pos i + n \<le> length hist" using i(1,2) assms(2) by simp_all
  ultimately show ?thesis unfolding got_ok_def by (simp only: fun_upd_same)
qed

lemma got_ok_cong:
  "pos' i = pos i \<Longrightarrow> f' i = f i \<Longrightarrow> got' i = got i \<Longrightarrow> got_ok hist pos' f' got' i = got_ok hist pos f got i"
  by (simp add: got_ok_def)

lemma run_invariant:
  "buffer_run s m0 b w f got \<Longrightarrow> \<exists>pos. buffer_ok b (m0 @ w) pos \<and> (\<forall>i \<in> fst ` set (d_readers b). got_ok (m0 @ w) pos f got i)"
proof (induction rule: buffer_run.induct)
  case (run_start g n sz b)
  then have "buffer_ok b (m0 @ []) (\<lambda>i. 0)" "d_readers b = []"
    by (auto simp: gr_make_buffer_def buffer_ok_def Let_def window_start)
  then show ?case by auto
next
  case (run_write b w f got k b1 xs b2)
  then obtain pos where pos: "buffer_ok b (m0 @ w) pos" "\<forall>i \<in> fst ` set (d_readers b). got_ok (m0 @ w) pos f got i" by blast
  note sp = space_ok [OF pos(1) run_write.hyps(2)]
  have b1: "buffer_ok b1 (m0 @ w) pos" "d_readers b1 = d_readers b" "d_bufsize b1 = d_bufsize b"
    using retagged_ok [OF sp(1)] retagged_fields [OF sp(1)] pos(1) by auto
  have len: "length xs \<le> nat k" using run_write.hyps(3) by linarith
  have hyps: "length xs < unat (d_bufsize b1)"
    "\<And>i r. (i, r) \<in> set (d_readers b1) \<Longrightarrow> length (m0 @ w) + length xs < pos i + unat (d_bufsize b1)"
    using sp(2,3) len b1(3) apply simp
    using sp(4) len b1(2,3) by fastforce
  obtain b' where b': "update_write_pointer (int (length xs)) (write_items xs b1) = Inr b'"
      "buffer_ok b' ((m0 @ w) @ xs) pos" "map fst (d_readers b') = map fst (d_readers b1)"
    using write_ok [OF b1(1) hyps(1)] hyps(2) by blast
  have "fst ` set (d_readers b2) = fst ` set (d_readers b)"
    using b'(1,3) run_write.hyps(4) b1(2) by (metis Inr_inject list.set_map)
  then show ?case using b'(1,2) run_write.hyps(4) pos(2) got_ok_append by (intro exI [of _ pos]) fastforce
next
  case (run_read b w f got i r k n b')
  then obtain pos where pos: "buffer_ok b (m0 @ w) pos" "\<forall>i \<in> fst ` set (d_readers b). got_ok (m0 @ w) pos f got i" by blast
  have n: "n \<le> length (m0 @ w) - pos i"
    using available_ok [OF pos(1) run_read.hyps(2)] run_read.hyps(3,4) by simp
  obtain b2 where b2: "update_read_pointer i (int n) b = Inr b2" "buffer_ok b2 (m0 @ w) (pos(i := pos i + n))"
      "map fst (d_readers b2) = map fst (d_readers b)"
    using consume_ok [OF pos(1) run_read.hyps(2) n] by blast
  have eq: "b' = b2" "fst ` set (d_readers b') = fst ` set (d_readers b)"
    using b2(1,3) run_read.hyps(5) by (simp, metis Inr_inject list.set_map)
  have rd: "read_items b r n = take n (drop (pos i) (m0 @ w))" by (rule read_what [OF pos(1) run_read.hyps(2) n])
  have "got_ok (m0 @ w) (pos(i := pos i + n)) f (got(i := got i @ read_items b r n)) j" if "j \<in> fst ` set (d_readers b)" for j
  proof (cases "j = i")
    case True
    then show ?thesis unfolding rd using got_ok_read [where pos = pos and i = i, OF _ n] pos(2) that by blast
  next
    case False
    have "got_ok (m0 @ w) pos f got j" using pos(2) that by blast
    then show ?thesis using False by (simp add: got_ok_def)
  qed
  then show ?case using b2(2) eq by blast
next
  case (run_attach b w f got i z b')
  then obtain pos where pos: "buffer_ok b (m0 @ w) pos" "\<forall>i \<in> fst ` set (d_readers b). got_ok (m0 @ w) pos f got i" by blast
  let ?p = "length (m0 @ w) - z"
  obtain b2 where b2: "gr_buffer_add_reader i (int z) b = Inr b2" "buffer_ok b2 (m0 @ w) (pos(i := ?p))"
      "map fst (d_readers b2) = map fst (d_readers b) @ [i]"
    using attach_ok [OF pos(1) run_attach.hyps(2,3)] by blast
  have eq: "b' = b2" "fst ` set (d_readers b') = insert i (fst ` set (d_readers b))"
    using b2(1) run_attach.hyps(4) arg_cong [OF b2(3), of set] by auto
  have "got_ok (m0 @ w) (pos(i := ?p)) (f(i := ?p)) (got(i := [])) j" if "j \<in> insert i (fst ` set (d_readers b))" for j
    using that pos(2) run_attach.hyps(2) got_ok_cong [of "pos(i := ?p)" j pos "f(i := ?p)" f "got(i := [])" got "m0 @ w"]
    by (cases "j = i") (auto simp: got_ok_def)
  then show ?case using b2(2) eq by blast
next
  case (run_detach b w f got i b')
  then obtain pos where pos: "buffer_ok b (m0 @ w) pos" "\<forall>i \<in> fst ` set (d_readers b). got_ok (m0 @ w) pos f got i" by blast
  then show ?case using detach_ok [OF pos(1) run_detach.hyps(2)] run_detach.hyps(3) by (intro exI [of _ pos]) auto
qed (auto simp: add_item_tag_def set_done_def buffer_ok_def)

section \<open>Tags\<close>

text \<open>One pass over the tags instead of a new scan after every erasure.\<close>

fun prune_pass :: "pmts \<Rightarrow> u64 \<Rightarrow> addr list \<Rightarrow> addr list gr" where
  "prune_pass s max_time [] = Inr []"
| "prune_pass s max_time (t # ts) =
     gr_bind (item_time s t) (\<lambda>at. map_sum id (if at < max_time then id else (#) t) (prune_pass s max_time ts))"

lemma find_old_pass:
  "find_old s m ts = Inl e \<Longrightarrow> prune_pass s m ts = Inl e"
  "find_old s m ts = Inr None \<Longrightarrow> prune_pass s m ts = Inr ts"
  "find_old s m ts = Inr (Some k) \<Longrightarrow> prune_pass s m (take k ts @ drop (Suc k) ts) = prune_pass s m ts"
proof (induction ts arbitrary: k e)
  case (Cons t ts)
  {
    case 1
    then show ?case using Cons.IH(1) by (cases "item_time s t"; cases "find_old s m ts") (auto split: if_splits)
  next
    case 2
    then show ?case using Cons.IH(2) by (cases "item_time s t"; cases "find_old s m ts") (auto split: if_splits)
  next
    case 3
    then show ?case using Cons.IH(3)
      by (cases "item_time s t"; cases "find_old s m ts") (auto simp: map_sum.id split: if_splits)
  }
qed simp_all

text \<open>
  Pruning the tags of a buffer, which starts over after every erasure, keeps exactly the tags
  not before the given item, in their order, as one pass over them does, and raises what the first
  malformed tag raises.
\<close>

theorem prune_tags_once:
  "prune_tags s m b = map_sum id (\<lambda>ts. b\<lparr> d_item_tags := ts \<rparr>) (prune_pass s m (d_item_tags b))"
proof -
  have "prune_loop s m ts = prune_pass s m ts" for ts
  proof (induction s m ts rule: prune_loop.induct)
    case (1 s m ts)
    then show ?case
      using find_old_pass [of s m ts] by (subst prune_loop.simps) (auto split: sum.split option.split)
  qed
  then show ?thesis by (simp add: prune_tags_def)
qed

lemma prune_pass_keeps:
  "prune_pass s m ts = Inr ts' \<Longrightarrow> set ts' = {t \<in> set ts. \<exists>at. item_time s t = Inr at \<and> m \<le> at}"
proof (induction ts arbitrary: ts')
  case (Cons t ts)
  then show ?case by (cases "item_time s t") (auto simp: map_sum_Inr_iff gr_bind_Inr_iff split: if_splits)
qed simp

lemma most_data_min:
  "most_data b rs m t = Inr (k, t') \<Longrightarrow> t' \<le> t \<and> (\<forall>e \<in> set rs. t' \<le> d_abs_read_offset (snd e))"
proof (induction rs arbitrary: m t)
  case (Cons e rs)
  then obtain n where "most_data b rs (max m n) (min t (d_abs_read_offset (snd e))) = Inr (k, t')"
    by (auto simp: gr_bind_Inr_iff)
  then show ?case using Cons.IH by fastforce
qed simp

lemma most_data_in:
  "most_data b rs m t = Inr (k, t') \<Longrightarrow> t' = t \<or> (\<exists>e \<in> set rs. t' = d_abs_read_offset (snd e))"
proof (induction rs arbitrary: m t)
  case (Cons e rs)
  then obtain n where "most_data b rs (max m n) (min t (d_abs_read_offset (snd e))) = Inr (k, t')"
    by (auto simp: gr_bind_Inr_iff)
  then show ?case using Cons.IH by (fastforce simp: min_def split: if_splits)
qed simp

lemma set_update_alist: "set (AList.update k v es) \<subseteq> insert (k, v) (set es)"
  by (induction es) auto

text \<open>
  Runs with tags.  A reader is attached before the writer has found that all readers moved on, as
  the readers of a flow graph are before it runs, and no reader reads \<open>2 ^ 64\<close> items.  A ghost
  records all tags that were added.  Nothing else is asked of the users.
\<close>

inductive tagged_run :: "pmts \<Rightarrow> 'a buffer \<Rightarrow> addr list \<Rightarrow> bool" for s where
  tagged_start: "gr_make_buffer g n sz mem = Some b \<Longrightarrow> tagged_run s b []"
| tagged_space: "tagged_run s b ts \<Longrightarrow> space_available s b = Inr (k, b') \<Longrightarrow> tagged_run s b' ts"
| tagged_write: "tagged_run s b ts \<Longrightarrow> update_write_pointer n (write_items xs b) = Inr b' \<Longrightarrow> tagged_run s b' ts"
| tagged_read: "tagged_run s b ts \<Longrightarrow> (i, r) \<in> set (d_readers b) \<Longrightarrow> 0 \<le> n \<Longrightarrow> uint (d_abs_read_offset r) + n < 2 ^ 64
    \<Longrightarrow> distinct (map fst (d_readers b)) \<Longrightarrow> update_read_pointer i n b = Inr b' \<Longrightarrow> tagged_run s b' ts"
| tagged_attach: "tagged_run s b ts \<Longrightarrow> d_last_min_items_read b = 0 \<Longrightarrow> gr_buffer_add_reader i z b = Inr b' \<Longrightarrow> tagged_run s b' ts"
| tagged_detach: "tagged_run s b ts \<Longrightarrow> drop_reader i b = Inr b' \<Longrightarrow> tagged_run s b' ts"
| tagged_tag: "tagged_run s b ts \<Longrightarrow> tagged_run s (add_item_tag t b) (ts @ [t])"
| tagged_finish: "tagged_run s b ts \<Longrightarrow> tagged_run s (set_done d b) ts"

text \<open>The recorded smallest offset bounds all of them from below, and only tags before it are gone.\<close>

definition tags_ok :: "pmts \<Rightarrow> 'a buffer \<Rightarrow> addr list \<Rightarrow> bool" where
  "tags_ok s b ts \<longleftrightarrow> (\<forall>e \<in> set (d_readers b). d_last_min_items_read b \<le> d_abs_read_offset (snd e))
     \<and> set (d_item_tags b) \<subseteq> set ts
     \<and> (\<forall>t \<in> set ts. \<forall>at. item_time s t = Inr at \<longrightarrow> d_last_min_items_read b \<le> at \<longrightarrow> t \<in> set (d_item_tags b))"

lemma space_tags:
  assumes "tags_ok s b ts" "space_available s b = Inr (k, b')"
  shows "tags_ok s b' ts"
proof (cases "d_readers b")
  case Nil
  then show ?thesis using assms by (simp add: space_available_def)
next
  case (Cons e es)
  from assms(2) Cons obtain n m q where m: "most_data b es n (d_abs_read_offset (snd e)) = Inr (m, q)"
    and p: "(if q \<noteq> d_last_min_items_read b
             then map_sum id (\<lambda>b. b\<lparr> d_last_min_items_read := q \<rparr>) (prune_tags s (d_last_min_items_read b) b)
             else Inr b) = Inr b'"
    by (auto simp: space_available_def gr_bind_Inr_iff)
  have q: "\<forall>e \<in> set (d_readers b). q \<le> d_abs_read_offset (snd e)" using most_data_min [OF m] Cons by auto
  have old: "d_last_min_items_read b \<le> q"
    using most_data_in [OF m] assms(1) Cons by (auto simp: tags_ok_def)
  show ?thesis
  proof (cases "q = d_last_min_items_read b")
    case True
    then show ?thesis using p assms(1) by simp
  next
    case False
    then obtain ts' where ts': "prune_pass s (d_last_min_items_read b) (d_item_tags b) = Inr ts'"
        "b' = b\<lparr> d_item_tags := ts', d_last_min_items_read := q \<rparr>"
      using p by (auto simp: prune_tags_once map_sum_Inr_iff)
    show ?thesis
      using assms(1) q old prune_pass_keeps [OF ts'(1)] unfolding ts'(2) tags_ok_def by (auto dest: order_trans)
  qed
qed

lemma read_tags:
  assumes "tags_ok s b ts" "(i, r) \<in> set (d_readers b)" "0 \<le> n" "uint (d_abs_read_offset r) + n < 2 ^ 64"
    "distinct (map fst (d_readers b))" "update_read_pointer i n b = Inr b'"
  shows "tags_ok s b' ts"
proof -
  have m: "map_of (d_readers b) i = Some r" using assms(2,5) by simp
  obtain x where b': "b' = b\<lparr> d_readers := AList.update i (r\<lparr> d_read_index := x,
      d_abs_read_offset := d_abs_read_offset r + word_of_int n \<rparr>) (d_readers b) \<rparr>"
    using assms(6) m by (auto simp: update_read_pointer_def gr_bind_Inr_iff)
  have "uint (d_abs_read_offset r + word_of_int n) = (uint (d_abs_read_offset r) + n) mod 2 ^ 64"
    by (simp add: uint_word_ariths uint_word_of_int mod_simps)
  then have "uint (d_abs_read_offset r + word_of_int n) = uint (d_abs_read_offset r) + n"
    using assms(3,4) by simp
  then have up: "d_abs_read_offset r \<le> d_abs_read_offset r + word_of_int n" using assms(3) by (simp add: word_le_def)
  have low: "d_last_min_items_read b \<le> d_abs_read_offset (snd e)" if "e \<in> set (d_readers b)" for e
    using assms(1) that unfolding tags_ok_def by blast
  have "d_last_min_items_read b \<le> d_abs_read_offset (snd e)" if e: "e \<in> set (d_readers b')" for e
  proof -
    let ?r = "r\<lparr> d_read_index := x, d_abs_read_offset := d_abs_read_offset r + word_of_int n \<rparr>"
    have "e \<in> insert (i, ?r) (set (d_readers b))" using e set_update_alist [of i ?r "d_readers b"] unfolding b' by auto
    then consider "e = (i, ?r)" | "e \<in> set (d_readers b)" by blast
    then show ?thesis
    proof cases
      case 1
      have "d_last_min_items_read b \<le> d_abs_read_offset r" using low [OF assms(2)] by simp
      then show ?thesis using up 1 by (simp add: order_trans)
    qed (rule low)
  qed
  then show ?thesis using assms(1) unfolding tags_ok_def b' by simp
qed

lemma tagged_ok: "tagged_run s b ts \<Longrightarrow> tags_ok s b ts"
proof (induction rule: tagged_run.induct)
  case (tagged_start g n sz mem b)
  then show ?case by (auto simp: gr_make_buffer_def Let_def tags_ok_def)
next
  case (tagged_space b ts k b')
  then show ?case by (blast intro: space_tags)
next
  case (tagged_write b ts n xs b')
  then have "d_readers b' = d_readers b \<and> d_item_tags b' = d_item_tags b \<and> d_last_min_items_read b' = d_last_min_items_read b"
    by (auto simp: update_write_pointer_def gr_bind_Inr_iff write_items_def)
  then show ?case using tagged_write.IH by (simp add: tags_ok_def)
next
  case (tagged_read b ts i r n b')
  then show ?case by (blast intro: read_tags)
next
  case (tagged_attach b ts i z b')
  then show ?case by (auto simp: tags_ok_def gr_buffer_add_reader_def gr_bind_Inr_iff split: if_splits)
next
  case (tagged_detach b ts i b')
  obtain rs where rs: "erase_reader i (d_readers b) = Inr rs" "b' = b\<lparr> d_readers := rs \<rparr>"
    using tagged_detach.hyps(2) by (auto simp: drop_reader_def map_sum_Inr_iff)
  have "erase_reader i es = Inr es' \<Longrightarrow> set es' \<subseteq> set es" for es es' :: "(nat \<times> reader) list"
    by (induction es arbitrary: es') (fastforce simp: map_sum_Inr_iff split: if_splits)+
  then have "set rs \<subseteq> set (d_readers b)" using rs(1) by blast
  then show ?case using tagged_detach.IH unfolding tags_ok_def rs(2) by auto
next
  case (tagged_tag b ts t)
  then show ?case by (auto simp: tags_ok_def add_item_tag_def)
next
  case (tagged_finish b ts d)
  then show ?case by (simp add: tags_ok_def set_done_def)
qed

text \<open>
  C18: in any run whose readers are attached before the writer has seen all of them move on, and
  none of which reads \<open>2 ^ 64\<close> items, no tag is lost: a tag that was ever added is in the buffer as long as
  some reader, by its own count of the items it has read, has not passed the tag's item; and
  the buffer holds no other tags.
\<close>

theorem tags_kept:
  assumes "tagged_run s b ts" "t \<in> set ts" "item_time s t = Inr at" "(i, r) \<in> set (d_readers b)" "d_abs_read_offset r \<le> at"
  shows "t \<in> set (d_item_tags b) \<and> set (d_item_tags b) \<subseteq> set ts"
proof -
  have ok: "tags_ok s b ts" by (rule tagged_ok [OF assms(1)])
  then have "d_last_min_items_read b \<le> at" using assms(4,5) unfolding tags_ok_def by fastforce
  then show ?thesis using ok assms(2,3) unfolding tags_ok_def by blast
qed

section \<open>Properties\<close>

text \<open>
  C4: after any run in which the writer keeps to the space it was told and the readers to the items
  they were told, what a reader has got followed by what it is told is available is exactly what
  was written since it was attached, behind the items it was preloaded with, in order: nothing is
  lost, repeated or overwritten, however often the indices have wrapped.
\<close>

theorem buffer_fifo:
  assumes "buffer_run s m0 b w f got" "(i, r) \<in> set (d_readers b)"
  shows "\<exists>k. items_available b r = Inr (int k) \<and> k < unat (d_bufsize b)
    \<and> got i @ read_items b r k = drop (f i) (m0 @ w)"
proof -
  obtain pos where pos: "buffer_ok b (m0 @ w) pos" "got_ok (m0 @ w) pos f got i"
    using run_invariant [OF assms(1)] assms(2) by force
  let ?k = "length (m0 @ w) - pos i"
  have r: "reader_at (unat (d_bufsize b)) (length (m0 @ w)) (pos i) r" by (rule buffer_okD(8) [OF pos(1) assms(2)])
  have "read_items b r ?k = drop (pos i) (m0 @ w)" using read_what [OF pos(1) assms(2), of ?k] by simp
  moreover have "drop (pos i) (m0 @ w) = drop (pos i - f i) (drop (f i) (m0 @ w))"
    using pos(2) by (simp add: got_ok_def del: drop_append take_append)
  ultimately have "got i @ read_items b r ?k = drop (f i) (m0 @ w)"
    using pos(2) unfolding got_ok_def by (simp only: append_take_drop_id)
  moreover have "?k < unat (d_bufsize b)" using r by (auto simp: reader_at_def)
  ultimately show ?thesis using available_ok [OF pos(1) assms(2)] by blast
qed

lemma most_data_total:
  assumes "buffer_ok b hist pos" "set rs \<subseteq> set (d_readers b)"
  shows "\<exists>k t'. most_data b rs m t = Inr (k, t')"
  using assms(2) available_ok [OF assms(1)]
proof (induction rs arbitrary: m t)
  case (Cons e rs)
  then show ?case by (cases e) auto
qed simp

lemma item_time_error: "item_time s t = Inl e \<Longrightarrow> \<exists>p. e = Pmt_exception p"
  by (cases "bind_res (pmt_tuple_ref s t 0) (pmt_to_uint64 s)") (auto simp: item_time_def)

lemma prune_pass_error: "prune_pass s m ts = Inl e \<Longrightarrow> \<exists>p. e = Pmt_exception p"
proof (induction ts)
  case (Cons t ts)
  then show ?case using item_time_error [of s t]
    by (cases "item_time s t"; cases "prune_pass s m ts") auto
qed simp

lemma space_error:
  assumes "buffer_ok b hist pos" "space_available s b = Inl e"
  shows "\<exists>p. e = Pmt_exception p"
proof (cases "d_readers b")
  case (Cons x xs)
  then have x: "items_available b (snd x) = Inr (int (length hist - pos (fst x)))"
    using available_ok [OF assms(1), of "fst x" "snd x"] by simp
  obtain k t where k: "most_data b xs (int (length hist - pos (fst x))) (d_abs_read_offset (snd x)) = Inr (k, t)"
    using most_data_total [OF assms(1), of xs] Cons by fastforce
  show ?thesis
    using assms(2) Cons x k prune_pass_error [of s "d_last_min_items_read b" "d_item_tags b"]
    by (cases "prune_pass s (d_last_min_items_read b) (d_item_tags b)")
      (auto simp: space_available_def prune_tags_once split: if_splits)
qed (use assms(2) in \<open>simp add: space_available_def\<close>)

text \<open>
  C17: no operation of such a run fails an assertion or raises an exception: what is available is a
  number, as many items as that may be read; the space is a number, as many items may be written;
  readers can be added and dropped.  Only a malformed tag can raise an exception.
\<close>

theorem buffer_never_asserts:
  assumes "buffer_run s m0 b w f got"
  shows "((i, r) \<in> set (d_readers b) \<longrightarrow>
       (\<exists>k. items_available b r = Inr (int k) \<and> (\<forall>n \<le> k. \<exists>b'. update_read_pointer i (int n) b = Inr b')))
    \<and> (case space_available s b of
         Inl e \<Rightarrow> \<exists>p. e = Pmt_exception p
       | Inr (k, b1) \<Rightarrow> 0 \<le> k
           \<and> (\<forall>xs. int (length xs) \<le> k \<longrightarrow> (\<exists>b2. update_write_pointer (int (length xs)) (write_items xs b1) = Inr b2)))
    \<and> (if i \<in> fst ` set (d_readers b) then \<exists>b'. drop_reader i b = Inr b'
       else \<forall>z < unat (d_bufsize b). \<exists>b'. gr_buffer_add_reader i (int z) b = Inr b')"
proof -
  obtain pos where pos: "buffer_ok b (m0 @ w) pos" using run_invariant [OF assms] by blast
  have h1: "\<exists>k. items_available b r = Inr (int k) \<and> (\<forall>n \<le> k. \<exists>b'. update_read_pointer i (int n) b = Inr b')"
    if "(i, r) \<in> set (d_readers b)"
    using available_ok [OF pos that] consume_ok [OF pos that] by blast
  have h2: "case space_available s b of
         Inl e \<Rightarrow> \<exists>p. e = Pmt_exception p
       | Inr (k, b1) \<Rightarrow> 0 \<le> k
           \<and> (\<forall>xs. int (length xs) \<le> k \<longrightarrow> (\<exists>b2. update_write_pointer (int (length xs)) (write_items xs b1) = Inr b2))"
  proof (cases "space_available s b")
    case (Inr kb)
    obtain k b1 where kb: "kb = (k, b1)" by (cases kb)
    note sp = space_ok [OF pos Inr [unfolded kb]]
    have b1: "buffer_ok b1 (m0 @ w) pos" "d_readers b1 = d_readers b" "d_bufsize b1 = d_bufsize b"
      using retagged_ok [OF sp(1)] retagged_fields [OF sp(1)] pos by auto
    have "\<exists>b2. update_write_pointer (int (length xs)) (write_items xs b1) = Inr b2" if "int (length xs) \<le> k" for xs
    proof -
      have len: "length xs \<le> nat k" using that by linarith
      have "length xs < unat (d_bufsize b1)" using sp(2,3) len b1(3) by simp
      moreover have "length (m0 @ w) + length xs < pos i + unat (d_bufsize b1)" if "(i, r) \<in> set (d_readers b1)" for i r
        using sp(4) [of i r] that len b1(2,3) by simp
      ultimately show ?thesis using write_ok [OF b1(1), of xs] by blast
    qed
    then show ?thesis using Inr kb sp(2) by simp
  qed (simp add: space_error [OF pos])
  have h3: "if i \<in> fst ` set (d_readers b) then \<exists>b'. drop_reader i b = Inr b'
       else \<forall>z < unat (d_bufsize b). \<exists>b'. gr_buffer_add_reader i (int z) b = Inr b'"
  proof (cases "i \<in> fst ` set (d_readers b)")
    case True
    have "\<exists>b'. drop_reader i b = Inr b'" using detach_ok [OF pos True] by (elim exE conjE) (rule exI)
    then show ?thesis unfolding if_P [OF True] .
  next
    case False
    have "\<exists>b'. gr_buffer_add_reader i (int z) b = Inr b'" if "z < unat (d_bufsize b)" for z
      using attach_ok [OF pos False that] by (elim exE conjE) (rule exI)
    then show ?thesis unfolding if_not_P [OF False] by simp
  qed
  show ?thesis by (intro conjI impI h1 h2 h3)
qed

lemma round_up_items_ok:
  assumes "0 \<le> n" "0 < m"
  shows "n \<le> round_up_items n m \<and> round_up_items n m < n + m \<and> m dvd round_up_items n m"
proof -
  have sd: "n sdiv m = n div m" "n smod m = n mod m" using assms by (cases "n = 0"; simp add: signed_divide_int_def signed_modulo_int_def)+
  define q where "q = n div m * m"
  have n: "n = q + n mod m" unfolding q_def by simp
  have "(n div m + 1) * m = q + m" by (simp add: q_def distrib_right)
  moreover have "n \<le> q + m" "n mod m \<noteq> 0 \<Longrightarrow> q + m < n + m"
    using pos_mod_bound [OF assms(2), of n] pos_mod_sign [OF assms(2), of n] n by linarith+
  ultimately show ?thesis using assms by (auto simp: round_up_items_def sd q_def)
qed

text \<open>
  A buffer is given the smallest number of items that is at least as many as asked for and
  fills whole pages, so that the memory can be mapped twice in a row.
\<close>

theorem buffer_fills_pages:
  assumes "0 \<le> nitems" "0 < sz" "0 < page" "gr_make_buffer page nitems sz mem = Some b"
    "nitems + page < 2 ^ 32"
  shows "nitems \<le> uint (d_bufsize b) \<and> page dvd uint (d_bufsize b) * sz
    \<and> (\<forall>n \<ge> nitems. page dvd n * sz \<longrightarrow> uint (d_bufsize b) \<le> n)"
proof -
  let ?m = "minimum_buffer_items sz page"
  let ?n = "round_up_items nitems ?m"
  have g: "gcd sz page dvd page" "0 < gcd sz page" using assms(2,3) by auto
  then have m: "0 < ?m" using assms(3)
    by (simp add: minimum_buffer_items_def pos_imp_zdiv_pos_iff zdvd_imp_le)
  have "?m dvd page" unfolding minimum_buffer_items_def by (rule dvdI [of _ _ "gcd sz page"]) simp
  then have m_le: "?m \<le> page" using assms(3) by (rule zdvd_imp_le)
  have n: "nitems \<le> ?n" "?n < nitems + ?m" "?m dvd ?n" using round_up_items_ok [OF assms(1) m] by auto
  have b: "uint (d_bufsize b) = ?n"
    using assms(4) n m_le assms(1,5)
    by (auto simp: gr_make_buffer_def Let_def uint_word_of_int)
  have pg: "page dvd k * sz \<longleftrightarrow> ?m dvd k" for k
  proof -
    define g where "g = gcd sz page"
    have gs: "page = ?m * g" "sz = (sz div g) * g" "0 < g" using g by (auto simp: g_def minimum_buffer_items_def)
    have "coprime (sz div g) ?m" unfolding g_def minimum_buffer_items_def by (rule div_gcd_coprime) (use assms(3) in simp)
    then have c: "coprime ?m (sz div g)" by (simp add: coprime_commute)
    have "page dvd k * sz \<longleftrightarrow> ?m * g dvd (k * (sz div g)) * g" using gs(1,2) by (metis mult.assoc)
    then show ?thesis using gs(3) coprime_dvd_mult_left_iff [OF c] by simp
  qed
  have "?n \<le> k" if k: "nitems \<le> k" "page dvd k * sz" for k
  proof -
    obtain a c where "?n = ?m * a" "k = ?m * c" using n(3) k(2) unfolding pg by (auto elim!: dvdE)
    moreover from this have "?m * a < ?m * (c + 1)" using n(2) k(1) by (simp add: algebra_simps)
    then have "a \<le> c" using m by (simp only: mult_less_cancel_left_pos)
    ultimately show ?thesis using m by simp
  qed
  then show ?thesis using n b pg by auto
qed

section \<open>Examples\<close>

text \<open>A buffer of four items: three are written, two read, two more written around the end.\<close>

definition sample_buffer :: "nat \<Rightarrow> nat buffer" where
  "sample_buffer n = \<lparr> d_base = (if n \<ge> 5 then [9, 6, 7, 8] else if n \<ge> 2 then [5, 6, 7, 0] else [0, 0, 0, 0]),
     d_bufsize = 4, d_readers = (if n \<ge> 1 then [(0, \<lparr> d_read_index = (if n \<ge> 3 then 2 else 0),
       d_abs_read_offset = (if n \<ge> 3 then 2 else 0) \<rparr>)] else []),
     d_write_index = (if n \<ge> 5 then 1 else if n \<ge> 2 then 3 else 0),
     d_abs_write_offset = (if n \<ge> 5 then 5 else if n \<ge> 2 then 3 else 0), d_done = False, d_item_tags = [],
     d_last_min_items_read = (if n \<ge> 4 then 2 else 0) \<rparr>"

lemma sample_run:
  "buffer_run pmt_start [0, 0, 0, 0] (sample_buffer 5) [5, 6, 7, 8, 9] ((\<lambda>i. 0)(0 := 4)) ((\<lambda>i. [])(0 := [5, 6]))"
proof -
  let ?m = "[0, 0, 0, 0] :: nat list" and ?f = "(\<lambda>i. 0 :: nat)(0 := 4 :: nat)"
  have "buffer_run pmt_start ?m (sample_buffer 0) [] (\<lambda>i. 0) (\<lambda>i. [])"
    by (rule run_start [of 4 4 1]) (simp_all add: sample_buffer_def, code_simp)
  then have "buffer_run pmt_start ?m (sample_buffer 1) [] ((\<lambda>i. 0)(0 := length (?m @ []) - 0)) ((\<lambda>i. [])(0 := []))"
    by (rule run_attach) (simp_all add: sample_buffer_def, code_simp)
  then have "buffer_run pmt_start ?m (sample_buffer 1) [] ?f ((\<lambda>i. [])(0 := []))"
    by (simp add: eval_nat_numeral)
  then have "buffer_run pmt_start ?m (sample_buffer 2) ([] @ [5, 6, 7]) ?f ((\<lambda>i. [])(0 := []))"
    by (rule run_write [where k = 3 and ?b1.0 = "sample_buffer 1"]) (simp_all, code_simp+)
  note r = run_read [OF this, of 0 "\<lparr> d_read_index = 0, d_abs_read_offset = 0 \<rparr>" 3 2 "sample_buffer 3"]
  have "buffer_run pmt_start ?m (sample_buffer 3) [5, 6, 7] ?f ((\<lambda>i. [])(0 := [5, 6]))"
  proof -
    have "read_items (sample_buffer 2) \<lparr> d_read_index = 0, d_abs_read_offset = 0 \<rparr> 2 = [5, 6]"
      "items_available (sample_buffer 2) \<lparr> d_read_index = 0, d_abs_read_offset = 0 \<rparr> = Inr 3"
      "update_read_pointer 0 (int 2) (sample_buffer 2) = Inr (sample_buffer 3)" by code_simp+
    moreover have "(0, \<lparr> d_read_index = 0, d_abs_read_offset = 0 \<rparr>) \<in> set (d_readers (sample_buffer 2))"
      by (simp add: sample_buffer_def)
    ultimately show ?thesis using r by simp
  qed
  then have "buffer_run pmt_start ?m (sample_buffer 5) ([5, 6, 7] @ [8, 9]) ?f ((\<lambda>i. [])(0 := [5, 6]))"
    by (rule run_write [where k = 2 and ?b1.0 = "sample_buffer 4"]) (simp_all, code_simp+)
  then show ?thesis by simp
qed

theorem buffer_fifo_witness:
  "\<exists>k. items_available (sample_buffer 5) \<lparr> d_read_index = 2, d_abs_read_offset = 2 \<rparr> = Inr (int k) \<and> k < unat (4 :: u32)
     \<and> [5, 6] @ read_items (sample_buffer 5) \<lparr> d_read_index = 2, d_abs_read_offset = 2 \<rparr> k = [5, 6, 7, 8, 9]"
  using buffer_fifo [OF sample_run, of 0 "\<lparr> d_read_index = 2, d_abs_read_offset = 2 \<rparr>"] by (simp add: sample_buffer_def)

theorem buffer_never_asserts_witness:
  "(\<exists>b'. update_read_pointer 0 3 (sample_buffer 5) = Inr b') \<and> (\<exists>b'. drop_reader 0 (sample_buffer 5) = Inr b')"
proof -
  note w = buffer_never_asserts [OF sample_run, of 0 "\<lparr> d_read_index = 2, d_abs_read_offset = 2 \<rparr>"]
  obtain k where "items_available (sample_buffer 5) \<lparr> d_read_index = 2, d_abs_read_offset = 2 \<rparr> = Inr (int k)"
      "\<forall>n \<le> k. \<exists>b'. update_read_pointer 0 (int n) (sample_buffer 5) = Inr b'"
    using w by (auto simp: sample_buffer_def)
  moreover have "items_available (sample_buffer 5) \<lparr> d_read_index = 2, d_abs_read_offset = 2 \<rparr> = Inr 3" by code_simp
  ultimately have "\<exists>b'. update_read_pointer 0 (int 3) (sample_buffer 5) = Inr b'" by fastforce
  moreover have "\<exists>b'. drop_reader 0 (sample_buffer 5) = Inr b'" using w by (simp add: sample_buffer_def)
  ultimately show ?thesis by simp
qed

theorem buffer_fills_pages_witness:
  "4090 \<le> uint (10240 :: u32) \<and> 4096 dvd uint (10240 :: u32) * 2"
proof -
  have "gr_make_buffer 4096 8200 2 (\<lambda>n. Some ([] :: nat list)) = Some \<lparr> d_base = [], d_bufsize = 10240, d_readers = [],
      d_write_index = 0, d_abs_write_offset = 0, d_done = False, d_item_tags = [], d_last_min_items_read = 0 \<rparr>" by code_simp
  from buffer_fills_pages [OF _ _ _ this] show ?thesis by simp
qed

definition tag_store :: pmts where
  "tag_store = pmt_start\<lparr> cells := cells pmt_start @ [C_integer 1, C_tuple [4], C_integer 2, C_tuple [6]] \<rparr>"

text \<open>Two tags, on items 1 and 2; the reader has read two items when the writer asks for space, twice.\<close>

definition tagged_buffer :: "nat \<Rightarrow> nat buffer" where
  "tagged_buffer n = \<lparr> d_base = (if n \<ge> 2 then [5, 6, 7, 0] else [0, 0, 0, 0]), d_bufsize = 4,
     d_readers = (if n \<ge> 1 then [(0, \<lparr> d_read_index = (if n \<ge> 5 then 2 else 0), d_abs_read_offset = (if n \<ge> 5 then 2 else 0) \<rparr>)] else []),
     d_write_index = (if n \<ge> 2 then 3 else 0), d_abs_write_offset = (if n \<ge> 2 then 3 else 0), d_done = False,
     d_item_tags = (if n \<ge> 4 then [5, 7] else if n \<ge> 3 then [5] else []), d_last_min_items_read = (if n \<ge> 6 then 2 else 0) \<rparr>"

lemma tagged_sample: "tagged_run tag_store (tagged_buffer 6) [5, 7]"
proof -
  have "tagged_run tag_store (tagged_buffer 0) []"
    by (rule tagged_start [of 4 4 1 "\<lambda>n. Some [0, 0, 0, 0]"]) code_simp
  then have "tagged_run tag_store (tagged_buffer 1) []"
    by (rule tagged_attach [where i = 0 and z = 0]) (simp add: tagged_buffer_def, code_simp)
  then have "tagged_run tag_store (tagged_buffer 2) []"
    by (rule tagged_write [where n = 3 and xs = "[5, 6, 7]"]) code_simp
  then have "tagged_run tag_store (add_item_tag 7 (add_item_tag 5 (tagged_buffer 2))) (([] @ [5]) @ [7])"
    by (intro tagged_tag)
  moreover have "add_item_tag 7 (add_item_tag 5 (tagged_buffer 2)) = tagged_buffer 4"
    by (simp add: add_item_tag_def tagged_buffer_def)
  ultimately have r: "tagged_run tag_store (tagged_buffer 4) [5, 7]" by simp
  have "tagged_run tag_store (tagged_buffer 5) [5, 7]"
  proof (rule tagged_read [OF r, where i = 0 and n = 2])
    show "(0, \<lparr> d_read_index = 0, d_abs_read_offset = 0 \<rparr>) \<in> set (d_readers (tagged_buffer 4))" by (simp add: tagged_buffer_def)
    show "update_read_pointer 0 2 (tagged_buffer 4) = Inr (tagged_buffer 5)" by code_simp
  qed (simp_all add: tagged_buffer_def)
  then show ?thesis by (rule tagged_space [where k = 2]) code_simp
qed

theorem tags_kept_witness:
  "7 \<in> set (d_item_tags (tagged_buffer 6)) \<and> set (d_item_tags (tagged_buffer 6)) \<subseteq> {5, 7}"
proof -
  have "item_time tag_store 7 = Inr 2" by code_simp
  then show ?thesis
    using tags_kept [OF tagged_sample, of 7 2 0 "\<lparr> d_read_index = 2, d_abs_read_offset = 2 \<rparr>"] by (simp add: tagged_buffer_def)
qed

text \<open>
  A reader that is attached later counts from 0 again but does not get the tags on the items
  it is preloaded with: the first space that is asked for after it prunes with the offset the others had reached.
\<close>

lemma late_reader_loses_tags:
  "\<exists>b b'. gr_buffer_add_reader 1 2 (tagged_buffer 6) = Inr b \<and> space_available tag_store b = Inr (1, b') \<and> d_item_tags b' = [7]
     \<and> item_time tag_store 5 = Inr 1 \<and> map_of (d_readers b') 1 = Some \<lparr> d_read_index = 1, d_abs_read_offset = 0 \<rparr>"
proof -
  let ?r = "\<lparr> d_read_index = 1, d_abs_read_offset = 0 \<rparr>"
  let ?b = "(tagged_buffer 6)\<lparr> d_readers := d_readers (tagged_buffer 6) @ [(1, ?r)] \<rparr>"
  have "gr_buffer_add_reader 1 2 (tagged_buffer 6) = Inr ?b" by code_simp
  moreover have "space_available tag_store ?b = Inr (1, ?b\<lparr> d_item_tags := [7], d_last_min_items_read := 0 \<rparr>)" by code_simp
  moreover have "item_time tag_store 5 = Inr 1" by code_simp
  moreover have "map_of (d_readers (?b\<lparr> d_item_tags := [7], d_last_min_items_read := 0 \<rparr>)) 1 = Some ?r"
    by (simp add: tagged_buffer_def)
  ultimately show ?thesis
    by (intro exI [of _ ?b] exI [of _ "?b\<lparr> d_item_tags := [7], d_last_min_items_read := 0 \<rparr>"]) simp
qed

end
