(* ===== verification/Gr_Flowgraph.thy ===== *)
theory Gr_Flowgraph
  imports Gr_Buffer
begin

text \<open>
  The graph of blocks (\<open>gr_flowgraph.cc\<close>, \<open>gr_io_signature.cc\<close>): connecting ports, validation, and the
  partition into connected components in topological order.  Blocks are named by their
  \<open>unique_id\<close>, by which the source sorts them; their signatures and \<open>check_topology\<close> methods are a
  function of the name, their colours a part of the state.
\<close>

section \<open>Signatures of blocks\<close>

record io_signature =
  d_min_streams :: int
  d_max_streams :: int
  d_sizeof_stream_item :: "int list"

definition IO_INFINITE :: int where
  "IO_INFINITE = -1"

definition gr_make_io_signaturev :: "int \<Rightarrow> int \<Rightarrow> int list \<Rightarrow> io_signature gr" where
  "gr_make_io_signaturev min_streams max_streams sizeof_stream_items =
     (if min_streams < 0 \<or> (max_streams \<noteq> IO_INFINITE \<and> max_streams < min_streams) then Inl Invalid_argument
      else if length sizeof_stream_items < 1 then Inl Invalid_argument
      else if \<exists>x \<in> set sizeof_stream_items. max_streams \<noteq> 0 \<and> x < 1 then Inl Invalid_argument
      else Inr \<lparr> d_min_streams = min_streams, d_max_streams = max_streams, d_sizeof_stream_item = sizeof_stream_items \<rparr>)"

definition gr_make_io_signature :: "int \<Rightarrow> int \<Rightarrow> int \<Rightarrow> io_signature gr" where
  "gr_make_io_signature min_streams max_streams x = gr_make_io_signaturev min_streams max_streams [x]"

definition gr_make_io_signature2 :: "int \<Rightarrow> int \<Rightarrow> int \<Rightarrow> int \<Rightarrow> io_signature gr" where
  "gr_make_io_signature2 min_streams max_streams x1 x2 = gr_make_io_signaturev min_streams max_streams [x1, x2]"

definition gr_make_io_signature3 :: "int \<Rightarrow> int \<Rightarrow> int \<Rightarrow> int \<Rightarrow> int \<Rightarrow> io_signature gr" where
  "gr_make_io_signature3 min_streams max_streams x1 x2 x3 = gr_make_io_signaturev min_streams max_streams [x1, x2, x3]"

definition sizeof_stream_item :: "io_signature \<Rightarrow> int \<Rightarrow> int gr" where
  "sizeof_stream_item sig index =
     (if index < 0 then Inl Invalid_argument
      else Inr (d_sizeof_stream_item sig ! min (nat index) (length (d_sizeof_stream_item sig) - 1)))"

section \<open>The graph\<close>

type_synonym block = nat

record basic_block =
  d_input_signature :: io_signature
  d_output_signature :: io_signature
  check_topology :: "int \<Rightarrow> int \<Rightarrow> bool"

datatype vcolor = WHITE | GREY | BLACK

record gr_endpoint =
  ep_block :: block
  ep_port :: int

record gr_edge =
  e_src :: gr_endpoint
  e_dst :: gr_endpoint

record flowgraph =
  d_blocks :: "block list"
  d_edges :: "gr_edge list"

definition gr_make_flowgraph :: flowgraph where
  "gr_make_flowgraph = \<lparr> d_blocks = [], d_edges = [] \<rparr>"

definition clear :: "flowgraph \<Rightarrow> flowgraph" where
  "clear g = g\<lparr> d_blocks := [], d_edges := [] \<rparr>"

definition unique_vector :: "'a :: linorder list \<Rightarrow> 'a list" where
  "unique_vector v = remdups_adj (sort v)"

section \<open>Connections\<close>

definition check_valid_port :: "io_signature \<Rightarrow> int \<Rightarrow> unit gr" where
  "check_valid_port sig port =
     (if port < 0 then Inl Invalid_argument
      else if d_max_streams sig \<noteq> IO_INFINITE \<and> port \<ge> d_max_streams sig then Inl Invalid_argument
      else Inr ())"

definition check_dst_not_used :: "flowgraph \<Rightarrow> gr_endpoint \<Rightarrow> unit gr" where
  "check_dst_not_used g dst = (if \<exists>p \<in> set (d_edges g). e_dst p = dst then Inl Invalid_argument else Inr ())"

definition check_type_match :: "(block \<Rightarrow> basic_block) \<Rightarrow> gr_endpoint \<Rightarrow> gr_endpoint \<Rightarrow> unit gr" where
  "check_type_match bs src dst =
     gr_bind (sizeof_stream_item (d_output_signature (bs (ep_block src))) (ep_port src)) (\<lambda>src_size.
     gr_bind (sizeof_stream_item (d_input_signature (bs (ep_block dst))) (ep_port dst)) (\<lambda>dst_size.
       if src_size \<noteq> dst_size then Inl Invalid_argument else Inr ()))"

definition connect :: "(block \<Rightarrow> basic_block) \<Rightarrow> gr_endpoint \<Rightarrow> gr_endpoint \<Rightarrow> flowgraph \<Rightarrow> flowgraph gr" where
  "connect bs src dst g =
     gr_bind (check_valid_port (d_output_signature (bs (ep_block src))) (ep_port src)) (\<lambda>_.
     gr_bind (check_valid_port (d_input_signature (bs (ep_block dst))) (ep_port dst)) (\<lambda>_.
     gr_bind (check_dst_not_used g dst) (\<lambda>_.
     gr_bind (check_type_match bs src dst) (\<lambda>_.
       Inr (g\<lparr> d_edges := d_edges g @ [\<lparr> e_src = src, e_dst = dst \<rparr>] \<rparr>)))))"

fun erase_edge :: "gr_endpoint \<Rightarrow> gr_endpoint \<Rightarrow> gr_edge list \<Rightarrow> gr_edge list gr" where
  "erase_edge src dst [] = Inl Invalid_argument"
| "erase_edge src dst (p # ps) =
     (if src = e_src p \<and> dst = e_dst p then Inr ps else map_sum id ((#) p) (erase_edge src dst ps))"

definition disconnect :: "gr_endpoint \<Rightarrow> gr_endpoint \<Rightarrow> flowgraph \<Rightarrow> flowgraph gr" where
  "disconnect src dst g = map_sum id (\<lambda>es. g\<lparr> d_edges := es \<rparr>) (erase_edge src dst (d_edges g))"

section \<open>Queries\<close>

definition calc_used_blocks :: "flowgraph \<Rightarrow> block list" where
  "calc_used_blocks g = unique_vector (concat (map (\<lambda>p. [ep_block (e_src p), ep_block (e_dst p)]) (d_edges g)))"

definition calc_connections :: "flowgraph \<Rightarrow> block \<Rightarrow> bool \<Rightarrow> gr_edge list" where
  "calc_connections g block check_inputs =
     filter (\<lambda>p. if check_inputs then ep_block (e_dst p) = block else ep_block (e_src p) = block) (d_edges g)"

definition calc_used_ports :: "flowgraph \<Rightarrow> block \<Rightarrow> bool \<Rightarrow> int list" where
  "calc_used_ports g block check_inputs =
     unique_vector (map (\<lambda>p. if check_inputs then ep_port (e_dst p) else ep_port (e_src p))
                        (calc_connections g block check_inputs))"

definition calc_downstream_port :: "flowgraph \<Rightarrow> block \<Rightarrow> int \<Rightarrow> block list" where
  "calc_downstream_port g block port =
     unique_vector (map (ep_block \<circ> e_dst) (filter (\<lambda>p. e_src p = \<lparr> ep_block = block, ep_port = port \<rparr>) (d_edges g)))"

definition calc_downstream_blocks :: "flowgraph \<Rightarrow> block \<Rightarrow> block list" where
  "calc_downstream_blocks g block =
     unique_vector (map (ep_block \<circ> e_dst) (filter (\<lambda>p. ep_block (e_src p) = block) (d_edges g)))"

definition calc_upstream_edges :: "flowgraph \<Rightarrow> block \<Rightarrow> gr_edge list" where
  "calc_upstream_edges g block = filter (\<lambda>p. ep_block (e_dst p) = block) (d_edges g)"

definition calc_upstream_edge :: "flowgraph \<Rightarrow> block \<Rightarrow> int \<Rightarrow> gr_edge option" where
  "calc_upstream_edge g block port = find (\<lambda>p. e_dst p = \<lparr> ep_block = block, ep_port = port \<rparr>) (d_edges g)"

definition has_block_p :: "flowgraph \<Rightarrow> block \<Rightarrow> bool" where
  "has_block_p g block \<longleftrightarrow> block \<in> set (d_blocks g)"

definition calc_adjacent_blocks :: "flowgraph \<Rightarrow> block \<Rightarrow> block list" where
  "calc_adjacent_blocks g block =
     unique_vector (concat (map (\<lambda>p. (if ep_block (e_src p) = block then [ep_block (e_dst p)] else [])
                                   @ (if ep_block (e_dst p) = block then [ep_block (e_src p)] else [])) (d_edges g)))"

definition source_p :: "flowgraph \<Rightarrow> block \<Rightarrow> bool" where
  "source_p g block \<longleftrightarrow> length (calc_upstream_edges g block) = 0"

section \<open>Validation\<close>

definition check_contiguity :: "(block \<Rightarrow> basic_block) \<Rightarrow> block \<Rightarrow> int list \<Rightarrow> bool \<Rightarrow> unit gr" where
  "check_contiguity bs block used_ports check_inputs =
     (let sig = (if check_inputs then d_input_signature (bs block) else d_output_signature (bs block));
          nports = int (length used_ports)
      in if nports = 0 \<and> d_min_streams sig = 0 then Inr ()
         else if nports < d_min_streams sig then Inl Runtime_error
         else if nports > d_max_streams sig \<and> d_max_streams sig \<noteq> IO_INFINITE then Inl Runtime_error
         else if used_ports ! nat (nports - 1) + 1 \<noteq> nports
                 \<and> (\<exists>i < length used_ports. used_ports ! i \<noteq> int i) then Inl Runtime_error
         else Inr ())"

fun validate_blocks :: "(block \<Rightarrow> basic_block) \<Rightarrow> flowgraph \<Rightarrow> block list \<Rightarrow> unit gr" where
  "validate_blocks bs g [] = Inr ()"
| "validate_blocks bs g (p # ps) =
     (let ins = calc_used_ports g p True; outs = calc_used_ports g p False
      in gr_bind (check_contiguity bs p ins True) (\<lambda>_.
         gr_bind (check_contiguity bs p outs False) (\<lambda>_.
           if \<not> check_topology (bs p) (int (length ins)) (int (length outs)) then Inl Runtime_error
           else validate_blocks bs g ps)))"

text \<open>The blocks are entered in the graph also when the validation fails.\<close>

definition validate :: "(block \<Rightarrow> basic_block) \<Rightarrow> flowgraph \<Rightarrow> flowgraph \<times> unit gr" where
  "validate bs g =
     (let g' = g\<lparr> d_blocks := calc_used_blocks g \<rparr> in (g', validate_blocks bs g' (d_blocks g')))"

section \<open>Connected components\<close>

text \<open>
  The searches recurse on the graph.  \<open>None\<close> is a recursion deeper than the fuel; there is always
  enough of it, as is proved.
\<close>

type_synonym colouring = "block \<Rightarrow> vcolor"

fun reachable_dfs_visit :: "flowgraph \<Rightarrow> nat \<Rightarrow> block \<Rightarrow> colouring \<Rightarrow> colouring option"
  and reachable_loop :: "flowgraph \<Rightarrow> nat \<Rightarrow> block list \<Rightarrow> colouring \<Rightarrow> colouring option" where
  "reachable_dfs_visit g 0 block c = None"
| "reachable_dfs_visit g (Suc n) block c = reachable_loop g n (calc_adjacent_blocks g block) (c(block := BLACK))"
| "reachable_loop g n [] c = Some c"
| "reachable_loop g n (p # ps) c =
     (if c p = WHITE
      then case reachable_dfs_visit g n p c of None \<Rightarrow> None | Some c' \<Rightarrow> reachable_loop g n ps c'
      else reachable_loop g n ps c)"

fun paint :: "vcolor \<Rightarrow> block list \<Rightarrow> colouring \<Rightarrow> colouring" where
  "paint x [] c = c"
| "paint x (p # ps) c = paint x ps (c(p := x))"

definition search_fuel :: "flowgraph \<Rightarrow> nat" where
  "search_fuel g = 2 * length (d_edges g) + 1"

definition calc_reachable_blocks :: "flowgraph \<Rightarrow> block \<Rightarrow> block list \<Rightarrow> colouring \<Rightarrow> (block list \<times> colouring) option" where
  "calc_reachable_blocks g block blocks c =
     map_option (\<lambda>c'. (filter (\<lambda>p. c' p = BLACK) blocks, c'))
       (reachable_dfs_visit g (search_fuel g) block (paint WHITE blocks c))"

section \<open>Topological order\<close>

definition sort_sources_first :: "flowgraph \<Rightarrow> block list \<Rightarrow> block list" where
  "sort_sources_first g blocks = filter (source_p g) blocks @ filter (\<lambda>p. \<not> source_p g p) blocks"

fun topological_dfs_visit :: "flowgraph \<Rightarrow> nat \<Rightarrow> block \<Rightarrow> colouring \<times> block list \<Rightarrow> (colouring \<times> block list) gr option"
  and topological_loop :: "flowgraph \<Rightarrow> nat \<Rightarrow> block list \<Rightarrow> colouring \<times> block list \<Rightarrow> (colouring \<times> block list) gr option" where
  "topological_dfs_visit g 0 block st = None"
| "topological_dfs_visit g (Suc n) block st =
     map_option (map_sum id (\<lambda>(c, output). (c(block := BLACK), output @ [block])))
       (topological_loop g n (calc_downstream_blocks g block) ((fst st)(block := GREY), snd st))"
| "topological_loop g n [] st = Some (Inr st)"
| "topological_loop g n (p # ps) st =
     (case fst st p of
        WHITE \<Rightarrow> (case topological_dfs_visit g n p st of
                    None \<Rightarrow> None
                  | Some (Inl e) \<Rightarrow> Some (Inl e)
                  | Some (Inr st') \<Rightarrow> topological_loop g n ps st')
      | GREY \<Rightarrow> Some (Inl Runtime_error)
      | BLACK \<Rightarrow> topological_loop g n ps st)"

fun topological_roots :: "flowgraph \<Rightarrow> block list \<Rightarrow> colouring \<times> block list \<Rightarrow> (colouring \<times> block list) gr option" where
  "topological_roots g [] st = Some (Inr st)"
| "topological_roots g (p # ps) st =
     (if fst st p = WHITE
      then case topological_dfs_visit g (search_fuel g) p st of
             None \<Rightarrow> None
           | Some (Inl e) \<Rightarrow> Some (Inl e)
           | Some (Inr st') \<Rightarrow> topological_roots g ps st'
      else topological_roots g ps st)"

definition topological_sort :: "flowgraph \<Rightarrow> block list \<Rightarrow> colouring \<Rightarrow> (block list \<times> colouring) gr option" where
  "topological_sort g blocks c =
     (let tmp = sort_sources_first g blocks
      in map_option (map_sum id (\<lambda>(c', result). (rev result, c')))
           (topological_roots g tmp (paint WHITE tmp c, [])))"

section \<open>Partition\<close>

fun partition_loop :: "flowgraph \<Rightarrow> nat \<Rightarrow> block list \<Rightarrow> colouring \<Rightarrow> (block list list \<times> colouring) gr option" where
  "partition_loop g n [] c = Some (Inr ([], c))"
| "partition_loop g 0 (b # bs) c = None"
| "partition_loop g (Suc n) (b # bs) c =
     (case calc_reachable_blocks g b (b # bs) c of
        None \<Rightarrow> None
      | Some (graph, c') \<Rightarrow>
          if graph = [] then Some (Inl Assertion_failed)
          else case topological_sort g graph c' of
            None \<Rightarrow> None
          | Some (Inl e) \<Rightarrow> Some (Inl e)
          | Some (Inr (order, c'')) \<Rightarrow>
              map_option (map_sum id (\<lambda>(result, c). (order # result, c)))
                (partition_loop g n (fold remove1 graph (b # bs)) c''))"

definition partition_graph :: "flowgraph \<Rightarrow> colouring \<Rightarrow> (block list list \<times> colouring) gr option" where
  "partition_graph g c = partition_loop g (length (calc_used_blocks g)) (calc_used_blocks g) c"

end
