(* ===== verification/Gr_Topology.thy ===== *)
theory Gr_Topology
  imports Gr_Flowgraph
begin

text \<open>
  What the graph functions compute: the topological order with its detection of loops, the connected
  components, the partition.  \<open>edges_of\<close> is the relation of blocks that are connected.
\<close>

section \<open>The graph as a relation\<close>

definition edges_of :: "flowgraph \<Rightarrow> (block \<times> block) set" where
  "edges_of g = (\<lambda>p. (ep_block (e_src p), ep_block (e_dst p))) ` set (d_edges g)"

lemma finite_edges_of [simp]: "finite (edges_of g)"
  by (simp add: edges_of_def)

lemma unique_vector [simp]:
  "set (unique_vector v) = set v" "sorted (unique_vector v)" "distinct (unique_vector v)"
proof -
  show "set (unique_vector v) = set v" by (simp add: unique_vector_def)
  show s: "sorted (unique_vector v)" unfolding unique_vector_def by (intro sorted_remdups_adj sorted_sort)
  have "sorted xs \<Longrightarrow> distinct (remdups_adj xs)" for xs :: "'a list"
    by (induction xs rule: remdups_adj.induct) (auto simp: order.antisym)
  then show "distinct (unique_vector v)" by (simp add: unique_vector_def)
qed

lemma set_downstream [simp]: "set (calc_downstream_blocks g b) = edges_of g `` {b}"
  by (auto simp: calc_downstream_blocks_def edges_of_def)

lemma set_adjacent: "set (calc_adjacent_blocks g b) = (edges_of g \<union> (edges_of g)\<inverse>) `` {b}"
  by (auto simp: calc_adjacent_blocks_def edges_of_def split: if_splits)

lemma set_used [simp]: "set (calc_used_blocks g) = Field (edges_of g)"
  by (force simp: calc_used_blocks_def edges_of_def Field_def)

lemma distinct_used [simp]: "distinct (calc_used_blocks g)"
  by (simp add: calc_used_blocks_def)

lemma source_iff: "source_p g b \<longleftrightarrow> b \<notin> Range (edges_of g)"
  by (auto simp: source_p_def calc_upstream_edges_def edges_of_def filter_empty_conv)

lemma card_range: "card (Range (edges_of g)) \<le> length (d_edges g)"
proof -
  have "Range (edges_of g) = set (map (\<lambda>p. ep_block (e_dst p)) (d_edges g))" by (force simp: edges_of_def)
  then show ?thesis by (metis card_length length_map)
qed

lemma card_field: "card (Field (edges_of g)) \<le> 2 * length (d_edges g)"
proof -
  have "Field (edges_of g) = set (concat (map (\<lambda>p. [ep_block (e_src p), ep_block (e_dst p)]) (d_edges g)))"
    by (force simp: edges_of_def Field_def)
  moreover have "length (concat (map (\<lambda>p. [ep_block (e_src p), ep_block (e_dst p)]) es)) = 2 * length es" for es :: "gr_edge list"
    by (induction es) auto
  ultimately show ?thesis by (metis card_length)
qed

lemma paint_apply: "paint x bs c = (\<lambda>b. if b \<in> set bs then x else c b)"
  by (induction bs arbitrary: c) auto

section \<open>Topological order\<close>

text \<open>The search ends: every call on a white block paints it, and it stays painted.\<close>

definition white :: "'a set \<Rightarrow> ('a \<Rightarrow> vcolor) \<Rightarrow> 'a set" where
  "white V c = {b \<in> V. c b = WHITE}"

lemma white_paint: "x \<noteq> WHITE \<Longrightarrow> white V (c(b := x)) = white V c - {b}"
  by (auto simp: white_def)

lemma finite_white: "finite V \<Longrightarrow> finite (white V c)"
  by (simp add: white_def)

lemma visit_returns:
  "card (insert b (white (Range (edges_of g)) (fst st))) \<le> n \<Longrightarrow> \<exists>r. topological_dfs_visit g n b st = Some r
     \<and> (\<forall>st'. r = Inr st' \<longrightarrow> white (Range (edges_of g)) (fst st') \<subseteq> white (Range (edges_of g)) (fst st))"
  "set ps \<subseteq> Range (edges_of g) \<Longrightarrow> card (white (Range (edges_of g)) (fst st)) \<le> n \<Longrightarrow> \<exists>r. topological_loop g n ps st = Some r
     \<and> (\<forall>st'. r = Inr st' \<longrightarrow> white (Range (edges_of g)) (fst st') \<subseteq> white (Range (edges_of g)) (fst st))"
proof (induction g n b st and g n ps st rule: topological_dfs_visit_topological_loop.induct)
  case (1 g b st)
  then show ?case by (simp add: finite_white finite_Range card_eq_0_iff)
next
  case (2 g n b st)
  let ?V = "Range (edges_of g)"
  let ?st = "((fst st)(b := GREY), snd st)"
  have "card (white ?V (fst st) - {b}) \<le> n"
    using 2(2) card.insert_remove [OF finite_white [of ?V "fst st"], of b] by (simp add: finite_Range)
  then have "card (white ?V (fst ?st)) \<le> n" by (simp add: white_paint)
  moreover have "set (calc_downstream_blocks g b) \<subseteq> ?V" by auto
  ultimately obtain r where "topological_loop g n (calc_downstream_blocks g b) ?st = Some r"
      "\<forall>st'. r = Inr st' \<longrightarrow> white ?V (fst st') \<subseteq> white ?V (fst ?st)"
    using 2(1) by blast
  then show ?case by (cases r) (auto simp: white_paint)
next
  case (4 g n p ps st)
  let ?V = "Range (edges_of g)"
  show ?case
  proof (cases "fst st p")
    case WHITE
    then have "p \<in> white ?V (fst st)" using 4(4) by (auto simp: white_def)
    then have "card (insert p (white ?V (fst st))) \<le> n" using 4(5) by (simp add: insert_absorb)
    from 4(1) [OF WHITE this] obtain r where r: "topological_dfs_visit g n p st = Some r"
        "\<forall>st'. r = Inr st' \<longrightarrow> white ?V (fst st') \<subseteq> white ?V (fst st)" by blast
    show ?thesis
    proof (cases r)
      case (Inr st')
      then have sub: "white ?V (fst st') \<subseteq> white ?V (fst st)" using r(2) by simp
      then have "card (white ?V (fst st')) \<le> n" using 4(5) finite_white card_mono [OF _ sub] by (meson finite_Range finite_edges_of order_trans)
      then obtain r' where "topological_loop g n ps st' = Some r'"
          "\<forall>st''. r' = Inr st'' \<longrightarrow> white ?V (fst st'') \<subseteq> white ?V (fst st')"
        using 4(2) [OF WHITE r(1) Inr] 4(4) by auto
      then show ?thesis using WHITE r(1) Inr sub by auto
    qed (use WHITE r(1) in auto)
  next
    case BLACK
    then show ?thesis using 4 by auto
  qed simp
qed auto

text \<open>What the search finds: blocks in \<open>U\<close> after all that they feed, or a loop.\<close>

definition post_order :: "('a \<times> 'a) set \<Rightarrow> 'a list \<Rightarrow> bool" where
  "post_order E out \<longleftrightarrow> (\<forall>xs b ys. out = xs @ b # ys \<longrightarrow> E `` {b} \<subseteq> set xs)"

lemma post_order_Nil [simp]: "post_order E []"
  by (simp add: post_order_def)

lemma post_order_snoc: "post_order E (out @ [b]) \<longleftrightarrow> post_order E out \<and> E `` {b} \<subseteq> set out"
proof
  assume p: "post_order E (out @ [b])"
  then have "E `` {b} \<subseteq> set out" unfolding post_order_def by blast
  moreover have "E `` {x} \<subseteq> set xs" if "out = xs @ x # ys" for xs x ys
    using p that unfolding post_order_def by (metis append.assoc append_Cons)
  ultimately show "post_order E out \<and> E `` {b} \<subseteq> set out" unfolding post_order_def by blast
next
  assume p: "post_order E out \<and> E `` {b} \<subseteq> set out"
  show "post_order E (out @ [b])"
    unfolding post_order_def
  proof (intro allI impI)
    fix xs x ys
    assume e: "out @ [b] = xs @ x # ys"
    show "E `` {x} \<subseteq> set xs"
    proof (cases ys rule: rev_cases)
      case Nil
      then show ?thesis using e p by simp
    next
      case (snoc zs z)
      then have "out = xs @ x # zs" using e by simp
      then show ?thesis using p unfolding post_order_def by blast
    qed
  qed
qed

definition searched :: "(block \<times> block) set \<Rightarrow> block set \<Rightarrow> colouring \<times> block list \<Rightarrow> bool" where
  "searched E U st \<longleftrightarrow> set (snd st) = {b \<in> U. fst st b = BLACK} \<and> distinct (snd st) \<and> post_order E (snd st)"

definition advanced :: "block set \<Rightarrow> colouring \<times> block list \<Rightarrow> colouring \<times> block list \<Rightarrow> bool" where
  "advanced U st st' \<longleftrightarrow> (\<forall>b \<in> U. (fst st b = BLACK \<longrightarrow> fst st' b = BLACK) \<and> (fst st' b = GREY \<longleftrightarrow> fst st b = GREY))"

lemma advanced_trans: "advanced U st st' \<Longrightarrow> advanced U st' st'' \<Longrightarrow> advanced U st st''"
  by (simp add: advanced_def)

lemma advanced_black: "advanced U st st' \<Longrightarrow> b \<in> U \<Longrightarrow> fst st b = BLACK \<Longrightarrow> fst st' b = BLACK"
  by (simp add: advanced_def)

definition looping :: "('a \<times> 'a) set \<Rightarrow> 'a set \<Rightarrow> bool" where
  "looping E U \<longleftrightarrow> (\<exists>x \<in> U. (x, x) \<in> E\<^sup>+)"

lemma visit_correct:
  "topological_dfs_visit g n b st = Some r \<Longrightarrow> searched (edges_of g) U st \<Longrightarrow> b \<in> U \<Longrightarrow> fst st b = WHITE
     \<Longrightarrow> \<forall>x \<in> U. fst st x = GREY \<longrightarrow> (x, b) \<in> (edges_of g)\<^sup>*
     \<Longrightarrow> edges_of g `` U \<subseteq> U
     \<Longrightarrow> (case r of Inl e \<Rightarrow> e = Runtime_error \<and> looping (edges_of g) U
         | Inr st' \<Rightarrow> searched (edges_of g) U st' \<and> advanced U st st' \<and> fst st' b = BLACK)"
  "topological_loop g n ps st = Some r \<Longrightarrow> searched (edges_of g) U st \<Longrightarrow> set ps \<subseteq> edges_of g `` {cur} \<Longrightarrow> cur \<in> U
     \<Longrightarrow> \<forall>x \<in> U. fst st x = GREY \<longrightarrow> (x, cur) \<in> (edges_of g)\<^sup>*
     \<Longrightarrow> edges_of g `` U \<subseteq> U
     \<Longrightarrow> (case r of Inl e \<Rightarrow> e = Runtime_error \<and> looping (edges_of g) U
         | Inr st' \<Rightarrow> searched (edges_of g) U st' \<and> advanced U st st' \<and> (\<forall>p \<in> set ps. fst st' p = BLACK))"
proof (induction g n b st and g n ps st arbitrary: r and r cur rule: topological_dfs_visit_topological_loop.induct)
  case (2 g n b st)
  let ?st = "((fst st)(b := GREY), snd st)"
  obtain q where q: "topological_loop g n (calc_downstream_blocks g b) ?st = Some q"
      "r = map_sum id (\<lambda>(c, output). (c(b := BLACK), output @ [b])) q"
    using 2(2) by auto
  have st: "searched (edges_of g) U ?st" using 2(3,5) by (auto simp: searched_def)
  have grey: "\<forall>x \<in> U. fst ?st x = GREY \<longrightarrow> (x, b) \<in> (edges_of g)\<^sup>*" using 2(6) by auto
  note IH = 2(1) [OF q(1) st _ 2(4) grey 2(7)]
  show ?case
  proof (cases q)
    case (Inl e)
    then show ?thesis using IH q(2) by simp
  next
    case (Inr st')
    obtain c' out' where st': "st' = (c', out')" by (cases st')
    have i: "searched (edges_of g) U (c', out')" "advanced U ?st (c', out')" "\<forall>p \<in> edges_of g `` {b}. c' p = BLACK"
      using IH Inr st' by auto
    have "edges_of g `` {b} \<subseteq> U" using 2(4,7) by blast
    moreover have "set out' = {x \<in> U. c' x = BLACK}" using i(1) by (simp add: searched_def)
    ultimately have sub: "edges_of g `` {b} \<subseteq> set out'" using i(3) by blast
    have "c' b = GREY" using i(2) 2(4) by (simp add: advanced_def)
    then have "searched (edges_of g) U (c'(b := BLACK), out' @ [b])"
      using i(1) 2(4) sub by (auto simp: searched_def post_order_snoc)
    moreover have "advanced U st (c'(b := BLACK), out' @ [b])"
      using i(2) 2(5) by (auto simp: advanced_def)
    ultimately show ?thesis using q(2) Inr st' by simp
  qed
next
  case (4 g n p ps st)
  show ?case
  proof (cases "fst st p")
    case WHITE
    obtain q where q: "topological_dfs_visit g n p st = Some q" using 4(4) WHITE by (auto split: option.splits)
    have p: "(cur, p) \<in> edges_of g" "p \<in> U" using 4(6,7,9) by auto
    have grey: "\<forall>x \<in> U. fst st x = GREY \<longrightarrow> (x, p) \<in> (edges_of g)\<^sup>*"
      using 4(8) p(1) by (meson rtrancl.rtrancl_into_rtrancl)
    note IH = 4(1) [OF WHITE q 4(5) p(2) WHITE grey 4(9)]
    show ?thesis
    proof (cases q)
      case (Inl e)
      then show ?thesis using 4(4) WHITE q IH by auto
    next
      case (Inr st')
      then have st': "searched (edges_of g) U st'" "advanced U st st'" "fst st' p = BLACK" using IH by auto
      have loop: "topological_loop g n ps st' = Some r" using 4(4) WHITE q Inr by auto
      have grey': "\<forall>x \<in> U. fst st' x = GREY \<longrightarrow> (x, cur) \<in> (edges_of g)\<^sup>*" using st'(2) 4(8) by (auto simp: advanced_def)
      have ps: "set ps \<subseteq> edges_of g `` {cur}" using 4(6) by auto
      note IH' = 4(2) [OF WHITE q Inr loop st'(1) ps 4(7) grey' 4(9)]
      show ?thesis
      proof (cases r)
        case (Inr st'')
        then have "searched (edges_of g) U st''" "advanced U st' st''" "\<forall>p \<in> set ps. fst st'' p = BLACK"
          using IH' by simp_all
        then show ?thesis using Inr advanced_trans [OF st'(2)] advanced_black [OF _ p(2) st'(3)] by simp
      qed (use IH' in simp)
    qed
  next
    case GREY
    have "(cur, p) \<in> edges_of g" "p \<in> U" using 4(6,7,9) by auto
    moreover from this have "(p, cur) \<in> (edges_of g)\<^sup>*" using 4(8) GREY by blast
    ultimately have "looping (edges_of g) U" unfolding looping_def by (meson rtrancl_into_trancl1)
    then show ?thesis using 4(4) GREY by auto
  next
    case BLACK
    have "p \<in> U" using 4(6,7,9) by auto
    moreover have "topological_loop g n ps st = Some r" "set ps \<subseteq> edges_of g `` {cur}" using 4(4,6) BLACK by auto
    ultimately show ?thesis using 4(3) [OF BLACK _ 4(5) _ 4(7,8,9)] BLACK by (auto simp: advanced_def split: sum.splits)
  qed
qed (auto simp: advanced_def)

lemma roots_correct:
  assumes closed: "edges_of g `` U \<subseteq> U"
  shows "searched (edges_of g) U st \<Longrightarrow> set ps \<subseteq> U \<Longrightarrow> \<forall>x \<in> U. fst st x \<noteq> GREY
     \<Longrightarrow> case topological_roots g ps st of
         None \<Rightarrow> False
       | Some (Inl e) \<Rightarrow> e = Runtime_error \<and> looping (edges_of g) U
       | Some (Inr st') \<Rightarrow> searched (edges_of g) U st' \<and> advanced U st st' \<and> (\<forall>p \<in> set ps. fst st' p = BLACK)"
proof (induction ps arbitrary: st)
  case Nil
  then show ?case by (simp add: advanced_def)
next
  case (Cons p ps)
  have p: "p \<in> U" using Cons.prems(2) by simp
  show ?case
  proof (cases "fst st p = WHITE")
    case True
    let ?W = "white (Range (edges_of g)) (fst st)"
    have fin: "finite (Range (edges_of g))" by (simp add: finite_Range)
    have "card ?W \<le> card (Range (edges_of g))" using fin by (intro card_mono) (auto simp: white_def)
    then have "card (insert p ?W) \<le> search_fuel g"
      using card_range [of g] card_insert_le_m1 [of "search_fuel g" ?W p] by (simp add: search_fuel_def)
    then obtain r where r: "topological_dfs_visit g (search_fuel g) p st = Some r" using visit_returns(1) by blast
    have grey: "\<forall>x \<in> U. fst st x = GREY \<longrightarrow> (x, p) \<in> (edges_of g)\<^sup>*" using Cons.prems(3) by blast
    note v = visit_correct(1) [OF r Cons.prems(1) p True grey closed]
    show ?thesis
    proof (cases r)
      case (Inl e)
      then show ?thesis using v r True by simp
    next
      case (Inr st')
      then have st': "searched (edges_of g) U st'" "advanced U st st'" "fst st' p = BLACK" using v by auto
      have "\<forall>x \<in> U. fst st' x \<noteq> GREY" using st'(2) Cons.prems(3) by (auto simp: advanced_def)
      note IH = Cons.IH [OF st'(1) _ this]
      have roots: "topological_roots g (p # ps) st = topological_roots g ps st'" using True r Inr by simp
      show ?thesis
      proof (cases "\<exists>st''. topological_roots g ps st' = Some (Inr st'')")
        case True
        then obtain st'' where st'': "topological_roots g ps st' = Some (Inr st'')" by blast
        then have "searched (edges_of g) U st''" "advanced U st' st''" "\<forall>p \<in> set ps. fst st'' p = BLACK"
          using IH Cons.prems(2) by auto
        then show ?thesis
          unfolding roots st'' using advanced_trans [OF st'(2)] advanced_black [OF _ p st'(3)] by simp
      next
        case False
        then show ?thesis unfolding roots using IH Cons.prems(2) by (simp split: option.splits sum.splits)
      qed
    qed
  next
    case False
    then have "fst st p = BLACK" using Cons.prems(3) p by (cases "fst st p") auto
    then show ?thesis using Cons.IH [OF Cons.prems(1) _ Cons.prems(3)] Cons.prems(2) p
      by (auto simp: advanced_def split: option.splits sum.splits)
  qed
qed

text \<open>One block before another in a list.\<close>

definition before :: "'a list \<Rightarrow> 'a \<Rightarrow> 'a \<Rightarrow> bool" where
  "before xs a b \<longleftrightarrow> (\<exists>us vs ws. xs = us @ a # vs @ b # ws)"

lemma post_order_before:
  assumes "post_order E out" "a \<in> set out" "(a, b) \<in> E"
  shows "before (rev out) a b"
proof -
  obtain xs ys where o: "out = xs @ a # ys" using split_list [OF assms(2)] by blast
  then have "b \<in> set xs" using assms(1,3) unfolding post_order_def by blast
  then obtain us vs where "xs = us @ b # vs" using split_list by fast
  then have "rev out = rev ys @ a # rev vs @ b # rev us" using o by simp
  then show ?thesis unfolding before_def by blast
qed

lemma post_order_trancl:
  assumes "post_order E out" "(a, b) \<in> E\<^sup>+" "out = xs @ a # ys"
  shows "b \<in> set xs"
  using assms(2,3)
proof (induction arbitrary: rule: trancl_induct)
  case (base y)
  then show ?case using assms(1) unfolding post_order_def by blast
next
  case (step y z)
  then have "y \<in> set xs" by blast
  then obtain us vs where "xs = us @ y # vs" using split_list by fast
  then have "out = us @ y # (vs @ a # ys)" using assms(3) by simp
  then have "z \<in> set us" using assms(1) step.hyps(2) unfolding post_order_def by blast
  then show ?case using \<open>xs = us @ y # vs\<close> by simp
qed

lemma post_order_no_loop:
  assumes "post_order E out" "distinct out"
  shows "\<not> looping E (set out)"
proof
  assume "looping E (set out)"
  then obtain x where x: "x \<in> set out" "(x, x) \<in> E\<^sup>+" unfolding looping_def by blast
  obtain xs ys where o: "out = xs @ x # ys" using split_list [OF x(1)] by blast
  then have "x \<in> set xs" using post_order_trancl [OF assms(1) x(2)] by blast
  then show False using assms(2) o by simp
qed

lemma topological_sort_correct:
  assumes closed: "edges_of g `` set blocks \<subseteq> set blocks"
  shows "case topological_sort g blocks c of
      None \<Rightarrow> False
    | Some (Inl e) \<Rightarrow> e = Runtime_error \<and> looping (edges_of g) (set blocks)
    | Some (Inr (r, c')) \<Rightarrow> set r = set blocks \<and> distinct r \<and> \<not> looping (edges_of g) (set blocks)
        \<and> (\<forall>(a, b) \<in> edges_of g. a \<in> set blocks \<longrightarrow> before r a b)"
proof -
  let ?U = "set blocks" and ?tmp = "sort_sources_first g blocks"
  let ?st = "(paint WHITE ?tmp c, [])"
  have tmp: "set ?tmp = ?U" by (auto simp: sort_sources_first_def)
  have "searched (edges_of g) ?U ?st" "\<forall>x \<in> ?U. fst ?st x \<noteq> GREY"
    by (auto simp: searched_def paint_apply tmp)
  note r = roots_correct [OF closed this(1) _ this(2), of ?tmp]
  show ?thesis
  proof (cases "topological_roots g ?tmp ?st")
    case None
    then show ?thesis using r tmp by simp
  next
    case (Some q)
    show ?thesis
    proof (cases q)
      case (Inl e)
      then show ?thesis using r tmp Some by (simp add: topological_sort_def Let_def)
    next
      case (Inr st')
      obtain c' out where st': "st' = (c', out)" by (cases st')
      have o: "set out = ?U" "distinct out" "post_order (edges_of g) out"
        using r tmp Some Inr st' by (auto simp: searched_def)
      have "\<not> looping (edges_of g) ?U" using post_order_no_loop [OF o(3,2)] o(1) by simp
      moreover have "before (rev out) a b" if "(a, b) \<in> edges_of g" "a \<in> ?U" for a b
        using post_order_before [OF o(3) _ that(1)] that(2) o(1) by simp
      ultimately show ?thesis using o(1,2) Some Inr st' by (auto simp: topological_sort_def Let_def)
    qed
  qed
qed

section \<open>Connected components\<close>

definition linked :: "flowgraph \<Rightarrow> (block \<times> block) set" where
  "linked g = edges_of g \<union> (edges_of g)\<inverse>"

lemma linked_field: "linked g `` {b} \<subseteq> Field (edges_of g)"
  by (auto simp: linked_def Field_def)

lemma set_adjacent_linked: "set (calc_adjacent_blocks g b) = linked g `` {b}"
  by (simp only: set_adjacent linked_def)

lemma sym_linked: "sym (linked g)"
  by (auto simp: linked_def sym_def)

lemma reachable_returns:
  "card (insert b (white (Field (edges_of g)) c)) \<le> n \<Longrightarrow> \<exists>c'. reachable_dfs_visit g n b c = Some c'
     \<and> white (Field (edges_of g)) c' \<subseteq> white (Field (edges_of g)) c"
  "set ps \<subseteq> Field (edges_of g) \<Longrightarrow> card (white (Field (edges_of g)) c) \<le> n \<Longrightarrow> \<exists>c'. reachable_loop g n ps c = Some c'
     \<and> white (Field (edges_of g)) c' \<subseteq> white (Field (edges_of g)) c"
proof (induction g n b c and g n ps c rule: reachable_dfs_visit_reachable_loop.induct)
  case (1 g b c)
  then show ?case by (simp add: finite_white finite_Field card_eq_0_iff)
next
  case (2 g n b c)
  let ?V = "Field (edges_of g)"
  have "card (white ?V c - {b}) \<le> n"
    using 2(2) card.insert_remove [OF finite_white [of ?V c], of b] by (simp add: finite_Field)
  then have "card (white ?V (c(b := BLACK))) \<le> n" by (simp add: white_paint)
  moreover have "set (calc_adjacent_blocks g b) \<subseteq> ?V" unfolding set_adjacent_linked by (rule linked_field)
  ultimately obtain c' where "reachable_loop g n (calc_adjacent_blocks g b) (c(b := BLACK)) = Some c'"
      "white ?V c' \<subseteq> white ?V (c(b := BLACK))"
    using 2(1) by blast
  then show ?case by (auto simp: white_paint)
next
  case (4 g n p ps c)
  let ?V = "Field (edges_of g)"
  show ?case
  proof (cases "c p = WHITE")
    case True
    then have "p \<in> white ?V c" using 4(4) by (auto simp: white_def)
    then have "card (insert p (white ?V c)) \<le> n" using 4(5) by (simp add: insert_absorb)
    from 4(1) [OF True this] obtain c' where c': "reachable_dfs_visit g n p c = Some c'" "white ?V c' \<subseteq> white ?V c" by blast
    then have "card (white ?V c') \<le> n"
      using 4(5) card_mono [OF finite_white c'(2)] by (meson finite_Field finite_edges_of order_trans)
    then obtain c'' where "reachable_loop g n ps c' = Some c''" "white ?V c'' \<subseteq> white ?V c'"
      using 4(2) [OF True c'(1)] 4(4) by auto
    then show ?thesis using True c' by auto
  next
    case False
    then show ?thesis using 4 by auto
  qed
qed auto

text \<open>The blocks that a search paints.\<close>

definition painted :: "colouring \<Rightarrow> colouring \<Rightarrow> block set" where
  "painted c c' = {b. c b = WHITE \<and> c' b = BLACK}"

definition spread :: "flowgraph \<Rightarrow> colouring \<Rightarrow> colouring \<Rightarrow> bool" where
  "spread g c c' \<longleftrightarrow> (\<forall>b. c' b = c b \<or> b \<in> painted c c')
     \<and> (\<forall>b y. b \<in> painted c c' \<longrightarrow> (b, y) \<in> linked g \<longrightarrow> c' y \<noteq> WHITE)"

lemma spreadD:
  assumes "spread g c c'"
  shows "c' b = c b \<or> c b = WHITE \<and> c' b = BLACK" "b \<in> painted c c' \<Longrightarrow> (b, y) \<in> linked g \<Longrightarrow> c' y \<noteq> WHITE"
    "c b \<noteq> WHITE \<Longrightarrow> c' b = c b"
  using assms unfolding spread_def painted_def by blast+

lemma spread_refl: "spread g c c"
  by (auto simp: spread_def painted_def)

lemma painted_trans:
  assumes "spread g c c'" "spread g c' c''"
  shows "painted c c'' = painted c c' \<union> painted c' c''"
proof -
  have "b \<in> painted c c'' \<longleftrightarrow> b \<in> painted c c' \<union> painted c' c''" for b
    using spreadD(1) [OF assms(1), of b] spreadD(1) [OF assms(2), of b] by (auto simp: painted_def)
  then show ?thesis by blast
qed

lemma spread_trans:
  assumes "spread g c c'" "spread g c' c''"
  shows "spread g c c''"
proof -
  note p = painted_trans [OF assms]
  have "c'' b = c b \<or> b \<in> painted c c''" for b
    using spreadD(1) [OF assms(1), of b] spreadD(1) [OF assms(2), of b] by (auto simp: painted_def)
  moreover have "c'' y \<noteq> WHITE" if "b \<in> painted c c''" "(b, y) \<in> linked g" for b y
    using that spreadD(2) [OF assms(1), of b y] spreadD(2) [OF assms(2), of b y] spreadD(3) [OF assms(2), of y]
    unfolding p by auto
  ultimately show ?thesis unfolding spread_def by blast
qed

lemma reachable_correct:
  "reachable_dfs_visit g n b c = Some c' \<Longrightarrow> c b = WHITE
     \<Longrightarrow> spread g c c' \<and> b \<in> painted c c' \<and> painted c c' \<subseteq> (linked g)\<^sup>* `` {b}"
  "reachable_loop g n ps c = Some c'
     \<Longrightarrow> spread g c c' \<and> (\<forall>p \<in> set ps. c' p \<noteq> WHITE) \<and> painted c c' \<subseteq> (linked g)\<^sup>* `` set ps"
proof (induction g n b c and g n ps c arbitrary: c' and c' rule: reachable_dfs_visit_reachable_loop.induct)
  case (2 g n b c)
  let ?c = "c(b := BLACK)"
  have l: "reachable_loop g n (calc_adjacent_blocks g b) ?c = Some c'" using 2(2) by simp
  have r: "spread g ?c c'" "\<forall>p \<in> linked g `` {b}. c' p \<noteq> WHITE" "painted ?c c' \<subseteq> (linked g)\<^sup>* `` (linked g `` {b})"
    using 2(1) [OF l, unfolded set_adjacent_linked] by blast+
  have b: "c' b = BLACK" using spreadD(3) [OF r(1), of b] by simp
  then have p: "painted c c' = insert b (painted ?c c')" using 2(3) by (auto simp: painted_def)
  have "(linked g)\<^sup>* `` (linked g `` {b}) \<subseteq> (linked g)\<^sup>* `` {b}" by (auto intro: converse_rtrancl_into_rtrancl)
  then have "painted c c' \<subseteq> (linked g)\<^sup>* `` {b}" using r(3) p by auto
  moreover have "c' x = c x \<or> x \<in> insert b (painted ?c c')" for x
    using spreadD(1) [OF r(1), of x] by (auto simp: painted_def)
  moreover have "c' y \<noteq> WHITE" if "x \<in> insert b (painted ?c c')" "(x, y) \<in> linked g" for x y
    using that r(2) spreadD(2) [OF r(1), of x y] by auto
  ultimately have "spread g c c' \<and> painted c c' \<subseteq> (linked g)\<^sup>* `` {b}" unfolding spread_def p by blast
  then show ?case using p by blast
next
  case (4 g n p ps c)
  show ?case
  proof (cases "c p = WHITE")
    case True
    obtain d where d: "reachable_dfs_visit g n p c = Some d" using 4(4) True by (auto split: option.splits)
    have v: "spread g c d" "p \<in> painted c d" "painted c d \<subseteq> (linked g)\<^sup>* `` {p}" using 4(1) [OF True d True] by auto
    have w: "spread g d c'" "\<forall>p \<in> set ps. c' p \<noteq> WHITE" "painted d c' \<subseteq> (linked g)\<^sup>* `` set ps"
      using 4(2) [OF True d, of c'] 4(4) True d by auto
    have "c' p \<noteq> WHITE" using spreadD(3) [OF w(1), of p] v(2) by (simp add: painted_def)
    moreover have "painted c c' \<subseteq> (linked g)\<^sup>* `` set (p # ps)" using painted_trans [OF v(1) w(1)] v(3) w(3) by auto
    ultimately show ?thesis using spread_trans [OF v(1) w(1)] w(2) by simp
  next
    case False
    then have w: "spread g c c'" "\<forall>p \<in> set ps. c' p \<noteq> WHITE" "painted c c' \<subseteq> (linked g)\<^sup>* `` set ps"
      using 4(3) [OF False] 4(4) by auto
    moreover have "(linked g)\<^sup>* `` set ps \<subseteq> (linked g)\<^sup>* `` set (p # ps)" by auto
    ultimately show ?thesis using False spreadD(3) [OF w(1) False] by simp
  qed
qed (auto simp: spread_refl painted_def)

definition component :: "flowgraph \<Rightarrow> block \<Rightarrow> block set" where
  "component g b = (linked g)\<^sup>* `` {b}"

lemma calc_reachable_correct:
  assumes closed: "linked g `` set blocks \<subseteq> set blocks" and b: "b \<in> set blocks"
  shows "\<exists>c'. calc_reachable_blocks g b blocks c = Some (filter (\<lambda>x. x \<in> component g b) blocks, c')"
proof -
  let ?c = "paint WHITE blocks c" and ?V = "Field (edges_of g)"
  have white: "?c x = WHITE" if "x \<in> set blocks" for x using that by (simp add: paint_apply)
  have fin: "finite ?V" by (simp add: finite_Field)
  have "card (white ?V ?c) \<le> card ?V" using fin by (intro card_mono) (auto simp: white_def)
  then have "card (insert b (white ?V ?c)) \<le> search_fuel g"
    using card_field [of g] card_insert_le_m1 [of "search_fuel g" "white ?V ?c" b] by (simp add: search_fuel_def)
  then obtain c' where c': "reachable_dfs_visit g (search_fuel g) b ?c = Some c'" using reachable_returns(1) by blast
  have r: "spread g ?c c'" "b \<in> painted ?c c'" "painted ?c c' \<subseteq> (linked g)\<^sup>* `` {b}"
    using reachable_correct(1) [OF c' white [OF b]] by auto
  have "x \<in> set blocks \<and> x \<in> painted ?c c'" if "(b, x) \<in> (linked g)\<^sup>*" for x
    using that
  proof (induction rule: rtrancl_induct)
    case (step y z)
    then have "z \<in> set blocks" using closed by blast
    moreover have "c' z \<noteq> WHITE" using spreadD(2) [OF r(1)] step by blast
    ultimately show ?case using white spreadD(1) [OF r(1), of z] by (auto simp: painted_def)
  qed (use b r(2) in simp)
  then have "c' x = BLACK \<longleftrightarrow> x \<in> (linked g)\<^sup>* `` {b}" if "x \<in> set blocks" for x
    using r(3) white [OF that] by (auto simp: painted_def)
  then have "filter (\<lambda>p. c' p = BLACK) blocks = filter (\<lambda>x. x \<in> (linked g)\<^sup>* `` {b}) blocks" by (intro filter_cong) simp_all
  then show ?thesis using c' by (simp add: calc_reachable_blocks_def component_def)
qed

section \<open>Partition\<close>

lemma component_eq: "x \<in> component g b \<Longrightarrow> component g x = component g b"
  using sym_rtrancl [OF sym_linked, of g] by (auto simp: component_def sym_def intro: rtrancl_trans)

lemma component_self [simp]: "b \<in> component g b"
  by (simp add: component_def)

lemma fold_remove1:
  "distinct xs \<Longrightarrow> set (fold remove1 ys xs) = set xs - set ys \<and> distinct (fold remove1 ys xs)"
  by (induction ys arbitrary: xs) auto

lemma component_closed: "linked g `` component g b \<subseteq> component g b"
  by (auto simp: component_def)

lemma component_in:
  assumes "linked g `` U \<subseteq> U" "b \<in> U"
  shows "component g b \<subseteq> U"
proof -
  have "x \<in> U" if "(b, x) \<in> (linked g)\<^sup>*" for x
    using that assms by (induction rule: rtrancl_induct) auto
  then show ?thesis by (auto simp: component_def)
qed

lemma rest_closed:
  assumes "linked g `` U \<subseteq> U"
  shows "linked g `` (U - component g b) \<subseteq> U - component g b"
proof -
  have "x \<in> component g b" if "(x, y) \<in> linked g" "y \<in> component g b" for x y
    using that sym_linked [of g] by (auto simp: component_def sym_def intro: rtrancl_into_rtrancl)
  then show ?thesis using assms by blast
qed

definition parted :: "flowgraph \<Rightarrow> block set \<Rightarrow> block list list \<Rightarrow> bool" where
  "parted g U rs \<longleftrightarrow> distinct (concat rs) \<and> set (concat rs) = U \<and> set ` set rs = component g ` U
     \<and> (\<forall>r \<in> set rs. \<forall>(a, b) \<in> edges_of g. a \<in> set r \<longrightarrow> before r a b)"

lemma parted_Cons:
  assumes "parted g (U - component g b) rs" "set r = component g b" "distinct r" "component g b \<subseteq> U"
    "\<forall>(x, y) \<in> edges_of g. x \<in> component g b \<longrightarrow> before r x y"
  shows "parted g U (r # rs)"
proof -
  have "component g ` U = component g ` (U - component g b) \<union> component g ` component g b" using assms(4) by blast
  moreover have "component g ` component g b = {component g b}"
  proof -
    have "component g x = component g b" if "x \<in> component g b" for x using component_eq [OF that] .
    moreover have "b \<in> component g b" by simp
    ultimately show ?thesis by (metis (no_types, lifting) empty_iff image_cong image_constant_conv)
  qed
  ultimately show ?thesis using assms unfolding parted_def by auto
qed

lemma looping_Un: "looping E (A \<union> B) \<longleftrightarrow> looping E A \<or> looping E B"
  by (auto simp: looping_def)

lemma filter_subset: "C \<subseteq> set xs \<Longrightarrow> set (filter (\<lambda>x. x \<in> C) xs) = C"
  by auto

lemma partition_loop_correct:
  "distinct bs \<Longrightarrow> linked g `` set bs \<subseteq> set bs \<Longrightarrow> length bs \<le> n \<Longrightarrow>
     case partition_loop g n bs c of
       None \<Rightarrow> False
     | Some (Inl e) \<Rightarrow> e = Runtime_error \<and> looping (edges_of g) (set bs)
     | Some (Inr (rs, c')) \<Rightarrow> \<not> looping (edges_of g) (set bs) \<and> parted g (set bs) rs"
proof (induction g n bs c rule: partition_loop.induct)
  case (3 g n b bs c)
  let ?U = "set (b # bs)" and ?C = "component g b"
  let ?graph = "filter (\<lambda>x. x \<in> ?C) (b # bs)"
  obtain c' where reach: "calc_reachable_blocks g b (b # bs) c = Some (?graph, c')"
    using calc_reachable_correct [OF 3(3), of b c] by auto
  have sub: "?C \<subseteq> ?U" by (rule component_in [OF 3(3)]) simp
  have graph: "set ?graph = ?C" by (rule filter_subset [OF sub])
  have nonempty: "?graph \<noteq> []" by simp
  have C: "edges_of g `` set ?graph \<subseteq> set ?graph" using component_closed [of g b] unfolding graph linked_def by blast
  let ?rest = "fold remove1 ?graph (b # bs)"
  have rest: "set ?rest = ?U - ?C" "distinct ?rest" using fold_remove1 [OF 3(2), of ?graph] graph by auto
  have "b \<notin> ?U - ?C" "b \<in> ?U" by simp_all
  then have less: "?U - ?C \<subset> ?U" by blast
  have "length ?rest = card (?U - ?C)" using distinct_card [OF rest(2)] rest(1) by simp
  also have "\<dots> < card ?U" by (rule psubset_card_mono [OF finite_set less])
  also have "\<dots> \<le> Suc n" using card_length [of "b # bs"] 3(4) by linarith
  finally have len: "length ?rest \<le> n" by simp
  have closed: "linked g `` set ?rest \<subseteq> set ?rest" unfolding rest(1) by (rule rest_closed [OF 3(3)])
  have U: "?U = ?C \<union> set ?rest" using rest(1) sub by blast
  note ts = topological_sort_correct [OF C, of c', unfolded graph]
  show ?case
  proof (cases "topological_sort g ?graph c'")
    case None
    then show ?thesis using ts by simp
  next
    case (Some q)
    show ?thesis
    proof (cases q)
      case (Inl e)
      have "partition_loop g (Suc n) (b # bs) c = Some (Inl e)" by (simp only: partition_loop.simps(3) reach option.case prod.case nonempty if_False Some Inl sum.case)
      then show ?thesis using ts Some Inl unfolding U looping_Un by simp
    next
      case (Inr rc)
      obtain r c'' where rc: "rc = (r, c'')" by (cases rc)
      have r: "set r = ?C" "distinct r" "\<not> looping (edges_of g) ?C"
          "\<forall>(x, y) \<in> edges_of g. x \<in> ?C \<longrightarrow> before r x y"
        using ts Some Inr rc by auto
      have step: "partition_loop g (Suc n) (b # bs) c
          = map_option (map_sum id (\<lambda>(result, c). (r # result, c))) (partition_loop g n ?rest c'')"
        by (simp only: partition_loop.simps(3) reach option.case prod.case nonempty if_False Some Inr rc sum.case)
      note IH = 3(1) [OF reach refl nonempty Some Inr [unfolded rc] refl rest(2) closed len]
      show ?thesis
      proof (cases "partition_loop g n ?rest c''")
        case None
        then show ?thesis using IH by simp
      next
        case (Some q')
        show ?thesis
        proof (cases q')
          case (Inl e)
          then show ?thesis using IH Some step unfolding U looping_Un by simp
        next
          case (Inr rs)
          then have "parted g ?U (r # fst rs)"
            using parted_Cons [OF _ r(1,2) sub r(4)] IH Some unfolding rest(1) by (auto split: prod.splits)
          moreover have "\<not> looping (edges_of g) ?U" unfolding U looping_Un using IH Some Inr r(3) by (auto split: prod.splits)
          ultimately show ?thesis using step Some Inr by (auto split: prod.splits)
        qed
      qed
    qed
  qed
qed (auto simp: looping_def parted_def)

lemma looping_acyclic: "looping E (Field E) \<longleftrightarrow> \<not> acyclic E"
proof -
  have "x \<in> Field E" if "(x, x) \<in> E\<^sup>+" for x
    using that by (metis FieldI1 tranclD)
  then show ?thesis by (auto simp: looping_def acyclic_def)
qed

text \<open>
  C2: partitioning a flow graph always returns; it raises an exception exactly when the graph has a
  loop, and otherwise gives every connected component once, its blocks in an order in which each comes
  before all that it feeds.
\<close>

theorem partition_components:
  "case partition_graph g c of
     None \<Rightarrow> False
   | Some (Inl e) \<Rightarrow> e = Runtime_error \<and> \<not> acyclic (edges_of g)
   | Some (Inr (rs, c')) \<Rightarrow> acyclic (edges_of g) \<and> distinct (concat rs)
       \<and> set ` set rs = (\<lambda>b. (linked g)\<^sup>* `` {b}) ` Field (edges_of g)
       \<and> (\<forall>r \<in> set rs. \<forall>(a, b) \<in> edges_of g. a \<in> set r \<longrightarrow> before r a b)"
proof -
  let ?bs = "calc_used_blocks g"
  have "linked g `` set ?bs \<subseteq> set ?bs" by (auto simp: linked_def Field_def)
  from partition_loop_correct [OF distinct_used this order_refl, of c]
  show ?thesis
    by (auto simp: partition_graph_def looping_acyclic parted_def component_def [abs_def] split: option.splits sum.splits)
qed

section \<open>Ports and types\<close>

text \<open>
  Well-formed graphs: ports within the signatures, equal item sizes at both ends, no input port
  connected twice.
\<close>

definition port_ok :: "io_signature \<Rightarrow> int \<Rightarrow> bool" where
  "port_ok sig port \<longleftrightarrow> 0 \<le> port \<and> (d_max_streams sig = IO_INFINITE \<or> port < d_max_streams sig)"

definition item_size :: "io_signature \<Rightarrow> int \<Rightarrow> int" where
  "item_size sig port = d_sizeof_stream_item sig ! min (nat port) (length (d_sizeof_stream_item sig) - 1)"

definition edge_ok :: "(block \<Rightarrow> basic_block) \<Rightarrow> gr_edge \<Rightarrow> bool" where
  "edge_ok bs p \<longleftrightarrow>
     (let out = d_output_signature (bs (ep_block (e_src p))); inp = d_input_signature (bs (ep_block (e_dst p)))
      in port_ok out (ep_port (e_src p)) \<and> port_ok inp (ep_port (e_dst p))
         \<and> item_size out (ep_port (e_src p)) = item_size inp (ep_port (e_dst p)))"

definition graph_ok :: "(block \<Rightarrow> basic_block) \<Rightarrow> flowgraph \<Rightarrow> bool" where
  "graph_ok bs g \<longleftrightarrow> distinct (map e_dst (d_edges g)) \<and> (\<forall>p \<in> set (d_edges g). edge_ok bs p)"

lemma connect_eq:
  "connect bs src dst g =
     (if edge_ok bs \<lparr> e_src = src, e_dst = dst \<rparr> \<and> dst \<notin> e_dst ` set (d_edges g)
      then Inr (g\<lparr> d_edges := d_edges g @ [\<lparr> e_src = src, e_dst = dst \<rparr>] \<rparr>) else Inl Invalid_argument)"
proof -
  let ?out = "d_output_signature (bs (ep_block src))" and ?inp = "d_input_signature (bs (ep_block dst))"
  have port: "check_valid_port sig port = (if port_ok sig port then Inr () else Inl Invalid_argument)" for sig port
    by (auto simp: check_valid_port_def port_ok_def)
  have used: "check_dst_not_used g dst = (if dst \<notin> e_dst ` set (d_edges g) then Inr () else Inl Invalid_argument)"
    by (auto simp: check_dst_not_used_def)
  have size: "sizeof_stream_item sig port = Inr (item_size sig port)" if "port_ok sig port" for sig port
    using that by (simp add: sizeof_stream_item_def item_size_def port_ok_def)
  have "edge_ok bs \<lparr> e_src = src, e_dst = dst \<rparr> \<longleftrightarrow> port_ok ?out (ep_port src) \<and> port_ok ?inp (ep_port dst)
      \<and> item_size ?out (ep_port src) = item_size ?inp (ep_port dst)"
    by (simp add: edge_ok_def Let_def)
  then show ?thesis by (simp add: connect_def port used check_type_match_def size)
qed

lemma erase_edge_ok:
  "case erase_edge src dst es of
     Inl e \<Rightarrow> e = Invalid_argument \<and> \<lparr> e_src = src, e_dst = dst \<rparr> \<notin> set es
   | Inr es' \<Rightarrow> \<exists>us vs. es = us @ \<lparr> e_src = src, e_dst = dst \<rparr> # vs \<and> es' = us @ vs"
proof (induction es)
  case (Cons p es)
  show ?case
  proof (cases "src = e_src p \<and> dst = e_dst p")
    case True
    then have e: "erase_edge src dst (p # es) = Inr es" and p: "p # es = [] @ \<lparr> e_src = src, e_dst = dst \<rparr> # es" by simp_all
    show ?thesis unfolding e sum.case by (intro exI conjI, rule p) simp
  next
    case False
    show ?thesis
    proof (cases "erase_edge src dst es")
      case (Inl e)
      then show ?thesis using False Cons by auto
    next
      case (Inr es')
      then obtain us vs where "es = us @ \<lparr> e_src = src, e_dst = dst \<rparr> # vs" "es' = us @ vs" using Cons by auto
      then have e: "erase_edge src dst (p # es) = Inr (p # es')" and p: "p # es = (p # us) @ \<lparr> e_src = src, e_dst = dst \<rparr> # vs"
        "p # es' = (p # us) @ vs" using False Inr by auto
      show ?thesis unfolding e sum.case by (intro exI conjI, rule p, rule p)
    qed
  qed
qed simp

text \<open>
  C15: connecting succeeds exactly when the graph with the new edge is well formed, otherwise it
  raises an exception; disconnecting keeps graphs well formed, fails exactly on edges that are not
  there, and undoes a connection.
\<close>

theorem connect_types:
  assumes "graph_ok bs g"
  shows "(case connect bs src dst g of
       Inl e \<Rightarrow> e = Invalid_argument \<and> \<not> graph_ok bs (g\<lparr> d_edges := d_edges g @ [\<lparr> e_src = src, e_dst = dst \<rparr>] \<rparr>)
     | Inr g' \<Rightarrow> graph_ok bs g' \<and> g' = g\<lparr> d_edges := d_edges g @ [\<lparr> e_src = src, e_dst = dst \<rparr>] \<rparr>
         \<and> disconnect src dst g' = Inr g)
    \<and> (case disconnect src dst g of
       Inl e \<Rightarrow> e = Invalid_argument \<and> \<lparr> e_src = src, e_dst = dst \<rparr> \<notin> set (d_edges g)
     | Inr g' \<Rightarrow> graph_ok bs g' \<and> \<lparr> e_src = src, e_dst = dst \<rparr> \<in> set (d_edges g)
         \<and> set (d_edges g') = set (d_edges g) - {\<lparr> e_src = src, e_dst = dst \<rparr>})"
proof -
  let ?e = "\<lparr> e_src = src, e_dst = dst \<rparr>"
  have app: "erase_edge src dst (es @ [?e]) = Inr es" if "dst \<notin> e_dst ` set es" for es
    using that by (induction es) auto
  have new: "graph_ok bs (g\<lparr> d_edges := d_edges g @ [?e] \<rparr>) \<longleftrightarrow> edge_ok bs ?e \<and> dst \<notin> e_dst ` set (d_edges g)"
    using assms by (auto simp: graph_ok_def)
  have d: "case disconnect src dst g of
       Inl e \<Rightarrow> e = Invalid_argument \<and> ?e \<notin> set (d_edges g)
     | Inr g' \<Rightarrow> graph_ok bs g' \<and> ?e \<in> set (d_edges g) \<and> set (d_edges g') = set (d_edges g) - {?e}"
  proof (cases "erase_edge src dst (d_edges g)")
    case (Inl e)
    then show ?thesis using erase_edge_ok [of src dst "d_edges g"] by (simp add: disconnect_def)
  next
    case (Inr es)
    then obtain us vs where es: "d_edges g = us @ ?e # vs" "es = us @ vs"
      using erase_edge_ok [of src dst "d_edges g"] by auto
    have "distinct (map e_dst (us @ ?e # vs))" using assms es(1) by (simp add: graph_ok_def)
    then have "?e \<notin> set us \<union> set vs" by (auto simp: image_iff)
    then have "set (us @ vs) = set (d_edges g) - {?e}" unfolding es(1) by auto
    moreover have "graph_ok bs (g\<lparr> d_edges := us @ vs \<rparr>)" using assms unfolding graph_ok_def es(1) by auto
    moreover have "?e \<in> set (d_edges g)" unfolding es(1) by simp
    moreover have "disconnect src dst g = Inr (g\<lparr> d_edges := us @ vs \<rparr>)" using Inr es(2) by (simp add: disconnect_def)
    ultimately show ?thesis by simp
  qed
  show ?thesis
  proof (cases "edge_ok bs ?e \<and> dst \<notin> e_dst ` set (d_edges g)")
    case True
    then have c: "connect bs src dst g = Inr (g\<lparr> d_edges := d_edges g @ [?e] \<rparr>)" unfolding connect_eq by (rule if_P)
    have "disconnect src dst (g\<lparr> d_edges := d_edges g @ [?e] \<rparr>) = Inr g"
      using app True by (simp add: disconnect_def)
    then show ?thesis unfolding c sum.case using new True by (intro conjI d) simp_all
  next
    case False
    then have c: "connect bs src dst g = Inl Invalid_argument" unfolding connect_eq by (rule if_not_P)
    show ?thesis unfolding c sum.case using new False by (intro conjI d) simp_all
  qed
qed

section \<open>Validation\<close>

lemma sorted_gap:
  assumes "sorted xs" "distinct xs" "i + k < length xs"
  shows "int k \<le> xs ! (i + k) - (xs ! i :: int)"
  using assms(3)
proof (induction k)
  case (Suc k)
  have "xs ! (i + k) \<le> xs ! (i + Suc k)" "xs ! (i + k) \<noteq> xs ! (i + Suc k)"
    using assms(1,2) Suc.prems by (simp_all add: sorted_nth_mono nth_eq_iff_index_eq)
  then show ?case using Suc by simp
qed simp

lemma contiguous:
  assumes "sorted xs" "distinct xs" "\<forall>x \<in> set xs. 0 \<le> (x :: int)" "xs \<noteq> []"
  shows "xs ! nat (int (length xs) - 1) + 1 = int (length xs) \<or> (\<forall>i < length xs. xs ! i = int i)
    \<longleftrightarrow> set xs = {0..<int (length xs)}"
proof -
  let ?n = "length xs"
  have n: "0 < ?n" "nat (int ?n - 1) = ?n - 1" using assms(4) by auto
  have low: "int i \<le> xs ! i" if "i < ?n" for i
  proof -
    have "int i \<le> xs ! i - xs ! 0" "0 \<le> xs ! 0"
      using sorted_gap [OF assms(1,2), of 0 i] that assms(3) n(1) nth_mem [of 0 xs] by auto
    then show ?thesis by linarith
  qed
  have high: "xs ! i = int i" if "i < ?n" "xs ! (?n - 1) \<le> int ?n - 1" for i
  proof -
    have "int (?n - 1 - i) \<le> xs ! (?n - 1) - xs ! i" using sorted_gap [OF assms(1,2), of i "?n - 1 - i"] that(1) by simp
    then show ?thesis using low [OF that(1)] that n(1) by (simp add: of_nat_diff)
  qed
  have range: "set xs = {0..<int ?n}" if "\<forall>i < ?n. xs ! i = int i"
  proof -
    have "set xs = (\<lambda>i. xs ! i) ` {0..<?n}" by (auto simp: in_set_conv_nth)
    also have "\<dots> = int ` {0..<?n}" using that by (intro image_cong) auto
    finally show ?thesis by (simp add: image_int_atLeastLessThan)
  qed
  have last: "xs ! (?n - 1) \<le> int ?n - 1" if "set xs = {0..<int ?n}"
  proof -
    have "xs ! (?n - 1) \<in> set xs" using n(1) by simp
    then show ?thesis unfolding that by simp
  qed
  show ?thesis
    unfolding n(2)
  proof (intro iffI)
    assume "xs ! (?n - 1) + 1 = int ?n \<or> (\<forall>i < ?n. xs ! i = int i)"
    then have "\<forall>i < ?n. xs ! i = int i"
    proof
      assume "xs ! (?n - 1) + 1 = int ?n"
      then have "xs ! (?n - 1) \<le> int ?n - 1" by linarith
      then show ?thesis using high by blast
    qed
    then show "set xs = {0..<int ?n}" by (rule range)
  next
    assume "set xs = {0..<int ?n}"
    then show "xs ! (?n - 1) + 1 = int ?n \<or> (\<forall>i < ?n. xs ! i = int i)" using high last by blast
  qed
qed

text \<open>The ports of a block that are used.\<close>

definition ports_of :: "flowgraph \<Rightarrow> block \<Rightarrow> bool \<Rightarrow> int set" where
  "ports_of g b inputs = (if inputs then {ep_port (e_dst p) |p. p \<in> set (d_edges g) \<and> ep_block (e_dst p) = b}
     else {ep_port (e_src p) |p. p \<in> set (d_edges g) \<and> ep_block (e_src p) = b})"

definition ports_ok :: "io_signature \<Rightarrow> int set \<Rightarrow> int \<Rightarrow> bool" where
  "ports_ok sig P n \<longleftrightarrow> P = {0..<n} \<and> d_min_streams sig \<le> n \<and> (d_max_streams sig = IO_INFINITE \<or> n \<le> d_max_streams sig)"

lemma used_ports [simp]: "set (calc_used_ports g b inputs) = ports_of g b inputs"
  by (auto simp: calc_used_ports_def calc_connections_def ports_of_def)

text \<open>What the constructor of signatures makes sure of.\<close>

definition sig_ok :: "io_signature \<Rightarrow> bool" where
  "sig_ok sig \<longleftrightarrow> 0 \<le> d_min_streams sig \<and> (d_max_streams sig = IO_INFINITE \<or> d_min_streams sig \<le> d_max_streams sig)"

lemma signature_ok: "gr_make_io_signaturev a b xs = Inr sig \<Longrightarrow> sig_ok sig"
  by (auto simp: gr_make_io_signaturev_def sig_ok_def split: if_splits)

lemma check_contiguity_iff:
  assumes "sig_ok (if inputs then d_input_signature (bs b) else d_output_signature (bs b))"
    "\<forall>x \<in> set xs. 0 \<le> x" "sorted xs" "distinct xs"
  shows "check_contiguity bs b xs inputs =
     (if ports_ok (if inputs then d_input_signature (bs b) else d_output_signature (bs b)) (set xs) (int (length xs))
      then Inr () else Inl Runtime_error)"
proof (cases "xs = []")
  case True
  then show ?thesis using assms(1) by (auto simp: check_contiguity_def ports_ok_def sig_ok_def Let_def IO_INFINITE_def)
next
  case False
  then show ?thesis using contiguous [OF assms(3,4,2) False]
    by (auto simp: check_contiguity_def ports_ok_def Let_def simp del: atLeastLessThan_iff)
qed

definition block_ok :: "(block \<Rightarrow> basic_block) \<Rightarrow> flowgraph \<Rightarrow> block \<Rightarrow> bool" where
  "block_ok bs g b \<longleftrightarrow> (\<exists>n m. ports_ok (d_input_signature (bs b)) (ports_of g b True) n
     \<and> ports_ok (d_output_signature (bs b)) (ports_of g b False) m \<and> check_topology (bs b) n m)"

lemma ports_ok_length:
  assumes "sig_ok sig"
  shows "ports_ok sig (ports_of g b inputs) n \<Longrightarrow> n = int (length (calc_used_ports g b inputs))"
proof -
  assume a: "ports_ok sig (ports_of g b inputs) n"
  have "distinct (calc_used_ports g b inputs)" by (simp add: calc_used_ports_def)
  then have "length (calc_used_ports g b inputs) = card {0..<n}"
    using a distinct_card by (metis ports_ok_def used_ports)
  moreover have "0 \<le> n" using a assms by (simp add: ports_ok_def sig_ok_def)
  ultimately show ?thesis by simp
qed

lemma validate_iff:
  assumes "\<forall>p \<in> set (d_edges g). 0 \<le> ep_port (e_src p) \<and> 0 \<le> ep_port (e_dst p)"
    and "\<forall>b. sig_ok (d_input_signature (bs b)) \<and> sig_ok (d_output_signature (bs b))"
  shows "validate bs g = (g\<lparr> d_blocks := calc_used_blocks g \<rparr>,
     if \<forall>b \<in> Field (edges_of g). block_ok bs g b then Inr () else Inl Runtime_error)"
proof -
  let ?g = "g\<lparr> d_blocks := calc_used_blocks g \<rparr>"
  have same: "calc_used_ports ?g b i = calc_used_ports g b i" for b i
    by (simp add: calc_used_ports_def calc_connections_def)
  have ports: "\<forall>x \<in> set (calc_used_ports g b i). 0 \<le> x" "sorted (calc_used_ports g b i)" "distinct (calc_used_ports g b i)" for b i
    using assms(1) by (auto simp: ports_of_def) (simp_all add: calc_used_ports_def)
  have cont: "check_contiguity bs b (calc_used_ports g b i) i =
     (if ports_ok (if i then d_input_signature (bs b) else d_output_signature (bs b)) (ports_of g b i) (int (length (calc_used_ports g b i)))
      then Inr () else Inl Runtime_error)" for b i
    using check_contiguity_iff [OF _ ports] assms(2) by simp
  have block: "block_ok bs g b \<longleftrightarrow> ports_ok (d_input_signature (bs b)) (ports_of g b True) (int (length (calc_used_ports g b True)))
      \<and> ports_ok (d_output_signature (bs b)) (ports_of g b False) (int (length (calc_used_ports g b False)))
      \<and> check_topology (bs b) (int (length (calc_used_ports g b True))) (int (length (calc_used_ports g b False)))" for b
    unfolding block_ok_def using ports_ok_length assms(2) by metis
  have "validate_blocks bs ?g xs = (if \<forall>b \<in> set xs. block_ok bs g b then Inr () else Inl Runtime_error)" for xs
    by (induction xs) (simp_all add: same cont block Let_def)
  then show ?thesis by (simp add: validate_def Let_def)
qed

text \<open>
  C16: validation accepts a graph exactly when the used ports of every block are numbered without
  gaps from zero, as many as the signatures allow and the block agrees with, and raises an exception
  otherwise; in both cases it enters the used blocks in the graph.
\<close>

theorem validate_correct:
  assumes "\<forall>p \<in> set (d_edges g). 0 \<le> ep_port (e_src p) \<and> 0 \<le> ep_port (e_dst p)"
    and "\<forall>b. sig_ok (d_input_signature (bs b)) \<and> sig_ok (d_output_signature (bs b))"
  shows "validate bs g = (g\<lparr> d_blocks := calc_used_blocks g \<rparr>,
     if \<forall>b \<in> Field (edges_of g). block_ok bs g b then Inr () else Inl Runtime_error)"
  by (rule validate_iff [OF assms])

section \<open>Examples\<close>

text \<open>Two sources, 1 and 2, whose signals meet in 5.\<close>

definition sample_blocks :: "block \<Rightarrow> basic_block" where
  "sample_blocks b = \<lparr>
     d_input_signature = \<lparr> d_min_streams = 0, d_max_streams = (if b \<le> 2 then 0 else IO_INFINITE), d_sizeof_stream_item = [8] \<rparr>,
     d_output_signature = \<lparr> d_min_streams = 0, d_max_streams = IO_INFINITE, d_sizeof_stream_item = [8] \<rparr>,
     check_topology = (\<lambda>n m. n \<le> 2) \<rparr>"

definition sample_edge :: "block \<Rightarrow> block \<Rightarrow> int \<Rightarrow> gr_edge" where
  "sample_edge a b port = \<lparr> e_src = \<lparr> ep_block = a, ep_port = 0 \<rparr>, e_dst = \<lparr> ep_block = b, ep_port = port \<rparr> \<rparr>"

definition sample_graph :: flowgraph where
  "sample_graph = \<lparr> d_blocks = [], d_edges = [sample_edge 1 3 0, sample_edge 2 4 0, sample_edge 3 5 0, sample_edge 4 5 1] \<rparr>"

lemma sample_graph_ok: "graph_ok sample_blocks sample_graph"
  by (simp add: graph_ok_def sample_graph_def sample_blocks_def sample_edge_def edge_ok_def port_ok_def item_size_def
      IO_INFINITE_def Let_def)

text \<open>Not all the sources come first: 4 is fed by 2 but comes before the source 1.\<close>

theorem sources_not_first:
  "map_option (map_sum id fst) (topological_sort sample_graph (calc_used_blocks sample_graph) (\<lambda>b. WHITE))
     = Some (Inr [2, 4, 1, 3, 5]) \<and> source_p sample_graph 1 \<and> \<not> source_p sample_graph 4"
  by code_simp

theorem partition_components_witness:
  "map_option (map_sum id fst) (partition_graph sample_graph (\<lambda>b. WHITE)) = Some (Inr [[2, 4, 1, 3, 5]])
   \<and> acyclic (edges_of sample_graph) \<and> before [2, 4, 1, 3, 5 :: block] 3 5"
proof -
  have p: "map_option (map_sum id fst) (partition_graph sample_graph (\<lambda>b. WHITE)) = Some (Inr [[2, 4, 1, 3, 5]])" by code_simp
  then obtain c where "partition_graph sample_graph (\<lambda>b. WHITE) = Some (Inr ([[2, 4, 1, 3, 5]], c))"
    by (auto simp: map_sum_Inr_iff)
  moreover have "(3, 5) \<in> edges_of sample_graph" by (simp add: edges_of_def sample_graph_def sample_edge_def)
  ultimately show ?thesis using partition_components [of sample_graph "\<lambda>b. WHITE"] p by (auto dest: bspec)
qed

theorem connect_types_witness:
  "connect sample_blocks \<lparr> ep_block = 5, ep_port = 0 \<rparr> \<lparr> ep_block = 3, ep_port = 0 \<rparr> sample_graph = Inl Invalid_argument
   \<and> \<not> graph_ok sample_blocks (sample_graph\<lparr> d_edges := d_edges sample_graph @ [sample_edge 5 3 0] \<rparr>)"
proof -
  have "connect sample_blocks \<lparr> ep_block = 5, ep_port = 0 \<rparr> \<lparr> ep_block = 3, ep_port = 0 \<rparr> sample_graph = Inl Invalid_argument"
    by code_simp
  then show ?thesis
    using connect_types [OF sample_graph_ok, of "\<lparr> ep_block = 5, ep_port = 0 \<rparr>" "\<lparr> ep_block = 3, ep_port = 0 \<rparr>"]
    by (simp add: sample_edge_def)
qed

theorem validate_correct_witness:
  "5 \<in> Field (edges_of sample_graph) \<and> block_ok sample_blocks sample_graph 5"
proof -
  have "5 \<in> Field (edges_of sample_graph)" by (simp add: edges_of_def sample_graph_def sample_edge_def Field_def)
  moreover have "\<forall>p \<in> set (d_edges sample_graph). 0 \<le> ep_port (e_src p) \<and> 0 \<le> ep_port (e_dst p)"
    by (simp add: sample_graph_def sample_edge_def)
  moreover have "\<forall>b. sig_ok (d_input_signature (sample_blocks b)) \<and> sig_ok (d_output_signature (sample_blocks b))"
    by (simp add: sig_ok_def sample_blocks_def IO_INFINITE_def)
  moreover have "snd (validate sample_blocks sample_graph) = Inr ()" by code_simp
  ultimately show ?thesis using validate_correct [of sample_graph sample_blocks] by (simp split: if_splits)
qed

end
