(* ===== verification/Gr_Block.thy ===== *)
theory Gr_Block
  imports Gr_Flowgraph
begin

text \<open>
  Signal processing blocks and what the run time keeps about them (\<open>gr_block.cc\<close>,
  \<open>gr_block_detail.cc\<close>, \<open>gr_sync_block.cc\<close>, \<open>gr_sync_decimator.cc\<close>, \<open>gr_sync_interpolator.cc\<close>).  The
  virtual methods of a block are functions in its record, those that use its history with that as an
  argument.  The arithmetic with its floating point \<open>relative_rate\<close> is a function too: \<open>scale_items\<close>
  and \<open>scale_count\<close> multiply by it, \<open>input_need\<close> is what the allocation of buffers computes from it.  A null pointer that is used is an error.
\<close>

section \<open>State\<close>

text \<open>
  An input is a reader, given by its buffer and its name there; buffers are numbered in the order in
  which they were made.  \<open>inner\<close> is the state that the blocks keep themselves.
\<close>

record block_detail =
  d_input :: "(nat \<times> nat) option list"
  d_output :: "nat option list"
  d_finished :: bool
  d_produce_or :: u32

record ('a, 's) runtime =
  buffers :: "'a buffer list"
  details :: "block \<Rightarrow> block_detail option"
  next_reader :: nat
  heap :: pmts
  inner :: 's

datatype tag_propagation_policy = TPP_DONT | TPP_ALL_TO_ALL | TPP_ONE_TO_ONE

record ('a, 's) gr_block = basic_block +
  d_output_multiple :: int
  d_history :: u32
  d_fixed_rate :: bool
  d_tag_propagation_policy :: tag_propagation_policy
  scale_items :: "int \<Rightarrow> int"
  scale_count :: "u64 \<Rightarrow> u64"
  unit_rate :: bool
  input_need :: "int \<Rightarrow> u32 \<Rightarrow> int"
  forecast :: "u32 \<Rightarrow> int \<Rightarrow> nat \<Rightarrow> int list"
  fixed_rate_ninput_to_noutput :: "u32 \<Rightarrow> int \<Rightarrow> int gr"
  general_work :: "int \<Rightarrow> int list \<Rightarrow> block \<Rightarrow> ('a, 's) runtime \<Rightarrow> (int \<times> ('a, 's) runtime) gr"

definition WORK_CALLED_PRODUCE :: int where "WORK_CALLED_PRODUCE = -2"
definition WORK_DONE :: int where "WORK_DONE = -1"

section \<open>Access\<close>

fun gr_fold :: "('x \<Rightarrow> 't \<Rightarrow> 't gr) \<Rightarrow> 'x list \<Rightarrow> 't \<Rightarrow> 't gr" where
  "gr_fold f [] s = Inr s"
| "gr_fold f (x # xs) s = gr_bind (f x s) (gr_fold f xs)"

fun not_null :: "'x option \<Rightarrow> 'x gr" where
  "not_null None = Inl Null_pointer"
| "not_null (Some x) = Inr x"

definition detail :: "block \<Rightarrow> ('a, 's) runtime \<Rightarrow> block_detail gr" where
  "detail m rt = not_null (details rt m)"

definition set_detail :: "block \<Rightarrow> block_detail \<Rightarrow> ('a, 's) runtime \<Rightarrow> ('a, 's) runtime" where
  "set_detail m d rt = rt\<lparr> details := (details rt)(m := Some d) \<rparr>"

definition on_buffer :: "nat \<Rightarrow> ('a buffer \<Rightarrow> 'a buffer gr) \<Rightarrow> ('a, 's) runtime \<Rightarrow> ('a, 's) runtime gr" where
  "on_buffer k f rt = map_sum id (\<lambda>b. rt\<lparr> buffers := (buffers rt)[k := b] \<rparr>) (f (buffers rt ! k))"

definition input_at :: "block_detail \<Rightarrow> nat \<Rightarrow> (nat \<times> nat) gr" where
  "input_at d which = (if which \<ge> length (d_input d) then Inl Invalid_argument else not_null (d_input d ! which))"

definition output_at :: "block_detail \<Rightarrow> nat \<Rightarrow> nat gr" where
  "output_at d which = (if which \<ge> length (d_output d) then Inl Invalid_argument else not_null (d_output d ! which))"

definition reader_of :: "('a, 's) runtime \<Rightarrow> nat \<times> nat \<Rightarrow> reader gr" where
  "reader_of rt i = not_null (map_of (d_readers (buffers rt ! fst i)) (snd i))"

section \<open>Block details\<close>

definition gr_make_block_detail :: "nat \<Rightarrow> nat \<Rightarrow> block_detail" where
  "gr_make_block_detail ninputs noutputs =
     \<lparr> d_input = replicate ninputs None, d_output = replicate noutputs None, d_finished = False, d_produce_or = 0 \<rparr>"

text \<open>A reader that is replaced is destroyed, and its buffer told.\<close>

definition set_input :: "block \<Rightarrow> nat \<Rightarrow> (nat \<times> nat) option \<Rightarrow> ('a, 's) runtime \<Rightarrow> ('a, 's) runtime gr" where
  "set_input m which r rt =
     gr_bind (detail m rt) (\<lambda>d.
       if which \<ge> length (d_input d) then Inl Invalid_argument
       else gr_bind (case d_input d ! which of None \<Rightarrow> Inr rt | Some (k, i) \<Rightarrow> on_buffer k (drop_reader i) rt) (\<lambda>rt.
         Inr (set_detail m (d\<lparr> d_input := (d_input d)[which := r] \<rparr>) rt)))"

definition set_output :: "nat \<Rightarrow> nat \<Rightarrow> block_detail \<Rightarrow> block_detail gr" where
  "set_output which k d =
     (if which \<ge> length (d_output d) then Inl Invalid_argument
      else Inr (d\<lparr> d_output := (d_output d)[which := Some k] \<rparr>))"

definition block_set_done :: "block \<Rightarrow> bool \<Rightarrow> ('a, 's) runtime \<Rightarrow> ('a, 's) runtime gr" where
  "block_set_done m done rt =
     gr_bind (detail m rt) (\<lambda>d.
     gr_bind (gr_fold (\<lambda>k rt. gr_bind (not_null k) (\<lambda>k. on_buffer k (Inr \<circ> set_done done) rt)) (d_output d)
                (set_detail m (d\<lparr> d_finished := done \<rparr>) rt)) (\<lambda>rt.
       gr_fold (\<lambda>i rt. gr_bind (not_null i) (\<lambda>i. on_buffer (fst i) (Inr \<circ> set_done done) rt)) (d_input d) rt))"

definition read_from :: "int \<Rightarrow> (nat \<times> nat) option \<Rightarrow> ('a, 's) runtime \<Rightarrow> ('a, 's) runtime gr" where
  "read_from n i rt = gr_bind (not_null i) (\<lambda>(k, r). on_buffer k (update_read_pointer r n) rt)"

definition consume :: "block \<Rightarrow> nat \<Rightarrow> int \<Rightarrow> ('a, 's) runtime \<Rightarrow> ('a, 's) runtime gr" where
  "consume m which_input how_many_items rt =
     gr_bind (detail m rt) (\<lambda>d.
       if how_many_items > 0
       then gr_bind (input_at d which_input) (\<lambda>i. read_from how_many_items (Some i) rt)
       else Inr rt)"

definition consume_each :: "block \<Rightarrow> int \<Rightarrow> ('a, 's) runtime \<Rightarrow> ('a, 's) runtime gr" where
  "consume_each m how_many_items rt =
     gr_bind (detail m rt) (\<lambda>d.
       if how_many_items > 0 then gr_fold (read_from how_many_items) (d_input d) rt else Inr rt)"

definition written_to :: "int \<Rightarrow> nat option \<Rightarrow> ('a, 's) runtime \<Rightarrow> ('a, 's) runtime gr" where
  "written_to n k rt = gr_bind (not_null k) (\<lambda>k. on_buffer k (update_write_pointer n) rt)"

definition produced :: "block \<Rightarrow> int \<Rightarrow> ('a, 's) runtime \<Rightarrow> ('a, 's) runtime gr" where
  "produced m n rt =
     gr_bind (detail m rt) (\<lambda>d. Inr (set_detail m (d\<lparr> d_produce_or := d_produce_or d OR word_of_int n \<rparr>) rt))"

definition produce :: "block \<Rightarrow> nat \<Rightarrow> int \<Rightarrow> ('a, 's) runtime \<Rightarrow> ('a, 's) runtime gr" where
  "produce m which_output how_many_items rt =
     gr_bind (detail m rt) (\<lambda>d.
       if how_many_items > 0
       then gr_bind (output_at d which_output) (\<lambda>k.
            gr_bind (written_to how_many_items (Some k) rt) (produced m how_many_items))
       else Inr rt)"

definition produce_each :: "block \<Rightarrow> int \<Rightarrow> ('a, 's) runtime \<Rightarrow> ('a, 's) runtime gr" where
  "produce_each m how_many_items rt =
     gr_bind (detail m rt) (\<lambda>d.
       if how_many_items > 0
       then gr_bind (gr_fold (written_to how_many_items) (d_output d) rt) (produced m how_many_items)
       else Inr rt)"

definition nitems_read :: "block \<Rightarrow> nat \<Rightarrow> ('a, 's) runtime \<Rightarrow> u64 gr" where
  "nitems_read m which_input rt =
     gr_bind (detail m rt) (\<lambda>d.
     gr_bind (input_at d which_input) (\<lambda>i.
       map_sum id d_abs_read_offset (reader_of rt i)))"

definition nitems_written :: "block \<Rightarrow> nat \<Rightarrow> ('a, 's) runtime \<Rightarrow> u64 gr" where
  "nitems_written m which_output rt =
     gr_bind (detail m rt) (\<lambda>d.
     gr_bind (output_at d which_output) (\<lambda>k. Inr (d_abs_write_offset (buffers rt ! k))))"

definition tag_output :: "addr \<Rightarrow> nat \<Rightarrow> ('a, 's) runtime \<Rightarrow> ('a, 's) runtime gr" where
  "tag_output t k rt = on_buffer k (Inr \<circ> add_item_tag t) rt"

definition detail_add_item_tag ::
  "block \<Rightarrow> nat \<Rightarrow> u64 \<Rightarrow> addr \<Rightarrow> addr \<Rightarrow> addr \<Rightarrow> ('a, 's) runtime \<Rightarrow> ('a, 's) runtime gr" where
  "detail_add_item_tag m which_output abs_offset key value srcid rt =
     gr_bind (detail m rt) (\<lambda>d.
       if \<not> is_symbol (heap rt) key then Inl (Pmt_exception (Wrong_type key))
       else let (nitem, s) = pmt_from_uint64 abs_offset (heap rt);
                (tup, s) = pmt_make_tuple [nitem, srcid, key, value] s
            in gr_bind (output_at d which_output) (\<lambda>k. tag_output tup k (rt\<lparr> heap := s \<rparr>)))"

definition detail_tags_in_range :: "block \<Rightarrow> nat \<Rightarrow> u64 \<Rightarrow> u64 \<Rightarrow> ('a, 's) runtime \<Rightarrow> addr list gr" where
  "detail_tags_in_range m which_input abs_start abs_end rt =
     gr_bind (detail m rt) (\<lambda>d.
     gr_bind (input_at d which_input) (\<lambda>(k, i).
       get_tags_in_range (heap rt) (buffers rt ! k) abs_start abs_end))"

fun tags_with_key :: "pmts \<Rightarrow> addr \<Rightarrow> addr list \<Rightarrow> addr list gr" where
  "tags_with_key s key [] = Inr []"
| "tags_with_key s key (t # ts) =
     gr_bind (map_sum Pmt_exception id (pmt_tuple_ref s t 2)) (\<lambda>itemkey.
       map_sum id (if pmt_eqv s key itemkey then (#) t else id) (tags_with_key s key ts))"

definition detail_tags_by_key :: "block \<Rightarrow> nat \<Rightarrow> u64 \<Rightarrow> u64 \<Rightarrow> addr \<Rightarrow> ('a, 's) runtime \<Rightarrow> addr list gr" where
  "detail_tags_by_key m which_input abs_start abs_end key rt =
     gr_bind (detail_tags_in_range m which_input abs_start abs_end rt) (tags_with_key (heap rt) key)"

section \<open>Blocks\<close>

definition set_output_multiple :: "int \<Rightarrow> ('a, 's) gr_block \<Rightarrow> ('a, 's) gr_block gr" where
  "set_output_multiple multiple b =
     (if multiple < 1 then Inl Invalid_argument else Inr (b\<lparr> d_output_multiple := multiple \<rparr>))"

definition set_history :: "u32 \<Rightarrow> ('a, 's) gr_block \<Rightarrow> ('a, 's) gr_block" where
  "set_history history b = b\<lparr> d_history := history \<rparr>"

definition default_forecast :: "u32 \<Rightarrow> int \<Rightarrow> nat \<Rightarrow> int list" where
  "default_forecast history noutput_items ninputs = replicate ninputs (sint (word_of_int noutput_items + history - 1))"

definition default_ninput_to_noutput :: "u32 \<Rightarrow> int \<Rightarrow> int gr" where
  "default_ninput_to_noutput history ninput = Inl Runtime_error"

text \<open>The constructor: rate one, no history but the current item.\<close>

definition make_block ::
  "io_signature \<Rightarrow> io_signature \<Rightarrow> (int \<Rightarrow> int list \<Rightarrow> block \<Rightarrow> ('a, 's) runtime \<Rightarrow> (int \<times> ('a, 's) runtime) gr) \<Rightarrow> ('a, 's) gr_block" where
  "make_block input_signature output_signature work =
     \<lparr> d_input_signature = input_signature, d_output_signature = output_signature, check_topology = (\<lambda>n m. True),
       d_output_multiple = 1, d_history = 1, d_fixed_rate = False, d_tag_propagation_policy = TPP_ALL_TO_ALL,
       scale_items = (\<lambda>n. n), scale_count = (\<lambda>n. n), unit_rate = True,
       input_need = (\<lambda>multiple history. 2 * (multiple + uint history)), forecast = default_forecast,
       fixed_rate_ninput_to_noutput = default_ninput_to_noutput, general_work = work \<rparr>"

text \<open>
  Synchronous blocks: one item in for one item out, or \<open>decimation\<close> in for one out, or one in for
  \<open>interpolation\<close> out.  Their method \<open>work\<close> is a function of the number of items asked for, the items
  that can be read on each input, the number of outputs and the state of the block; it gives its
  result and what it wrote at each output.
\<close>

type_synonym ('a, 's) work = "int \<Rightarrow> 'a list list \<Rightarrow> nat \<Rightarrow> 's \<Rightarrow> int \<times> 'a list list \<times> 's"

definition sync_noutput_to_ninput :: "u32 \<Rightarrow> int \<Rightarrow> int" where
  "sync_noutput_to_ninput history noutput_items = sint (word_of_int noutput_items + history - 1)"

definition sync_ninput_to_noutput :: "u32 \<Rightarrow> int \<Rightarrow> int" where
  "sync_ninput_to_noutput history ninput_items = max 0 (ninput_items - sint history + 1)"

definition decim_noutput_to_ninput :: "u32 \<Rightarrow> u32 \<Rightarrow> int \<Rightarrow> int" where
  "decim_noutput_to_ninput decimation history noutput_items =
     sint (word_of_int noutput_items * decimation + history - 1)"

definition decim_ninput_to_noutput :: "u32 \<Rightarrow> u32 \<Rightarrow> int \<Rightarrow> int" where
  "decim_ninput_to_noutput decimation history ninput_items =
     sint (word_of_int (max 0 (ninput_items - sint history + 1)) div decimation)"

definition interp_noutput_to_ninput :: "u32 \<Rightarrow> u32 \<Rightarrow> int \<Rightarrow> int" where
  "interp_noutput_to_ninput interpolation history noutput_items =
     sint (word_of_int noutput_items div interpolation + history - 1)"

definition interp_ninput_to_noutput :: "u32 \<Rightarrow> u32 \<Rightarrow> int \<Rightarrow> int" where
  "interp_ninput_to_noutput interpolation history ninput_items =
     sint (word_of_int (max 0 (ninput_items - sint history + 1)) * interpolation)"

definition readable :: "('a, 's) runtime \<Rightarrow> int \<times> (nat \<times> nat) option \<Rightarrow> 'a list" where
  "readable rt x =
     (case snd x of None \<Rightarrow> []
      | Some (k, i) \<Rightarrow> (case map_of (d_readers (buffers rt ! k)) i of
          None \<Rightarrow> [] | Some r \<Rightarrow> read_items (buffers rt ! k) r (nat (fst x))))"

definition store_output :: "'a list \<times> nat option \<Rightarrow> ('a, 's) runtime \<Rightarrow> ('a, 's) runtime gr" where
  "store_output x rt = gr_bind (not_null (snd x)) (\<lambda>k. on_buffer k (Inr \<circ> write_items (fst x)) rt)"

definition sync_general_work ::
  "('a, 's) work \<Rightarrow> (int \<Rightarrow> int) \<Rightarrow> int \<Rightarrow> int list \<Rightarrow> block \<Rightarrow> ('a, 's) runtime \<Rightarrow> (int \<times> ('a, 's) runtime) gr" where
  "sync_general_work work items_in noutput_items ninput_items m rt =
     gr_bind (detail m rt) (\<lambda>d.
       let (r, outs, s) = work noutput_items (map (readable rt) (zip ninput_items (d_input d))) (length (d_output d)) (inner rt)
       in gr_bind (gr_fold store_output (zip outs (d_output d)) (rt\<lparr> inner := s \<rparr>)) (\<lambda>rt.
          gr_bind (if r > 0 then consume_each m (items_in r) rt else Inr rt) (\<lambda>rt.
            Inr (r, rt))))"

definition sync_items_in :: "int \<Rightarrow> int" where
  "sync_items_in r = r"

definition decim_items_in :: "u32 \<Rightarrow> int \<Rightarrow> int" where
  "decim_items_in decimation r = sint (word_of_int r * decimation)"

definition interp_items_in :: "u32 \<Rightarrow> int \<Rightarrow> int" where
  "interp_items_in interpolation r = sint (word_of_int r div interpolation)"

definition gr_sync_block :: "io_signature \<Rightarrow> io_signature \<Rightarrow> ('a, 's) work \<Rightarrow> ('a, 's) gr_block" where
  "gr_sync_block input_signature output_signature work =
     (make_block input_signature output_signature (sync_general_work work sync_items_in))
     \<lparr> d_fixed_rate := True,
       forecast := (\<lambda>history noutput_items ninputs. replicate ninputs (sync_noutput_to_ninput history noutput_items)),
       fixed_rate_ninput_to_noutput := (\<lambda>history n. Inr (sync_ninput_to_noutput history n)) \<rparr>"

definition gr_sync_decimator ::
  "io_signature \<Rightarrow> io_signature \<Rightarrow> u32 \<Rightarrow> (int \<Rightarrow> int) \<Rightarrow> (u64 \<Rightarrow> u64) \<Rightarrow> bool \<Rightarrow> (int \<Rightarrow> u32 \<Rightarrow> int) \<Rightarrow> ('a, 's) work \<Rightarrow> ('a, 's) gr_block" where
  "gr_sync_decimator input_signature output_signature decimation items count unit need work =
     (gr_sync_block input_signature output_signature work)
     \<lparr> scale_items := items, scale_count := count, unit_rate := unit, input_need := need,
       general_work := sync_general_work work (decim_items_in decimation),
       forecast := (\<lambda>history noutput_items ninputs. replicate ninputs (decim_noutput_to_ninput decimation history noutput_items)),
       fixed_rate_ninput_to_noutput := (\<lambda>history n. Inr (decim_ninput_to_noutput decimation history n)) \<rparr>"

definition gr_sync_interpolator ::
  "io_signature \<Rightarrow> io_signature \<Rightarrow> u32 \<Rightarrow> (int \<Rightarrow> int) \<Rightarrow> (u64 \<Rightarrow> u64) \<Rightarrow> bool \<Rightarrow> (int \<Rightarrow> u32 \<Rightarrow> int) \<Rightarrow> ('a, 's) work \<Rightarrow> ('a, 's) gr_block gr" where
  "gr_sync_interpolator input_signature output_signature interpolation items count unit need work =
     set_output_multiple (sint interpolation) ((gr_sync_block input_signature output_signature work)
     \<lparr> scale_items := items, scale_count := count, unit_rate := unit, input_need := need,
       general_work := sync_general_work work (interp_items_in interpolation),
       forecast := (\<lambda>history noutput_items ninputs. replicate ninputs (interp_noutput_to_ninput interpolation history noutput_items)),
       fixed_rate_ninput_to_noutput := (\<lambda>history n. Inr (interp_ninput_to_noutput interpolation history n)) \<rparr>)"

end
