(* ===== verification/Gr_Flat.thy ===== *)
theory Gr_Flat
  imports Gr_Topology Gr_Block
begin

text \<open>
  Flat flow graphs (\<open>gr_flat_flowgraph.cc\<close>): buffers and readers for the edges of a graph, at the
  start and when a running graph is changed.  The granularity \<open>page\<close> of memory maps and the memory
  \<open>mem k\<close> that the operating system gives for the \<open>k\<close>-th buffer are parameters.  A detail that is
  replaced, and the buffers that only it refers to, are garbage and stay where they are.
\<close>

definition GR_FIXED_BUFFER_SIZE :: u32 where
  "GR_FIXED_BUFFER_SIZE = 32 * (1 * 2 ^ 10)"

section \<open>Allocation\<close>

text \<open>The items that a buffer must hold: 64 KB, two calls of its writer and of each reader.\<close>

definition buffer_items :: "(block \<Rightarrow> ('a, 's) gr_block) \<Rightarrow> flowgraph \<Rightarrow> block \<Rightarrow> int \<Rightarrow> int \<Rightarrow> int" where
  "buffer_items bs g block port sizeof_item =
     (let nitems = sint (GR_FIXED_BUFFER_SIZE * 2 div word_of_int sizeof_item);
          nitems = (if nitems < 2 * d_output_multiple (bs block) then 2 * d_output_multiple (bs block) else nitems)
      in foldl (\<lambda>nitems p. max nitems (input_need (bs p) (d_output_multiple (bs p)) (d_history (bs p)))) nitems
           (calc_downstream_port g block port))"

definition allocate_buffer ::
  "int \<Rightarrow> (nat \<Rightarrow> u32 \<Rightarrow> 'a list option) \<Rightarrow> (block \<Rightarrow> ('a, 's) gr_block) \<Rightarrow> flowgraph \<Rightarrow> block \<Rightarrow> int
    \<Rightarrow> ('a, 's) runtime \<Rightarrow> (nat \<times> ('a, 's) runtime) gr" where
  "allocate_buffer page mem bs g block port rt =
     gr_bind (sizeof_stream_item (d_output_signature (bs block)) port) (\<lambda>sizeof_item.
       case gr_make_buffer page (buffer_items bs g block port sizeof_item) sizeof_item (mem (length (buffers rt))) of
         None \<Rightarrow> Inl Bad_alloc
       | Some b \<Rightarrow> Inr (length (buffers rt), rt\<lparr> buffers := buffers rt @ [b] \<rparr>))"

definition allocate_output ::
  "int \<Rightarrow> (nat \<Rightarrow> u32 \<Rightarrow> 'a list option) \<Rightarrow> (block \<Rightarrow> ('a, 's) gr_block) \<Rightarrow> flowgraph \<Rightarrow> block \<Rightarrow> nat
    \<Rightarrow> block_detail \<times> ('a, 's) runtime \<Rightarrow> (block_detail \<times> ('a, 's) runtime) gr" where
  "allocate_output page mem bs g block i = (\<lambda>(d, rt).
     gr_bind (allocate_buffer page mem bs g block (int i) rt) (\<lambda>(k, rt).
       map_sum id (\<lambda>d. (d, rt)) (set_output i k d)))"

definition allocate_block_detail ::
  "int \<Rightarrow> (nat \<Rightarrow> u32 \<Rightarrow> 'a list option) \<Rightarrow> (block \<Rightarrow> ('a, 's) gr_block) \<Rightarrow> flowgraph \<Rightarrow> block
    \<Rightarrow> ('a, 's) runtime \<Rightarrow> ('a, 's) runtime gr" where
  "allocate_block_detail page mem bs g block rt =
     (let ninputs = length (calc_used_ports g block True); noutputs = length (calc_used_ports g block False)
      in map_sum id (\<lambda>(d, rt). set_detail block d rt)
           (gr_fold (allocate_output page mem bs g block) [0..<noutputs] (gr_make_block_detail ninputs noutputs, rt)))"

section \<open>Connection\<close>

text \<open>Ports are converted to unsigned numbers where they are used as indices.\<close>

definition port_index :: "int \<Rightarrow> nat" where
  "port_index port = unat (word_of_int port :: u32)"

definition source_buffer :: "gr_edge \<Rightarrow> ('a, 's) runtime \<Rightarrow> nat gr" where
  "source_buffer e rt =
     gr_bind (detail (ep_block (e_src e)) rt) (\<lambda>d. output_at d (port_index (ep_port (e_src e))))"

definition attach_reader ::
  "(block \<Rightarrow> ('a, 's) gr_block) \<Rightarrow> block \<Rightarrow> nat \<Rightarrow> nat \<Rightarrow> ('a, 's) runtime \<Rightarrow> ('a, 's) runtime gr" where
  "attach_reader bs block dst_port k rt =
     gr_bind (on_buffer k (gr_buffer_add_reader (next_reader rt) (sint (d_history (bs block) - 1))) rt) (\<lambda>rt'.
       set_input block dst_port (Some (k, next_reader rt)) (rt'\<lparr> next_reader := Suc (next_reader rt) \<rparr>))"

definition connect_edge :: "(block \<Rightarrow> ('a, 's) gr_block) \<Rightarrow> block \<Rightarrow> gr_edge \<Rightarrow> ('a, 's) runtime \<Rightarrow> ('a, 's) runtime gr" where
  "connect_edge bs block e rt =
     gr_bind (source_buffer e rt) (\<lambda>k. attach_reader bs block (port_index (ep_port (e_dst e))) k rt)"

definition connect_block_inputs ::
  "(block \<Rightarrow> ('a, 's) gr_block) \<Rightarrow> flowgraph \<Rightarrow> block \<Rightarrow> ('a, 's) runtime \<Rightarrow> ('a, 's) runtime gr" where
  "connect_block_inputs bs g block = gr_fold (connect_edge bs block) (calc_upstream_edges g block)"

definition setup_connections ::
  "int \<Rightarrow> (nat \<Rightarrow> u32 \<Rightarrow> 'a list option) \<Rightarrow> (block \<Rightarrow> ('a, 's) gr_block) \<Rightarrow> flowgraph \<Rightarrow> ('a, 's) runtime \<Rightarrow> ('a, 's) runtime gr" where
  "setup_connections page mem bs g rt =
     (let blocks = calc_used_blocks g
      in gr_bind (gr_fold (allocate_block_detail page mem bs g) blocks rt)
           (gr_fold (connect_block_inputs bs g) blocks))"

section \<open>Changing a graph\<close>

text \<open>Blocks without a detail get one; inputs whose edge has gone are cleared.\<close>

definition merge_details ::
  "int \<Rightarrow> (nat \<Rightarrow> u32 \<Rightarrow> 'a list option) \<Rightarrow> (block \<Rightarrow> ('a, 's) gr_block) \<Rightarrow> flowgraph \<Rightarrow> ('a, 's) runtime \<Rightarrow> ('a, 's) runtime gr" where
  "merge_details page mem bs g =
     gr_fold (\<lambda>p rt. if details rt p = None then allocate_block_detail page mem bs g p rt else Inr rt) (d_blocks g)"

definition clear_old_edges :: "flowgraph \<Rightarrow> flowgraph \<Rightarrow> ('a, 's) runtime \<Rightarrow> ('a, 's) runtime gr" where
  "clear_old_edges g old_ffg =
     gr_fold (\<lambda>old_edge rt.
       if \<exists>new_edge \<in> set (d_edges g). e_src new_edge = e_src old_edge \<and> e_dst new_edge = e_dst old_edge then Inr rt
       else set_input (ep_block (e_dst old_edge)) (port_index (ep_port (e_dst old_edge))) None rt) (d_edges old_ffg)"

text \<open>An input of a block that was there before keeps its reader if it reads from the right buffer.\<close>

definition merge_input :: "(block \<Rightarrow> ('a, 's) gr_block) \<Rightarrow> flowgraph \<Rightarrow> block \<Rightarrow> nat \<Rightarrow> ('a, 's) runtime \<Rightarrow> ('a, 's) runtime gr" where
  "merge_input bs g block i rt =
     gr_bind (detail block rt) (\<lambda>d.
     gr_bind (not_null (calc_upstream_edge g block (int i))) (\<lambda>edge.
     gr_bind (source_buffer edge rt) (\<lambda>src_buffer.
       let old_reader = (if i < length (d_input d) then d_input d ! i else None)
       in if map_option fst old_reader = Some src_buffer then Inr rt
          else attach_reader bs block i src_buffer rt)))"

definition merge_block ::
  "(block \<Rightarrow> ('a, 's) gr_block) \<Rightarrow> flowgraph \<Rightarrow> flowgraph \<Rightarrow> block \<Rightarrow> ('a, 's) runtime \<Rightarrow> ('a, 's) runtime gr" where
  "merge_block bs g old_ffg p =
     (if has_block_p old_ffg p then gr_fold (merge_input bs g p) [0..<length (calc_used_ports g p True)]
      else connect_block_inputs bs g p)"

definition merge_connections ::
  "int \<Rightarrow> (nat \<Rightarrow> u32 \<Rightarrow> 'a list option) \<Rightarrow> (block \<Rightarrow> ('a, 's) gr_block) \<Rightarrow> flowgraph \<Rightarrow> flowgraph
    \<Rightarrow> ('a, 's) runtime \<Rightarrow> ('a, 's) runtime gr" where
  "merge_connections page mem bs g old_ffg rt =
     gr_bind (merge_details page mem bs g rt) (\<lambda>rt.
     gr_bind (clear_old_edges g old_ffg rt) (\<lambda>rt.
       gr_fold (merge_block bs g old_ffg) (d_blocks g) rt))"

text \<open>
  A block that was there before keeps its detail, with the number of inputs it had: merging a graph in
  which it has more ends with an exception, at the first new input.
\<close>

lemma merge_extra_input:
  assumes "details rt p = Some d" "length (d_input d) \<le> i" "calc_upstream_edge g p (int i) = Some e" "source_buffer e rt = Inr k"
    "gr_buffer_add_reader (next_reader rt) (sint (d_history (bs p) - 1)) (buffers rt ! k) = Inr b"
  shows "merge_input bs g p i rt = Inl Invalid_argument"
  using assms by (simp add: merge_input_def attach_reader_def on_buffer_def set_input_def detail_def Let_def)

end
