(* ===== verification/Gr_Executor.thy ===== *)
theory Gr_Executor
  imports Gr_Block
begin

text \<open>
  Running a block (\<open>gr_block_executor.cc\<close>): how many items it is asked for, the call of its work
  method, the tags that move downstream, and the pointers that move.
\<close>

section \<open>Multiples\<close>

definition round_up :: "u32 \<Rightarrow> u32 \<Rightarrow> u32" where
  "round_up n multiple = ((n + multiple - 1) div multiple) * multiple"

definition round_down :: "u32 \<Rightarrow> u32 \<Rightarrow> u32" where
  "round_down n multiple = (n div multiple) * multiple"

section \<open>Space\<close>

text \<open>The least space of the outputs, at most half of each buffer; 0 if blocked, -1 if blocked for ever.\<close>

fun min_space_loop :: "int \<Rightarrow> nat option list \<Rightarrow> int \<Rightarrow> ('a, 's) runtime \<Rightarrow> (int \<times> ('a, 's) runtime) gr" where
  "min_space_loop output_multiple [] min_space rt = Inr (min_space, rt)"
| "min_space_loop output_multiple (k # ks) min_space rt =
     gr_bind (not_null k) (\<lambda>k.
     gr_bind (space_available (heap rt) (buffers rt ! k)) (\<lambda>(space, b).
       let rt = rt\<lparr> buffers := (buffers rt)[k := b] \<rparr>;
           n = sint (round_down (word_of_int (min space (sint (d_bufsize b) sdiv 2))) (word_of_int output_multiple))
       in if n = 0 then Inr (if d_done b then -1 else 0, rt)
          else min_space_loop output_multiple ks (min min_space n) rt))"

definition min_available_space :: "block_detail \<Rightarrow> int \<Rightarrow> ('a, 's) runtime \<Rightarrow> (int \<times> ('a, 's) runtime) gr" where
  "min_available_space d output_multiple rt = min_space_loop output_multiple (d_output d) (2 ^ 31 - 1) rt"

section \<open>Tags\<close>

definition rescaled_tag :: "('a, 's) gr_block \<Rightarrow> addr \<Rightarrow> ('a, 's) runtime \<Rightarrow> (addr \<times> ('a, 's) runtime) gr" where
  "rescaled_tag blk t rt =
     (let ref = (\<lambda>k. map_sum Pmt_exception id (pmt_tuple_ref (heap rt) t k))
      in gr_bind (item_time (heap rt) t) (\<lambda>newcount.
         gr_bind (ref 1) (\<lambda>e1. gr_bind (ref 2) (\<lambda>e2. gr_bind (ref 3) (\<lambda>e3.
           let (e0, s) = pmt_from_uint64 (scale_count blk newcount) (heap rt);
               (newtup, s) = pmt_make_tuple [e0, e1, e2, e3] s
           in Inr (newtup, rt\<lparr> heap := s \<rparr>))))))"

definition tag_outputs :: "nat option list \<Rightarrow> addr \<Rightarrow> ('a, 's) runtime \<Rightarrow> ('a, 's) runtime gr" where
  "tag_outputs outs t rt = gr_fold (\<lambda>k rt. gr_bind (not_null k) (\<lambda>k. tag_output t k rt)) outs rt"

definition retag_outputs :: "('a, 's) gr_block \<Rightarrow> nat option list \<Rightarrow> addr \<Rightarrow> ('a, 's) runtime \<Rightarrow> ('a, 's) runtime gr" where
  "retag_outputs blk outs t rt = gr_bind (rescaled_tag blk t rt) (\<lambda>(newtup, rt). tag_outputs outs newtup rt)"

definition new_tags :: "block \<Rightarrow> nat \<Rightarrow> u64 \<Rightarrow> ('a, 's) runtime \<Rightarrow> addr list gr" where
  "new_tags m i start rt = gr_bind (nitems_read m i rt) (\<lambda>end. detail_tags_in_range m i start end rt)"

definition propagate_tags ::
  "('a, 's) gr_block \<Rightarrow> block \<Rightarrow> u64 list \<Rightarrow> ('a, 's) runtime \<Rightarrow> (bool \<times> ('a, 's) runtime) gr" where
  "propagate_tags blk m start_nitems_read rt =
     gr_bind (detail m rt) (\<lambda>d.
       if d_output d = [] then Inr (True, rt)
       else case d_tag_propagation_policy blk of
         TPP_DONT \<Rightarrow> Inr (True, rt)
       | TPP_ALL_TO_ALL \<Rightarrow>
           map_sum id (Pair True) (gr_fold (\<lambda>i rt.
             gr_bind (new_tags m i (start_nitems_read ! i) rt) (\<lambda>rtags.
               gr_fold (if unit_rate blk then tag_outputs (d_output d) else retag_outputs blk (d_output d)) rtags rt))
             [0..<length (d_input d)] rt)
       | TPP_ONE_TO_ONE \<Rightarrow>
           if length (d_input d) = length (d_output d)
           then map_sum id (Pair True) (gr_fold (\<lambda>i rt.
             gr_bind (new_tags m i (start_nitems_read ! i) rt) (\<lambda>rtags.
               gr_fold (retag_outputs blk [d_output d ! i]) rtags rt))
             [0..<length (d_input d)] rt)
           else Inr (False, rt))"

section \<open>How much to ask for\<close>

text \<open>The items and done flags of the inputs, until one of them satisfies \<open>stop\<close>.\<close>

fun scan_inputs :: "(int \<Rightarrow> bool \<Rightarrow> bool) \<Rightarrow> (nat \<times> nat) option list \<Rightarrow> ('a, 's) runtime \<Rightarrow> (int \<times> bool) list option gr" where
  "scan_inputs stop [] rt = Inr (Some [])"
| "scan_inputs stop (i # is) rt =
     gr_bind (not_null i) (\<lambda>i.
     gr_bind (reader_of rt i) (\<lambda>r.
     gr_bind (items_available (buffers rt ! fst i) r) (\<lambda>n.
       let finished = d_done (buffers rt ! fst i)
       in if stop n finished then Inr None
          else map_sum id (map_option ((#) (n, finished))) (scan_inputs stop is rt))))"

fun max_items :: "(int \<times> bool) list \<Rightarrow> int" where
  "max_items [] = 0"
| "max_items (x # xs) = max (fst x) (max_items xs)"

fun find_short :: "int list \<Rightarrow> (int \<times> bool) list \<Rightarrow> nat option" where
  "find_short (r # rs) (x # xs) = (if r > fst x then Some 0 else map_option Suc (find_short rs xs))"
| "find_short rs xs = None"

definition fixed_request :: "('a, 's) gr_block \<Rightarrow> int \<Rightarrow> int \<Rightarrow> int gr" where
  "fixed_request blk max_items_avail noutput_items =
     (if d_fixed_rate blk
      then gr_bind (fixed_rate_ninput_to_noutput blk (d_history blk) max_items_avail) (\<lambda>n.
             let reqd = sint (round_up (word_of_int n) (word_of_int (d_output_multiple blk)))
             in Inr (if reqd > 0 \<and> reqd \<le> noutput_items then reqd else noutput_items))
      else Inr noutput_items)"

text \<open>
  The loop at \<open>try_again\<close>: the number of items that is asked for, the requirements of the block for
  it, and the first input that has too few.
\<close>

partial_function (option) try_again ::
  "('a, 's) gr_block \<Rightarrow> (int \<times> bool) list \<Rightarrow> int \<Rightarrow> (int \<times> int list \<times> nat option) gr option" where
  "try_again blk avail noutput_items =
     (case fixed_request blk (max_items avail) noutput_items of
        Inl e \<Rightarrow> Some (Inl e)
      | Inr noutput_items \<Rightarrow>
          let required = forecast blk (d_history blk) noutput_items (length avail)
          in case find_short required avail of
               None \<Rightarrow> Some (Inr (noutput_items, required, None))
             | Some i \<Rightarrow>
                 if noutput_items > d_output_multiple blk
                 then try_again blk avail
                        (sint (round_up (word_of_int (noutput_items sdiv 2)) (word_of_int (d_output_multiple blk))))
                 else Some (Inr (noutput_items, required, Some i)))"

section \<open>One iteration\<close>

datatype exec_state = READY | READY_NO_OUTPUT | BLKD_IN | BLKD_OUT | DONE

definition were_done :: "block \<Rightarrow> ('a, 's) runtime \<Rightarrow> (exec_state \<times> ('a, 's) runtime) gr" where
  "were_done m rt = map_sum id (Pair DONE) (block_set_done m True rt)"

definition starting_offsets :: "block_detail \<Rightarrow> block \<Rightarrow> ('a, 's) runtime \<Rightarrow> u64 list gr" where
  "starting_offsets d m rt =
     gr_fold (\<lambda>i xs. map_sum id (\<lambda>x. xs @ [x]) (nitems_read m i rt)) [0..<length (d_input d)] []"

definition call_work ::
  "('a, 's) gr_block \<Rightarrow> block \<Rightarrow> int \<Rightarrow> int list \<Rightarrow> ('a, 's) runtime \<Rightarrow> (exec_state \<times> ('a, 's) runtime) gr" where
  "call_work blk m noutput_items ninput_items rt =
     gr_bind (detail m rt) (\<lambda>d.
     let rt = set_detail m (d\<lparr> d_produce_or := 0 \<rparr>) rt
     in gr_bind (starting_offsets d m rt) (\<lambda>start_nitems_read.
     gr_bind (general_work blk noutput_items ninput_items m rt) (\<lambda>(n, rt).
     gr_bind (propagate_tags blk m start_nitems_read rt) (\<lambda>(ok, rt).
       if \<not> ok then were_done m rt
       else if n = WORK_DONE then were_done m rt
       else gr_bind (if n \<noteq> WORK_CALLED_PRODUCE then produce_each m n rt else Inr rt) (\<lambda>rt.
            gr_bind (detail m rt) (\<lambda>d.
              if 0 <s d_produce_or d then Inr (READY, rt)
              else if d_input d = [] then were_done m rt
              else Inr (READY_NO_OUTPUT, rt)))))))"

definition run_work ::
  "('a, 's) gr_block \<Rightarrow> block \<Rightarrow> (int \<times> bool) list \<Rightarrow> int \<Rightarrow> ('a, 's) runtime \<Rightarrow> (exec_state \<times> ('a, 's) runtime) gr option" where
  "run_work blk m avail noutput_items rt =
     (case try_again blk avail noutput_items of
        None \<Rightarrow> None
      | Some (Inl e) \<Rightarrow> Some (Inl e)
      | Some (Inr (noutput_items, required, None)) \<Rightarrow> Some (call_work blk m noutput_items (map fst avail) rt)
      | Some (Inr (noutput_items, required, Some i)) \<Rightarrow> Some (
          if snd (avail ! i) then were_done m rt
          else gr_bind (detail m rt) (\<lambda>d.
               gr_bind (input_at d i) (\<lambda>r.
                 if required ! i > max_possible_items_available (buffers rt ! fst r) then were_done m rt
                 else Inr (BLKD_IN, rt)))))"

definition run_one_iteration ::
  "(block \<Rightarrow> ('a, 's) gr_block) \<Rightarrow> block \<Rightarrow> ('a, 's) runtime \<Rightarrow> (exec_state \<times> ('a, 's) runtime) gr option" where
  "run_one_iteration bs m rt =
     (let blk = bs m; om = d_output_multiple blk in
      case detail m rt of
        Inl e \<Rightarrow> Some (Inl e)
      | Inr d \<Rightarrow>
          if d_finished d then Some (Inl Assertion_failed)
          else if d_input d = [] then
            Some (gr_bind (min_available_space d om rt) (\<lambda>(noutput_items, rt).
              if noutput_items = -1 then were_done m rt
              else if noutput_items = 0 then Inr (BLKD_OUT, rt)
              else call_work blk m noutput_items [] rt))
          else if d_output d = [] then
            (case scan_inputs (\<lambda>n finished. n < om \<and> finished) (d_input d) rt of
               Inl e \<Rightarrow> Some (Inl e)
             | Inr None \<Rightarrow> Some (were_done m rt)
             | Inr (Some avail) \<Rightarrow>
                 let noutput_items = sint (round_down (word_of_int (scale_items blk (max_items avail))) (word_of_int om))
                 in if noutput_items = 0 then Some (Inr (BLKD_IN, rt)) else run_work blk m avail noutput_items rt)
          else
            (case scan_inputs (\<lambda>n finished. False) (d_input d) rt of
               Inl e \<Rightarrow> Some (Inl e)
             | Inr None \<Rightarrow> Some (were_done m rt)
             | Inr (Some avail) \<Rightarrow>
                 (case min_available_space d om rt of
                    Inl e \<Rightarrow> Some (Inl e)
                  | Inr (noutput_items, rt) \<Rightarrow>
                      if noutput_items = -1 then Some (were_done m rt)
                      else if noutput_items = 0 then Some (Inr (BLKD_OUT, rt))
                      else run_work blk m avail noutput_items rt)))"

end
