(* ===== verification/Gr_Running.thy ===== *)
theory Gr_Running
  imports Gr_Executor Gr_Fifo
begin

text \<open>
  What an iteration of the executor does to the streams: the search for the number of items ends and
  finds room for the smallest request, and a synchronous block is called once, on all that it has not
  read, with its result appended to every output.
\<close>

section \<open>Multiples\<close>

declare of_nat_unat [simp del]

lemma unat_u32: "unat (w :: u32) < 2 ^ 32"
proof -
  define n where "n = unat w"
  have "uint w = int n" unfolding n_def by (rule uint_nat)
  then show ?thesis using uint_bounded [of w] unfolding n_def [symmetric] by simp
qed

lemma round_down_unat:
  "unat (round_down n m) = unat n div unat m * unat m"
proof -
  have "unat n div unat m * unat m \<le> unat n" by simp
  also have "\<dots> < 2 ^ 32" by (rule unat_u32)
  finally have "unat (n div m) * unat m < 2 ^ 32" unfolding unat_div .
  then show ?thesis by (simp add: round_down_def unat_mult_lem [THEN iffD1] unat_div)
qed

lemma round_up_down: "round_up n m = round_down (n + m - 1) m"
  by (simp add: round_up_def round_down_def)

lemma dvd_round: "unat m dvd unat (round_down n m)" "unat m dvd unat (round_up n m)"
  by (simp_all add: round_up_down round_down_unat)

lemma unat_of_int: "0 \<le> n \<Longrightarrow> n < 2 ^ 32 \<Longrightarrow> int (unat (word_of_int n :: u32)) = n"
  by (simp add: unat_word_of_int)

lemma sint_round_dvd:
  assumes "1 \<le> m" "m < 2 ^ 31" "0 < sint w" "unat (word_of_int m :: u32) dvd unat (w :: u32)"
  shows "m dvd sint w"
proof -
  have "unat w < 2 ^ 31" using assms(3) unat_u32 [of w] unfolding sint_u32 by (cases "unat w < 2 ^ 31") auto
  then have "sint w = int (unat w)" by (rule sint_small)
  moreover have "int (unat (word_of_int m :: u32)) = m" using assms(1,2) by (intro unat_of_int) auto
  ultimately show ?thesis using assms(4) by (metis of_nat_dvd_iff)
qed

lemma halved:
  assumes "1 \<le> m" "m dvd n" "m < n" "n < 2 ^ 31"
  shows "m \<le> sint (round_up (word_of_int (n sdiv 2)) (word_of_int m))"
    "sint (round_up (word_of_int (n sdiv 2)) (word_of_int m)) < n"
    "m dvd sint (round_up (word_of_int (n sdiv 2)) (word_of_int m))"
proof -
  have h: "n sdiv 2 = n div 2" using assms by (simp add: signed_divide_int_def)
  obtain q where q: "n = m * q" using assms(2) by blast
  then have "1 < q" using assms(1,3) by (simp add: mult_less_cancel_left1)
  then have "m * 2 \<le> m * q" using assms(1) by (intro mult_left_mono) auto
  then have n: "2 * m \<le> n" using q by simp
  let ?x = "word_of_int (n div 2) :: u32" and ?m = "word_of_int m :: u32"
  have x: "int (unat ?x) = n div 2" using assms n by (intro unat_of_int) auto
  have m: "int (unat ?m) = m" using assms by (intro unat_of_int) auto
  have s: "int (unat (?x + ?m - 1)) = n div 2 + m - 1"
  proof -
    have "?x + ?m - 1 = word_of_int (n div 2 + m - 1)" by simp
    then show ?thesis using assms n by (simp only:) (intro unat_of_int, auto)
  qed
  have r: "int (unat (round_up ?x ?m)) = (n div 2 + m - 1) div m * m"
    unfolding round_up_down round_down_unat by (simp only: of_nat_mult of_nat_div m s)
  have low: "m \<le> (n div 2 + m - 1) div m * m"
  proof -
    have "m \<le> n div 2 + m - 1" using n assms(1) by linarith
    then have "1 \<le> (n div 2 + m - 1) div m" using assms(1) by (simp add: pos_imp_zdiv_pos_iff int_one_le_iff_zero_less)
    then show ?thesis using assms(1) by simp
  qed
  have high: "(n div 2 + m - 1) div m * m \<le> n - 1"
  proof -
    have "(n div 2 + m - 1) div m * m \<le> n div 2 + m - 1" using assms(1) pos_mod_sign [of m "n div 2 + m - 1"] unfolding minus_mod_eq_div_mult [symmetric] by linarith
    also have "\<dots> \<le> n - 1" using n by linarith
    finally show ?thesis .
  qed
  have "int (unat (round_up ?x ?m)) < 2 ^ 31" using r high assms(4) by linarith
  then have "unat (round_up ?x ?m) < 2 ^ 31" by simp
  then have "sint (round_up ?x ?m) = (n div 2 + m - 1) div m * m" using r by (simp add: sint_small)
  then show "m \<le> sint (round_up (word_of_int (n sdiv 2)) (word_of_int m))"
    "sint (round_up (word_of_int (n sdiv 2)) (word_of_int m)) < n"
    "m dvd sint (round_up (word_of_int (n sdiv 2)) (word_of_int m))"
    using low high unfolding h by auto
qed

section \<open>The search for the number of items\<close>

lemma fixed_request_ok:
  assumes "1 \<le> d_output_multiple blk" "d_output_multiple blk < 2 ^ 31" "d_output_multiple blk dvd n" "0 < n"
    "\<And>k. d_fixed_rate blk \<Longrightarrow> \<exists>y. fixed_rate_ninput_to_noutput blk (d_history blk) k = Inr y"
  shows "\<exists>n'. fixed_request blk a n = Inr n' \<and> d_output_multiple blk dvd n' \<and> 0 < n' \<and> n' \<le> n"
proof (cases "d_fixed_rate blk")
  case True
  then obtain y where y: "fixed_rate_ninput_to_noutput blk (d_history blk) a = Inr y" using assms(5) by blast
  let ?r = "round_up (word_of_int y) (word_of_int (d_output_multiple blk))"
  have "d_output_multiple blk dvd sint ?r" if "0 < sint ?r"
    using sint_round_dvd [OF assms(1,2) that dvd_round(2)] .
  then show ?thesis using assms(3,4) True y by (auto simp: fixed_request_def Let_def)
qed (use assms in \<open>simp add: fixed_request_def\<close>)

lemma try_again_ok:
  assumes "1 \<le> d_output_multiple blk" "d_output_multiple blk dvd n" "0 < n" "n < 2 ^ 31"
    "\<And>k. d_fixed_rate blk \<Longrightarrow> \<exists>y. fixed_rate_ninput_to_noutput blk (d_history blk) k = Inr y"
  shows "\<exists>n'. try_again blk avail n
      = Some (Inr (n', forecast blk (d_history blk) n' (length avail), find_short (forecast blk (d_history blk) n' (length avail)) avail))
    \<and> d_output_multiple blk dvd n' \<and> d_output_multiple blk \<le> n' \<and> n' \<le> n
    \<and> (find_short (forecast blk (d_history blk) n' (length avail)) avail \<noteq> None \<longrightarrow> n' = d_output_multiple blk)"
  using assms(2-4)
proof (induction "nat n" arbitrary: n rule: less_induct)
  case less
  let ?om = "d_output_multiple blk"
  have om: "?om \<le> n" "?om < 2 ^ 31" using less.prems zdvd_imp_le by fastforce+
  obtain n1 where n1: "fixed_request blk (max_items avail) n = Inr n1" "?om dvd n1" "0 < n1" "n1 \<le> n"
    using fixed_request_ok [OF assms(1) om(2) less.prems(1,2) assms(5)] by blast
  have le: "?om \<le> n1" using n1(2,3) by (rule zdvd_imp_le)
  note step = try_again.simps [of blk avail n, unfolded n1(1) sum.case Let_def]
  show ?case
  proof (cases "find_short (forecast blk (d_history blk) n1 (length avail)) avail")
    case None
    then show ?thesis using n1 le by (intro exI [of _ n1]) (simp add: step)
  next
    case (Some i)
    show ?thesis
    proof (cases "?om < n1")
      case True
      let ?h = "sint (round_up (word_of_int (n1 sdiv 2)) (word_of_int ?om))"
      have n1': "n1 < 2 ^ 31" using n1(4) less.prems(3) by linarith
      have h: "?om \<le> ?h" "?h < n1" "?om dvd ?h" using halved [OF assms(1) n1(2) True n1'] by auto
      have "nat ?h < nat n" "0 < ?h" "?h < 2 ^ 31" using h(1,2) n1(3,4) n1' assms(1) by linarith+
      from less.hyps [OF this(1) h(3) this(2,3)]
      have r: "\<exists>n'. try_again blk avail ?h
          = Some (Inr (n', forecast blk (d_history blk) n' (length avail), find_short (forecast blk (d_history blk) n' (length avail)) avail))
        \<and> ?om dvd n' \<and> ?om \<le> n' \<and> n' \<le> ?h
        \<and> (find_short (forecast blk (d_history blk) n' (length avail)) avail \<noteq> None \<longrightarrow> n' = ?om)" .
      have "try_again blk avail n = try_again blk avail ?h" using Some True by (simp add: step)
      then show ?thesis using r h(2) n1(4) by fastforce
    next
      case False
      then have "n1 = ?om" using le by simp
      then show ?thesis using Some n1 by (intro exI [of _ n1]) (simp add: step)
    qed
  qed
qed

text \<open>
  C9: the search for the number of items always ends; what it settles on is a positive multiple of
  the block's output multiple, no more than there is room for, together with what the block says it
  needs for it; it gives up only on the smallest request, for which some input has too few items.
\<close>

theorem try_again_correct:
  assumes "1 \<le> d_output_multiple blk" "d_output_multiple blk dvd n" "0 < n" "n < 2 ^ 31"
    "\<And>k. d_fixed_rate blk \<Longrightarrow> \<exists>y. fixed_rate_ninput_to_noutput blk (d_history blk) k = Inr y"
  shows "\<exists>n'. try_again blk avail n
      = Some (Inr (n', forecast blk (d_history blk) n' (length avail), find_short (forecast blk (d_history blk) n' (length avail)) avail))
    \<and> d_output_multiple blk dvd n' \<and> d_output_multiple blk \<le> n' \<and> n' \<le> n
    \<and> (find_short (forecast blk (d_history blk) n' (length avail)) avail \<noteq> None \<longrightarrow> n' = d_output_multiple blk)"
  using assms by (rule try_again_ok)

text \<open>A synchronous block with room for four items, three of which have come.\<close>

definition sample_waiting :: "(nat, unit) gr_block" where
  "sample_waiting = gr_sync_block \<lparr> d_min_streams = 1, d_max_streams = 1, d_sizeof_stream_item = [1] \<rparr>
     \<lparr> d_min_streams = 1, d_max_streams = 1, d_sizeof_stream_item = [1] \<rparr> (\<lambda>n inputs k s. (n, inputs, s))"

theorem try_again_correct_witness:
  "\<exists>n'. try_again sample_waiting [(3, False)] 4
      = Some (Inr (n', forecast sample_waiting 1 n' 1, find_short (forecast sample_waiting 1 n' 1) [(3, False)]))
    \<and> 1 \<le> n' \<and> n' \<le> 4 \<and> (find_short (forecast sample_waiting 1 n' 1) [(3, False)] = None \<or> n' = 1)"
proof -
  have fields: "d_output_multiple sample_waiting = 1" "d_history sample_waiting = 1"
      "\<exists>y. fixed_rate_ninput_to_noutput sample_waiting (d_history sample_waiting) k = Inr y" for k
    by (simp_all add: sample_waiting_def gr_sync_block_def make_block_def)
  show ?thesis
    using try_again_correct[of sample_waiting 4 "[(3, False)]", unfolded fields(1)] fields(3)
    by (auto simp: fields(2))
qed

end
