(* ===== verification/Gr_Streams.thy ===== *)
theory Gr_Streams
  imports Gr_Running
begin

text \<open>
  The run time as a set of streams: every buffer has a history of items and a position in it for
  every reader.  The operations of the executor on all inputs and outputs of a block, as functions
  of these.
\<close>

declare of_nat_unat [simp del]

section \<open>Streams\<close>

text \<open>A buffer in which the items \<open>xs\<close> have been stored behind the write pointer.\<close>

definition pending :: "'a buffer \<Rightarrow> 'a list \<Rightarrow> (nat \<Rightarrow> nat) \<Rightarrow> 'a list \<Rightarrow> bool" where
  "pending b hist pos xs \<longleftrightarrow> (\<exists>b0. b = write_items xs b0 \<and> buffer_ok b0 hist pos \<and> length xs < unat (d_bufsize b0)
     \<and> (\<forall>(i, r) \<in> set (d_readers b0). length hist + length xs < pos i + unat (d_bufsize b0)))"

definition streams :: "('a, 's) runtime \<Rightarrow> (nat \<Rightarrow> 'a list) \<Rightarrow> (nat \<Rightarrow> nat \<Rightarrow> nat) \<Rightarrow> (nat \<Rightarrow> 'a list) \<Rightarrow> bool" where
  "streams rt H P W \<longleftrightarrow> (\<forall>k < length (buffers rt). pending (buffers rt ! k) (H k) (P k) (W k))"

definition wired :: "('a, 's) runtime \<Rightarrow> block \<Rightarrow> (nat \<times> nat) list \<Rightarrow> nat list \<Rightarrow> bool" where
  "wired rt m ins outs \<longleftrightarrow>
     (\<exists>d. details rt m = Some d \<and> d_input d = map Some ins \<and> d_output d = map Some outs)
     \<and> distinct ins \<and> distinct outs \<and> fst ` set ins \<inter> set outs = {}
     \<and> (\<forall>(k, r) \<in> set ins. k < length (buffers rt) \<and> r \<in> fst ` set (d_readers (buffers rt ! k)))
     \<and> (\<forall>k \<in> set outs. k < length (buffers rt))"

lemma write_items_Nil [simp]: "write_items [] b = b"
  by (simp add: write_items_def)

lemma write_items_fields [simp]:
  "d_bufsize (write_items xs b) = d_bufsize b" "d_readers (write_items xs b) = d_readers b"
  "d_write_index (write_items xs b) = d_write_index b" "d_done (write_items xs b) = d_done b"
  "d_item_tags (write_items xs b) = d_item_tags b" "d_abs_write_offset (write_items xs b) = d_abs_write_offset b"
  "d_last_min_items_read (write_items xs b) = d_last_min_items_read b"
  by (simp_all add: write_items_def)

lemma pending_ok: "pending b hist pos [] \<longleftrightarrow> buffer_ok b hist pos"
proof
  assume ok: "buffer_ok b hist pos"
  have "length hist < pos i + unat (d_bufsize b)" if "(i, r) \<in> set (d_readers b)" for i r
    using buffer_okD(8) [OF ok that] by (simp add: reader_at_def)
  then show "pending b hist pos []" using ok buffer_okD(2) [OF ok] by (auto simp: pending_def)
qed (auto simp: pending_def)

lemma pending_store:
  assumes "buffer_ok b hist pos" "length xs < unat (d_bufsize b)"
    "\<And>i r. (i, r) \<in> set (d_readers b) \<Longrightarrow> length hist + length xs < pos i + unat (d_bufsize b)"
  shows "pending (write_items xs b) hist pos xs"
  using assms by (auto simp: pending_def)

lemma pending_commit:
  assumes "pending b hist pos xs"
  shows "\<exists>b'. update_write_pointer (int (length xs)) b = Inr b' \<and> buffer_ok b' (hist @ xs) pos
    \<and> map fst (d_readers b') = map fst (d_readers b) \<and> d_bufsize b' = d_bufsize b"
proof -
  obtain b0 where b0: "b = write_items xs b0" "buffer_ok b0 hist pos" "length xs < unat (d_bufsize b0)"
      "\<And>i r. (i, r) \<in> set (d_readers b0) \<Longrightarrow> length hist + length xs < pos i + unat (d_bufsize b0)"
    using assms by (auto simp: pending_def)
  show ?thesis using write_ok [OF b0(2,3)] b0(1,4) by auto
qed

lemma pending_cong:
  assumes "pending b hist pos xs" "d_readers b' = d_readers b" "d_bufsize b' = d_bufsize b" "d_base b' = d_base b"
    "d_write_index b' = d_write_index b"
  shows "pending b' hist pos xs"
proof -
  obtain b0 where b0: "b = write_items xs b0" "buffer_ok b0 hist pos" "length xs < unat (d_bufsize b0)"
      "\<forall>(i, r) \<in> set (d_readers b0). length hist + length xs < pos i + unat (d_bufsize b0)"
    using assms(1) by (auto simp: pending_def)
  let ?b = "b'\<lparr> d_base := d_base b0 \<rparr>"
  have "b' = write_items xs ?b" using assms(2-5) b0(1) by (simp add: write_items_def)
  moreover have "buffer_ok ?b hist pos" using b0(1,2) assms(2-5) by (simp add: buffer_ok_def)
  moreover have "length xs < unat (d_bufsize ?b)" "\<forall>(i, r) \<in> set (d_readers ?b). length hist + length xs < pos i + unat (d_bufsize ?b)"
    using b0 assms(2,3) by auto
  ultimately show ?thesis unfolding pending_def by blast
qed

section \<open>Everything but tags\<close>

definition tagged :: "('a, 's) runtime \<Rightarrow> ('a, 's) runtime \<Rightarrow> bool" where
  "tagged rt rt' \<longleftrightarrow> details rt' = details rt \<and> inner rt' = inner rt \<and> length (buffers rt') = length (buffers rt)
     \<and> (\<forall>k < length (buffers rt). retagged (buffers rt ! k) (buffers rt' ! k))"

lemma tagged_refl [simp]: "tagged rt rt"
  by (simp add: tagged_def)

lemma retagged_trans: "retagged b b' \<Longrightarrow> retagged b' b'' \<Longrightarrow> retagged b b''"
  unfolding retagged_def by (elim exE) (simp, blast)

lemma tagged_trans: "tagged rt rt' \<Longrightarrow> tagged rt' rt'' \<Longrightarrow> tagged rt rt''"
  unfolding tagged_def by (auto intro: retagged_trans)

lemma tagged_streams: "tagged rt rt' \<Longrightarrow> streams rt H P W \<Longrightarrow> streams rt' H P W"
proof -
  assume t: "tagged rt rt'" and s: "streams rt H P W"
  have "pending (buffers rt' ! k) (H k) (P k) (W k)" if "k < length (buffers rt')" for k
  proof -
    have k: "k < length (buffers rt)" and r: "retagged (buffers rt ! k) (buffers rt' ! k)" using t that by (auto simp: tagged_def)
    have "pending (buffers rt ! k) (H k) (P k) (W k)" using s k by (simp add: streams_def)
    then show ?thesis by (rule pending_cong) (simp_all add: retagged_fields [OF r])
  qed
  then show ?thesis by (simp add: streams_def)
qed

text \<open>Nothing but the contents of the buffers and the names of their readers matters for the wiring.\<close>

definition same_wiring :: "('a, 's) runtime \<Rightarrow> ('a, 's) runtime \<Rightarrow> bool" where
  "same_wiring rt rt' \<longleftrightarrow> (\<forall>m d. details rt m = Some d \<longrightarrow> (\<exists>d'. details rt' m = Some d' \<and> d_input d' = d_input d \<and> d_output d' = d_output d))
     \<and> length (buffers rt') = length (buffers rt)
     \<and> (\<forall>k < length (buffers rt). map fst (d_readers (buffers rt' ! k)) = map fst (d_readers (buffers rt ! k))
          \<and> d_bufsize (buffers rt' ! k) = d_bufsize (buffers rt ! k))"

lemma same_wiring_refl [simp]: "same_wiring rt rt"
  by (simp add: same_wiring_def)

lemma same_wiring_trans: "same_wiring rt rt' \<Longrightarrow> same_wiring rt' rt'' \<Longrightarrow> same_wiring rt rt''"
  unfolding same_wiring_def by (metis (no_types, lifting))

lemma same_wiring_wired:
  assumes "same_wiring rt rt'" "wired rt m ins outs"
  shows "wired rt' m ins outs"
proof -
  have len: "length (buffers rt') = length (buffers rt)" using assms(1) by (simp add: same_wiring_def)
  have names: "fst ` set (d_readers (buffers rt' ! k)) = fst ` set (d_readers (buffers rt ! k))" if "k < length (buffers rt)" for k
    using assms(1) that unfolding same_wiring_def by (metis list.set_map)
  have "\<exists>d. details rt' m = Some d \<and> d_input d = map Some ins \<and> d_output d = map Some outs"
    using assms unfolding same_wiring_def wired_def by fastforce
  moreover have "k < length (buffers rt') \<and> r \<in> fst ` set (d_readers (buffers rt' ! k))" if "(k, r) \<in> set ins" for k r
  proof -
    have "k < length (buffers rt)" "r \<in> fst ` set (d_readers (buffers rt ! k))" using assms(2) that by (auto simp: wired_def)
    then show ?thesis using names len by simp
  qed
  ultimately show ?thesis using assms(2) unfolding wired_def len by auto
qed

lemma tagged_same: "tagged rt rt' \<Longrightarrow> same_wiring rt rt'"
  by (auto simp: tagged_def same_wiring_def retagged_fields)

lemma tagged_wired: "tagged rt rt' \<Longrightarrow> wired rt m ins outs \<Longrightarrow> wired rt' m ins outs"
  by (rule same_wiring_wired [OF tagged_same])

lemma tagged_heap: "tagged rt (rt\<lparr> heap := s \<rparr>)"
  by (simp add: tagged_def)

text \<open>Operations that change tags only, and fail on malformed tags only.\<close>

definition tags_only :: "(('a, 's) runtime \<Rightarrow> bool) \<Rightarrow> (('a, 's) runtime \<Rightarrow> ('a, 's) runtime gr) \<Rightarrow> bool" where
  "tags_only Q f \<longleftrightarrow> (\<forall>rt. Q rt \<longrightarrow> (case f rt of Inl e \<Rightarrow> \<exists>p. e = Pmt_exception p | Inr rt' \<Rightarrow> tagged rt rt'))"

lemma tags_only_fold:
  assumes "\<And>x. x \<in> set xs \<Longrightarrow> tags_only Q (f x)" "\<And>rt rt'. Q rt \<Longrightarrow> tagged rt rt' \<Longrightarrow> Q rt'"
  shows "tags_only Q (gr_fold f xs)"
  using assms(1)
proof (induction xs)
  case (Cons x xs)
  have IH: "tags_only Q (gr_fold f xs)" using Cons by simp
  show ?case
    unfolding tags_only_def
  proof (intro allI impI)
    fix rt
    assume Q: "Q rt"
    then have x: "case f x rt of Inl e \<Rightarrow> \<exists>p. e = Pmt_exception p | Inr rt' \<Rightarrow> tagged rt rt'"
      using Cons.prems unfolding tags_only_def by simp
    show "case gr_fold f (x # xs) rt of Inl e \<Rightarrow> \<exists>p. e = Pmt_exception p | Inr rt' \<Rightarrow> tagged rt rt'"
    proof (cases "f x rt")
      case (Inr rt')
      then have "tagged rt rt'" "Q rt'" using x assms(2) [OF Q] by auto
      then show ?thesis using IH Inr tagged_trans unfolding tags_only_def by (fastforce split: sum.splits)
    qed (use x in simp)
  qed
qed (simp add: tags_only_def)

lemma retagged_add: "retagged b (add_item_tag t b)"
  unfolding retagged_def add_item_tag_def
  by (intro exI [of _ "d_item_tags b @ [t]"] exI [of _ "d_last_min_items_read b"]) simp

lemma tag_output_tagged: "tag_output t k rt = Inr rt' \<Longrightarrow> tagged rt rt'"
  using retagged_add by (cases "k < length (buffers rt)")
    (auto simp: tag_output_def on_buffer_def tagged_def nth_list_update list_update_beyond)

lemma tag_outputs_only:
  "tags_only (\<lambda>rt. True) (tag_outputs (map Some outs) t)"
  unfolding tag_outputs_def
proof (rule tags_only_fold)
  fix x
  assume "x \<in> set (map Some outs)"
  then obtain k where "x = Some k" by auto
  then show "tags_only (\<lambda>rt. True) (\<lambda>rt. gr_bind (not_null x) (\<lambda>k. tag_output t k rt))"
    using tag_output_tagged [of t k] by (auto simp: tags_only_def tag_output_def on_buffer_def)
qed simp

lemma tags_only_weaken: "tags_only (\<lambda>rt. True) f \<Longrightarrow> tags_only Q f"
  by (simp add: tags_only_def)

lemma tags_only_bind:
  assumes "\<And>rt. Q rt \<Longrightarrow> (\<exists>p. g rt = Inl (Pmt_exception p)) \<or> (\<exists>y. g rt = Inr y)" "\<And>y. tags_only Q (h y)"
  shows "tags_only Q (\<lambda>rt. gr_bind (g rt) (\<lambda>y. h y rt))"
  unfolding tags_only_def
proof (intro allI impI)
  fix rt
  assume Q: "Q rt"
  consider p where "g rt = Inl (Pmt_exception p)" | y where "g rt = Inr y" using assms(1) [OF Q] by blast
  then show "case gr_bind (g rt) (\<lambda>y. h y rt) of Inl e \<Rightarrow> \<exists>p. e = Pmt_exception p | Inr rt' \<Rightarrow> tagged rt rt'"
  proof cases
    case (2 y)
    then show ?thesis using assms(2) [of y] Q by (simp add: tags_only_def)
  qed simp
qed

lemma map_sum_pmt: "(\<exists>p. map_sum Pmt_exception id x = Inl (Pmt_exception p)) \<or> (\<exists>y. map_sum Pmt_exception id x = Inr y)"
  by (cases x) simp_all

lemma item_time_pmt: "(\<exists>p. item_time s t = Inl (Pmt_exception p)) \<or> (\<exists>y. item_time s t = Inr y)"
  unfolding item_time_def by (rule map_sum_pmt)

lemma gr_bind_Inl_iff: "gr_bind x f = Inl e \<longleftrightarrow> x = Inl e \<or> (\<exists>y. x = Inr y \<and> f y = Inl e)"
  by (cases x) auto

lemma map_sum_Inl_iff: "map_sum f g x = Inl e \<longleftrightarrow> (\<exists>y. x = Inl y \<and> e = f y)"
  by (cases x) auto

lemma retag_outputs_only:
  fixes blk :: "('a, 's) gr_block"
  shows "tags_only (\<lambda>rt. True) (retag_outputs blk (map Some outs) t)"
  unfolding tags_only_def
proof (intro allI impI)
  fix rt :: "('a, 's) runtime"
  let ?ref = "\<lambda>k. map_sum Pmt_exception id (pmt_tuple_ref (heap rt) t k) :: addr gr"
  have "\<exists>p. e = Pmt_exception p" if "rescaled_tag blk t rt = Inl e" for e
    using that unfolding rescaled_tag_def Let_def
    by (auto simp: gr_bind_Inl_iff map_sum_Inl_iff item_time_def split_beta)
  moreover have "\<exists>u s. x = (u, rt\<lparr> heap := s \<rparr>)" if "rescaled_tag blk t rt = Inr x" for x
    using that unfolding rescaled_tag_def Let_def by (auto simp: gr_bind_Inr_iff split_beta)
  ultimately have "(\<exists>p. rescaled_tag blk t rt = Inl (Pmt_exception p)) \<or> (\<exists>u s. rescaled_tag blk t rt = Inr (u, rt\<lparr> heap := s \<rparr>))"
    by (cases "rescaled_tag blk t rt") auto
  then consider p where "rescaled_tag blk t rt = Inl (Pmt_exception p)"
    | u s where "rescaled_tag blk t rt = Inr (u, rt\<lparr> heap := s \<rparr>)" by blast
  then show "case retag_outputs blk (map Some outs) t rt of Inl e \<Rightarrow> \<exists>p. e = Pmt_exception p | Inr rt' \<Rightarrow> tagged rt rt'"
  proof cases
    case 1
    then show ?thesis by (simp add: retag_outputs_def)
  next
    case (2 u s)
    have h: "tagged rt (rt\<lparr> heap := s \<rparr>)" by (rule tagged_heap)
    have "case tag_outputs (map Some outs) u (rt\<lparr> heap := s \<rparr>) of Inl e \<Rightarrow> \<exists>p. e = Pmt_exception p | Inr rt' \<Rightarrow> tagged (rt\<lparr> heap := s \<rparr>) rt'"
      using tag_outputs_only [of outs u] unfolding tags_only_def by blast
    then show ?thesis using 2 tagged_trans [OF h] by (simp add: retag_outputs_def split: sum.splits)
  qed
qed

lemma tags_in_range_pmt: "(\<exists>p. tags_in_range s a z ts = Inl (Pmt_exception p)) \<or> (\<exists>y. tags_in_range s a z ts = Inr y)"
proof (induction ts)
  case (Cons t ts)
  then show ?case using item_time_pmt [of s t] by auto
qed simp

lemma wired_detail:
  assumes "wired rt m ins outs"
  obtains d where "detail m rt = Inr d" "details rt m = Some d" "d_input d = map Some ins" "d_output d = map Some outs"
  using assms by (auto simp: wired_def detail_def)

lemma wired_reader:
  assumes "wired rt m ins outs" "(k, r) \<in> set ins"
  obtains rd where "reader_of rt (k, r) = Inr rd" "(r, rd) \<in> set (d_readers (buffers rt ! k))" "k < length (buffers rt)"
proof -
  have "k < length (buffers rt)" "r \<in> fst ` set (d_readers (buffers rt ! k))" using assms by (auto simp: wired_def)
  moreover then obtain rd where rd: "map_of (d_readers (buffers rt ! k)) r = Some rd"
    by (metis map_of_eq_None_iff not_None_eq)
  ultimately show ?thesis using that map_of_SomeD [OF rd] by (simp add: reader_of_def)
qed

lemma nitems_read_ok:
  assumes "wired rt m ins outs" "i < length ins"
  shows "\<exists>x. nitems_read m i rt = Inr x"
proof -
  obtain d where d: "detail m rt = Inr d" "d_input d = map Some ins" using wired_detail [OF assms(1)] by metis
  obtain k r where kr: "ins ! i = (k, r)" by (cases "ins ! i")
  then have "(k, r) \<in> set ins" using nth_mem [OF assms(2)] by simp
  then obtain rd where "reader_of rt (k, r) = Inr rd" using wired_reader [OF assms(1)] by metis
  then show ?thesis using d assms(2) kr by (simp add: nitems_read_def input_at_def)
qed

lemma new_tags_pmt:
  assumes "wired rt m ins outs" "i < length ins"
  shows "(\<exists>p. new_tags m i start rt = Inl (Pmt_exception p)) \<or> (\<exists>y. new_tags m i start rt = Inr y)"
proof -
  obtain d where d: "detail m rt = Inr d" "d_input d = map Some ins" using wired_detail [OF assms(1)] by metis
  obtain x where "nitems_read m i rt = Inr x" using nitems_read_ok [OF assms] by blast
  then show ?thesis
    using d assms(2) tags_in_range_pmt by (cases "ins ! i") (simp add: new_tags_def detail_tags_in_range_def input_at_def get_tags_in_range_def)
qed

lemma propagate_tags_only:
  assumes w: "wired rt m ins outs"
  shows "(\<exists>p. propagate_tags blk m starts rt = Inl (Pmt_exception p))
    \<or> (\<exists>ok rt'. propagate_tags blk m starts rt = Inr (ok, rt') \<and> tagged rt rt'
         \<and> (ok \<or> d_tag_propagation_policy blk = TPP_ONE_TO_ONE \<and> length ins \<noteq> length outs))"
proof -
  obtain d where d: "detail m rt = Inr d" "d_input d = map Some ins" "d_output d = map Some outs" using wired_detail [OF w] by metis
  let ?Q = "\<lambda>rt. wired rt m ins outs"
  let ?loop = "\<lambda>F. gr_fold (\<lambda>i rt. gr_bind (new_tags m i (starts ! i) rt) (\<lambda>ts. gr_fold (F i) ts rt)) [0..<length ins]"
  have loop: "tags_only ?Q (?loop F)" if F: "\<And>i t. i < length ins \<Longrightarrow> tags_only ?Q (F i t)" for F
  proof (rule tags_only_fold)
    fix i
    assume "i \<in> set [0..<length ins]"
    then have i: "i < length ins" by simp
    show "tags_only ?Q (\<lambda>rt. gr_bind (new_tags m i (starts ! i) rt) (\<lambda>ts. gr_fold (F i) ts rt))"
      by (rule tags_only_bind) (use new_tags_pmt i in blast, rule tags_only_fold, use F i in blast, rule tagged_wired)
  qed (rule tagged_wired)
  have result: "(\<exists>p. map_sum id (Pair True) (?loop F rt) = Inl (Pmt_exception p))
      \<or> (\<exists>rt'. map_sum id (Pair True) (?loop F rt) = Inr (True, rt') \<and> tagged rt rt')"
    if F: "\<And>i t. i < length ins \<Longrightarrow> tags_only ?Q (F i t)" for F
  proof -
    have "tags_only ?Q (?loop F)" by (rule loop, rule F)
    then show ?thesis using w unfolding tags_only_def by (cases "?loop F rt") auto
  qed
  show ?thesis
  proof (cases "outs = [] \<or> d_tag_propagation_policy blk = TPP_DONT")
    case True
    then have "propagate_tags blk m starts rt = Inr (True, rt)" using d by (auto simp: propagate_tags_def)
    then show ?thesis by auto
  next
    case nonempty: False
  show ?thesis
  proof (cases "d_tag_propagation_policy blk")
    case TPP_DONT
    then show ?thesis using nonempty by simp
  next
    case TPP_ALL_TO_ALL
    let ?F = "\<lambda>i. if unit_rate blk then tag_outputs (map Some outs) else retag_outputs blk (map Some outs)"
    have "tags_only ?Q (?F i t)" for i t
      by (cases "unit_rate blk") (auto intro: tags_only_weaken tag_outputs_only retag_outputs_only)
    note r = result [of ?F, OF this]
    have "propagate_tags blk m starts rt = map_sum id (Pair True) (?loop ?F rt)"
      using d TPP_ALL_TO_ALL nonempty by (simp add: propagate_tags_def)
    then show ?thesis using r by auto
  next
    case TPP_ONE_TO_ONE
    show ?thesis
    proof (cases "length ins = length outs")
      case True
      let ?F = "\<lambda>i. retag_outputs blk [map Some outs ! i]"
      have "tags_only ?Q (?F i t)" if "i < length ins" for i t
        using tags_only_weaken [OF retag_outputs_only, of ?Q blk "[outs ! i]" t] that True by simp
      note r = result [of ?F, OF this]
      have "propagate_tags blk m starts rt = map_sum id (Pair True) (?loop ?F rt)"
        using d TPP_ONE_TO_ONE True nonempty by (simp add: propagate_tags_def)
      then show ?thesis using r by auto
    next
      case False
      then have "propagate_tags blk m starts rt = Inr (False, rt)"
        using d TPP_ONE_TO_ONE nonempty by (simp add: propagate_tags_def)
      then show ?thesis using False TPP_ONE_TO_ONE by auto
    qed
  qed
  qed
qed

section \<open>Looking at the inputs\<close>

text \<open>The number of items that an input has not read, and the items.\<close>

definition unread :: "(nat \<Rightarrow> 'a list) \<Rightarrow> (nat \<Rightarrow> nat \<Rightarrow> nat) \<Rightarrow> nat \<times> nat \<Rightarrow> 'a list" where
  "unread H P i = drop (P (fst i) (snd i)) (H (fst i))"

definition input_states :: "('a, 's) runtime \<Rightarrow> (nat \<Rightarrow> 'a list) \<Rightarrow> (nat \<Rightarrow> nat \<Rightarrow> nat) \<Rightarrow> (nat \<times> nat) list \<Rightarrow> (int \<times> bool) list" where
  "input_states rt H P ins = map (\<lambda>i. (int (length (unread H P i)), d_done (buffers rt ! fst i))) ins"

lemma streams_ok: "streams rt H P (\<lambda>k. []) \<Longrightarrow> k < length (buffers rt) \<Longrightarrow> buffer_ok (buffers rt ! k) (H k) (P k)"
  by (simp add: streams_def pending_ok)

lemma scan_ok:
  assumes "wired rt m ins outs" "streams rt H P (\<lambda>k. [])" "set xs \<subseteq> set ins"
  shows "scan_inputs stop (map Some xs) rt =
    Inr (if \<exists>(n, z) \<in> set (input_states rt H P xs). stop n z then None else Some (input_states rt H P xs))"
  using assms(3)
proof (induction xs)
  case (Cons i xs)
  obtain k r where i: "i = (k, r)" by (cases i)
  then have "(k, r) \<in> set ins" using Cons.prems by simp
  then obtain rd where rd: "reader_of rt (k, r) = Inr rd" "(r, rd) \<in> set (d_readers (buffers rt ! k))" "k < length (buffers rt)"
    using wired_reader [OF assms(1)] by metis
  have "items_available (buffers rt ! k) rd = Inr (int (length (unread H P i)))"
    using available_ok [OF streams_ok [OF assms(2) rd(3)] rd(2)] by (simp add: unread_def i)
  then show ?case using Cons rd(1) by (auto simp: i input_states_def Let_def)
qed (simp add: input_states_def)

lemma max_items_nonneg: "0 \<le> max_items xs"
  by (induction xs) auto

section \<open>Looking at the outputs\<close>

definition room :: "'a buffer \<Rightarrow> 'a list \<Rightarrow> (nat \<Rightarrow> nat) \<Rightarrow> nat \<Rightarrow> bool" where
  "room b hist pos n \<longleftrightarrow> n < unat (d_bufsize b)
     \<and> (\<forall>(i, r) \<in> set (d_readers b). length hist + n < pos i + unat (d_bufsize b))"

lemma room_mono: "room b hist pos n \<Longrightarrow> n' \<le> n \<Longrightarrow> room b hist pos n'"
  by (fastforce simp: room_def)

lemma room_cong: "d_bufsize b' = d_bufsize b \<Longrightarrow> d_readers b' = d_readers b \<Longrightarrow> room b' hist pos n = room b hist pos n"
  by (simp add: room_def)

lemma rounded_space:
  assumes "0 \<le> x" "x < 2 ^ 31" "1 \<le> m" "m < 2 ^ 31"
  shows "sint (round_down (word_of_int x) (word_of_int m)) = x div m * m"
proof -
  have u: "int (unat (word_of_int x :: u32)) = x" "int (unat (word_of_int m :: u32)) = m"
    using assms by (auto intro!: unat_of_int)
  have r: "int (unat (round_down (word_of_int x) (word_of_int m))) = x div m * m"
    unfolding round_down_unat by (simp only: of_nat_mult of_nat_div u)
  have "x div m * m \<le> x" using assms pos_mod_sign [of m x] unfolding minus_mod_eq_div_mult [symmetric] by linarith
  then have "int (unat (round_down (word_of_int x) (word_of_int m))) < 2 ^ 31" using r assms(2) by linarith
  then have "unat (round_down (word_of_int x) (word_of_int m)) < 2 ^ 31" by simp
  then show ?thesis using r by (simp add: sint_small)
qed

text \<open>The space is all that there is.\<close>

lemma space_exact:
  assumes ok: "buffer_ok b hist pos" and sp: "space_available s b = Inr (k, b')" and n: "room b hist pos n"
  shows "int n \<le> k"
proof (cases "d_readers b")
  case Nil
  then have "k = sint (d_bufsize b - 1)" using sp by (auto simp: space_available_def)
  then have "k = int (unat (d_bufsize b) - 1)"
    using sint_minus_1 [OF buffer_okD(3) [OF ok], of 0] buffer_okD(2) [OF ok] by simp
  then show ?thesis using n by (simp add: room_def)
next
  case (Cons e rs)
  let ?f = "\<lambda>e. int (length hist - pos (fst e))"
  have av: "items_available b (snd e') = Inr (?f e')" if "e' \<in> set (e # rs)" for e'
    using available_ok [OF ok, of "fst e'" "snd e'"] that Cons by simp
  obtain m t where m: "most_data b rs (?f e) (d_abs_read_offset (snd e)) = Inr (m, t)" "m = ?f e \<or> m \<in> ?f ` set rs"
    using most_data_ok [of rs b ?f "?f e" "d_abs_read_offset (snd e)"] av by auto
  obtain e' where e': "e' \<in> set (e # rs)" "m = ?f e'" using m(2) by fastforce
  define q where "q = length hist - pos (fst e')"
  have at: "reader_at (unat (d_bufsize b)) (length hist) (pos (fst e')) (snd e')"
    using buffer_okD(8) [OF ok, of "fst e'" "snd e'"] e'(1) Cons by simp
  then have q: "m = int q" "q < unat (d_bufsize b)" using e'(2) unfolding q_def reader_at_def by auto
  have "k = sint (d_bufsize b - word_of_int m - 1)"
    using sp av [of e] m(1) Cons by (auto simp: space_available_def gr_bind_Inr_iff)
  then have "k = int (unat (d_bufsize b) - q - 1)" using sint_minus_1 [OF buffer_okD(3) [OF ok] q(2)] q(1) by simp
  moreover have "length hist + n < pos (fst e') + unat (d_bufsize b)" using n e'(1) Cons unfolding room_def by auto
  ultimately show ?thesis using at q(2) unfolding reader_at_def q_def by linarith
qed

text \<open>The space in one output, rounded; it is zero only without room for the smallest request.\<close>

lemma one_space:
  assumes ok: "buffer_ok b hist pos" and sp: "space_available s b = Inr (sp, b')" and m: "1 \<le> m" "m < 2 ^ 31"
  defines "n \<equiv> sint (round_down (word_of_int (min sp (sint (d_bufsize b') sdiv 2))) (word_of_int m))"
  shows "retagged b b'" "0 \<le> n" "n < 2 ^ 31" "m dvd n" "room b hist pos (nat n)"
    "room b hist pos (nat m) \<Longrightarrow> 2 * m \<le> int (unat (d_bufsize b)) \<Longrightarrow> n \<noteq> 0"
proof -
  note s = space_ok [OF ok sp]
  show r: "retagged b b'" by (rule s(1))
  let ?B = "int (unat (d_bufsize b))"
  have B: "sint (d_bufsize b') = ?B" "0 < ?B" "?B < 2 ^ 31"
    using retagged_fields(2) [OF r] buffer_okD(2,3) [OF ok] by (simp_all add: sint_small)
  have half: "sint (d_bufsize b') sdiv 2 = ?B div 2" unfolding B(1) using B(2) by (simp add: signed_divide_int_def)
  let ?x = "min sp (?B div 2)"
  have x: "0 \<le> ?x" "?x < 2 ^ 31" using s(2,3) B by auto
  have n: "n = ?x div m * m" unfolding n_def half by (rule rounded_space [OF x m])
  show "0 \<le> n" "m dvd n" unfolding n using x(1) m(1) by (simp_all add: pos_imp_zdiv_nonneg_iff)
  have le: "n \<le> ?x" unfolding n using m pos_mod_sign [of m ?x] unfolding minus_mod_eq_div_mult [symmetric] by linarith
  then show "n < 2 ^ 31" using x(2) by linarith
  have "nat sp < unat (d_bufsize b)" using s(2,3) by linarith
  then have "room b hist pos (nat sp)" using s(4) unfolding room_def by blast
  moreover have "nat n \<le> nat sp" using le by (intro nat_mono) simp
  ultimately show "room b hist pos (nat n)" by (rule room_mono)
  have "n = 0 \<longleftrightarrow> ?x div m = 0" unfolding n using m by auto
  also have "\<dots> \<longleftrightarrow> ?x < m" using x(1) m(1) by (auto simp: div_pos_pos_trivial zdiv_eq_0_iff)
  finally have zero: "n = 0 \<longleftrightarrow> ?x < m" .
  show "n \<noteq> 0" if "room b hist pos (nat m)" "2 * m \<le> ?B"
  proof -
    have "m \<le> sp" using space_exact [OF ok sp that(1)] m(1) by simp
    moreover have "m \<le> ?B div 2" using that(2) by linarith
    ultimately show ?thesis using zero by simp
  qed
qed

text \<open>An output with room for the smallest request, also within the half of the buffer that is used.\<close>

definition roomy :: "int \<Rightarrow> 'a buffer \<Rightarrow> 'a list \<Rightarrow> (nat \<Rightarrow> nat) \<Rightarrow> bool" where
  "roomy om b hist pos \<longleftrightarrow> room b hist pos (nat om) \<and> 2 * om \<le> int (unat (d_bufsize b))"

lemma tagged_room:
  assumes "tagged rt rt'" "k < length (buffers rt)"
  shows "room (buffers rt' ! k) hist pos n = room (buffers rt ! k) hist pos n"
    "roomy om (buffers rt' ! k) hist pos = roomy om (buffers rt ! k) hist pos"
    "d_done (buffers rt' ! k) = d_done (buffers rt ! k)"
proof -
  have r: "retagged (buffers rt ! k) (buffers rt' ! k)" using assms by (simp add: tagged_def)
  show "room (buffers rt' ! k) hist pos n = room (buffers rt ! k) hist pos n"
    "roomy om (buffers rt' ! k) hist pos = roomy om (buffers rt ! k) hist pos"
    "d_done (buffers rt' ! k) = d_done (buffers rt ! k)"
    by (simp_all add: roomy_def room_def retagged_fields [OF r])
qed

lemma dvd_min: "(d :: int) dvd a \<Longrightarrow> d dvd b \<Longrightarrow> d dvd min a b"
  by (simp add: min_def)

lemma min_space_ok:
  assumes "1 \<le> om" "om < 2 ^ 31"
  shows "wired rt m ins outs \<Longrightarrow> streams rt H P (\<lambda>k. []) \<Longrightarrow> set ks \<subseteq> set outs \<Longrightarrow> 0 < acc \<Longrightarrow> acc < 2 ^ 31
    \<Longrightarrow> om dvd acc \<or> acc = 2 ^ 31 - 1 \<Longrightarrow>
    (\<exists>p. min_space_loop om (map Some ks) acc rt = Inl (Pmt_exception p))
    \<or> (\<exists>n rt'. min_space_loop om (map Some ks) acc rt = Inr (n, rt') \<and> tagged rt rt'
        \<and> (if n = 0 \<or> n = -1 then \<exists>k \<in> set ks. \<not> roomy om (buffers rt ! k) (H k) (P k)
           else 0 < n \<and> n \<le> acc \<and> (om dvd n \<or> n = 2 ^ 31 - 1 \<and> ks = []) \<and> (\<forall>k \<in> set ks. room (buffers rt ! k) (H k) (P k) (nat n))))"
proof (induction ks arbitrary: rt acc)
  case Nil
  then show ?case by auto
next
  case (Cons k ks)
  have k: "k < length (buffers rt)" using Cons.prems(1,3) by (auto simp: wired_def)
  note ok = streams_ok [OF Cons.prems(2) k]
  show ?case
  proof (cases "space_available (heap rt) (buffers rt ! k)")
    case (Inl e)
    then show ?thesis using space_error [OF ok Inl] by auto
  next
    case (Inr x)
    obtain sp b where x: "x = (sp, b)" by (cases x)
    let ?rt = "rt\<lparr> buffers := (buffers rt)[k := b] \<rparr>"
    let ?n = "sint (round_down (word_of_int (min sp (sint (d_bufsize b) sdiv 2))) (word_of_int om))"
    note one = one_space [OF ok Inr [unfolded x] assms]
    have t: "tagged rt ?rt" using one(1) k by (auto simp: tagged_def nth_list_update)
    have step: "min_space_loop om (map Some (k # ks)) acc rt =
        (if ?n = 0 then Inr (if d_done b then -1 else 0, ?rt) else min_space_loop om (map Some ks) (min acc ?n) ?rt)"
      using Inr x by (simp add: Let_def)
    show ?thesis
    proof (cases "?n = 0")
      case True
      then have "\<not> roomy om (buffers rt ! k) (H k) (P k)" using one(6) unfolding roomy_def by blast
      then have "\<exists>k' \<in> set (k # ks). \<not> roomy om (buffers rt ! k') (H k') (P k')" by simp
      moreover have "\<exists>n. min_space_loop om (map Some (k # ks)) acc rt = Inr (n, ?rt) \<and> (n = 0 \<or> n = -1)"
        unfolding step using True by simp
      ultimately show ?thesis using t by metis
    next
      case False
      then have pos: "0 < ?n" using one(2) by linarith
      have ks: "set ks \<subseteq> set outs" using Cons.prems(3) by simp
      have acc: "0 < min acc ?n" "min acc ?n < 2 ^ 31" "om dvd min acc ?n \<or> min acc ?n = 2 ^ 31 - 1"
        using pos Cons.prems(4,5,6) one(3,4) by (auto simp: min_def)
      have dvd: "om dvd min acc ?n"
      proof (cases "om dvd acc")
        case True
        then show ?thesis using one(4) by (rule dvd_min)
      next
        case False
        then have "?n \<le> acc" using Cons.prems(6) one(3) by linarith
        then show ?thesis using one(4) by (simp only: min_absorb2)
      qed
      note IH = Cons.IH [OF tagged_wired [OF t Cons.prems(1)] tagged_streams [OF t Cons.prems(2)] ks acc]
      have rooms: "room (buffers ?rt ! k') (H k') (P k') i = room (buffers rt ! k') (H k') (P k') i"
        "roomy om (buffers ?rt ! k') (H k') (P k') = roomy om (buffers rt ! k') (H k') (P k')" if "k' \<in> set (k # ks)" for k' i
      proof -
        have "k' < length (buffers rt)" using Cons.prems(1,3) that by (auto simp: wired_def)
        then show "room (buffers ?rt ! k') (H k') (P k') i = room (buffers rt ! k') (H k') (P k') i"
          "roomy om (buffers ?rt ! k') (H k') (P k') = roomy om (buffers rt ! k') (H k') (P k')"
          using tagged_room [OF t] by blast+
      qed
      have step': "min_space_loop om (map Some (k # ks)) acc rt = min_space_loop om (map Some ks) (min acc ?n) ?rt"
        unfolding step using False by simp
      consider p where "min_space_loop om (map Some ks) (min acc ?n) ?rt = Inl (Pmt_exception p)"
        | n rt' where "min_space_loop om (map Some ks) (min acc ?n) ?rt = Inr (n, rt')" "tagged ?rt rt'"
          "if n = 0 \<or> n = -1 then \<exists>k \<in> set ks. \<not> roomy om (buffers ?rt ! k) (H k) (P k)
           else 0 < n \<and> n \<le> min acc ?n \<and> (om dvd n \<or> n = 2 ^ 31 - 1 \<and> ks = []) \<and> (\<forall>k \<in> set ks. room (buffers ?rt ! k) (H k) (P k) (nat n))"
        using IH by blast
      then show ?thesis
      proof cases
        case 1
        then show ?thesis unfolding step' by blast
      next
        case (2 n rt')
        have "if n = 0 \<or> n = -1 then \<exists>k \<in> set (k # ks). \<not> roomy om (buffers rt ! k) (H k) (P k)
           else 0 < n \<and> n \<le> acc \<and> (om dvd n \<or> n = 2 ^ 31 - 1 \<and> k # ks = []) \<and> (\<forall>k \<in> set (k # ks). room (buffers rt ! k) (H k) (P k) (nat n))"
        proof (cases "n = 0 \<or> n = -1")
          case True
          then show ?thesis using 2(3) rooms(2) by auto
        next
          case no: False
          then have n: "0 < n" "n \<le> min acc ?n" "om dvd n \<or> n = 2 ^ 31 - 1 \<and> ks = []"
              "\<forall>k \<in> set ks. room (buffers ?rt ! k) (H k) (P k) (nat n)" using 2(3) by auto
          have "nat n \<le> nat ?n" using n(2) by (intro nat_mono) simp
          then have "room (buffers rt ! k) (H k) (P k) (nat n)" by (rule room_mono [OF one(5)])
          moreover have "n = min acc ?n" if "n = 2 ^ 31 - 1" using that n(2) acc(2) by linarith
          then have "om dvd n" using n(3) dvd by metis
          ultimately show ?thesis using no n rooms(1) by auto
        qed
        then show ?thesis using 2(1) tagged_trans [OF t 2(2)] unfolding step' by blast
      qed
    qed
  qed
qed

end
