(* ===== verification/Gr_Steps.thy ===== *)
theory Gr_Steps
  imports Gr_Streams
begin

text \<open>
  The moving parts of an iteration: reading, storing and producing on all inputs and outputs of a
  block, and the call of a synchronous block.
\<close>

declare of_nat_unat [simp del]

section \<open>Consuming\<close>

definition advance :: "(nat \<Rightarrow> nat \<Rightarrow> nat) \<Rightarrow> (nat \<times> nat) list \<Rightarrow> nat \<Rightarrow> nat \<Rightarrow> nat \<Rightarrow> nat" where
  "advance P ins n = (\<lambda>k r. if (k, r) \<in> set ins then P k r + n else P k r)"

lemma advance_0 [simp]: "advance P ins 0 = P"
  by (simp add: advance_def fun_eq_iff)

text \<open>Steps that keep the wiring, the state of blocks and the details.\<close>

definition stream_step :: "('a, 's) runtime \<Rightarrow> ('a, 's) runtime \<Rightarrow> bool" where
  "stream_step rt rt' \<longleftrightarrow> same_wiring rt rt' \<and> details rt' = details rt \<and> inner rt' = inner rt"

lemma stream_step_refl [simp]: "stream_step rt rt"
  by (simp add: stream_step_def)

lemma stream_step_trans: "stream_step rt rt' \<Longrightarrow> stream_step rt' rt'' \<Longrightarrow> stream_step rt rt''"
  using same_wiring_trans by (auto simp: stream_step_def)

lemma stream_step_wired: "stream_step rt rt' \<Longrightarrow> wired rt m ins outs \<Longrightarrow> wired rt' m ins outs"
  using same_wiring_wired by (auto simp: stream_step_def)

lemma stream_step_update:
  assumes "map fst (d_readers b) = map fst (d_readers (buffers rt ! k))" "d_bufsize b = d_bufsize (buffers rt ! k)"
  shows "stream_step rt (rt\<lparr> buffers := (buffers rt)[k := b] \<rparr>)"
proof (cases "k < length (buffers rt)")
  case True
  then show ?thesis using assms by (auto simp: stream_step_def same_wiring_def nth_list_update)
qed (simp add: list_update_beyond)

lemma streams_update:
  assumes "streams rt H P W" "pending b (H' k) (P' k) (W' k)"
    "\<And>k'. k' \<noteq> k \<Longrightarrow> H' k' = H k'" "\<And>k'. k' \<noteq> k \<Longrightarrow> P' k' = P k'" "\<And>k'. k' \<noteq> k \<Longrightarrow> W' k' = W k'"
  shows "streams (rt\<lparr> buffers := (buffers rt)[k := b] \<rparr>) H' P' W'"
  unfolding streams_def
proof (intro allI impI)
  fix j
  assume j: "j < length (buffers (rt\<lparr> buffers := (buffers rt)[k := b] \<rparr>))"
  show "pending (buffers (rt\<lparr> buffers := (buffers rt)[k := b] \<rparr>) ! j) (H' j) (P' j) (W' j)"
  proof (cases "j = k")
    case True
    then show ?thesis using assms(2) j by simp
  next
    case False
    then show ?thesis using assms(1,3-5) j by (simp add: streams_def)
  qed
qed

lemma read_from_ok:
  assumes "wired rt m ins outs" "streams rt H P W" "(k, r) \<in> set ins" "W k = []" "n \<le> length (unread H P (k, r))"
  shows "\<exists>rt'. read_from (int n) (Some (k, r)) rt = Inr rt' \<and> stream_step rt rt'
    \<and> streams rt' H (P(k := (P k)(r := P k r + n))) W"
proof -
  obtain rd where rd: "(r, rd) \<in> set (d_readers (buffers rt ! k))" "k < length (buffers rt)"
    using wired_reader [OF assms(1,3)] by metis
  have ok: "buffer_ok (buffers rt ! k) (H k) (P k)" using assms(2,4) rd(2) by (auto simp: streams_def simp flip: pending_ok)
  have n: "n \<le> length (H k) - P k r" using assms(5) by (simp add: unread_def)
  obtain b where b: "update_read_pointer r (int n) (buffers rt ! k) = Inr b" "buffer_ok b (H k) ((P k)(r := P k r + n))"
      "map fst (d_readers b) = map fst (d_readers (buffers rt ! k))" "d_bufsize b = d_bufsize (buffers rt ! k)"
    using consume_ok [OF ok rd(1) n] by blast
  let ?rt = "rt\<lparr> buffers := (buffers rt)[k := b] \<rparr>"
  have "read_from (int n) (Some (k, r)) rt = Inr ?rt" using b(1) by (simp add: read_from_def on_buffer_def)
  moreover have "stream_step rt ?rt" by (rule stream_step_update [OF b(3,4)])
  moreover have "streams ?rt H (P(k := (P k)(r := P k r + n))) W"
    by (rule streams_update [OF assms(2)]) (use b(2) assms(4) pending_ok in auto)
  ultimately show ?thesis by blast
qed

lemma consume_fold:
  assumes "set xs \<subseteq> set ins" "distinct xs" "\<And>i. i \<in> set xs \<Longrightarrow> W (fst i) = []"
    "\<And>i. i \<in> set xs \<Longrightarrow> n \<le> length (unread H P i)"
  shows "wired rt m ins outs \<Longrightarrow> streams rt H P W \<Longrightarrow> \<exists>rt'. gr_fold (read_from (int n)) (map Some xs) rt = Inr rt'
    \<and> stream_step rt rt' \<and> streams rt' H (advance P xs n) W"
  using assms
proof (induction xs arbitrary: rt P)
  case Nil
  then show ?case by (simp add: advance_def)
next
  case (Cons i xs)
  obtain k r where i: "i = (k, r)" by (cases i)
  have pre: "(k, r) \<in> set ins" "W k = []" "n \<le> length (unread H P (k, r))"
    using Cons.prems(3) Cons.prems(5) [of "(k, r)"] Cons.prems(6) [of "(k, r)"] i by simp_all
  obtain rt1 where rt1: "read_from (int n) (Some (k, r)) rt = Inr rt1" "stream_step rt rt1"
      "streams rt1 H (P(k := (P k)(r := P k r + n))) W"
    using read_from_ok [OF Cons.prems(1,2) pre] by blast
  let ?P = "P(k := (P k)(r := P k r + n))"
  have new: "n \<le> length (unread H ?P j)" if "j \<in> set xs" for j
  proof -
    have "j \<noteq> (k, r)" using Cons.prems(4) i that by auto
    then have "unread H ?P j = unread H P j" by (cases j) (auto simp: unread_def)
    then show ?thesis using Cons.prems(6) that by simp
  qed
  have dist: "distinct xs" using Cons.prems(4) by simp
  have sub: "set xs \<subseteq> set ins" and zero: "\<And>j. j \<in> set xs \<Longrightarrow> W (fst j) = []"
    using Cons.prems(3,5) by auto
  obtain rt2 where rt2: "gr_fold (read_from (int n)) (map Some xs) rt1 = Inr rt2" "stream_step rt1 rt2"
      "streams rt2 H (advance ?P xs n) W"
    using Cons.IH [OF stream_step_wired [OF rt1(2) Cons.prems(1)] rt1(3) sub dist zero new] by blast
  have "advance ?P xs n = advance P (i # xs) n"
    using Cons.prems(4) i by (auto simp: advance_def fun_eq_iff)
  then show ?case using rt1(1) rt2(1,3) stream_step_trans [OF rt1(2) rt2(2)] i by auto
qed

section \<open>Storing and producing\<close>

definition stored :: "nat list \<Rightarrow> 'a list list \<Rightarrow> nat \<Rightarrow> 'a list" where
  "stored ks ws k = (case map_of (zip ks ws) k of None \<Rightarrow> [] | Some xs \<Rightarrow> xs)"

lemma stored_Nil [simp]: "stored [] ws = (\<lambda>k. [])" "stored ks [] = (\<lambda>k. [])"
  by (auto simp: stored_def)

lemma stored_Cons: "stored (k # ks) (w # ws) = (stored ks ws)(k := w)"
  by (auto simp: stored_def fun_eq_iff)

lemma stored_notin: "k \<notin> set ks \<Longrightarrow> stored ks ws k = []"
proof -
  assume "k \<notin> set ks"
  then have "map_of (zip ks ws) k = None" by (auto simp: map_of_eq_None_iff dest: set_zip_leftD)
  then show ?thesis by (simp add: stored_def)
qed

lemma store_fold:
  assumes "length ws = length ks" "distinct ks"
  shows "wired rt m ins outs \<Longrightarrow> streams rt H P W \<Longrightarrow> set ks \<subseteq> set outs
    \<Longrightarrow> (\<And>k. k \<in> set ks \<Longrightarrow> W k = []) \<Longrightarrow> (\<And>k w. (k, w) \<in> set (zip ks ws) \<Longrightarrow> room (buffers rt ! k) (H k) (P k) (length w))
    \<Longrightarrow> \<exists>rt'. gr_fold store_output (zip ws (map Some ks)) rt = Inr rt' \<and> stream_step rt rt'
      \<and> streams rt' H P (\<lambda>k. if k \<in> set ks then stored ks ws k else W k)"
  using assms
proof (induction ws ks arbitrary: rt W rule: list_induct2)
  case Nil
  then show ?case by simp
next
  case (Cons w ws k ks)
  have k: "k < length (buffers rt)" "W k = []" using Cons.prems(1,3,4) by (auto simp: wired_def)
  have ok: "buffer_ok (buffers rt ! k) (H k) (P k)" using Cons.prems(2) k by (auto simp: streams_def simp flip: pending_ok)
  have "room (buffers rt ! k) (H k) (P k) (length w)" using Cons.prems(5) by simp
  then have p: "pending (write_items w (buffers rt ! k)) (H k) (P k) w"
    using ok by (intro pending_store) (auto simp: room_def)
  let ?rt = "rt\<lparr> buffers := (buffers rt)[k := write_items w (buffers rt ! k)] \<rparr>"
  have s: "streams ?rt H P (W(k := w))" by (rule streams_update [OF Cons.prems(2)]) (use p in auto)
  have st: "stream_step rt ?rt" by (rule stream_step_update) simp_all
  have rooms: "room (buffers ?rt ! k') (H k') (P k') (length w')" if "(k', w') \<in> set (zip ks ws)" for k' w'
    using Cons.prems(5) [of k' w'] that k(1) by (auto simp: nth_list_update room_def)
  have sub: "set ks \<subseteq> set outs" and zero: "\<And>k'. k' \<in> set ks \<Longrightarrow> (W(k := w)) k' = []"
    using Cons.prems(3,4,6) by auto
  obtain rt' where rt': "gr_fold store_output (zip ws (map Some ks)) ?rt = Inr rt'" "stream_step ?rt rt'"
      "streams rt' H P (\<lambda>k'. if k' \<in> set ks then stored ks ws k' else (W(k := w)) k')"
    using Cons.IH [OF stream_step_wired [OF st Cons.prems(1)] s sub zero rooms] Cons.prems(6) by auto
  have "(\<lambda>k'. if k' \<in> set ks then stored ks ws k' else (W(k := w)) k')
      = (\<lambda>k'. if k' \<in> set (k # ks) then stored (k # ks) (w # ws) k' else W k')"
    using Cons.prems(6) by (auto simp: stored_Cons fun_eq_iff)
  moreover have "store_output (w, Some k) rt = Inr ?rt" by (simp add: store_output_def on_buffer_def)
  ultimately show ?case using rt'(1,3) stream_step_trans [OF st rt'(2)] by auto
qed

lemma written_fold:
  "wired rt m ins outs \<Longrightarrow> streams rt H P W \<Longrightarrow> set ks \<subseteq> set outs \<Longrightarrow> distinct ks \<Longrightarrow> (\<And>k. k \<in> set ks \<Longrightarrow> length (W k) = n)
    \<Longrightarrow> \<exists>rt'. gr_fold (written_to (int n)) (map Some ks) rt = Inr rt' \<and> stream_step rt rt'
      \<and> streams rt' (\<lambda>k. if k \<in> set ks then H k @ W k else H k) P (\<lambda>k. if k \<in> set ks then [] else W k)"
proof (induction ks arbitrary: rt H W)
  case Nil
  then show ?case by simp
next
  case (Cons k ks)
  have k: "k < length (buffers rt)" "length (W k) = n" using Cons.prems(1,3,5) by (auto simp: wired_def)
  have "pending (buffers rt ! k) (H k) (P k) (W k)" using Cons.prems(2) k(1) by (simp add: streams_def)
  from pending_commit [OF this] obtain b where b: "update_write_pointer (int n) (buffers rt ! k) = Inr b"
      "buffer_ok b (H k @ W k) (P k)" "map fst (d_readers b) = map fst (d_readers (buffers rt ! k))" "d_bufsize b = d_bufsize (buffers rt ! k)"
    unfolding k(2) by blast
  let ?rt = "rt\<lparr> buffers := (buffers rt)[k := b] \<rparr>"
  let ?H = "H(k := H k @ W k)" and ?W = "W(k := [])"
  have s: "streams ?rt ?H P ?W" by (rule streams_update [OF Cons.prems(2)]) (use b(2) pending_ok in auto)
  have st: "stream_step rt ?rt" by (rule stream_step_update [OF b(3,4)])
  have "k \<notin> set ks" using Cons.prems(4) by simp
  then obtain rt' where rt': "gr_fold (written_to (int n)) (map Some ks) ?rt = Inr rt'" "stream_step ?rt rt'"
      "streams rt' (\<lambda>k. if k \<in> set ks then ?H k @ ?W k else ?H k) P (\<lambda>k. if k \<in> set ks then [] else ?W k)"
    using Cons.IH [OF stream_step_wired [OF st Cons.prems(1)] s] Cons.prems(3-5) by fastforce
  have "(\<lambda>k. if k \<in> set ks then ?H k @ ?W k else ?H k) = (\<lambda>k'. if k' \<in> set (k # ks) then H k' @ W k' else H k')"
    "(\<lambda>k. if k \<in> set ks then [] else ?W k) = (\<lambda>k'. if k' \<in> set (k # ks) then [] else W k')"
    using \<open>k \<notin> set ks\<close> by (auto simp: fun_eq_iff)
  moreover have "written_to (int n) (Some k) rt = Inr ?rt" using b(1) by (simp add: written_to_def on_buffer_def)
  ultimately show ?case using rt'(1,3) stream_step_trans [OF st rt'(2)] by auto
qed

section \<open>Done\<close>

lemma set_done_fold:
  "streams rt H P W \<Longrightarrow> \<exists>rt'. gr_fold (\<lambda>x rt. gr_bind (not_null x) (\<lambda>x. on_buffer (f x) (Inr \<circ> set_done done) rt)) (map Some xs) rt = Inr rt'
    \<and> stream_step rt rt' \<and> streams rt' H P W"
proof (induction xs arbitrary: rt)
  case (Cons x xs)
  let ?rt = "rt\<lparr> buffers := (buffers rt)[f x := set_done done (buffers rt ! f x)] \<rparr>"
  have st: "stream_step rt ?rt" by (rule stream_step_update) (simp_all add: set_done_def)
  have "streams ?rt H P W"
  proof (cases "f x < length (buffers rt)")
    case True
    then have "pending (set_done done (buffers rt ! f x)) (H (f x)) (P (f x)) (W (f x))"
      using Cons.prems pending_cong [of "buffers rt ! f x" "H (f x)" "P (f x)" "W (f x)" "set_done done (buffers rt ! f x)"]
      by (simp add: streams_def set_done_def)
    then show ?thesis by (rule streams_update [OF Cons.prems]) (rule refl)+
  next
    case False
    then show ?thesis using Cons.prems by (simp add: list_update_beyond)
  qed
  from Cons.IH [OF this] obtain rt' where
    "gr_fold (\<lambda>x rt. gr_bind (not_null x) (\<lambda>x. on_buffer (f x) (Inr \<circ> set_done done) rt)) (map Some xs) ?rt = Inr rt'"
    "stream_step ?rt rt'" "streams rt' H P W" by blast
  note rest = this
  have "stream_step rt rt'" by (rule stream_step_trans [OF st rest(2)])
  moreover have "gr_fold (\<lambda>x rt. gr_bind (not_null x) (\<lambda>x. on_buffer (f x) (Inr \<circ> set_done done) rt)) (map Some (x # xs)) rt = Inr rt'"
    using rest(1) by (simp add: on_buffer_def)
  ultimately show ?case using rest(3) by blast
qed simp

end
