(* ===== verification/Gr_Sync.thy ===== *)
theory Gr_Sync
  imports Gr_Steps
begin

text \<open>
  Synchronous blocks: an iteration applies the block's work method once, to all that the block has
  not read, and appends what it gives to the streams of all outputs.
\<close>

declare of_nat_unat [simp del]

section \<open>The contract of the work method\<close>

text \<open>
  With a number of inputs and outputs that suits the block, asked for \<open>n\<close> items and given
  as many on every input and the history before them, the method gives at most \<open>n\<close> and
  writes as many as it says to each output, or says that it is done.
\<close>

locale sync_work =
  fixes work :: "('a, 's) work" and ports :: "nat \<Rightarrow> nat \<Rightarrow> bool" and h :: int
  assumes gives: "ports (length ins) k \<Longrightarrow> 0 < n \<Longrightarrow> n < 2 ^ 31 \<Longrightarrow> \<forall>xs \<in> set ins. n + h - 1 \<le> int (length xs) \<Longrightarrow> work n ins k s = (r, ws, s')
    \<Longrightarrow> -1 \<le> r \<and> r \<le> n \<and> length ws = k \<and> (\<forall>w \<in> set ws. length w = nat r)"

text \<open>What the call of the method makes of the streams.\<close>

definition worked ::
  "('a, 's) work \<Rightarrow> ('a, 's) runtime \<Rightarrow> (nat \<Rightarrow> 'a list) \<Rightarrow> (nat \<Rightarrow> nat \<Rightarrow> nat) \<Rightarrow> (nat \<times> nat) list \<Rightarrow> nat list
    \<Rightarrow> int \<Rightarrow> exec_state \<Rightarrow> ('a, 's) runtime \<Rightarrow> bool" where
  "worked work rt H P ins outs n st rt' \<longleftrightarrow>
     (case work n (map (unread H P) ins) (length outs) (inner rt) of (r, ws, s') \<Rightarrow>
        inner rt' = s' \<and> streams rt' (\<lambda>k. H k @ stored outs ws k) (advance P ins (nat r)) (\<lambda>k. [])
        \<and> st = (if r = -1 then DONE else if 0 < r then READY else if ins = [] then DONE else READY_NO_OUTPUT))"

definition synchronous :: "('a, 's) gr_block \<Rightarrow> ('a, 's) work \<Rightarrow> int \<Rightarrow> bool" where
  "synchronous blk work h \<longleftrightarrow>
     (\<exists>i o' om. blk = (gr_sync_block i o' work)\<lparr> d_output_multiple := om, d_history := word_of_int h \<rparr> \<and> 1 \<le> om \<and> om < 2 ^ 31)
     \<and> 1 \<le> h \<and> h < 2 ^ 31"

section \<open>Steps of the call\<close>

lemma streams_buffers: "buffers rt' = buffers rt \<Longrightarrow> streams rt' H P W = streams rt H P W"
  by (simp add: streams_def)

lemma set_detail_same:
  assumes "details rt m = Some d" "d_input d' = d_input d" "d_output d' = d_output d"
  shows "same_wiring rt (set_detail m d' rt)"
  using assms by (auto simp: same_wiring_def set_detail_def)

lemma set_detail_fields [simp]:
  "buffers (set_detail m d rt) = buffers rt" "inner (set_detail m d rt) = inner rt" "heap (set_detail m d rt) = heap rt"
  "details (set_detail m d rt) m = Some d"
  by (simp_all add: set_detail_def)

lemma readable_all:
  assumes "wired rt m ins outs" "streams rt H P (\<lambda>k. [])" "set xs \<subseteq> set ins"
  shows "map (readable rt) (zip (map fst (input_states rt' H P xs)) (map Some xs)) = map (unread H P) xs"
  using assms(3)
proof (induction xs)
  case (Cons i xs)
  obtain k r where i: "i = (k, r)" by (cases i)
  then have "(k, r) \<in> set ins" using Cons.prems by simp
  then obtain rd where rd: "reader_of rt (k, r) = Inr rd" "(r, rd) \<in> set (d_readers (buffers rt ! k))" "k < length (buffers rt)"
    using wired_reader [OF assms(1)] by metis
  have m: "map_of (d_readers (buffers rt ! k)) r = Some rd"
    using rd(1) by (cases "map_of (d_readers (buffers rt ! k)) r") (auto simp: reader_of_def)
  have "read_items (buffers rt ! k) rd (length (unread H P i)) = unread H P i"
    using read_what [OF streams_ok [OF assms(2) rd(3)] rd(2), of "length (unread H P i)"] by (simp add: unread_def i)
  then have "readable rt (int (length (unread H P i)), Some i) = unread H P i"
    using m by (simp add: readable_def i)
  then show ?case using Cons by (simp add: input_states_def)
qed (simp add: input_states_def)

lemma starting_ok:
  assumes "wired rt m ins outs" "d_input d = map Some ins"
  shows "\<exists>xs. starting_offsets d m rt = Inr xs"
proof -
  have "set is \<subseteq> {..<length ins} \<Longrightarrow> \<exists>ys. gr_fold (\<lambda>i xs. map_sum id (\<lambda>x. xs @ [x]) (nitems_read m i rt)) is xs = Inr ys" for "is" xs
  proof (induction "is" arbitrary: xs)
    case (Cons i "is")
    obtain x where "nitems_read m i rt = Inr x" using nitems_read_ok [OF assms(1), of i] Cons.prems by auto
    then show ?case using Cons.IH [of "xs @ [x]"] Cons.prems by simp
  qed simp
  then show ?thesis using assms(2) by (simp add: starting_offsets_def lessThan_atLeast0)
qed

lemma were_done_ok:
  assumes "wired rt m ins outs" "streams rt H P W"
  shows "\<exists>rt'. were_done m rt = Inr (DONE, rt') \<and> same_wiring rt rt' \<and> streams rt' H P W \<and> inner rt' = inner rt
    \<and> (\<exists>d. details rt' m = Some d \<and> d_finished d)"
proof -
  obtain d where d: "detail m rt = Inr d" "details rt m = Some d" "d_input d = map Some ins" "d_output d = map Some outs"
    using wired_detail [OF assms(1)] by metis
  let ?d = "d\<lparr> d_finished := True \<rparr>"
  let ?rt = "set_detail m ?d rt"
  have s: "streams ?rt H P W" using assms(2) streams_buffers [of ?rt rt] by simp
  have w: "same_wiring rt ?rt" by (rule set_detail_same [OF d(2)]) simp_all
  obtain rt1 where rt1: "gr_fold (\<lambda>k rt. gr_bind (not_null k) (\<lambda>k. on_buffer k (Inr \<circ> set_done True) rt)) (map Some outs) ?rt = Inr rt1"
      "stream_step ?rt rt1" "streams rt1 H P W"
    using set_done_fold [OF s, of "\<lambda>k. k" True outs] by blast
  obtain rt2 where rt2: "gr_fold (\<lambda>i rt. gr_bind (not_null i) (\<lambda>i. on_buffer (fst i) (Inr \<circ> set_done True) rt)) (map Some ins) rt1 = Inr rt2"
      "stream_step rt1 rt2" "streams rt2 H P W"
    using set_done_fold [OF rt1(3), of fst True ins] by blast
  have st: "stream_step ?rt rt2" by (rule stream_step_trans [OF rt1(2) rt2(2)])
  have "were_done m rt = Inr (DONE, rt2)"
    using d rt1(1) rt2(1) by (simp add: were_done_def block_set_done_def)
  moreover have "same_wiring rt rt2" using same_wiring_trans [OF w] st by (simp add: stream_step_def)
  moreover have "inner rt2 = inner rt" "details rt2 m = Some ?d" using st by (simp_all add: stream_step_def)
  ultimately show ?thesis using rt2(3) by auto
qed

lemma produce_ok:
  assumes w: "wired rt m ins outs" and d: "details rt m = Some d" "d_produce_or d = 0" and s: "streams rt H P W" and n: "n < 2 ^ 31"
    and W: "\<And>k. k \<in> set outs \<Longrightarrow> length (W k) = nat n" "\<And>k. k \<notin> set outs \<Longrightarrow> W k = []"
  shows "\<exists>rt' d'. produce_each m n rt = Inr rt' \<and> same_wiring rt rt' \<and> streams rt' (\<lambda>k. H k @ W k) P (\<lambda>k. [])
    \<and> inner rt' = inner rt \<and> detail m rt' = Inr d' \<and> d_input d' = d_input d \<and> (0 <s d_produce_or d' \<longleftrightarrow> 0 < n)"
proof (cases "0 < n")
  case True
  have det: "detail m rt = Inr d" "d_input d = map Some ins" "d_output d = map Some outs"
    using w d by (auto simp: wired_def detail_def)
  have dist: "distinct outs" using w by (simp add: wired_def)
  obtain rt1 where rt1: "gr_fold (written_to (int (nat n))) (map Some outs) rt = Inr rt1" "stream_step rt rt1"
      "streams rt1 (\<lambda>k. if k \<in> set outs then H k @ W k else H k) P (\<lambda>k. if k \<in> set outs then [] else W k)"
    using written_fold [OF w s subset_refl dist W(1)] by blast
  have "(\<lambda>k. if k \<in> set outs then H k @ W k else H k) = (\<lambda>k. H k @ W k)" "(\<lambda>k. if k \<in> set outs then [] else W k) = (\<lambda>k. [])"
    using W(2) by (auto simp: fun_eq_iff)
  then have s1: "streams rt1 (\<lambda>k. H k @ W k) P (\<lambda>k. [])" using rt1(3) by simp
  let ?d = "d\<lparr> d_produce_or := word_of_int n \<rparr>"
  let ?rt = "set_detail m ?d rt1"
  have d1: "details rt1 m = Some d" "inner rt1 = inner rt" using rt1(2) d by (simp_all add: stream_step_def)
  have "produced m n rt1 = Inr ?rt" using d1(1) d(2) by (simp add: produced_def detail_def)
  then have p: "produce_each m n rt = Inr ?rt" using True det rt1(1) by (simp add: produce_each_def)
  have "same_wiring rt1 ?rt" by (rule set_detail_same [OF d1(1)]) simp_all
  then have w': "same_wiring rt ?rt" using same_wiring_trans rt1(2) unfolding stream_step_def by blast
  have "unat (word_of_int n :: u32) = nat n" using True n by (intro unat_word_of_int) auto
  then have "sint (word_of_int n :: u32) = n" using True n by (subst sint_small) auto
  then have "0 <s d_produce_or ?d \<longleftrightarrow> 0 < n" by (simp add: word_sless_alt)
  then show ?thesis
    using p w' s1 d1(2) streams_buffers [of ?rt rt1] by (intro exI [of _ ?rt] exI [of _ ?d]) (simp add: detail_def)
next
  case False
  have det: "detail m rt = Inr d" using d(1) by (simp add: detail_def)
  have "W k = []" for k using W [of k] False by (cases "k \<in> set outs") auto
  then have "W = (\<lambda>k. [])" by (simp add: fun_eq_iff)
  then show ?thesis using False det d s by (intro exI [of _ rt] exI [of _ d]) (simp add: produce_each_def word_sless_alt)
qed

section \<open>The call\<close>

lemma stored_empty: "\<lbrakk>\<And>w. w \<in> set ws \<Longrightarrow> w = []\<rbrakk> \<Longrightarrow> stored ks ws k = []"
  by (auto simp: stored_def split: option.splits dest!: map_of_SomeD set_zip_rightD)

lemma stored_length:
  assumes "length ws = length ks" "\<And>w. w \<in> set ws \<Longrightarrow> length w = n" "k \<in> set ks"
  shows "length (stored ks ws k) = n"
proof -
  have "map_of (zip ks ws) k \<noteq> None" using assms(1,3) by (simp add: map_of_zip_is_None)
  then obtain w where w: "map_of (zip ks ws) k = Some w" by blast
  then have "w \<in> set ws" by (auto dest!: map_of_SomeD set_zip_rightD)
  then show ?thesis using w assms(2) by (simp add: stored_def)
qed

context sync_work
begin

lemma general_ok:
  assumes ports: "ports (length ins) (length outs)" and w: "wired rt m ins outs" and s: "streams rt H P (\<lambda>k. [])" and n: "0 < n" "1 \<le> h" "n < 2 ^ 31"
    and have_in: "\<And>i. i \<in> set ins \<Longrightarrow> n + h - 1 \<le> int (length (unread H P i))"
    and rooms: "\<And>k. k \<in> set outs \<Longrightarrow> room (buffers rt ! k) (H k) (P k) (nat n)"
    and work: "work n (map (unread H P) ins) (length outs) (inner rt) = (r, ws, s')"
  shows "\<exists>rt'. sync_general_work work sync_items_in n (map fst (input_states rt0 H P ins)) m rt = Inr (r, rt')
    \<and> same_wiring rt rt' \<and> details rt' = details rt \<and> inner rt' = s'
    \<and> streams rt' H (advance P ins (nat r)) (\<lambda>k. if k \<in> set outs then stored outs ws k else [])"
proof -
  obtain d where d: "detail m rt = Inr d" "details rt m = Some d" "d_input d = map Some ins" "d_output d = map Some outs"
    using wired_detail [OF w] by metis
  have r: "-1 \<le> r" "r \<le> n" "length ws = length outs" "\<And>x. x \<in> set ws \<Longrightarrow> length x = nat r"
    using gives [of "map (unread H P) ins", OF _ n(1,3) _ work] ports have_in by auto
  let ?rt = "rt\<lparr> inner := s' \<rparr>"
  have w1: "wired ?rt m ins outs" using w by (simp add: wired_def)
  have s1: "streams ?rt H P (\<lambda>k. [])" using s streams_buffers [of ?rt rt] by simp
  have dist: "distinct outs" "distinct ins" using w by (simp_all add: wired_def)
  have rooms': "room (buffers ?rt ! k) (H k) (P k) (length x)" if "(k, x) \<in> set (zip outs ws)" for k x
  proof -
    have "k \<in> set outs" "length x = nat r" using that r(4) by (auto dest: set_zip_leftD set_zip_rightD)
    then show ?thesis using room_mono [OF rooms, of k "length x"] r(2) by auto
  qed
  obtain rt1 where rt1: "gr_fold store_output (zip ws (map Some outs)) ?rt = Inr rt1" "stream_step ?rt rt1"
      "streams rt1 H P (\<lambda>k. if k \<in> set outs then stored outs ws k else [])"
    using store_fold [OF r(3) dist(1) w1 s1 subset_refl _ rooms'] by auto
  let ?W = "\<lambda>k. if k \<in> set outs then stored outs ws k else []"
  have w2: "wired rt1 m ins outs" by (rule stream_step_wired [OF rt1(2) w1])
  have d1: "details rt1 = details rt" "inner rt1 = s'" using rt1(2) by (simp_all add: stream_step_def)
  have "\<exists>rt2. (if r > 0 then consume_each m (sync_items_in r) rt1 else Inr rt1) = Inr rt2 \<and> stream_step rt1 rt2
      \<and> streams rt2 H (advance P ins (nat r)) ?W"
  proof (cases "0 < r")
    case True
    have e: "?W (fst i) = []" "nat r \<le> length (unread H P i)" if "i \<in> set ins" for i
    proof -
      have "fst i \<notin> set outs" using w that unfolding wired_def by blast
      then show "?W (fst i) = []" by simp
      show "nat r \<le> length (unread H P i)" using have_in [OF that] r(2) n(2) by linarith
    qed
    obtain rt2 where rt2: "gr_fold (read_from (int (nat r))) (map Some ins) rt1 = Inr rt2" "stream_step rt1 rt2"
        "streams rt2 H (advance P ins (nat r)) ?W"
      using consume_fold [OF subset_refl dist(2) e w2 rt1(3)] by blast
    have "detail m rt1 = Inr d" using d(2) d1(1) by (simp add: detail_def)
    then have "consume_each m (sync_items_in r) rt1 = Inr rt2" using rt2(1) True d(3) by (simp add: consume_each_def sync_items_in_def)
    then show ?thesis using True rt2(2,3) by auto
  next
    case False
    then show ?thesis using rt1(3) by auto
  qed
  then obtain rt2 where rt2: "(if r > 0 then consume_each m (sync_items_in r) rt1 else Inr rt1) = Inr rt2" "stream_step rt1 rt2"
      "streams rt2 H (advance P ins (nat r)) ?W" by blast
  have all: "map (readable rt) (zip (map fst (input_states rt0 H P ins)) (map Some ins)) = map (unread H P) ins"
    by (rule readable_all [OF w s subset_refl])
  have "sync_general_work work sync_items_in n (map fst (input_states rt0 H P ins)) m rt = Inr (r, rt2)"
    using d rt1(1) rt2(1) unfolding sync_general_work_def by (simp add: all work)
  moreover have "same_wiring rt rt1" using rt1(2) by (auto simp: stream_step_def same_wiring_def)
  then have "same_wiring rt rt2" using same_wiring_trans rt2(2) unfolding stream_step_def by blast
  moreover have "details rt2 = details rt" "inner rt2 = s'" using rt2(2) d1 by (simp_all add: stream_step_def)
  ultimately show ?thesis using rt2(3) by blast
qed

lemma call_ok:
  assumes ports: "ports (length ins) (length outs)" and w: "wired rt m ins outs" and s: "streams rt H P (\<lambda>k. [])" and n: "0 < n" "n < 2 ^ 31" "1 \<le> h"
    and have_in: "\<And>i. i \<in> set ins \<Longrightarrow> n + h - 1 \<le> int (length (unread H P i))"
    and rooms: "\<And>k. k \<in> set outs \<Longrightarrow> room (buffers rt ! k) (H k) (P k) (nat n)"
    and blk: "general_work blk = sync_general_work work sync_items_in" "d_tag_propagation_policy blk = TPP_ALL_TO_ALL"
  shows "(\<exists>p. call_work blk m n (map fst (input_states rt0 H P ins)) rt = Inl (Pmt_exception p))
    \<or> (\<exists>st rt'. call_work blk m n (map fst (input_states rt0 H P ins)) rt = Inr (st, rt')
         \<and> same_wiring rt rt' \<and> worked work rt H P ins outs n st rt')"
proof -
  obtain d where d: "detail m rt = Inr d" "details rt m = Some d" "d_input d = map Some ins" "d_output d = map Some outs"
    using wired_detail [OF w] by metis
  let ?d = "d\<lparr> d_produce_or := 0 \<rparr>" and ?W = "\<lambda>k. if k \<in> set outs then stored outs ws k else []"
  let ?rt = "set_detail m ?d rt"
  have sw: "same_wiring rt ?rt" by (rule set_detail_same [OF d(2)]) simp_all
  have w1: "wired ?rt m ins outs" by (rule same_wiring_wired [OF sw w])
  have s1: "streams ?rt H P (\<lambda>k. [])" using s streams_buffers [of ?rt rt] by simp
  obtain xs where xs: "starting_offsets d m ?rt = Inr xs" using starting_ok [OF w1 d(3)] by blast
  obtain r ws s' where work: "work n (map (unread H P) ins) (length outs) (inner rt) = (r, ws, s')"
    by (cases "work n (map (unread H P) ins) (length outs) (inner rt)")
  have r: "-1 \<le> r" "r \<le> n" "length ws = length outs" "\<And>x. x \<in> set ws \<Longrightarrow> length x = nat r"
    using gives [of "map (unread H P) ins", OF _ n(1,2) _ work] ports have_in by auto
  have rooms': "room (buffers ?rt ! k) (H k) (P k) (nat n)" if "k \<in> set outs" for k using rooms [OF that] by simp
  have work': "work n (map (unread H P) ins) (length outs) (inner ?rt) = (r, ws, s')" using work by simp
  obtain rt1 where rt1: "sync_general_work work sync_items_in n (map fst (input_states rt0 H P ins)) m ?rt = Inr (r, rt1)"
      "same_wiring ?rt rt1" "details rt1 = details ?rt" "inner rt1 = s'"
      "streams rt1 H (advance P ins (nat r)) (\<lambda>k. if k \<in> set outs then stored outs ws k else [])"
    using general_ok [OF ports w1 s1 n(1,3,2) have_in rooms' work'] by blast
  have w2: "wired rt1 m ins outs" by (rule same_wiring_wired [OF rt1(2) w1])
  have expand: "call_work blk m n (map fst (input_states rt0 H P ins)) rt
      = gr_bind (propagate_tags blk m xs rt1) (\<lambda>(ok, rt).
          if \<not> ok then were_done m rt
          else if r = WORK_DONE then were_done m rt
          else gr_bind (if r \<noteq> WORK_CALLED_PRODUCE then produce_each m r rt else Inr rt) (\<lambda>rt.
            gr_bind (detail m rt) (\<lambda>d.
              if 0 <s d_produce_or d then Inr (READY, rt)
              else if d_input d = [] then were_done m rt
              else Inr (READY_NO_OUTPUT, rt))))"
    using d(1) xs rt1(1) blk(1) by (simp add: call_work_def Let_def)
  consider p where "propagate_tags blk m xs rt1 = Inl (Pmt_exception p)"
    | rt2 where "propagate_tags blk m xs rt1 = Inr (True, rt2)" "tagged rt1 rt2"
    using propagate_tags_only [OF w2, of blk xs] blk(2) by auto
  then show ?thesis
  proof cases
    case 1
    then show ?thesis by (simp add: expand)
  next
    case (2 rt2)
    have w3: "wired rt2 m ins outs" by (rule tagged_wired [OF 2(2) w2])
    have s3: "streams rt2 H (advance P ins (nat r)) (\<lambda>k. if k \<in> set outs then stored outs ws k else [])"
      by (rule tagged_streams [OF 2(2) rt1(5)])
    have d3: "details rt2 m = Some ?d" "inner rt2 = s'" using 2(2) rt1(3,4) by (simp_all add: tagged_def)
    have sw3: "same_wiring rt rt2" using same_wiring_trans [OF sw same_wiring_trans [OF rt1(2) tagged_same [OF 2(2)]]] .
    have both: "(\<lambda>k. H k @ (if k \<in> set outs then stored outs ws k else [])) = (\<lambda>k. H k @ stored outs ws k)"
      by (simp add: fun_eq_iff stored_notin)
    show ?thesis
    proof (cases "r = -1")
      case True
      obtain rt' where rt': "were_done m rt2 = Inr (DONE, rt')" "same_wiring rt2 rt'" "inner rt' = inner rt2"
          "streams rt' H (advance P ins (nat r)) (\<lambda>k. if k \<in> set outs then stored outs ws k else [])"
        using were_done_ok [OF w3 s3] by blast
      have "x = []" if "x \<in> set ws" for x using r(4) [OF that] True by simp
      then have z: "stored outs ws k = []" for k by (rule stored_empty)
      then have W0: "(\<lambda>k. if k \<in> set outs then stored outs ws k else []) = (\<lambda>k. [])" by (simp add: fun_eq_iff)
      have "call_work blk m n (map fst (input_states rt0 H P ins)) rt = Inr (DONE, rt')"
        using 2(1) rt'(1) True by (simp add: expand WORK_DONE_def)
      moreover have "worked work rt H P ins outs n DONE rt'"
        using work True d3(2) rt'(3) rt'(4) [unfolded W0] unfolding worked_def by (simp add: z)
      ultimately show ?thesis using same_wiring_trans [OF sw3 rt'(2)] by blast
    next
      case False
      have rs: "r \<noteq> WORK_DONE" "r \<noteq> WORK_CALLED_PRODUCE" using False r(1) by (simp_all add: WORK_DONE_def WORK_CALLED_PRODUCE_def)
      have lens: "length (if k \<in> set outs then stored outs ws k else []) = nat r" if "k \<in> set outs" for k
        using stored_length [OF r(3) r(4) that] that by simp
      have r31: "r < 2 ^ 31" using r(2) n(2) by linarith
      obtain rt4 d4 where rt4: "produce_each m r rt2 = Inr rt4" "same_wiring rt2 rt4" "inner rt4 = inner rt2"
          "streams rt4 (\<lambda>k. H k @ (if k \<in> set outs then stored outs ws k else [])) (advance P ins (nat r)) (\<lambda>k. [])"
          "detail m rt4 = Inr d4" "d_input d4 = map Some ins" "0 <s d_produce_or d4 \<longleftrightarrow> 0 < r"
        using produce_ok [OF w3 d3(1) _ s3 r31 lens] d(3) by auto
      have s4: "streams rt4 (\<lambda>k. H k @ stored outs ws k) (advance P ins (nat r)) (\<lambda>k. [])"
        using rt4(4) unfolding both .
      have w4: "wired rt4 m ins outs" by (rule same_wiring_wired [OF rt4(2) w3])
      have sw4: "same_wiring rt rt4" by (rule same_wiring_trans [OF sw3 rt4(2)])
      have c: "call_work blk m n (map fst (input_states rt0 H P ins)) rt
          = (if 0 < r then Inr (READY, rt4) else if ins = [] then were_done m rt4 else Inr (READY_NO_OUTPUT, rt4))"
        using 2(1) rs rt4(1,5,6,7) by (simp add: expand)
      show ?thesis
      proof (cases "0 < r \<or> ins \<noteq> []")
        case True
        then show ?thesis using c work sw4 False s4 rt4(3) d3(2) unfolding worked_def by auto
      next
        case no: False
        obtain rt' where rt': "were_done m rt4 = Inr (DONE, rt')" "same_wiring rt4 rt'" "inner rt' = inner rt4"
            "streams rt' (\<lambda>k. H k @ stored outs ws k) (advance P ins (nat r)) (\<lambda>k. [])"
          using were_done_ok [OF w4 s4] by blast
        have "worked work rt H P ins outs n DONE rt'"
          using work no d3(2) rt4(3) rt'(3,4) unfolding worked_def by simp
        then show ?thesis using c no rt'(1) same_wiring_trans [OF sw4 rt'(2)] by auto
      qed
    qed
  qed
qed

end

section \<open>The search, for a synchronous block\<close>

lemma synchronousD:
  assumes "synchronous blk work h"
  shows "1 \<le> d_output_multiple blk" "d_output_multiple blk < 2 ^ 31" "d_history blk = word_of_int h"
    "forecast blk = (\<lambda>history n k. replicate k (sync_noutput_to_ninput history n))"
    "fixed_rate_ninput_to_noutput blk = (\<lambda>history n. Inr (sync_ninput_to_noutput history n))"
    "general_work blk = sync_general_work work sync_items_in" "d_tag_propagation_policy blk = TPP_ALL_TO_ALL"
    "scale_items blk = (\<lambda>n. n)" "1 \<le> h" "h < 2 ^ 31"
  using assms by (auto simp: synchronous_def gr_sync_block_def make_block_def)

lemma find_short_None: "find_short (replicate (length xs) n) xs = None \<longleftrightarrow> (\<forall>x \<in> set xs. n \<le> fst x)"
  by (induction xs) auto

lemma find_short_Some: "find_short (replicate (length xs) n) xs = Some i \<Longrightarrow> i < length xs \<and> fst (xs ! i) < n"
  by (induction xs arbitrary: i) (auto split: if_splits)

lemma sync_needs:
  assumes "0 < n" "1 \<le> h" "n + h \<le> 2 ^ 31"
  shows "sync_noutput_to_ninput (word_of_int h) n = n + h - 1"
proof -
  have "unat (word_of_int (n + h - 1) :: u32) = nat (n + h - 1)" using assms by (intro unat_word_of_int) auto
  moreover have "word_of_int n + word_of_int h - 1 = (word_of_int (n + h - 1) :: u32)" by simp
  ultimately have u: "unat (word_of_int n + word_of_int h - 1 :: u32) = nat (n + h - 1)" by (simp only:)
  moreover have "nat (n + h - 1) < 2 ^ 31" using assms by (simp add: nat_less_iff)
  ultimately have "unat (word_of_int n + word_of_int h - 1 :: u32) < 2 ^ 31" by (simp only:)
  then show ?thesis using u assms(1,2) unfolding sync_noutput_to_ninput_def by (simp add: sint_small)
qed

text \<open>What an iteration may come to: the method was called once, or some input or output is short.\<close>

definition stepped ::
  "('a, 's) work \<Rightarrow> int \<Rightarrow> int \<Rightarrow> ('a, 's) runtime \<Rightarrow> (nat \<Rightarrow> 'a list) \<Rightarrow> (nat \<Rightarrow> nat \<Rightarrow> nat) \<Rightarrow> (nat \<times> nat) list \<Rightarrow> nat list
    \<Rightarrow> exec_state \<Rightarrow> ('a, 's) runtime \<Rightarrow> bool" where
  "stepped work om h rt H P ins outs st rt' \<longleftrightarrow> same_wiring rt rt' \<and>
     ((\<exists>n. om dvd n \<and> 0 < n \<and> (\<forall>i \<in> set ins. n + h - 1 \<le> int (length (unread H P i)))
         \<and> (\<forall>k \<in> set outs. room (buffers rt ! k) (H k) (P k) (nat n)) \<and> worked work rt H P ins outs n st rt')
      \<or> st \<in> {BLKD_IN, BLKD_OUT, DONE} \<and> inner rt' = inner rt \<and> streams rt' H P (\<lambda>k. [])
         \<and> ((\<exists>i \<in> set ins. int (length (unread H P i)) < om + h - 1) \<or> (\<exists>k \<in> set outs. \<not> roomy om (buffers rt ! k) (H k) (P k))))"

definition stepped_or_tag ::
  "('a, 's) work \<Rightarrow> int \<Rightarrow> int \<Rightarrow> ('a, 's) runtime \<Rightarrow> (nat \<Rightarrow> 'a list) \<Rightarrow> (nat \<Rightarrow> nat \<Rightarrow> nat) \<Rightarrow> (nat \<times> nat) list \<Rightarrow> nat list
    \<Rightarrow> (exec_state \<times> ('a, 's) runtime) gr \<Rightarrow> bool" where
  "stepped_or_tag work om h rt H P ins outs res \<longleftrightarrow>
     (\<exists>p. res = Inl (Pmt_exception p)) \<or> (\<exists>st rt'. res = Inr (st, rt') \<and> stepped work om h rt H P ins outs st rt')"

lemma short_stepped:
  assumes "wired rt m ins outs" "streams rt H P (\<lambda>k. [])"
    "(\<exists>i \<in> set ins. int (length (unread H P i)) < om + h - 1) \<or> (\<exists>k \<in> set outs. \<not> roomy om (buffers rt ! k) (H k) (P k))"
  shows "stepped work om h rt H P ins outs BLKD_IN rt" "stepped work om h rt H P ins outs BLKD_OUT rt"
    "stepped_or_tag work om h rt H P ins outs (were_done m rt)"
proof -
  show "stepped work om h rt H P ins outs BLKD_IN rt" "stepped work om h rt H P ins outs BLKD_OUT rt"
    using assms(2,3) by (simp_all add: stepped_def)
  obtain rt' where "were_done m rt = Inr (DONE, rt')" "same_wiring rt rt'" "streams rt' H P (\<lambda>k. [])" "inner rt' = inner rt"
    using were_done_ok [OF assms(1,2)] by blast
  then show "stepped_or_tag work om h rt H P ins outs (were_done m rt)" using assms(3) by (auto simp: stepped_or_tag_def stepped_def)
qed

context sync_work
begin

lemma run_work_ok:
  assumes ports: "ports (length ins) (length outs)" and w: "wired rt m ins outs" and s: "streams rt H P (\<lambda>k. [])" and blk: "synchronous blk work h"
    and n: "d_output_multiple blk dvd n" "0 < n" "n < 2 ^ 31" "n + h \<le> 2 ^ 31"
    and rooms: "\<And>k. k \<in> set outs \<Longrightarrow> room (buffers rt ! k) (H k) (P k) (nat n)"
  shows "\<exists>res. run_work blk m (input_states rt0 H P ins) n rt = Some res
    \<and> stepped_or_tag work (d_output_multiple blk) h rt H P ins outs res"
proof -
  let ?avail = "input_states rt0 H P ins" and ?om = "d_output_multiple blk"
  note b = synchronousD [OF blk]
  have len: "length ?avail = length ins" by (simp add: input_states_def)
  have fixed: "\<exists>y. fixed_rate_ninput_to_noutput blk (d_history blk) k = Inr y" for k using b(5) by simp
  obtain n' where n': "try_again blk ?avail n
        = Some (Inr (n', forecast blk (d_history blk) n' (length ?avail), find_short (forecast blk (d_history blk) n' (length ?avail)) ?avail))"
      "?om dvd n'" "?om \<le> n'" "n' \<le> n"
      "find_short (forecast blk (d_history blk) n' (length ?avail)) ?avail \<noteq> None \<longrightarrow> n' = ?om"
    using try_again_ok [OF b(1) n(1-3) fixed, of ?avail] by blast
  have pos: "0 < n'" "n' < 2 ^ 31" "n' + h \<le> 2 ^ 31" using n'(3,4) b(1) n(3,4) by linarith+
  have f: "forecast blk (d_history blk) n' (length ?avail) = replicate (length ?avail) (n' + h - 1)"
    unfolding b(3,4) sync_needs [OF pos(1) b(9) pos(3)] ..
  note try_again = n'(1) [unfolded f]
  show ?thesis
  proof (cases "find_short (replicate (length ?avail) (n' + h - 1)) ?avail")
    case None
    then have enough: "n' + h - 1 \<le> int (length (unread H P i))" if "i \<in> set ins" for i
      using that unfolding find_short_None by (auto simp: input_states_def)
    have rooms': "room (buffers rt ! k) (H k) (P k) (nat n')" if "k \<in> set outs" for k
      using room_mono [OF rooms [OF that]] n'(4) by (simp add: nat_mono)
    have "run_work blk m ?avail n rt = Some (call_work blk m n' (map fst ?avail) rt)"
      unfolding run_work_def try_again None by simp
    moreover have "stepped_or_tag work ?om h rt H P ins outs (call_work blk m n' (map fst ?avail) rt)"
      using call_ok [OF ports w s pos(1,2) b(9) enough rooms' b(6,7), of rt0] n'(2) pos(1) enough rooms'
      unfolding stepped_or_tag_def stepped_def by blast
    ultimately show ?thesis by blast
  next
    case (Some i)
    then have i: "i < length ins" "fst (?avail ! i) < n' + h - 1" using find_short_Some [OF Some] len by auto
    have "n' = ?om" using n'(5) f Some by simp
    then have short: "(\<exists>i \<in> set ins. int (length (unread H P i)) < ?om + h - 1) \<or> (\<exists>k \<in> set outs. \<not> roomy ?om (buffers rt ! k) (H k) (P k))"
      using i nth_mem [OF i(1)] by (auto simp: input_states_def)
    note short' = short_stepped [OF w s short]
    obtain d where d: "detail m rt = Inr d" "d_input d = map Some ins" using wired_detail [OF w] by metis
    have "run_work blk m ?avail n rt = Some (
        if snd (?avail ! i) then were_done m rt
        else if replicate (length ?avail) (n' + h - 1) ! i > max_possible_items_available (buffers rt ! fst (ins ! i)) then were_done m rt
        else Inr (BLKD_IN, rt))"
      unfolding run_work_def try_again Some using d i(1) by (simp add: input_at_def)
    then show ?thesis using short' by (auto simp: stepped_or_tag_def)
  qed
qed

end

section \<open>An iteration\<close>

lemma stepped_tagged:
  assumes t: "tagged rt rt1" and w: "wired rt m ins outs" and st: "stepped work om h rt1 H P ins outs st rt'"
  shows "stepped work om h rt H P ins outs st rt'"
proof -
  have k: "k < length (buffers rt)" if "k \<in> set outs" for k using w that by (simp add: wired_def)
  have rooms: "room (buffers rt1 ! k) (H k) (P k) n = room (buffers rt ! k) (H k) (P k) n"
    "roomy om (buffers rt1 ! k) (H k) (P k) = roomy om (buffers rt ! k) (H k) (P k)" if "k \<in> set outs" for k n
    using tagged_room [OF t k [OF that]] by blast+
  have i: "inner rt1 = inner rt" using t by (simp add: tagged_def)
  have sw: "same_wiring rt rt'" using same_wiring_trans [OF tagged_same [OF t]] st by (simp add: stepped_def)
  show ?thesis using st sw unfolding stepped_def worked_def i by (auto simp: rooms)
qed

lemma stepped_or_tag_tagged:
  "tagged rt rt1 \<Longrightarrow> wired rt m ins outs \<Longrightarrow> stepped_or_tag work om h rt1 H P ins outs res \<Longrightarrow> stepped_or_tag work om h rt H P ins outs res"
  unfolding stepped_or_tag_def by (blast intro: stepped_tagged)

lemma max_items_states:
  "i \<in> set ins \<Longrightarrow> int (length (unread H P i)) \<le> max_items (input_states rt H P ins)"
  by (induction ins) (auto simp: input_states_def)

lemma max_items_bound:
  assumes "wired rt m ins outs" "streams rt H P (\<lambda>k. [])" "set xs \<subseteq> set ins" "0 < B"
    "\<And>k. k < length (buffers rt) \<Longrightarrow> int (unat (d_bufsize (buffers rt ! k))) \<le> B"
  shows "max_items (input_states rt H P xs) < B"
  using assms(3)
proof (induction xs)
  case (Cons i xs)
  obtain k r where i: "i = (k, r)" by (cases i)
  then have "(k, r) \<in> set ins" using Cons.prems by simp
  then obtain rd where rd: "(r, rd) \<in> set (d_readers (buffers rt ! k))" "k < length (buffers rt)"
    using wired_reader [OF assms(1)] by metis
  note ok = streams_ok [OF assms(2) rd(2)]
  have "length (unread H P i) < unat (d_bufsize (buffers rt ! k))"
    using buffer_okD(8) [OF ok rd(1)] by (auto simp: reader_at_def unread_def i)
  then have "int (length (unread H P i)) < B" using assms(5) [OF rd(2)] by linarith
  then show ?case using Cons by (simp add: input_states_def)
qed (use assms(4) in \<open>simp add: input_states_def\<close>)

context sync_work
begin

lemma space_then:
  assumes w: "wired rt m ins outs" and s: "streams rt H P (\<lambda>k. [])" and om: "1 \<le> om" "om < 2 ^ 31" and outs: "outs \<noteq> []"
    and d: "d_output d = map Some outs" and small: "\<And>k. k \<in> set outs \<Longrightarrow> int (unat (d_bufsize (buffers rt ! k))) + h \<le> 2 ^ 31" and h: "1 \<le> h"
    and go: "\<And>n rt1. wired rt1 m ins outs \<Longrightarrow> streams rt1 H P (\<lambda>k. []) \<Longrightarrow> om dvd n \<Longrightarrow> 0 < n \<Longrightarrow> n < 2 ^ 31 \<Longrightarrow> n + h \<le> 2 ^ 31
      \<Longrightarrow> (\<And>k. k \<in> set outs \<Longrightarrow> room (buffers rt1 ! k) (H k) (P k) (nat n))
      \<Longrightarrow> \<exists>res. go n rt1 = Some res \<and> stepped_or_tag work om h rt1 H P ins outs res"
  shows "\<exists>res. (case min_available_space d om rt of
                    Inl e \<Rightarrow> Some (Inl e)
                  | Inr (n, rt) \<Rightarrow>
                      if n = -1 then Some (were_done m rt) else if n = 0 then Some (Inr (BLKD_OUT, rt)) else go n rt) = Some res
    \<and> stepped_or_tag work om h rt H P ins outs res"
proof -
  consider p where "min_available_space d om rt = Inl (Pmt_exception p)"
    | n rt1 where "min_available_space d om rt = Inr (n, rt1)" "tagged rt rt1"
      "if n = 0 \<or> n = -1 then \<exists>k \<in> set outs. \<not> roomy om (buffers rt ! k) (H k) (P k)
       else 0 < n \<and> n \<le> 2 ^ 31 - 1 \<and> (om dvd n \<or> n = 2 ^ 31 - 1 \<and> outs = []) \<and> (\<forall>k \<in> set outs. room (buffers rt ! k) (H k) (P k) (nat n))"
    using min_space_ok [OF om w s subset_refl, of "2 ^ 31 - 1"] unfolding min_available_space_def d by auto
  then show ?thesis
  proof cases
    case 1
    then show ?thesis by (simp add: stepped_or_tag_def)
  next
    case (2 n rt1)
    have w1: "wired rt1 m ins outs" by (rule tagged_wired [OF 2(2) w])
    have s1: "streams rt1 H P (\<lambda>k. [])" by (rule tagged_streams [OF 2(2) s])
    have k: "k < length (buffers rt)" if "k \<in> set outs" for k using w that by (simp add: wired_def)
    note rooms = tagged_room [OF 2(2) k]
    show ?thesis
    proof (cases "n = 0 \<or> n = -1")
      case True
      then have short: "(\<exists>i \<in> set ins. int (length (unread H P i)) < om + h - 1) \<or> (\<exists>k \<in> set outs. \<not> roomy om (buffers rt1 ! k) (H k) (P k))"
        using 2(3) rooms(2) by auto
      note sh = short_stepped [OF w1 s1 short]
      have "stepped_or_tag work om h rt1 H P ins outs (Inr (BLKD_OUT, rt1))" using sh(2) by (auto simp: stepped_or_tag_def)
      note both = sh(3) this
      show ?thesis using both [THEN stepped_or_tag_tagged [OF 2(2) w]] True 2(1) by auto
    next
      case False
      then have n: "om dvd n" "0 < n" "n < 2 ^ 31" "\<And>k. k \<in> set outs \<Longrightarrow> room (buffers rt1 ! k) (H k) (P k) (nat n)"
        using 2(3) outs rooms(1) by auto
      obtain k where "k \<in> set outs" using outs by (cases outs) auto
      then have "nat n < unat (d_bufsize (buffers rt ! k))" "int (unat (d_bufsize (buffers rt ! k))) + h \<le> 2 ^ 31"
        using n(4) [of k] rooms(1) [of k] small [of k] by (auto simp: room_def)
      then have nh: "n + h \<le> 2 ^ 31" by linarith
      obtain res where "go n rt1 = Some res" "stepped_or_tag work om h rt1 H P ins outs res"
        using go [OF w1 s1 n(1-3) nh n(4)] by blast
      then show ?thesis using stepped_or_tag_tagged [OF 2(2) w] False 2(1) by auto
    qed
  qed
qed

lemma iteration_ok:
  assumes ports: "ports (length ins) (length outs)" and w: "wired rt m ins outs" and s: "streams rt H P (\<lambda>k. [])" and blk: "synchronous (bs m) work h"
    and small: "\<And>k. k < length (buffers rt) \<Longrightarrow> int (unat (d_bufsize (buffers rt ! k))) + h \<le> 2 ^ 31"
    and io: "ins \<noteq> [] \<or> outs \<noteq> []" and d: "details rt m = Some d" "\<not> d_finished d"
  shows "\<exists>res. run_one_iteration bs m rt = Some res
    \<and> stepped_or_tag work (d_output_multiple (bs m)) h rt H P ins outs res"
proof -
  let ?om = "d_output_multiple (bs m)"
  note b = synchronousD [OF blk]
  have det: "detail m rt = Inr d" "d_input d = map Some ins" "d_output d = map Some outs"
    using w d(1) by (auto simp: wired_def detail_def)
  have small': "int (unat (d_bufsize (buffers rt ! k))) + h \<le> 2 ^ 31" if "k \<in> set outs" for k
    using small w that by (simp add: wired_def)
  consider "ins = []" "outs \<noteq> []" | "ins \<noteq> []" "outs = []" | "ins \<noteq> []" "outs \<noteq> []" using io by blast
  then show ?thesis
  proof cases
    case 1
    have r: "run_one_iteration bs m rt = (case min_available_space d ?om rt of
                    Inl e \<Rightarrow> Some (Inl e)
                  | Inr (n, rt) \<Rightarrow>
                      if n = -1 then Some (were_done m rt)
                      else if n = 0 then Some (Inr (BLKD_OUT, rt))
                      else Some (call_work (bs m) m n [] rt))"
      using det d(2) 1 by (simp add: run_one_iteration_def Let_def split: sum.split)
    have go: "\<exists>res. Some (call_work (bs m) m n [] rt1) = Some res \<and> stepped_or_tag work ?om h rt1 H P ins outs res"
      if "wired rt1 m ins outs" "streams rt1 H P (\<lambda>k. [])" "?om dvd n" "0 < n" "n < 2 ^ 31" "n + h \<le> 2 ^ 31"
        "\<And>k. k \<in> set outs \<Longrightarrow> room (buffers rt1 ! k) (H k) (P k) (nat n)" for n rt1
    proof -
      have none: "\<And>i. i \<in> set ins \<Longrightarrow> n + h - 1 \<le> int (length (unread H P i))" using 1 by simp
      have "stepped_or_tag work ?om h rt1 H P ins outs (call_work (bs m) m n (map fst (input_states rt H P ins)) rt1)"
        using call_ok [OF ports that(1,2,4,5) b(9) none that(7) b(6,7), of rt] that(3,4,7) none
        unfolding stepped_or_tag_def stepped_def by blast
      then show ?thesis using 1(1) by (simp add: input_states_def)
    qed
    show ?thesis unfolding r by (rule space_then [OF w s b(1,2) 1(2) det(3) small' b(9) go])
  next
    case 2
    let ?stop = "\<lambda>n finished. n < ?om \<and> finished" and ?avail = "input_states rt H P ins"
    have scan: "scan_inputs ?stop (d_input d) rt = Inr (if \<exists>(n, z) \<in> set ?avail. ?stop n z then None else Some ?avail)"
      unfolding det(2) by (rule scan_ok [OF w s subset_refl])
    let ?n = "sint (round_down (word_of_int (max_items ?avail)) (word_of_int ?om))"
    have r: "run_one_iteration bs m rt = (if \<exists>(n, z) \<in> set ?avail. ?stop n z then Some (were_done m rt)
        else if ?n = 0 then Some (Inr (BLKD_IN, rt)) else run_work (bs m) m ?avail ?n rt)"
      using det d(2) 2 scan b(8) by (simp add: run_one_iteration_def Let_def)
    have top: "max_items ?avail < 2 ^ 31 - h"
    proof (rule max_items_bound [OF w s subset_refl])
      show "int (unat (d_bufsize (buffers rt ! k))) \<le> 2 ^ 31 - h" if "k < length (buffers rt)" for k
        using small [OF that] by linarith
    qed (use b(10) in simp)
    then have top': "max_items ?avail < 2 ^ 31" using b(9) by linarith
    have n: "?n = max_items ?avail div ?om * ?om"
      by (rule rounded_space [OF max_items_nonneg top' b(1,2)])
    obtain i where i: "i \<in> set ins" using 2(1) by (cases ins) auto
    show ?thesis
    proof (cases "\<exists>(n, z) \<in> set ?avail. ?stop n z")
      case True
      then obtain i where "i \<in> set ins" "int (length (unread H P i)) < ?om" by (auto simp: input_states_def)
      then have "\<exists>i \<in> set ins. int (length (unread H P i)) < ?om + h - 1" using b(9) by (intro bexI [of _ i]) linarith
      then show ?thesis using short_stepped(3) [OF w s] True unfolding r by auto
    next
      case going: False
      show ?thesis
      proof (cases "?n = 0")
        case True
        then have "max_items ?avail < ?om" using b(1) max_items_nonneg [of ?avail] unfolding n by (auto simp: zdiv_eq_0_iff)
        then have "int (length (unread H P i)) < ?om + h - 1" using max_items_states [OF i, of H P rt] b(9) by linarith
        then have "stepped work ?om h rt H P ins outs BLKD_IN rt" using short_stepped(1) [OF w s] i by blast
        then show ?thesis using going True unfolding r by (auto simp: stepped_or_tag_def)
      next
        case False
        have "0 \<le> ?n" unfolding n using b(1) max_items_nonneg [of ?avail] by (simp add: pos_imp_zdiv_nonneg_iff)
        moreover have "?n \<le> max_items ?avail"
          unfolding n using b(1) pos_mod_sign [of ?om "max_items ?avail"] unfolding minus_mod_eq_div_mult [symmetric] by linarith
        moreover have "?om dvd ?n" unfolding n by simp
        ultimately have "?om dvd ?n" "0 < ?n" "?n < 2 ^ 31" "?n + h \<le> 2 ^ 31"
          using False top top' by linarith+
        from run_work_ok [OF ports w s blk this, where ?rt0.0 = rt] show ?thesis using going False 2(2) unfolding r by auto
      qed
    qed
  next
    case 3
    let ?avail = "input_states rt H P ins"
    have scan: "scan_inputs (\<lambda>n finished. False) (d_input d) rt = Inr (Some ?avail)"
      using scan_ok [OF w s subset_refl, of "\<lambda>n finished. False"] unfolding det(2) by auto
    have r: "run_one_iteration bs m rt = (case min_available_space d ?om rt of
                    Inl e \<Rightarrow> Some (Inl e)
                  | Inr (n, rt) \<Rightarrow>
                      if n = -1 then Some (were_done m rt) else if n = 0 then Some (Inr (BLKD_OUT, rt))
                      else run_work (bs m) m ?avail n rt)"
      using det d(2) 3 scan by (simp add: run_one_iteration_def Let_def)
    show ?thesis unfolding r by (rule space_then [OF w s b(1,2) 3(2) det(3) small' b(9) run_work_ok [OF ports _ _ blk]])
  qed
qed

end

end
