(* ===== verification/Gr_Tags.thy ===== *)
theory Gr_Tags
  imports Gr_Sync
begin

text \<open>
  When no exception is raised: if the item of every tag in the buffers can be read from it, as it can
  from a tag that \<open>add_item_tag\<close> made, an iteration of a synchronous block does not raise, and keeps this.
\<close>

section \<open>Results without an exception of pmt\<close>

definition fine :: "('r \<Rightarrow> bool) \<Rightarrow> 'r gr \<Rightarrow> bool" where
  "fine Q x = (case x of Inl e \<Rightarrow> \<forall>p. e \<noteq> Pmt_exception p | Inr y \<Rightarrow> Q y)"

lemma fine_simps [simp]: "fine Q (Inl e) = (\<forall>p. e \<noteq> Pmt_exception p)" "fine Q (Inr y) = Q y"
  by (simp_all add: fine_def)

lemma fine_bind: "fine Q x \<Longrightarrow> (\<And>y. Q y \<Longrightarrow> fine R (f y)) \<Longrightarrow> fine R (gr_bind x f)"
  by (cases x) simp_all

lemma fine_map: "fine (\<lambda>x. Q (g x)) x \<Longrightarrow> fine Q (map_sum id g x)"
  by (cases x) simp_all

lemma fine_mono: "fine Q x \<Longrightarrow> (\<And>y. Q y \<Longrightarrow> R y) \<Longrightarrow> fine R x"
  by (cases x) simp_all

lemma fine_fold: "(\<And>x s. x \<in> set xs \<Longrightarrow> I s \<Longrightarrow> fine I (f x s)) \<Longrightarrow> I s \<Longrightarrow> fine I (gr_fold f xs s)"
proof (induction xs arbitrary: s)
  case (Cons x xs)
  have "fine I (f x s)" using Cons.prems by simp
  then show ?case unfolding gr_fold.simps by (rule fine_bind) (rule Cons.IH, use Cons.prems in auto)
qed simp

lemma fine_not_null: "fine (\<lambda>y. x = Some y) (not_null x)"
  by (cases x) simp_all

section \<open>Tags that can be read\<close>

definition legible_tags :: "pmts \<Rightarrow> addr list \<Rightarrow> bool" where
  "legible_tags s ts \<longleftrightarrow> (\<forall>t \<in> set ts. \<exists>n. item_time s t = Inr n)"

lemma legible_tags_simps [simp]:
  "legible_tags s []" "legible_tags s (t # ts) \<longleftrightarrow> (\<exists>n. item_time s t = Inr n) \<and> legible_tags s ts"
  "legible_tags s (ts @ us) \<longleftrightarrow> legible_tags s ts \<and> legible_tags s us"
  by (auto simp: legible_tags_def)

lemma legible_subset: "legible_tags s ts \<Longrightarrow> set us \<subseteq> set ts \<Longrightarrow> legible_tags s us"
  by (auto simp: legible_tags_def)

lemma find_old_fine: "legible_tags s ts \<Longrightarrow> fine (\<lambda>x. True) (find_old s m ts)"
proof (induction ts)
  case (Cons t ts)
  then have "fine (\<lambda>x. True) (map_sum id (map_option Suc) (find_old s m ts))" by (intro fine_map) simp
  then show ?case using Cons.prems by auto
qed simp

lemma prune_loop_fine: "legible_tags s ts \<Longrightarrow> fine (legible_tags s) (prune_loop s m ts)"
proof (induction s m ts rule: prune_loop.induct)
  case (1 s m ts)
  have "legible_tags s (take k ts @ drop (Suc k) ts)" for k
    by (rule legible_subset [OF "1.prems"]) (use set_take_subset [of k ts] set_drop_subset [of "Suc k" ts] in auto)
  then show ?case
    using "1.IH" "1.prems" find_old_fine [OF "1.prems", of m]
    by (subst prune_loop.simps) (auto split: sum.split option.split)
qed

lemma space_fine:
  assumes "legible_tags s (d_item_tags b)"
  shows "fine (\<lambda>(k, b'). legible_tags s (d_item_tags b')) (space_available s b)"
proof (cases "d_readers b")
  case (Cons r rs)
  have av: "fine (\<lambda>n. True) (items_available b r)" for r
    by (auto simp: items_available_def index_sub_def Let_def)
  have most: "fine (\<lambda>x. True) (most_data b rs n k)" for n k
  proof (induction rs arbitrary: n k)
    case (Cons r rs)
    then show ?case unfolding most_data.simps by (intro fine_bind [OF av])
  qed simp
  have prune: "fine (\<lambda>b'. legible_tags s (d_item_tags b')) (prune_tags s m b)" for m
    using prune_loop_fine [OF assms, of m] unfolding prune_tags_def by (intro fine_map) simp
  have "fine (\<lambda>(k, b'). legible_tags s (d_item_tags b')) (gr_bind (if k \<noteq> d_last_min_items_read b
                   then map_sum id (\<lambda>b. b\<lparr> d_last_min_items_read := k \<rparr>) (prune_tags s (d_last_min_items_read b) b)
                   else Inr b) (\<lambda>b'. Inr (n, b')))" for k n
    using prune [of "d_last_min_items_read b"] assms by (intro fine_bind [where Q = "\<lambda>b'. legible_tags s (d_item_tags b')"]) (auto intro: fine_map)
  note last = this
  show ?thesis unfolding space_available_def Cons list.case
  proof (rule fine_bind [OF av], rule fine_bind [OF most])
    fix n y
    show "fine (\<lambda>(k, b'). legible_tags s (d_item_tags b')) (case y of (most, min_read) \<Rightarrow>
          gr_bind (if min_read \<noteq> d_last_min_items_read b
                   then map_sum id (\<lambda>b. b\<lparr> d_last_min_items_read := min_read \<rparr>)
                          (prune_tags s (d_last_min_items_read b) b)
                   else Inr b) (\<lambda>b'. Inr (sint (d_bufsize b - word_of_int most - 1), b')))"
      by (cases y) (simp only: prod.case last)
  qed
qed (use assms in \<open>simp add: space_available_def\<close>)

lemma tags_in_range_fine: "legible_tags s ts \<Longrightarrow> fine (legible_tags s) (tags_in_range s a z ts)"
proof (induction ts)
  case (Cons t ts)
  then show ?case by (auto intro!: fine_map elim!: fine_mono)
qed simp

text \<open>All buffers hold such tags, and the detail of the block names buffers that exist.\<close>

definition legible :: "pmts \<Rightarrow> block \<Rightarrow> ('a, 's) runtime \<Rightarrow> bool" where
  "legible s m rt \<longleftrightarrow> heap rt = s \<and> (\<forall>b \<in> set (buffers rt). legible_tags s (d_item_tags b))
     \<and> (\<forall>d. details rt m = Some d \<longrightarrow> (\<forall>k. Some k \<in> set (d_output d) \<longrightarrow> k < length (buffers rt))
          \<and> (\<forall>k r. Some (k, r) \<in> set (d_input d) \<longrightarrow> k < length (buffers rt)))"

lemma legible_buffer: "legible s m rt \<Longrightarrow> k < length (buffers rt) \<Longrightarrow> legible_tags s (d_item_tags (buffers rt ! k))"
  by (simp add: legible_def)

lemma legible_update:
  "legible s m rt \<Longrightarrow> legible_tags s (d_item_tags b) \<Longrightarrow> legible s m (rt\<lparr> buffers := (buffers rt)[k := b] \<rparr>)"
  by (auto simp: legible_def dest: set_update_subset_insert [THEN subsetD])

lemma legible_set_detail:
  assumes "legible s m rt" "details rt m = Some d" "d_input d' = d_input d" "d_output d' = d_output d"
  shows "legible s m (set_detail m d' rt)"
  using assms by (auto simp: legible_def set_detail_def)

lemma legible_inner: "legible s m rt \<Longrightarrow> legible s m (rt\<lparr> inner := x \<rparr>)"
  by (simp add: legible_def)

lemma fine_detail: "fine (\<lambda>d. details rt m = Some d) (detail m rt)"
  unfolding detail_def by (rule fine_not_null)

text \<open>Operations on a buffer that add no tags and do not fail on one.\<close>

lemma on_buffer_fine:
  assumes "legible s m rt" "\<And>b. fine (\<lambda>b'. d_item_tags b' = d_item_tags b) (f b)"
  shows "fine (legible s m) (on_buffer k f rt)"
  unfolding on_buffer_def
proof (rule fine_map, rule fine_mono [OF assms(2)])
  fix b :: "'a buffer"
  assume b: "d_item_tags b = d_item_tags (buffers rt ! k)"
  show "legible s m (rt\<lparr> buffers := (buffers rt)[k := b] \<rparr>)"
  proof (cases "k < length (buffers rt)")
    case True
    then show ?thesis using legible_update [OF assms(1)] legible_buffer [OF assms(1)] b by simp
  qed (simp add: list_update_beyond assms(1))
qed

lemma pointer_fine:
  "fine (\<lambda>b'. d_item_tags b' = d_item_tags b) (update_read_pointer r n b)"
  "fine (\<lambda>b'. d_item_tags b' = d_item_tags b) (update_write_pointer n b)"
  "fine (\<lambda>b'. d_item_tags b' = d_item_tags b) ((Inr \<circ> set_done z) b)"
  "fine (\<lambda>b'. d_item_tags b' = d_item_tags b) ((Inr \<circ> write_items xs) b)"
  by (auto simp: update_read_pointer_def update_write_pointer_def index_add_def Let_def set_done_def write_items_def split: option.split)

lemmas on_buffer_rules = on_buffer_fine [OF _ pointer_fine(1)] on_buffer_fine [OF _ pointer_fine(2)]
  on_buffer_fine [OF _ pointer_fine(3)] on_buffer_fine [OF _ pointer_fine(4)]

section \<open>The operations of an iteration\<close>

lemma fold_on_fine:
  fixes rt :: "('a, 'b) runtime"
  assumes "legible s m rt" "\<And>x (rt :: ('a, 'b) runtime). legible s m rt \<Longrightarrow> fine (legible s m) (g x rt)"
  shows "fine (legible s m) (gr_fold (\<lambda>x rt. gr_bind (not_null x) (\<lambda>x. g x rt)) xs rt)"
proof (rule fine_fold [where I = "legible s m", OF _ assms(1)])
  fix x and rt :: "('a, 'b) runtime"
  assume "legible s m rt"
  then show "fine (legible s m) (gr_bind (not_null x) (\<lambda>x. g x rt))"
    by (intro fine_bind [OF fine_not_null] assms(2))
qed

lemma were_done_fine:
  assumes "legible s m rt"
  shows "fine (\<lambda>(st, rt'). legible s m rt') (were_done m rt)"
  unfolding were_done_def block_set_done_def
proof (rule fine_map, rule fine_bind [OF fine_detail], rule fine_bind)
  fix d
  assume d: "details rt m = Some d"
  show "fine (legible s m) (gr_fold (\<lambda>k rt. gr_bind (not_null k) (\<lambda>k. on_buffer k (Inr \<circ> set_done True) rt)) (d_output d)
          (set_detail m (d\<lparr> d_finished := True \<rparr>) rt))"
    by (rule fold_on_fine [OF legible_set_detail [OF assms d]]) (auto intro: on_buffer_rules)
  show "fine (\<lambda>y. case (DONE, y) of (st, rt') \<Rightarrow> legible s m rt')
      (gr_fold (\<lambda>i rt. gr_bind (not_null i) (\<lambda>i. on_buffer (fst i) (Inr \<circ> set_done True) rt)) (d_input d) rt')" if "legible s m rt'" for rt'
    unfolding prod.case by (rule fold_on_fine [OF that]) (auto intro: on_buffer_rules)
qed

lemma read_from_fine: "legible s m rt \<Longrightarrow> fine (legible s m) (read_from n i rt)"
  unfolding read_from_def by (rule fine_bind [OF fine_not_null]) (auto intro: on_buffer_rules split: prod.split)

lemma consume_each_fine:
  assumes "legible s m rt"
  shows "fine (legible s m) (consume_each m n rt)"
  unfolding consume_each_def
  by (rule fine_bind [OF fine_detail]) (auto simp: assms intro!: fine_fold read_from_fine)

lemma produce_each_fine:
  assumes "legible s m rt"
  shows "fine (legible s m) (produce_each m n rt)"
  unfolding produce_each_def
proof (rule fine_bind [OF fine_detail])
  fix d
  have "fine (legible s m) (gr_fold (written_to n) (d_output d) rt)"
    by (rule fine_fold [where I = "legible s m", OF _ assms], unfold written_to_def, rule fine_bind [OF fine_not_null]) (auto intro: on_buffer_rules)
  moreover have "fine (legible s m) (produced m n rt')" if "legible s m rt'" for rt'
    unfolding produced_def by (rule fine_bind [OF fine_detail]) (simp add: legible_set_detail [OF that])
  ultimately show "fine (legible s m) (if n > 0 then gr_bind (gr_fold (written_to n) (d_output d) rt) (produced m n) else Inr rt)"
    using assms by (auto intro: fine_bind)
qed

lemma general_fine:
  assumes "legible s m rt"
  shows "fine (\<lambda>(r, rt'). legible s m rt') (sync_general_work work f n ks m rt)"
  unfolding sync_general_work_def
proof (rule fine_bind [OF fine_detail])
  fix d
  obtain r outs s' where w: "work n (map (readable rt) (zip ks (d_input d))) (length (d_output d)) (inner rt) = (r, outs, s')"
    by (metis prod_cases3)
  have st: "fine (legible s m) (gr_fold store_output (zip outs (d_output d)) (rt\<lparr> inner := s' \<rparr>))"
    by (rule fine_fold [where I = "legible s m", OF _ legible_inner [OF assms]], unfold store_output_def, rule fine_bind [OF fine_not_null])
      (auto intro: on_buffer_rules)
  have c: "fine (legible s m) (if r > 0 then consume_each m (f r) rt' else Inr rt')" if "legible s m rt'" for rt'
    using consume_each_fine [OF that] that by simp
  show "fine (\<lambda>(r, rt'). legible s m rt')
      (let (r, outs, s) = work n (map (readable rt) (zip ks (d_input d))) (length (d_output d)) (inner rt)
       in gr_bind (gr_fold store_output (zip outs (d_output d)) (rt\<lparr> inner := s \<rparr>)) (\<lambda>rt.
          gr_bind (if r > 0 then consume_each m (f r) rt else Inr rt) (\<lambda>rt. Inr (r, rt))))"
    unfolding w Let_def prod.case by (intro fine_bind [OF st] fine_bind [OF c]) simp_all
qed

lemma fine_input_at:
  "details rt m = Some d \<Longrightarrow> legible s m rt \<Longrightarrow> fine (\<lambda>i. fst i < length (buffers rt)) (input_at d i)"
  unfolding input_at_def
proof (cases "i < length (d_input d)")
  case True
  assume d: "details rt m = Some d" and l: "legible s m rt"
  have "fst y < length (buffers rt)" if "d_input d ! i = Some y" for y
    using l d nth_mem [OF True] that unfolding legible_def by (cases y) auto
  then show "fine (\<lambda>i. fst i < length (buffers rt)) (if length (d_input d) \<le> i then Inl Invalid_argument else not_null (d_input d ! i))"
    using True fine_not_null [of "d_input d ! i"] by (auto elim: fine_mono)
qed simp

lemma new_tags_fine:
  assumes "legible s m rt"
  shows "fine (legible_tags s) (new_tags m i start rt)"
proof -
  have "fine (\<lambda>x. True) (nitems_read m i rt)"
    unfolding nitems_read_def reader_of_def
    by (rule fine_bind [OF fine_detail], rule fine_bind [OF fine_input_at [OF _ assms]], assumption, rule fine_map)
      (rule fine_mono [OF fine_not_null], simp)
  moreover have "fine (legible_tags s) (detail_tags_in_range m i start z rt)" for z
    unfolding detail_tags_in_range_def get_tags_in_range_def
    by (rule fine_bind [OF fine_detail], rule fine_bind [OF fine_input_at [OF _ assms]], assumption)
      (use assms in \<open>auto simp: legible_def split: prod.split intro!: tags_in_range_fine\<close>)
  ultimately show ?thesis unfolding new_tags_def by (rule fine_bind)
qed

lemma tag_outputs_fine:
  assumes "legible s m rt" "legible_tags s [t]"
  shows "fine (legible s m) (tag_outputs ks t rt)"
  unfolding tag_outputs_def
proof (rule fold_on_fine [OF assms(1)])
  fix k and rt :: "('a, 'b) runtime"
  assume l: "legible s m rt"
  show "fine (legible s m) (tag_output t k rt)"
  proof (cases "k < length (buffers rt)")
    case True
    then show ?thesis using legible_update [OF l] legible_buffer [OF l] assms(2)
      by (simp add: tag_output_def on_buffer_def add_item_tag_def)
  qed (simp add: tag_output_def on_buffer_def list_update_beyond l)
qed

lemma propagate_fine:
  assumes "legible s m rt" "unit_rate blk" "d_tag_propagation_policy blk = TPP_ALL_TO_ALL"
  shows "fine (\<lambda>(ok, rt'). legible s m rt') (propagate_tags blk m starts rt)"
  unfolding propagate_tags_def
proof (rule fine_bind [OF fine_detail])
  fix d
  have one: "fine (legible s m) (gr_bind (new_tags m i (starts ! i) rt) (\<lambda>ts. gr_fold (tag_outputs (d_output d)) ts rt))"
    if l: "legible s m rt" for i and rt :: "('a, 'b) runtime"
  proof (rule fine_bind [OF new_tags_fine [OF l]])
    fix ts
    assume ts: "legible_tags s ts"
    show "fine (legible s m) (gr_fold (tag_outputs (d_output d)) ts rt)"
      by (rule fine_fold [OF tag_outputs_fine l]) (use ts in \<open>auto simp: legible_tags_def\<close>)
  qed
  then have "fine (legible s m) (gr_fold (\<lambda>i rt. gr_bind (new_tags m i (starts ! i) rt) (\<lambda>ts. gr_fold (tag_outputs (d_output d)) ts rt)) xs rt)" for xs
    by (rule fine_fold [where I = "legible s m", OF _ assms(1)])
  then show "fine (\<lambda>(ok, rt'). legible s m rt') (if d_output d = [] then Inr (True, rt)
       else case d_tag_propagation_policy blk of
         TPP_DONT \<Rightarrow> Inr (True, rt)
       | TPP_ALL_TO_ALL \<Rightarrow>
           map_sum id (Pair True) (gr_fold (\<lambda>i rt.
             gr_bind (new_tags m i (starts ! i) rt) (\<lambda>rtags.
               gr_fold (if unit_rate blk then tag_outputs (d_output d) else retag_outputs blk (d_output d)) rtags rt))
             [0..<length (d_input d)] rt)
       | TPP_ONE_TO_ONE \<Rightarrow>
           if length (d_input d) = length (d_output d)
           then map_sum id (Pair True) (gr_fold (\<lambda>i rt.
             gr_bind (new_tags m i (starts ! i) rt) (\<lambda>rtags.
               gr_fold (retag_outputs blk [d_output d ! i]) rtags rt))
             [0..<length (d_input d)] rt)
           else Inr (False, rt))"
    using assms by (auto intro: fine_map)
qed

lemma min_space_fine:
  "legible s m rt \<Longrightarrow> (\<And>k. Some k \<in> set ks \<Longrightarrow> k < length (buffers rt)) \<Longrightarrow>
    fine (\<lambda>(n, rt'). legible s m rt') (min_space_loop om ks acc rt)"
proof (induction ks arbitrary: acc rt)
  case (Cons x ks)
  have sp: "fine (\<lambda>(n, b). legible_tags s (d_item_tags b)) (space_available (heap rt) (buffers rt ! k))" if "x = Some k" for k
    using space_fine [of s "buffers rt ! k"] Cons.prems(1) Cons.prems(2) [of k] that by (simp add: legible_def)
  show ?case
    unfolding min_space_loop.simps
  proof (rule fine_bind [OF fine_not_null], rule fine_bind [OF sp], assumption)
    fix k and y :: "int \<times> 'a buffer"
    assume k: "x = Some k" and y: "case y of (n, b) \<Rightarrow> legible_tags s (d_item_tags b)"
    obtain n and b :: "'a buffer" where nb: "y = (n, b)" by (cases y)
    let ?rt = "rt\<lparr> buffers := (buffers rt)[k := b] \<rparr>"
    have l: "legible s m ?rt" using legible_update [OF Cons.prems(1)] y nb by simp
    have "fine (\<lambda>(n, rt'). legible s m rt') (min_space_loop om ks acc' ?rt)" for acc'
      by (rule Cons.IH [OF l]) (use Cons.prems(2) in auto)
    then show "fine (\<lambda>(n, rt'). legible s m rt') (case y of (space, b) \<Rightarrow>
       let rt = rt\<lparr> buffers := (buffers rt)[k := b] \<rparr>;
           n = sint (round_down (word_of_int (min space (sint (d_bufsize b) sdiv 2))) (word_of_int om))
       in if n = 0 then Inr (if d_done b then -1 else 0, rt) else min_space_loop om ks (min acc n) rt)"
      using l nb by (simp add: Let_def)
  qed
qed simp

section \<open>The iteration\<close>

definition calm :: "('a, 's) gr_block \<Rightarrow> bool" where
  "calm blk \<longleftrightarrow> unit_rate blk \<and> d_tag_propagation_policy blk = TPP_ALL_TO_ALL
     \<and> (\<exists>work f. general_work blk = sync_general_work work f)
     \<and> (\<forall>k. \<exists>y. fixed_rate_ninput_to_noutput blk (d_history blk) k = Inr y)"

lemma synchronous_calm:
  assumes "synchronous blk work h"
  shows "calm blk"
proof -
  note b = synchronousD [OF assms]
  have "unit_rate blk" using assms by (auto simp: synchronous_def gr_sync_block_def make_block_def)
  moreover have "\<exists>work f. general_work blk = sync_general_work work f" using b(6) by blast
  ultimately show ?thesis using b(5,7) unfolding calm_def by simp
qed

lemma finish_fine:
  assumes "legible s m rt"
  shows "fine (\<lambda>(st, rt'). legible s m rt') (gr_bind (if r \<noteq> WORK_CALLED_PRODUCE then produce_each m r rt else Inr rt) (\<lambda>rt.
            gr_bind (detail m rt) (\<lambda>d.
              if 0 <s d_produce_or d then Inr (READY, rt)
              else if d_input d = [] then were_done m rt
              else Inr (READY_NO_OUTPUT, rt))))"
proof (rule fine_bind [where Q = "legible s m"])
  show "fine (legible s m) (if r \<noteq> WORK_CALLED_PRODUCE then produce_each m r rt else Inr rt)"
    using produce_each_fine [OF assms] assms by simp
  show "fine (\<lambda>(st, rt'). legible s m rt') (gr_bind (detail m rt') (\<lambda>d.
              if 0 <s d_produce_or d then Inr (READY, rt')
              else if d_input d = [] then were_done m rt'
              else Inr (READY_NO_OUTPUT, rt')))" if "legible s m rt'" for rt'
    by (rule fine_bind [OF fine_detail]) (simp add: that were_done_fine)
qed

lemma call_fine:
  assumes "legible s m rt" "calm blk"
  shows "fine (\<lambda>(st, rt'). legible s m rt') (call_work blk m n ks rt)"
  unfolding call_work_def
proof (rule fine_bind [OF fine_detail])
  fix d
  assume d: "details rt m = Some d"
  let ?rt = "set_detail m (d\<lparr> d_produce_or := 0 \<rparr>) rt"
  have l: "legible s m ?rt" by (rule legible_set_detail [OF assms(1) d]) simp_all
  have starts: "fine (\<lambda>x. True) (starting_offsets d m ?rt)"
    unfolding starting_offsets_def
  proof (rule fine_fold)
    fix i xs
    have "fine (\<lambda>x. True) (nitems_read m i ?rt)"
      unfolding nitems_read_def reader_of_def
      by (rule fine_bind [OF fine_detail], rule fine_bind [OF fine_input_at [OF _ l]], assumption, rule fine_map)
        (rule fine_mono [OF fine_not_null], simp)
    then show "fine (\<lambda>x. True) (map_sum id (\<lambda>x. xs @ [x]) (nitems_read m i ?rt))" by (rule fine_map)
  qed simp
  obtain work f where work: "general_work blk = sync_general_work work f" using assms(2) unfolding calm_def by blast
  have rest: "fine (\<lambda>(st, rt'). legible s m rt') (gr_bind (propagate_tags blk m start rt1) (\<lambda>(ok, rt).
       if \<not> ok then were_done m rt
       else if r = WORK_DONE then were_done m rt
       else gr_bind (if r \<noteq> WORK_CALLED_PRODUCE then produce_each m r rt else Inr rt) (\<lambda>rt.
            gr_bind (detail m rt) (\<lambda>d.
              if 0 <s d_produce_or d then Inr (READY, rt)
              else if d_input d = [] then were_done m rt
              else Inr (READY_NO_OUTPUT, rt)))))" if l1: "legible s m rt1" for start r and rt1 :: "('a, 'b) runtime"
  proof (rule fine_bind [OF propagate_fine [OF l1]])
    fix y :: "bool \<times> ('a, 'b) runtime"
    assume y: "case y of (ok, rt') \<Rightarrow> legible s m rt'"
    show "fine (\<lambda>(st, rt'). legible s m rt') (case y of (ok, rt) \<Rightarrow>
       if \<not> ok then were_done m rt
       else if r = WORK_DONE then were_done m rt
       else gr_bind (if r \<noteq> WORK_CALLED_PRODUCE then produce_each m r rt else Inr rt) (\<lambda>rt.
            gr_bind (detail m rt) (\<lambda>d.
              if 0 <s d_produce_or d then Inr (READY, rt)
              else if d_input d = [] then were_done m rt
              else Inr (READY_NO_OUTPUT, rt))))"
      using y by (cases y) (simp only: prod.case finish_fine were_done_fine split: if_split, simp)
  qed (use assms(2) in \<open>simp_all add: calm_def\<close>)
  show "fine (\<lambda>(st, rt'). legible s m rt') (let rt = ?rt
     in gr_bind (starting_offsets d m rt) (\<lambda>start_nitems_read.
     gr_bind (general_work blk n ks m rt) (\<lambda>(n, rt).
     gr_bind (propagate_tags blk m start_nitems_read rt) (\<lambda>(ok, rt).
       if \<not> ok then were_done m rt
       else if n = WORK_DONE then were_done m rt
       else gr_bind (if n \<noteq> WORK_CALLED_PRODUCE then produce_each m n rt else Inr rt) (\<lambda>rt.
            gr_bind (detail m rt) (\<lambda>d.
              if 0 <s d_produce_or d then Inr (READY, rt)
              else if d_input d = [] then were_done m rt
              else Inr (READY_NO_OUTPUT, rt)))))))"
    unfolding Let_def work
    by (rule fine_bind [OF starts], rule fine_bind [OF general_fine [OF l]]) (auto intro: rest)
qed

lemma try_again_result:
  "try_again blk avail n = Some y \<Longrightarrow> calm blk \<longrightarrow> (case y of Inl e \<Rightarrow> False | Inr x \<Rightarrow> True)"
proof (induction rule: try_again.raw_induct [rotated, consumes 1, case_names step])
  case (step try_again' blk avail n y)
  show ?case
  proof
    assume c: "calm blk"
    obtain k where k: "fixed_rate_ninput_to_noutput blk (d_history blk) (max_items avail) = Inr k"
      using c unfolding calm_def by blast
    obtain n' where n': "fixed_request blk (max_items avail) n = Inr n'"
      using that [unfolded fixed_request_def k gr_bind_simps Let_def] by (cases "d_fixed_rate blk") simp_all
    let ?req = "forecast blk (d_history blk) n' (length avail)"
    show "case y of Inl e \<Rightarrow> False | Inr x \<Rightarrow> True"
    proof (cases "\<exists>i. find_short ?req avail = Some i \<and> d_output_multiple blk < n'")
      case True
      then obtain i where i: "find_short ?req avail = Some i" "d_output_multiple blk < n'" by blast
      have "try_again' blk avail (sint (round_up (word_of_int (n' sdiv 2)) (word_of_int (d_output_multiple blk)))) = Some y"
        using step(2) unfolding n' sum.case Let_def i(1) option.case if_P [OF i(2)] .
      from step(1) [OF this] show ?thesis using c by (rule mp)
    next
      case False
      have "\<exists>z. y = Inr z"
      proof (cases "find_short ?req avail")
        case None
        then show ?thesis using step(2) unfolding n' sum.case Let_def None option.case by blast
      next
        case (Some i)
        then have less: "\<not> d_output_multiple blk < n'" using False by blast
        show ?thesis using step(2) unfolding n' sum.case Let_def Some option.case if_not_P [OF less] by blast
      qed
      then show ?thesis by auto
    qed
  qed
qed

lemma run_work_fine:
  assumes "legible s m rt" "calm blk" "run_work blk m avail n rt = Some res"
  shows "fine (\<lambda>(st, rt'). legible s m rt') res"
proof -
  obtain n' required x where t: "try_again blk avail n = Some (Inr (n', required, x))"
    using assms(3) try_again_result [of blk avail n] assms(2)
    unfolding run_work_def by (auto split: option.splits sum.splits)
  show ?thesis
  proof (cases x)
    case None
    then have "res = call_work blk m n' (map fst avail) rt" using assms(3) by (simp add: run_work_def t)
    then show ?thesis using call_fine [OF assms(1,2)] by simp
  next
    case (Some i)
    have stop: "fine (\<lambda>(st, rt'). legible s m rt') (gr_bind (detail m rt) (\<lambda>d.
               gr_bind (input_at d i) (\<lambda>r.
                 if required ! i > max_possible_items_available (buffers rt ! fst r) then were_done m rt
                 else Inr (BLKD_IN, rt))))"
      by (rule fine_bind [OF fine_detail], rule fine_bind [OF fine_input_at [OF _ assms(1)]], assumption)
        (simp add: assms(1) were_done_fine)
    show ?thesis using assms(3) stop were_done_fine [OF assms(1)] by (auto simp: run_work_def t Some split: if_splits)
  qed
qed

lemma scan_fine: "fine (\<lambda>x. True) (scan_inputs stop is rt)"
proof (induction "is")
  case (Cons i "is")
  have av: "fine (\<lambda>n. True) (items_available b r)" for b :: "'a buffer" and r
    by (auto simp: items_available_def index_sub_def Let_def)
  have rd: "fine (\<lambda>x. True) (reader_of rt i)" for i
    unfolding reader_of_def by (rule fine_mono [OF fine_not_null]) simp
  show ?case
    unfolding scan_inputs.simps
    by (rule fine_bind [OF fine_not_null], rule fine_bind [OF rd], rule fine_bind [OF av])
      (auto simp: Let_def Cons.IH intro: fine_map)
qed simp

lemma min_available_fine:
  assumes "legible s m rt" "details rt m = Some d"
  shows "fine (\<lambda>(n, rt'). legible s m rt') (min_available_space d om rt)"
  unfolding min_available_space_def by (rule min_space_fine [OF assms(1)]) (use assms in \<open>auto simp: legible_def\<close>)

lemma iteration_fine:
  assumes "legible s m rt" "calm (bs m)" "run_one_iteration bs m rt = Some res"
  shows "fine (\<lambda>(st, rt'). legible s m rt') res"
proof (cases "details rt m")
  case None
  then have "res = Inl Null_pointer" using assms(3) by (simp add: run_one_iteration_def detail_def Let_def)
  then show ?thesis by simp
next
  case (Some d)
  let ?om = "d_output_multiple (bs m)"
  have det: "detail m rt = Inr d" using Some by (simp add: detail_def)
  note sp = min_available_fine [OF assms(1) Some, of ?om]
  have finished: "fine (\<lambda>(st, rt'). legible s m rt') (were_done m rt)" by (rule were_done_fine [OF assms(1)])
  consider "d_finished d" | "\<not> d_finished d" "d_input d = []" | "\<not> d_finished d" "d_input d \<noteq> []" "d_output d = []"
    | "\<not> d_finished d" "d_input d \<noteq> []" "d_output d \<noteq> []" by blast
  then show ?thesis
  proof cases
    case 1
    then have "res = Inl Assertion_failed" using assms(3) det by (simp add: run_one_iteration_def Let_def)
    then show ?thesis by simp
  next
    case 2
    then have res: "res = gr_bind (min_available_space d ?om rt) (\<lambda>(n, rt).
              if n = -1 then were_done m rt else if n = 0 then Inr (BLKD_OUT, rt) else call_work (bs m) m n [] rt)"
      using assms(3) det by (simp add: run_one_iteration_def Let_def)
    show ?thesis unfolding res
      by (rule fine_bind [OF sp]) (auto simp: were_done_fine call_fine [OF _ assms(2)])
  next
    case 3
    show ?thesis
      using assms(3) 3 det scan_fine [of "\<lambda>n finished. n < ?om \<and> finished" "d_input d" rt] finished assms(1)
        run_work_fine [OF assms(1,2)]
      by (auto simp: run_one_iteration_def Let_def split: sum.splits option.splits if_splits)
  next
    case 4
    show ?thesis
    proof (cases "min_available_space d ?om rt")
      case (Inl e)
      then show ?thesis using assms(3) 4 det scan_fine [of "\<lambda>n finished. False" "d_input d" rt] sp finished
        by (auto simp: run_one_iteration_def Let_def split: sum.splits option.splits)
    next
      case (Inr x)
      obtain n rt1 where x: "x = (n, rt1)" by (cases x)
      then have l: "legible s m rt1" using sp Inr by simp
      show ?thesis using assms(3) 4 det scan_fine [of "\<lambda>n finished. False" "d_input d" rt] finished Inr x
          were_done_fine [OF l] run_work_fine [OF l assms(2)] l
        by (auto simp: run_one_iteration_def Let_def split: sum.splits option.splits if_splits)
    qed
  qed
qed

section \<open>What a call is asked for and gives\<close>

lemma request_bound:
  assumes "wired rt m ins outs" "streams rt H P (\<lambda>k. [])" "ins \<noteq> [] \<or> outs \<noteq> []"
    "\<And>i. i \<in> set ins \<Longrightarrow> n \<le> int (length (unread H P i))"
    "\<And>k. k \<in> set outs \<Longrightarrow> room (buffers rt ! k) (H k) (P k) (nat n)" "0 < n"
  shows "n < 2 ^ 31"
proof (cases outs)
  case (Cons k ks)
  then have "nat n < unat (d_bufsize (buffers rt ! k))" "k < length (buffers rt)"
    using assms(1) assms(5) [of k] by (simp_all add: room_def wired_def)
  then have "nat n < 2 ^ 31" using buffer_okD(3) [OF streams_ok [OF assms(2), of k]] by (meson less_trans)
  then show ?thesis by simp
next
  case Nil
  then obtain k r where i: "(k, r) \<in> set ins" using assms(3) by (cases ins) auto
  obtain rd where rd: "(r, rd) \<in> set (d_readers (buffers rt ! k))" "k < length (buffers rt)" using wired_reader [OF assms(1) i] by metis
  note ok = streams_ok [OF assms(2) rd(2)]
  have "length (unread H P (k, r)) < unat (d_bufsize (buffers rt ! k))"
    using buffer_okD(8) [OF ok rd(1)] unfolding reader_at_def unread_def by auto
  then have "length (unread H P (k, r)) < 2 ^ 31" using buffer_okD(3) [OF ok] by (meson less_trans)
  then show ?thesis using assms(4) [OF i] by simp
qed

end
