(* ===== verification/Gr_Bits.thy ===== *)
theory Gr_Bits
  imports Gr_Flowgraph
begin

text \<open>
  Bit level helpers of the signal processing blocks (\<open>gnuradio-core/src/lib/general\<close>): counting
  bits, the cyclic redundancy check and shift registers with feedback.
\<close>

section \<open>Cyclic redundancy check\<close>

definition crc32_table :: "u32 list" where
  "crc32_table = [
   0x0, 0x4C11DB7, 0x9823B6E, 0xD4326D9, 0x130476DC, 0x17C56B6B, 0x1A864DB2, 0x1E475005,
   0x2608EDB8, 0x22C9F00F, 0x2F8AD6D6, 0x2B4BCB61, 0x350C9B64, 0x31CD86D3, 0x3C8EA00A, 0x384FBDBD,
   0x4C11DB70, 0x48D0C6C7, 0x4593E01E, 0x4152FDA9, 0x5F15ADAC, 0x5BD4B01B, 0x569796C2, 0x52568B75,
   0x6A1936C8, 0x6ED82B7F, 0x639B0DA6, 0x675A1011, 0x791D4014, 0x7DDC5DA3, 0x709F7B7A, 0x745E66CD,
   0x9823B6E0, 0x9CE2AB57, 0x91A18D8E, 0x95609039, 0x8B27C03C, 0x8FE6DD8B, 0x82A5FB52, 0x8664E6E5,
   0xBE2B5B58, 0xBAEA46EF, 0xB7A96036, 0xB3687D81, 0xAD2F2D84, 0xA9EE3033, 0xA4AD16EA, 0xA06C0B5D,
   0xD4326D90, 0xD0F37027, 0xDDB056FE, 0xD9714B49, 0xC7361B4C, 0xC3F706FB, 0xCEB42022, 0xCA753D95,
   0xF23A8028, 0xF6FB9D9F, 0xFBB8BB46, 0xFF79A6F1, 0xE13EF6F4, 0xE5FFEB43, 0xE8BCCD9A, 0xEC7DD02D,
   0x34867077, 0x30476DC0, 0x3D044B19, 0x39C556AE, 0x278206AB, 0x23431B1C, 0x2E003DC5, 0x2AC12072,
   0x128E9DCF, 0x164F8078, 0x1B0CA6A1, 0x1FCDBB16, 0x18AEB13, 0x54BF6A4, 0x808D07D, 0xCC9CDCA,
   0x7897AB07, 0x7C56B6B0, 0x71159069, 0x75D48DDE, 0x6B93DDDB, 0x6F52C06C, 0x6211E6B5, 0x66D0FB02,
   0x5E9F46BF, 0x5A5E5B08, 0x571D7DD1, 0x53DC6066, 0x4D9B3063, 0x495A2DD4, 0x44190B0D, 0x40D816BA,
   0xACA5C697, 0xA864DB20, 0xA527FDF9, 0xA1E6E04E, 0xBFA1B04B, 0xBB60ADFC, 0xB6238B25, 0xB2E29692,
   0x8AAD2B2F, 0x8E6C3698, 0x832F1041, 0x87EE0DF6, 0x99A95DF3, 0x9D684044, 0x902B669D, 0x94EA7B2A,
   0xE0B41DE7, 0xE4750050, 0xE9362689, 0xEDF73B3E, 0xF3B06B3B, 0xF771768C, 0xFA325055, 0xFEF34DE2,
   0xC6BCF05F, 0xC27DEDE8, 0xCF3ECB31, 0xCBFFD686, 0xD5B88683, 0xD1799B34, 0xDC3ABDED, 0xD8FBA05A,
   0x690CE0EE, 0x6DCDFD59, 0x608EDB80, 0x644FC637, 0x7A089632, 0x7EC98B85, 0x738AAD5C, 0x774BB0EB,
   0x4F040D56, 0x4BC510E1, 0x46863638, 0x42472B8F, 0x5C007B8A, 0x58C1663D, 0x558240E4, 0x51435D53,
   0x251D3B9E, 0x21DC2629, 0x2C9F00F0, 0x285E1D47, 0x36194D42, 0x32D850F5, 0x3F9B762C, 0x3B5A6B9B,
   0x315D626, 0x7D4CB91, 0xA97ED48, 0xE56F0FF, 0x1011A0FA, 0x14D0BD4D, 0x19939B94, 0x1D528623,
   0xF12F560E, 0xF5EE4BB9, 0xF8AD6D60, 0xFC6C70D7, 0xE22B20D2, 0xE6EA3D65, 0xEBA91BBC, 0xEF68060B,
   0xD727BBB6, 0xD3E6A601, 0xDEA580D8, 0xDA649D6F, 0xC423CD6A, 0xC0E2D0DD, 0xCDA1F604, 0xC960EBB3,
   0xBD3E8D7E, 0xB9FF90C9, 0xB4BCB610, 0xB07DABA7, 0xAE3AFBA2, 0xAAFBE615, 0xA7B8C0CC, 0xA379DD7B,
   0x9B3660C6, 0x9FF77D71, 0x92B45BA8, 0x9675461F, 0x8832161A, 0x8CF30BAD, 0x81B02D74, 0x857130C3,
   0x5D8A9099, 0x594B8D2E, 0x5408ABF7, 0x50C9B640, 0x4E8EE645, 0x4A4FFBF2, 0x470CDD2B, 0x43CDC09C,
   0x7B827D21, 0x7F436096, 0x7200464F, 0x76C15BF8, 0x68860BFD, 0x6C47164A, 0x61043093, 0x65C52D24,
   0x119B4BE9, 0x155A565E, 0x18197087, 0x1CD86D30, 0x29F3D35, 0x65E2082, 0xB1D065B, 0xFDC1BEC,
   0x3793A651, 0x3352BBE6, 0x3E119D3F, 0x3AD08088, 0x2497D08D, 0x2056CD3A, 0x2D15EBE3, 0x29D4F654,
   0xC5A92679, 0xC1683BCE, 0xCC2B1D17, 0xC8EA00A0, 0xD6AD50A5, 0xD26C4D12, 0xDF2F6BCB, 0xDBEE767C,
   0xE3A1CBC1, 0xE760D676, 0xEA23F0AF, 0xEEE2ED18, 0xF0A5BD1D, 0xF464A0AA, 0xF9278673, 0xFDE69BC4,
   0x89B8FD09, 0x8D79E0BE, 0x803AC667, 0x84FBDBD0, 0x9ABC8BD5, 0x9E7D9662, 0x933EB0BB, 0x97FFAD0C,
   0xAFB010B1, 0xAB710D06, 0xA6322BDF, 0xA2F33668, 0xBCB4666D, 0xB8757BDA, 0xB5365D03, 0xB1F740B4]"

fun gr_update_crc32 :: "u32 \<Rightarrow> u8 list \<Rightarrow> u32" where
  "gr_update_crc32 crc [] = crc"
| "gr_update_crc32 crc (d # ds) =
     gr_update_crc32 (crc32_table ! unat (ucast d XOR (drop_bit 24 crc AND 0xff)) XOR push_bit 8 crc) ds"

definition gr_crc32 :: "u8 list \<Rightarrow> u32" where
  "gr_crc32 buf = gr_update_crc32 0xffffffff buf XOR 0xffffffff"

text \<open>The division by the polynomial, one bit at a time.\<close>

definition crc_bit :: "u32 \<Rightarrow> u32" where
  "crc_bit c = (if bit c 31 then push_bit 1 c XOR 0x04C11DB7 else push_bit 1 c)"

definition crc_byte :: "u32 \<Rightarrow> u8 \<Rightarrow> u32" where
  "crc_byte c d = (crc_bit ^^ 8) (c XOR push_bit 24 (ucast d))"

lemma crc_bit_xor: "crc_bit (a XOR b) = crc_bit a XOR crc_bit b"
  by (auto simp: crc_bit_def bit_xor_iff push_bit_xor ac_simps)

lemma crc_bits_xor: "(crc_bit ^^ n) (a XOR b) = (crc_bit ^^ n) a XOR (crc_bit ^^ n) b"
  by (induction n) (simp_all add: crc_bit_xor)

lemma bit_double: "bit (push_bit 1 (x :: u32)) j \<longleftrightarrow> 1 \<le> j \<and> j < 32 \<and> bit x (j - 1)"
  by (simp only: bit_push_bit_iff possible_bit_word) auto

lemma crc_bit_inj: "crc_bit a = crc_bit b \<longleftrightarrow> a = b"
proof
  assume "crc_bit a = crc_bit b"
  then have z: "crc_bit (a XOR b) = 0" by (simp add: crc_bit_xor)
  define c where "c = a XOR b"
  have "bit (crc_bit c) 0 \<longleftrightarrow> bit c 31" 
  proof (cases "bit c 31")
    case True
    have "\<not> bit (push_bit 1 c) 0" unfolding bit_double by simp
    then have "bit (push_bit 1 c XOR 0x04C11DB7) 0" unfolding bit_xor_iff by simp
    then show ?thesis using True unfolding crc_bit_def by (simp only: if_True)
  next
    case False
    have "\<not> bit (push_bit 1 c) 0" unfolding bit_double by simp
    then show ?thesis using False unfolding crc_bit_def by (simp only: if_False)
  qed
  then have top: "\<not> bit c 31" using z unfolding c_def by simp
  then have "push_bit 1 c = 0" using z unfolding c_def [symmetric] crc_bit_def by simp
  then have s: "\<not> bit (push_bit 1 c) j" for j by simp
  have "\<not> bit c n" if "n < 32" for n
  proof (cases "n = 31")
    case False
    then show ?thesis using s [of "Suc n"] that unfolding bit_double by simp
  qed (use top in simp)
  then have "c = 0" by (intro bit_word_eqI) simp
  moreover have "a = c XOR b" unfolding c_def by (simp only: xor.assoc xor_self_eq xor.right_neutral)
  ultimately show "a = b" by simp
qed simp

lemma crc_bits_inj: "(crc_bit ^^ n) a = (crc_bit ^^ n) b \<longleftrightarrow> a = b"
  by (induction n) (simp_all add: crc_bit_inj)

text \<open>Bits that do not reach the top are only shifted.\<close>

lemma crc_bits_low:
  "\<lbrakk>\<And>j. 32 - n \<le> j \<Longrightarrow> \<not> bit x j\<rbrakk> \<Longrightarrow> n \<le> 32 \<Longrightarrow> (crc_bit ^^ n) x = push_bit n x"
proof (induction n)
  case (Suc n)
  then have IH: "(crc_bit ^^ n) x = push_bit n x" by simp
  have "\<not> bit (push_bit n x) 31" using Suc.prems(1) [of "31 - n"] Suc.prems(2) by (simp add: bit_push_bit_iff)
  then have "crc_bit (push_bit n x) = push_bit 1 (push_bit n x)" by (simp add: crc_bit_def)
  then show ?case using IH by (simp add: One_nat_def)
qed simp

text \<open>The table is closed under the bit step: an entry gives the two entries at twice its index.\<close>

fun table_ok :: "u32 list \<Rightarrow> u32 list \<Rightarrow> bool" where
  "table_ok (a # as) (b # c # cs) \<longleftrightarrow> b = crc_bit a \<and> c = b XOR 0x04C11DB7 \<and> table_ok as cs"
| "table_ok as cs \<longleftrightarrow> True"

lemma crc_bit_numeral:
  "crc_bit (numeral n) = (if bit (numeral n :: u32) 31 then push_bit 1 (numeral n) XOR 0x04C11DB7 else push_bit 1 (numeral n))"
  "crc_bit 0 = 0"
  by (simp_all add: crc_bit_def)

lemma crc32_table_ok: "table_ok crc32_table crc32_table"
  unfolding crc32_table_def table_ok.simps crc_bit_numeral by simp

lemma table_ok_nth:
  "table_ok as cs \<Longrightarrow> k < length as \<Longrightarrow> 2 * k + 1 < length cs \<Longrightarrow>
     cs ! (2 * k) = crc_bit (as ! k) \<and> cs ! (2 * k + 1) = crc_bit (as ! k) XOR 0x04C11DB7"
proof (induction as cs arbitrary: k rule: table_ok.induct)
  case (1 a as b c cs)
  then show ?case by (cases k) (auto simp: One_nat_def)
qed auto

lemma length_crc32_table [simp]: "length crc32_table = 256"
  by (simp add: crc32_table_def)

lemma crc32_table_start: "crc32_table ! 0 = 0" "crc32_table ! 1 = 0x04C11DB7"
  by (simp_all add: crc32_table_def One_nat_def)

lemma push_24_twice:
  "k < 128 \<Longrightarrow> push_bit 24 (word_of_nat (2 * k) :: u32) = crc_bit (push_bit 24 (word_of_nat k))"
proof -
  assume k: "k < 128"
  have "\<not> bit k 7" using k by (simp add: bit_iff_odd)
  then have "\<not> bit (push_bit 24 (word_of_nat k :: u32)) 31" by (simp add: bit_push_bit_iff bit_of_nat_iff)
  then show ?thesis by (simp add: crc_bit_def push_bit_eq_mult One_nat_def algebra_simps)
qed

lemma crc_bits_one: "(crc_bit ^^ 8) (push_bit 24 1) = 0x04C11DB7"
proof -
  have "(crc_bit ^^ 7) (push_bit 24 1) = push_bit 7 (push_bit 24 1)"
    by (rule crc_bits_low) (simp only: bit_push_bit_iff bit_1_iff possible_bit_word, auto)
  then have "(crc_bit ^^ 7) (push_bit 24 1) = 0x80000000" by simp
  moreover have "(crc_bit ^^ 8) (push_bit 24 1) = crc_bit ((crc_bit ^^ 7) (push_bit 24 1))"
    using funpow_add_apply [of 1 7 crc_bit] by simp
  ultimately show ?thesis by (simp add: crc_bit_numeral)
qed

lemma crc32_table_entry:
  "k < 256 \<Longrightarrow> crc32_table ! k = (crc_bit ^^ 8) (push_bit 24 (word_of_nat k))"
proof (induction k rule: less_induct)
  case (less k)
  show ?case
  proof (cases "k < 2")
    case True
    then have "k = 0 \<or> k = 1" by auto
    then show ?thesis using crc_bits_one crc32_table_start by (auto simp: crc_bits_low One_nat_def)
  next
    case False
    define h where "h = k div 2"
    have h: "h < k" "h < 128" "h < 256" using False less.prems by (auto simp: h_def)
    have IH: "crc32_table ! h = (crc_bit ^^ 8) (push_bit 24 (word_of_nat h))" by (rule less.IH [OF h(1,3)])
    have even: "(crc_bit ^^ 8) (push_bit 24 (word_of_nat (2 * h))) = crc_bit (crc32_table ! h)"
      unfolding push_24_twice [OF h(2)] IH by (simp only: funpow_swap1)
    note tab = table_ok_nth [OF crc32_table_ok, of h, simplified length_crc32_table]
    show ?thesis
    proof (cases "even k")
      case True
      then have "k = 2 * h" by (simp add: h_def)
      then show ?thesis using tab h(2) even by simp
    next
      case odd: False
      then have k: "k = 2 * h + 1" by (simp add: h_def)
      have "2 * h + 1 = (2 * h) XOR 1" by (simp only: xor_one_eq) simp
      then have "push_bit 24 (word_of_nat (2 * h + 1) :: u32) = push_bit 24 (word_of_nat (2 * h) XOR 1)"
        by (metis of_nat_1 of_nat_xor_eq)
      then have "push_bit 24 (word_of_nat (2 * h + 1) :: u32) = push_bit 24 (word_of_nat (2 * h)) XOR push_bit 24 1"
        by (simp only: push_bit_xor)
      then show ?thesis using tab h(2) even crc_bits_one k by (simp add: crc_bits_xor)
    qed
  qed
qed

text \<open>The routine divides byte by byte.\<close>

lemma crc_byte_table:
  "crc32_table ! unat (ucast d XOR (drop_bit 24 crc AND 0xff) :: u32) XOR push_bit 8 crc = crc_byte crc d"
proof -
  let ?k = "ucast d XOR drop_bit 24 crc :: u32"
  have bits: "bit ?k j \<longleftrightarrow> j < 8 \<and> bit ?k j" for j
  proof -
    have "\<not> bit crc (24 + j)" if "\<not> j < 8" using that bit_imp_le_length [of crc "24 + j"] by auto
    moreover have "\<not> bit d j" if "\<not> j < 8" using that bit_imp_le_length [of d j] by auto
    ultimately show ?thesis by (auto simp: bit_simps)
  qed
  have k: "ucast d XOR (drop_bit 24 crc AND 0xff) = ?k"
  proof (rule bit_word_eqI)
    fix j
    have "bit (0xff :: u32) j \<longleftrightarrow> j < 8" using bit_mask_iff [of 8 j, where ?'a = u32] 
      by (auto simp: mask_numeral dest: bit_imp_le_length)
    then show "bit (ucast d XOR (drop_bit 24 crc AND 0xff)) j = bit ?k j" if "j < LENGTH(32)"
      using bits [of j] by (auto simp: bit_xor_iff bit_and_iff bit_unsigned_iff dest: bit_imp_le_length)
  qed
  have less: "unat ?k < 256"
  proof -
    have "take_bit 8 ?k = ?k" by (rule bit_word_eqI) (simp only: bit_take_bit_iff, use bits in blast)
    then have "unat ?k = take_bit 8 (unat ?k)" by (metis unsigned_take_bit_eq)
    then show ?thesis using take_bit_nat_less_exp [of 8 "unat ?k"] by simp
  qed
  have split: "crc XOR push_bit 24 (ucast d) = push_bit 24 ?k XOR take_bit 24 crc"
    by (rule bit_word_eqI) (auto simp: bit_simps)
  have low: "(crc_bit ^^ 8) (take_bit 24 crc) = push_bit 8 crc"
  proof -
    have "(crc_bit ^^ 8) (take_bit 24 crc) = push_bit 8 (take_bit 24 crc)" by (rule crc_bits_low) (auto simp: bit_take_bit_iff)
    also have "\<dots> = push_bit 8 crc" by (rule bit_word_eqI) (auto simp: bit_simps)
    finally show ?thesis .
  qed
  have "word_of_nat (unat ?k) = ?k" by simp
  then have "crc32_table ! unat ?k = (crc_bit ^^ 8) (push_bit 24 ?k)" using crc32_table_entry [OF less] by simp
  then show ?thesis unfolding k crc_byte_def split crc_bits_xor low by simp
qed

lemma update_is_fold: "gr_update_crc32 crc ds = foldl crc_byte crc ds"
  by (induction crc ds rule: gr_update_crc32.induct) (simp_all only: gr_update_crc32.simps foldl.simps crc_byte_table)

text \<open>Up to four bytes as the word that the register takes them for.\<close>

fun word_of_bytes :: "u8 list \<Rightarrow> u32" where
  "word_of_bytes [] = 0"
| "word_of_bytes (b # bs) = push_bit 24 (ucast b) XOR drop_bit 8 (word_of_bytes bs)"

lemma word_of_bytes_low: "length bs \<le> 4 \<Longrightarrow> j < 32 - 8 * length bs \<Longrightarrow> \<not> bit (word_of_bytes bs) j"
proof (induction bs arbitrary: j)
  case (Cons b bs)
  then show ?case using Cons.IH [of "8 + j"] by (auto simp: bit_simps)
qed simp

lemma update_word: "length bs \<le> 4 \<Longrightarrow> gr_update_crc32 crc bs = (crc_bit ^^ (8 * length bs)) (crc XOR word_of_bytes bs)"
proof (induction bs arbitrary: crc)
  case (Cons b bs)
  let ?w = "word_of_bytes bs"
  have "length bs \<le> 3" using Cons.prems by simp
  then have low: "\<not> bit ?w j" if "j < 8" for j using word_of_bytes_low [of bs j] that by simp
  have "(crc_bit ^^ 8) (drop_bit 8 ?w) = push_bit 8 (drop_bit 8 ?w)"
    by (rule crc_bits_low) (auto simp: bit_drop_bit_eq dest: bit_imp_le_length)
  also have "\<dots> = ?w"
  proof (rule bit_word_eqI)
    show "bit (push_bit 8 (drop_bit 8 ?w)) n = bit ?w n" if "n < LENGTH(32)" for n
      using low [of n] that by (cases "n < 8") (auto simp: bit_simps)
  qed
  finally have w: "(crc_bit ^^ 8) (drop_bit 8 ?w) = ?w" .
  have "gr_update_crc32 crc (b # bs) = gr_update_crc32 (crc_byte crc b) bs" by (simp only: gr_update_crc32.simps crc_byte_table)
  also have "\<dots> = (crc_bit ^^ (8 * length bs)) (crc_byte crc b XOR ?w)" using Cons by simp
  also have "crc_byte crc b XOR ?w = (crc_bit ^^ 8) (crc XOR word_of_bytes (b # bs))"
    unfolding crc_byte_def word_of_bytes.simps by (simp only: crc_bits_xor w xor.assoc [symmetric])
  finally show ?case by (simp add: funpow_add_apply [symmetric] add.commute)
qed simp

lemma gr_update_crc32_append: "gr_update_crc32 crc (xs @ ys) = gr_update_crc32 (gr_update_crc32 crc xs) ys"
  by (simp add: update_is_fold)

lemma xor_u32_cancel: "a XOR x = b XOR x \<longleftrightarrow> a = b" "x XOR a = x XOR b \<longleftrightarrow> a = b" for a b x :: u32
  by (auto simp: bit_eq_iff bit_xor_iff)

lemma crc_byte_inj: "crc_byte a d = crc_byte b d \<longleftrightarrow> a = b"
proof -
  show ?thesis unfolding crc_byte_def crc_bits_inj xor_u32_cancel ..
qed

lemma gr_update_crc32_inj: "gr_update_crc32 a ds = gr_update_crc32 b ds \<longleftrightarrow> a = b"
  by (induction ds arbitrary: a b) (simp_all add: update_is_fold crc_byte_inj)

lemma word_of_bytes_inj: "length as = length bs \<Longrightarrow> length bs \<le> 4 \<Longrightarrow> word_of_bytes as = word_of_bytes bs \<Longrightarrow> as = bs"
proof (induction as bs rule: list_induct2)
  case (Cons a as b bs)
  have eq: "bit (word_of_bytes (a # as)) j = bit (word_of_bytes (b # bs)) j" for j using Cons.prems(2) by simp
  have "bit a j = bit b j" if "j < 8" for j
  proof -
    have "\<not> bit w (32 + j)" for w :: u32 using bit_imp_le_length [of w "32 + j"] by auto
    then show ?thesis using eq [of "24 + j"] that by (simp add: bit_simps)
  qed
  then have ab: "a = b" by (intro bit_word_eqI) simp
  have "bit (word_of_bytes as) j = bit (word_of_bytes bs) j" if "j < 32" for j
  proof (cases "j < 8")
    case True
    then show ?thesis using word_of_bytes_low [of as j] word_of_bytes_low [of bs j] Cons.hyps Cons.prems(1) by simp
  next
    case False
    then show ?thesis using eq [of "j - 8"] that ab by (simp add: bit_simps) blast
  qed
  then have "word_of_bytes as = word_of_bytes bs" by (intro bit_word_eqI) simp
  then show ?case using Cons ab by simp
qed simp

text \<open>A word as its bytes, the most significant first.\<close>

definition bytes_of_word :: "u32 \<Rightarrow> u8 list" where
  "bytes_of_word w = map (\<lambda>k. ucast (drop_bit k w)) [24, 16, 8, 0]"

lemma word_of_bytes_of_word: "word_of_bytes (bytes_of_word w) = w"
proof (rule bit_word_eqI)
  fix j
  assume j: "j < LENGTH(32)"
  then consider "j < 8" | "8 \<le> j" "j < 16" | "16 \<le> j" "j < 24" | "24 \<le> j" "j < 32" by fastforce
  then show "bit (word_of_bytes (bytes_of_word w)) j = bit w j"
    by cases (auto simp: bytes_of_word_def bit_simps)
qed

lemma crc_ones: "(crc_bit ^^ 32) 0xffffffff = 0xC704DD7B"
proof -
  let ?xs = "[0xffffffff, 0xfb3ee249, 0xf2bcd925, 0xe1b8affd, 0xc7b0424d, 0x8ba1992d, 0x13822fed, 0x27045fda,
    0x4e08bfb4, 0x9c117f68, 0x3ce3e367, 0x79c7c6ce, 0xf38f8d9c, 0xe3de068f, 0xc37d10a9, 0x823b3ce5,
    0xb7647d, 0x16ec8fa, 0x2dd91f4, 0x5bb23e8, 0xb7647d0, 0x16ec8fa0, 0x2dd91f40, 0x5bb23e80,
    0xb7647d00, 0x6a09e7b7, 0xd413cf6e, 0xace6836b, 0x5d0c1b61, 0xba1836c2, 0x70f17033, 0xe1e2e066,
    0xc704dd7b]"
  have "iterates crc_bit ?xs" by (simp add: crc_bit_numeral)
  from iterates_nth [OF this, of 32] show ?thesis by simp
qed

text \<open>
  C11: a message followed by its own check value, most significant byte first, always has the same
  check value.
\<close>

theorem crc32_residue: "gr_crc32 (ds @ bytes_of_word (gr_crc32 ds)) = 0x38FB2284"
proof -
  let ?r = "gr_update_crc32 0xffffffff ds" and ?c = "gr_crc32 ds"
  have "length (bytes_of_word ?c) = 4" by (simp add: bytes_of_word_def)
  then have "gr_update_crc32 ?r (bytes_of_word ?c) = (crc_bit ^^ 32) (?r XOR ?c)"
    using update_word [of "bytes_of_word ?c" ?r] by (simp add: word_of_bytes_of_word)
  also have "?r XOR ?c = 0xffffffff" unfolding gr_crc32_def by (simp only: xor.assoc [symmetric] xor_self_eq xor.left_neutral)
  finally show ?thesis by (simp add: gr_crc32_def gr_update_crc32_append crc_ones)
qed

text \<open>
  C10: the check value tells any two messages apart that differ within four neighbouring bytes.
\<close>

theorem crc32_burst:
  assumes "length as = length bs" "length bs \<le> 4"
  shows "gr_crc32 (xs @ as @ ys) = gr_crc32 (xs @ bs @ ys) \<longleftrightarrow> as = bs"
proof
  let ?r = "gr_update_crc32 0xffffffff xs"
  assume "gr_crc32 (xs @ as @ ys) = gr_crc32 (xs @ bs @ ys)"
  then have "gr_update_crc32 ?r as = gr_update_crc32 ?r bs"
    unfolding gr_crc32_def gr_update_crc32_append xor_u32_cancel gr_update_crc32_inj .
  then have "?r XOR word_of_bytes as = ?r XOR word_of_bytes bs"
    using update_word [of as ?r] update_word [of bs ?r] assms by (simp add: crc_bits_inj)
  then show "as = bs" unfolding xor_u32_cancel by (rule word_of_bytes_inj [OF assms])
qed simp

theorem crc32_burst_witness:
  "gr_crc32 ([0x61] @ [0x62] @ [0x63]) = gr_crc32 ([0x61] @ [0x60] @ [0x63]) \<longleftrightarrow> [0x62] = [0x60 :: u8]"
  by (rule crc32_burst) simp_all

section \<open>Counting bits\<close>

fun count_set :: "nat \<Rightarrow> u32 \<Rightarrow> u32" where
  "count_set 0 x = 0"
| "count_set (Suc n) x = (if x AND push_bit n 1 \<noteq> 0 then count_set n x + 1 else count_set n x)"

definition gr_count_bits8 :: "u32 \<Rightarrow> u32" where
  "gr_count_bits8 x = count_set 8 x"

definition gr_count_bits16 :: "u32 \<Rightarrow> u32" where
  "gr_count_bits16 x = count_set 16 x"

definition gr_count_bits32 :: "u32 \<Rightarrow> u32" where
  "gr_count_bits32 x =
     (let res = (x AND 0x55555555) + (drop_bit 1 x AND 0x55555555);
          res = (res AND 0x33333333) + (drop_bit 2 res AND 0x33333333);
          res = (res AND 0x0F0F0F0F) + (drop_bit 4 res AND 0x0F0F0F0F);
          res = (res AND 0x00FF00FF) + (drop_bit 8 res AND 0x00FF00FF)
      in (res AND 0x0000FFFF) + (drop_bit 16 res AND 0x0000FFFF))"

definition gr_count_bits64 :: "u64 \<Rightarrow> u32" where
  "gr_count_bits64 x = gr_count_bits32 (ucast (drop_bit 32 x AND 0xffffffff)) + gr_count_bits32 (ucast (x AND 0xffffffff))"

text \<open>Numbers by their digits to base \<open>2 ^ w\<close>, the lowest first.\<close>

fun digits_value :: "nat \<Rightarrow> nat list \<Rightarrow> nat" where
  "digits_value w [] = 0"
| "digits_value w (x # xs) = x + 2 ^ w * digits_value w xs"

fun pair_sums :: "nat list \<Rightarrow> nat list" where
  "pair_sums (a # b # xs) = (a + b) # pair_sums xs"
| "pair_sums xs = []"

fun low_halves :: "nat \<Rightarrow> nat \<Rightarrow> nat" where
  "low_halves w 0 = 0"
| "low_halves w (Suc m) = 2 ^ w - 1 + 2 ^ w * (2 ^ w * low_halves w m)"

lemma low_halves_numeral:
  "low_halves w (numeral n) = 2 ^ w - 1 + 2 ^ w * (2 ^ w * low_halves w (pred_numeral n))"
  "low_halves w 1 = 2 ^ w - 1"
  by (simp_all add: numeral_eq_Suc One_nat_def)

lemma bit_joined: "a < 2 ^ w \<Longrightarrow> bit (a + 2 ^ w * b) j \<longleftrightarrow> (if j < w then bit a j else bit b (j - w))" for a b :: nat
proof -
  assume a: "a < 2 ^ w"
  then have low: "\<not> bit a i" if "\<not> i < w" for i using that by (metis bit_take_bit_iff take_bit_nat_eq_self)
  have "a AND push_bit w b = 0" by (rule bit_eqI) (use low in \<open>auto simp: bit_simps\<close>)
  then have "a + push_bit w b = a OR push_bit w b" by (rule disjunctive_add_eq_or)
  then have "a + 2 ^ w * b = a OR push_bit w b" by (simp add: push_bit_eq_mult mult.commute)
  then show ?thesis using low by (auto simp: bit_or_iff bit_push_bit_iff)
qed

lemma and_joined:
  "a < 2 ^ w \<Longrightarrow> c < 2 ^ w \<Longrightarrow> (a + 2 ^ w * b) AND (c + 2 ^ w * d) = (a AND c) + 2 ^ w * (b AND d)" for a b c d :: nat
proof -
  assume a: "a < 2 ^ w" "c < 2 ^ w"
  then have ac: "a AND c < 2 ^ w" by (metis take_bit_and take_bit_nat_eq_self_iff)
  show ?thesis by (rule bit_eqI) (use a ac in \<open>simp add: bit_joined bit_and_iff\<close>)
qed

lemma add_halves:
  assumes "\<And>z. z \<in> set zs \<Longrightarrow> z < 2 ^ w"
  shows "length zs = 2 * m \<Longrightarrow>
    (digits_value w zs AND low_halves w m) + (drop_bit w (digits_value w zs) AND low_halves w m) = digits_value (2 * w) (pair_sums zs)"
  using assms
proof (induction zs arbitrary: m rule: pair_sums.induct)
  case (1 a b zs)
  then obtain k where m: "m = Suc k" and k: "length zs = 2 * k" by (cases m) auto
  let ?v = "digits_value w zs" and ?M = "low_halves w k"
  have ab: "a < 2 ^ w" "b < 2 ^ w" using 1(3) by simp_all
  have top: "(2 :: nat) ^ w - 1 < 2 ^ w" by simp
  have self: "x AND (2 ^ w - 1) = x" if "x < 2 ^ w" for x :: nat
    using take_bit_nat_eq_self [OF that] unfolding take_bit_eq_mask mask_eq_exp_minus_1 .
  have IH: "(?v AND ?M) + (drop_bit w ?v AND ?M) = digits_value (2 * w) (pair_sums zs)" using 1(1) [OF k] 1(3) by simp
  have shift: "x AND (2 ^ w * y) = 2 ^ w * (drop_bit w x AND y)" for x y :: nat
  proof (rule bit_eqI)
    fix j
    show "bit (x AND 2 ^ w * y) j = bit (2 ^ w * (drop_bit w x AND y)) j"
      using bit_joined [of 0 w y j] bit_joined [of 0 w "drop_bit w x AND y" j] by (auto simp: bit_and_iff bit_drop_bit_eq)
  qed
  have d1: "drop_bit w (digits_value w (a # b # zs)) = b + 2 ^ w * ?v"
    using ab(1) by (simp add: drop_bit_eq_div)
  have d2: "drop_bit w (b + 2 ^ w * ?v) = ?v" using ab(2) by (simp add: drop_bit_eq_div)
  have "digits_value w (a # b # zs) AND low_halves w m = a + 2 ^ w * ((b + 2 ^ w * ?v) AND (2 ^ w * ?M))"
    unfolding m digits_value.simps low_halves.simps and_joined [OF ab(1) top] self [OF ab(1)] ..
  also have "\<dots> = a + 2 ^ w * (2 ^ w * (?v AND ?M))" unfolding shift d2 ..
  finally have x: "digits_value w (a # b # zs) AND low_halves w m = a + 2 ^ w * (2 ^ w * (?v AND ?M))" .
  have "(b + 2 ^ w * ?v) AND low_halves w m = b + 2 ^ w * (?v AND (2 ^ w * ?M))"
    unfolding m low_halves.simps and_joined [OF ab(2) top] self [OF ab(2)] ..
  also have "\<dots> = b + 2 ^ w * (2 ^ w * (drop_bit w ?v AND ?M))" unfolding shift ..
  finally have y: "(b + 2 ^ w * ?v) AND low_halves w m = b + 2 ^ w * (2 ^ w * (drop_bit w ?v AND ?M))" .
  have "digits_value (2 * w) (pair_sums (a # b # zs)) = a + b + 2 ^ w * (2 ^ w * ((?v AND ?M) + (drop_bit w ?v AND ?M)))"
    unfolding pair_sums.simps digits_value.simps IH by (simp add: power_add mult_2 mult.assoc)
  then show ?case unfolding d1 x y by (simp add: distrib_left)
qed auto

lemma digits_bound: "\<lbrakk>\<And>z. z \<in> set zs \<Longrightarrow> z < 2 ^ w\<rbrakk> \<Longrightarrow> digits_value w zs < 2 ^ (w * length zs)"
proof (induction zs)
  case (Cons z zs)
  then have "z + 2 ^ w * digits_value w zs < 2 ^ w * (digits_value w zs + 1)" by simp
  also have "\<dots> \<le> 2 ^ w * 2 ^ (w * length zs)" using Cons by (intro mult_left_mono) (simp_all add: Suc_le_eq)
  finally show ?case by (simp add: power_add)
qed simp

lemma pair_sums_list: "length zs = 2 * m \<Longrightarrow> length (pair_sums zs) = m \<and> sum_list (pair_sums zs) = sum_list zs"
proof (induction zs arbitrary: m rule: pair_sums.induct)
  case (1 a b zs)
  then show ?case by (cases m) auto
qed auto

lemma pair_sums_le: "\<lbrakk>\<And>z. z \<in> set zs \<Longrightarrow> z \<le> c\<rbrakk> \<Longrightarrow> y \<in> set (pair_sums zs) \<Longrightarrow> y \<le> 2 * c"
proof (induction zs rule: pair_sums.induct)
  case (1 a b zs)
  have "a \<le> c" "b \<le> c" using 1(2) by simp_all
  then have "a + b \<le> 2 * c" by simp
  then show ?case using 1 by auto
qed auto

text \<open>One step of the fast count: fields of \<open>w\<close> bits to fields of twice as many.\<close>

definition fields :: "nat \<Rightarrow> nat \<Rightarrow> nat \<Rightarrow> u32 \<Rightarrow> nat \<Rightarrow> bool" where
  "fields w m c r n \<longleftrightarrow> (\<exists>zs. unat r = digits_value w zs \<and> length zs = m \<and> (\<forall>z \<in> set zs. z \<le> c) \<and> sum_list zs = n)"

lemma fields_step:
  assumes "fields w (2 * m) c r n" "c < 2 ^ w" "2 * c < 2 ^ (2 * w)" "2 * w * m = 32" "unat M = low_halves w m"
  shows "fields (2 * w) m (2 * c) ((r AND M) + (drop_bit w r AND M)) n"
proof -
  obtain zs where zs: "unat r = digits_value w zs" "length zs = 2 * m" "\<And>z. z \<in> set zs \<Longrightarrow> z \<le> c" "sum_list zs = n"
    using assms(1) by (auto simp: fields_def)
  have less: "z < 2 ^ w" if "z \<in> set zs" for z using zs(3) [OF that] assms(2) by simp
  have ps: "length (pair_sums zs) = m" "sum_list (pair_sums zs) = n" "\<And>z. z \<in> set (pair_sums zs) \<Longrightarrow> z \<le> 2 * c"
    using pair_sums_list [OF zs(2)] pair_sums_le [OF zs(3)] zs(4) by auto
  have "digits_value (2 * w) (pair_sums zs) < 2 ^ (2 * w * length (pair_sums zs))"
    by (rule digits_bound) (use ps(3) assms(3) in fastforce)
  then have bound: "digits_value (2 * w) (pair_sums zs) < 2 ^ 32" using ps(1) assms(4) by simp
  have "unat r < 2 ^ 32" using unsigned_less [of r, where ?'a = nat] by simp
  then have r: "take_bit 32 (digits_value w zs) = digits_value w zs" unfolding zs(1) by (rule take_bit_nat_eq_self)
  have sum: "unat (r AND M) + unat (drop_bit w r AND M) = digits_value (2 * w) (pair_sums zs)"
    using add_halves [OF less zs(2)] r by (simp add: unsigned_and_eq unsigned_drop_bit_eq zs(1) assms(5))
  then have "unat ((r AND M) + (drop_bit w r AND M)) = digits_value (2 * w) (pair_sums zs)"
    using bound by (simp add: unat_plus_if')
  then show ?thesis using ps unfolding fields_def by blast
qed

lemma count_set_sum: "n \<le> 32 \<Longrightarrow> unat (count_set n x) = (\<Sum>i<n. of_bool (bit x i)) \<and> unat (count_set n x) \<le> n"
proof (induction n)
  case (Suc n)
  have "x AND push_bit n 1 \<noteq> 0 \<longleftrightarrow> bit x n" by (rule bit_iff_and_push_bit_not_eq_0 [symmetric])
  moreover have "unat (count_set n x + 1) = unat (count_set n x) + 1"
    using Suc by (simp add: unat_plus_if')
  ultimately show ?case using Suc by simp
qed simp

fun bits_of :: "nat \<Rightarrow> nat \<Rightarrow> nat list" where
  "bits_of 0 n = []"
| "bits_of (Suc k) n = of_bool (odd n) # bits_of k (n div 2)"

lemma bits_of_value: "n < 2 ^ k \<Longrightarrow> digits_value 1 (bits_of k n) = n"
proof (induction k arbitrary: n)
  case (Suc k)
  then have "digits_value 1 (bits_of k (n div 2)) = n div 2" by simp
  then show ?case by (cases "odd n") (auto elim: oddE evenE)
qed simp

lemma bits_of_sum: "sum_list (bits_of k n) = (\<Sum>i<k. of_bool (bit n i))"
proof (induction k arbitrary: n)
  case (Suc k)
  have "(\<Sum>i<Suc k. of_bool (bit n i)) = (of_bool (bit n 0) + (\<Sum>i<k. of_bool (bit n (Suc i))) :: nat)"
    by (rule sum.lessThan_Suc_shift)
  then show ?case using Suc.IH [of "n div 2"] by (simp add: bit_Suc bit_0)
qed simp

lemma bits_of_list: "length (bits_of k n) = k \<and> (\<forall>z \<in> set (bits_of k n). z \<le> 1)"
  by (induction k arbitrary: n) auto

lemma count_bits_fields: "fields 32 1 32 (gr_count_bits32 x) (\<Sum>i<32. of_bool (bit x i))"
proof -
  have "unat x < 2 ^ 32" using unsigned_less [of x, where ?'a = nat] by simp
  then have "fields 1 32 1 x (\<Sum>i<32. of_bool (bit (unat x) i))"
    unfolding fields_def using bits_of_value [of "unat x" 32] bits_of_sum [of 32 "unat x"] bits_of_list [of 32 "unat x"]
    by (intro exI [of _ "bits_of 32 (unat x)"]) auto
  moreover have "(\<Sum>i<32. of_bool (bit (unat x) i)) = (\<Sum>i<32. of_bool (bit x i) :: nat)"
    by (rule sum.cong) (simp_all add: bit_unsigned_iff)
  ultimately have f0: "fields 1 (2 * 16) 1 x (\<Sum>i<32. of_bool (bit x i))" by simp
  let ?f = "\<lambda>w M r :: u32. (r AND M) + (drop_bit w r AND M)"
  have m: "unat (0x55555555 :: u32) = low_halves 1 16" "unat (0x33333333 :: u32) = low_halves 2 8"
    "unat (0x0F0F0F0F :: u32) = low_halves 4 4" "unat (0x00FF00FF :: u32) = low_halves 8 2" "unat (0x0000FFFF :: u32) = low_halves 16 1"
    by (simp_all add: low_halves_numeral)
  have f1: "fields 2 (2 * 8) 2 (?f 1 0x55555555 x) (\<Sum>i<32. of_bool (bit x i))"
    using fields_step [OF f0 _ _ _ m(1)] by simp
  have f2: "fields 4 (2 * 4) 4 (?f 2 0x33333333 (?f 1 0x55555555 x)) (\<Sum>i<32. of_bool (bit x i))"
    using fields_step [OF f1 _ _ _ m(2)] by simp
  have f3: "fields 8 (2 * 2) 8 (?f 4 0x0F0F0F0F (?f 2 0x33333333 (?f 1 0x55555555 x))) (\<Sum>i<32. of_bool (bit x i))"
    using fields_step [OF f2 _ _ _ m(3)] by simp
  have f4: "fields 16 (2 * 1) 16 (?f 8 0x00FF00FF (?f 4 0x0F0F0F0F (?f 2 0x33333333 (?f 1 0x55555555 x)))) (\<Sum>i<32. of_bool (bit x i))"
    using fields_step [OF f3 _ _ _ m(4)] by simp
  show ?thesis
    using fields_step [OF f4 _ _ _ m(5)] by (simp add: gr_count_bits32_def Let_def)
qed

lemma count_bits_sums:
  shows "gr_count_bits32 x = count_set 32 x" "unat (gr_count_bits64 y) = (\<Sum>i<64. of_bool (bit y i))"
proof -
  have c: "unat (gr_count_bits32 x) = (\<Sum>i<32. of_bool (bit x i))" for x
  proof -
    obtain zs where zs: "unat (gr_count_bits32 x) = digits_value 32 zs" "length zs = 1" "sum_list zs = (\<Sum>i<32. of_bool (bit x i))"
      using count_bits_fields [of x] unfolding fields_def by blast
    then show ?thesis by (cases zs) auto
  qed
  then show "gr_count_bits32 x = count_set 32 x" using count_set_sum [of 32 x] c [of x] by (simp add: word_unat_eq_iff)
  let ?h = "ucast (drop_bit 32 y AND 0xffffffff) :: u32" and ?l = "ucast (y AND 0xffffffff) :: u32"
  have bits: "bit ?h i = bit y (32 + i)" "bit ?l i = bit y i" if "i < 32" for i
  proof -
    have "bit (0xffffffff :: u64) i" using that bit_mask_iff [of 32 i, where ?'a = u64] by (simp add: mask_numeral)
    then show "bit ?h i = bit y (32 + i)" "bit ?l i = bit y i" using that by (simp_all add: bit_unsigned_iff bit_and_iff bit_drop_bit_eq)
  qed
  have h: "unat (gr_count_bits32 ?h) = (\<Sum>i<32. of_bool (bit y (32 + i)))" and l: "unat (gr_count_bits32 ?l) = (\<Sum>i<32. of_bool (bit y i))"
    unfolding c by (rule sum.cong; use bits in simp)+
  have split: "(\<Sum>i<m + n. f i) = (\<Sum>i<m. f i) + (\<Sum>i<n. f (m + i) :: nat)" for f and m n :: nat
    by (induction n) simp_all
  have "unat (gr_count_bits32 z) \<le> 32" for z
    using sum_mono [of "{..<32}" "\<lambda>i. of_bool (bit z i)" "\<lambda>i. 1 :: nat"] by (simp add: c)
  then have "unat (gr_count_bits32 ?h) + unat (gr_count_bits32 ?l) \<le> 64" by (metis add_mono numeral_Bit0)
  then have "unat (gr_count_bits64 y) = unat (gr_count_bits32 ?h) + unat (gr_count_bits32 ?l)"
    by (simp add: gr_count_bits64_def unat_plus_if')
  then show "unat (gr_count_bits64 y) = (\<Sum>i<64. of_bool (bit y i))" using split [of "\<lambda>i. of_bool (bit y i)" 32 32] h l by simp
qed

text \<open>
  C14: the fast count of the set bits of a word, in five steps, is the count bit by bit that it
  replaces; and the count of a 64 bit word adds those of its halves.
\<close>

theorem count_bits_fast:
  "gr_count_bits32 x = count_set 32 x \<and> unat (gr_count_bits64 y) = (\<Sum>i<64. of_bool (bit y i))"
  using count_bits_sums by blast

end
