(* ===== verification/Gr_Lfsr.thy ===== *)
theory Gr_Lfsr
  imports Gr_Bits
begin

text \<open>
  Shift registers with feedback (\<open>gri_lfsr.h\<close>) and the scramblers made of them: what the
  multiplicative scrambler does to a stream, the descrambler undoes, from any state.
\<close>

section \<open>Shift registers with feedback\<close>

record gri_lfsr =
  d_shift_register :: u32
  d_mask :: u32
  d_seed :: u32
  d_shift_register_length :: u32

definition popCount :: "u32 \<Rightarrow> u32" where
  "popCount x =
     (let r = x - (drop_bit 1 x AND 0xDB6DB6DB) - (drop_bit 2 x AND 0x49249249)
      in ((r + drop_bit 3 r) AND 0xC71C71C7) mod 63)"

definition make_lfsr :: "u32 \<Rightarrow> u32 \<Rightarrow> u32 \<Rightarrow> gri_lfsr gr" where
  "make_lfsr msk seed reg_len =
     (if reg_len > 31 then Inl Invalid_argument
      else Inr \<lparr> d_shift_register = seed, d_mask = msk, d_seed = seed, d_shift_register_length = reg_len \<rparr>)"

definition shift_in :: "u8 \<Rightarrow> gri_lfsr \<Rightarrow> gri_lfsr" where
  "shift_in newbit l = l\<lparr> d_shift_register :=
     drop_bit 1 (d_shift_register l) OR push_bit (unat (d_shift_register_length l)) (ucast newbit) \<rparr>"

definition parity :: "gri_lfsr \<Rightarrow> u8" where
  "parity l = ucast (popCount (d_shift_register l AND d_mask l) mod 2)"

definition next_bit :: "gri_lfsr \<Rightarrow> u8 \<times> gri_lfsr" where
  "next_bit l = (ucast (d_shift_register l AND 1), shift_in (parity l) l)"

definition next_bit_scramble :: "u8 \<Rightarrow> gri_lfsr \<Rightarrow> u8 \<times> gri_lfsr" where
  "next_bit_scramble input l = (ucast (d_shift_register l AND 1), shift_in (parity l XOR (input AND 1)) l)"

definition next_bit_descramble :: "u8 \<Rightarrow> gri_lfsr \<Rightarrow> u8 \<times> gri_lfsr" where
  "next_bit_descramble input l = (parity l XOR (input AND 1), shift_in (input AND 1) l)"

definition lfsr_reset :: "gri_lfsr \<Rightarrow> gri_lfsr" where
  "lfsr_reset l = l\<lparr> d_shift_register := d_seed l \<rparr>"

definition pre_shift :: "nat \<Rightarrow> gri_lfsr \<Rightarrow> gri_lfsr" where
  "pre_shift num l = ((snd \<circ> next_bit) ^^ num) l"


section \<open>Streams through a state\<close>

fun transduce :: "('i \<Rightarrow> 's \<Rightarrow> 'o \<times> 's) \<Rightarrow> 'i list \<Rightarrow> 's \<Rightarrow> 'o list \<times> 's" where
  "transduce f [] s = ([], s)"
| "transduce f (x # xs) s = (let (y, s) = f x s; (ys, s) = transduce f xs s in (y # ys, s))"

lemma length_transduce [simp]: "length (fst (transduce f xs s)) = length xs"
  by (induction xs arbitrary: s) (simp_all add: split_beta Let_def)

lemma transduce_append:
  "transduce f (xs @ ys) s =
     (fst (transduce f xs s) @ fst (transduce f ys (snd (transduce f xs s))), snd (transduce f ys (snd (transduce f xs s))))"
  by (induction xs arbitrary: s) (simp_all add: split_beta Let_def)

section \<open>The register as a queue of bits\<close>

definition lfsr_ok :: "gri_lfsr \<Rightarrow> bool" where
  "lfsr_ok l \<longleftrightarrow> unat (d_shift_register_length l) \<le> 31 \<and> (\<forall>i. bit (d_shift_register l) i \<longrightarrow> i \<le> unat (d_shift_register_length l))"

definition register_bits :: "gri_lfsr \<Rightarrow> bool list" where
  "register_bits l = map (bit (d_shift_register l)) [0..<Suc (unat (d_shift_register_length l))]"

lemma shift_in_fields [simp]:
  "d_mask (shift_in b l) = d_mask l" "d_seed (shift_in b l) = d_seed l"
  "d_shift_register_length (shift_in b l) = d_shift_register_length l"
  by (simp_all add: shift_in_def)

lemma bit_0_or_1: "b \<in> {0, 1 :: u8} \<Longrightarrow> bit (ucast b :: u32) j \<longleftrightarrow> j = 0 \<and> b = 1"
  by (auto simp: bit_1_iff)

lemma shift_in_ok:
  assumes "lfsr_ok l" "b \<in> {0, 1}"
  shows "lfsr_ok (shift_in b l)" "register_bits (shift_in b l) = tl (register_bits l) @ [b = 1]"
proof -
  let ?L = "unat (d_shift_register_length l)"
  have top: "\<not> bit (d_shift_register l) i" if "\<not> i \<le> ?L" for i
    using assms(1) that by (auto simp: lfsr_ok_def)
  have L: "?L \<le> 31" using assms(1) by (simp add: lfsr_ok_def)
  have bits: "bit (d_shift_register (shift_in b l)) i \<longleftrightarrow> (if i = ?L then b = 1 else i < ?L \<and> bit (d_shift_register l) (Suc i))" for i
  proof -
    have "bit (push_bit ?L (ucast b) :: u32) i \<longleftrightarrow> i = ?L \<and> b = 1"
      using L by (auto simp: bit_push_bit_iff bit_0_or_1 [OF assms(2)])
    then show ?thesis using top [of "Suc i"] by (auto simp: shift_in_def bit_or_iff bit_drop_bit_eq One_nat_def Suc_le_eq)
  qed
  show "lfsr_ok (shift_in b l)" using L bits by (auto simp: lfsr_ok_def split: if_splits)
  show "register_bits (shift_in b l) = tl (register_bits l) @ [b = 1]"
  proof (rule nth_equalityI)
    fix i
    assume "i < length (register_bits (shift_in b l))"
    then have "i \<le> ?L" by (simp add: register_bits_def)
    then show "register_bits (shift_in b l) ! i = (tl (register_bits l) @ [b = 1]) ! i"
      using bits [of i] by (simp add: register_bits_def nth_append nth_tl del: upt_Suc)
  qed (simp add: register_bits_def)
qed

lemma register_eq:
  assumes "lfsr_ok l" "lfsr_ok l'" "d_shift_register_length l = d_shift_register_length l'" "register_bits l = register_bits l'"
  shows "d_shift_register l = d_shift_register l'"
proof (rule bit_word_eqI)
  fix i
  let ?L = "unat (d_shift_register_length l)"
  show "bit (d_shift_register l) i = bit (d_shift_register l') i"
  proof (cases "i \<le> ?L")
    case True
    then show ?thesis using arg_cong [OF assms(4), of "\<lambda>xs. xs ! i"] assms(3) by (simp add: register_bits_def del: upt_Suc)
  next
    case False
    then show ?thesis using assms(1-3) by (auto simp: lfsr_ok_def)
  qed
qed

section \<open>Scrambling and back\<close>

lemma and_1_bit: "x AND 1 \<in> {0, 1 :: u8}"
  by (simp add: and_one_eq mod_2_eq_odd)

lemma parity_bit: "parity l \<in> {0, 1}"
proof -
  have "parity l = of_bool (odd (popCount (d_shift_register l AND d_mask l)))"
    unfolding parity_def mod_2_eq_odd by simp
  then show ?thesis by simp
qed

lemma xor_bits: "a \<in> {0, 1 :: u8} \<Longrightarrow> b \<in> {0, 1} \<Longrightarrow> a XOR b \<in> {0, 1}"
  by auto

text \<open>The bits that the scrambler feeds back.\<close>

fun fed_back :: "u8 list \<Rightarrow> gri_lfsr \<Rightarrow> u8 list" where
  "fed_back [] l = []"
| "fed_back (x # xs) l = (parity l XOR (x AND 1)) # fed_back xs (snd (next_bit_scramble x l))"

definition as_bytes :: "bool list \<Rightarrow> u8 list" where
  "as_bytes bs = map of_bool bs"

lemma scramble_out: "lfsr_ok l \<Longrightarrow>
  fst (transduce next_bit_scramble xs l) = take (length xs) (as_bytes (register_bits l) @ fed_back xs l)"
proof (induction xs arbitrary: l)
  case (Cons x xs)
  let ?b = "parity l XOR (x AND 1)" and ?l = "snd (next_bit_scramble x l)"
  have b: "?b \<in> {0, 1}" by (rule xor_bits [OF parity_bit and_1_bit])
  have l: "?l = shift_in ?b l" by (simp add: next_bit_scramble_def)
  have ok: "lfsr_ok ?l" and regs: "register_bits ?l = tl (register_bits l) @ [?b = 1]"
    unfolding l using shift_in_ok [OF Cons.prems b] by auto
  have out: "fst (next_bit_scramble x l) = of_bool (hd (register_bits l))"
    by (simp add: next_bit_scramble_def register_bits_def and_one_eq mod_2_eq_odd bit_0 upt_rec One_nat_def)
  have "of_bool (?b = 1) = ?b" using b by auto
  then have bytes: "as_bytes (register_bits ?l) = tl (as_bytes (register_bits l)) @ [?b]"
    unfolding regs as_bytes_def by (simp add: map_tl)
  have ne: "as_bytes (register_bits l) = of_bool (hd (register_bits l)) # tl (as_bytes (register_bits l))"
    by (simp add: as_bytes_def register_bits_def upt_rec)
  have "fst (transduce next_bit_scramble (x # xs) l) = of_bool (hd (register_bits l)) # fst (transduce next_bit_scramble xs ?l)"
    by (simp add: split_beta out)
  also have "fst (transduce next_bit_scramble xs ?l) = take (length xs) (tl (as_bytes (register_bits l)) @ [?b] @ fed_back xs ?l)"
    unfolding Cons.IH [OF ok] bytes by simp
  also have "of_bool (hd (register_bits l)) # \<dots>
      = take (length (x # xs)) (as_bytes (register_bits l) @ fed_back (x # xs) l)"
    by (subst ne) simp
  finally show ?case .
qed simp

lemma descramble_fed_back:
  "fst (transduce next_bit_descramble (fed_back xs l) l) = map (\<lambda>x. x AND 1) xs"
proof (induction xs arbitrary: l)
  case (Cons x xs)
  let ?b = "parity l XOR (x AND 1)"
  have b: "?b \<in> {0, 1}" by (rule xor_bits [OF parity_bit and_1_bit])
  then have and1: "?b AND 1 = ?b" by auto
  have "snd (next_bit_descramble ?b l) = snd (next_bit_scramble x l)"
    unfolding next_bit_descramble_def next_bit_scramble_def by (simp only: and1 snd_conv)
  moreover have "fst (next_bit_descramble ?b l) = x AND 1"
    unfolding next_bit_descramble_def by (simp only: and1 fst_conv xor.assoc [symmetric] xor_self_eq xor.left_neutral)
  ultimately show ?case using Cons.IH by (simp add: split_beta del: One_nat_def)
qed simp

lemma descramble_fill:
  assumes "lfsr_ok l"
  shows "lfsr_ok (snd (transduce next_bit_descramble (as_bytes bs) l))
    \<and> d_mask (snd (transduce next_bit_descramble (as_bytes bs) l)) = d_mask l
    \<and> d_shift_register_length (snd (transduce next_bit_descramble (as_bytes bs) l)) = d_shift_register_length l
    \<and> register_bits (snd (transduce next_bit_descramble (as_bytes bs) l)) = drop (length bs) (register_bits l @ bs)"
  using assms
proof (induction bs arbitrary: l)
  case Nil
  then show ?case by (simp add: as_bytes_def)
next
  case (Cons b bs)
  let ?b = "of_bool b :: u8"
  let ?l = "snd (next_bit_descramble ?b l)"
  have b: "?b AND 1 \<in> {0, 1}" "(?b AND 1 = 1) = b" by auto
  have l: "?l = shift_in (?b AND 1) l" by (simp add: next_bit_descramble_def)
  have ok: "lfsr_ok ?l" "register_bits ?l = tl (register_bits l) @ [b]"
    unfolding l using shift_in_ok [OF Cons.prems b(1)] b(2) by auto
  have "drop (length (b # bs)) (register_bits l @ b # bs) = drop (length bs) (register_bits ?l @ bs)"
    unfolding ok(2) by (cases "register_bits l") (auto simp: register_bits_def)
  then show ?case using Cons.IH [OF ok(1)] by (simp add: as_bytes_def split_beta l)
qed

lemma roundtrip_within:
  assumes "lfsr_ok l" "lfsr_ok l'" "d_mask l' = d_mask l" "d_shift_register_length l' = d_shift_register_length l"
  shows "drop (Suc (unat (d_shift_register_length l)))
      (fst (transduce next_bit_descramble (fst (transduce next_bit_scramble xs l)) l'))
    = take (length xs - Suc (unat (d_shift_register_length l))) (map (\<lambda>x. x AND 1) xs)"
proof -
  let ?n = "Suc (unat (d_shift_register_length l))" and ?R = "as_bytes (register_bits l)" and ?F = "fed_back xs l"
  have len: "length ?R = ?n" "length (register_bits l') = ?n" by (simp_all add: as_bytes_def register_bits_def assms(4))
  let ?m = "snd (transduce next_bit_descramble ?R l')"
  have fill: "lfsr_ok ?m" "d_mask ?m = d_mask l" "d_shift_register_length ?m = d_shift_register_length l"
    "register_bits ?m = register_bits l"
    using descramble_fill [OF assms(2), of "register_bits l"] assms(3,4) len by (auto simp: as_bytes_def)
  have sr: "d_shift_register ?m = d_shift_register l" by (rule register_eq [OF fill(1) assms(1) fill(3,4)])
  have indep: "fst (transduce next_bit_descramble zs a) = fst (transduce next_bit_descramble zs b)"
    if "d_shift_register a = d_shift_register b" "d_mask a = d_mask b" "d_shift_register_length a = d_shift_register_length b" for zs a b
    using that
  proof (induction zs arbitrary: a b)
    case (Cons z zs)
    have "parity a = parity b" using Cons.prems by (simp add: parity_def)
    moreover have "d_shift_register (shift_in (z AND 1) a) = d_shift_register (shift_in (z AND 1) b)"
      using Cons.prems by (simp add: shift_in_def)
    ultimately show ?case
      using Cons.IH [of "shift_in (z AND 1) a" "shift_in (z AND 1) b"] Cons.prems
      by (simp add: split_beta next_bit_descramble_def)
  qed simp
  have take: "fst (transduce f (take k zs) s) = take k (fst (transduce f zs s))" for f :: "u8 \<Rightarrow> gri_lfsr \<Rightarrow> u8 \<times> gri_lfsr" and k zs s
    by (induction zs arbitrary: k s) (simp_all add: take_Cons split: nat.split, simp add: split_beta)
  have all: "fst (transduce next_bit_descramble (?R @ ?F) l')
      = fst (transduce next_bit_descramble ?R l') @ map (\<lambda>x. x AND 1) xs"
    unfolding transduce_append fst_conv indep [OF sr fill(2,3)] descramble_fed_back ..
  have "fst (transduce next_bit_descramble (fst (transduce next_bit_scramble xs l)) l')
      = take (length xs) (fst (transduce next_bit_descramble ?R l') @ map (\<lambda>x. x AND 1) xs)"
    unfolding scramble_out [OF assms(1)] take all ..
  then show ?thesis using len(1) by (simp only: drop_take) simp
qed

section \<open>Seeds that do not fit the register\<close>

text \<open>
  The constructor takes any 32-bit seed: bits above the length of the register are shifted down
  one place a step, and after at most \<open>31 - length\<close> steps there are none.
\<close>

definition excess :: "nat \<Rightarrow> gri_lfsr \<Rightarrow> bool" where
  "excess k l \<longleftrightarrow> (\<forall>i. bit (d_shift_register l) i \<longrightarrow> i \<le> unat (d_shift_register_length l) + k)"

lemma excess_0: "unat (d_shift_register_length l) \<le> 31 \<Longrightarrow> excess 0 l \<Longrightarrow> lfsr_ok l"
  by (simp add: lfsr_ok_def excess_def)

lemma excess_start: "excess (31 - unat (d_shift_register_length l)) l"
  unfolding excess_def by (auto dest: bit_imp_le_length)

lemma excess_shift:
  assumes "excess (Suc k) l" "b \<in> {0, 1}"
  shows "excess k (shift_in b l)"
proof -
  let ?L = "unat (d_shift_register_length l)"
  have "i \<le> ?L + k" if "bit (d_shift_register (shift_in b l)) i" for i
  proof -
    have "bit (d_shift_register l) (Suc i) \<or> i = ?L"
      using that by (auto simp: shift_in_def bit_or_iff bit_drop_bit_eq bit_push_bit_iff bit_0_or_1 [OF assms(2)] One_nat_def)
    then show ?thesis using assms(1) unfolding excess_def by force
  qed
  then show ?thesis by (simp add: excess_def)
qed

definition shifts :: "(u8 \<Rightarrow> gri_lfsr \<Rightarrow> u8 \<times> gri_lfsr) \<Rightarrow> bool" where
  "shifts f \<longleftrightarrow> (\<forall>x l. \<exists>b\<in>{0, 1}. snd (f x l) = shift_in b l)"

lemma shifts_scramble: "shifts next_bit_scramble"
  unfolding shifts_def next_bit_scramble_def using xor_bits [OF parity_bit and_1_bit] by fastforce

lemma shifts_descramble: "shifts next_bit_descramble"
  unfolding shifts_def next_bit_descramble_def using and_1_bit by fastforce

lemma excess_gone:
  assumes "shifts f" "excess (length xs) l"
  shows "excess 0 (snd (transduce f xs l)) \<and> d_mask (snd (transduce f xs l)) = d_mask l
    \<and> d_shift_register_length (snd (transduce f xs l)) = d_shift_register_length l"
  using assms(2)
proof (induction xs arbitrary: l)
  case (Cons x xs)
  obtain b where "b \<in> {0, 1}" "snd (f x l) = shift_in b l" using assms(1) unfolding shifts_def by blast
  then show ?case using Cons.IH [of "shift_in b l"] excess_shift [of "length xs" l b] Cons.prems
    by (simp add: split_beta)
qed simp

lemma roundtrip_excess:
  assumes "excess k l" "excess k l'" "unat (d_shift_register_length l) \<le> 31"
    "d_mask l' = d_mask l" "d_shift_register_length l' = d_shift_register_length l"
  shows "drop (k + Suc (unat (d_shift_register_length l)))
      (fst (transduce next_bit_descramble (fst (transduce next_bit_scramble xs l)) l'))
    = take (length xs - (k + Suc (unat (d_shift_register_length l)))) (drop k (map (\<lambda>x. x AND 1) xs))"
proof (cases "k \<le> length xs")
  case True
  let ?n = "Suc (unat (d_shift_register_length l))" and ?out = "\<lambda>l xs. fst (transduce next_bit_scramble xs l)"
  define ys zs where "ys = take k xs" and "zs = drop k xs"
  define m m' where "m = snd (transduce next_bit_scramble ys l)" and "m' = snd (transduce next_bit_descramble (?out l ys) l')"
  have xs: "xs = ys @ zs" "length ys = k" using True by (simp_all add: ys_def zs_def)
  have m: "excess 0 m \<and> d_mask m = d_mask l \<and> d_shift_register_length m = d_shift_register_length l"
    unfolding m_def by (rule excess_gone [OF shifts_scramble]) (simp add: assms(1) xs(2))
  have m': "excess 0 m' \<and> d_mask m' = d_mask l' \<and> d_shift_register_length m' = d_shift_register_length l'"
    unfolding m'_def by (rule excess_gone [OF shifts_descramble]) (simp add: assms(2) xs(2))
  have ok: "lfsr_ok m" "lfsr_ok m'" using m m' assms(3,5) by (auto intro!: excess_0)
  have "fst (transduce next_bit_descramble (?out l xs) l')
      = fst (transduce next_bit_descramble (?out l ys) l') @ fst (transduce next_bit_descramble (?out m zs) m')"
    by (simp add: xs(1) transduce_append m_def m'_def)
  then have "drop (k + ?n) (fst (transduce next_bit_descramble (?out l xs) l'))
      = drop ?n (fst (transduce next_bit_descramble (?out m zs) m'))"
    by (simp add: xs(2))
  also have "\<dots> = take (length zs - ?n) (map (\<lambda>x. x AND 1) zs)"
    using roundtrip_within [OF ok, of zs] m m' assms(4,5) by simp
  finally show ?thesis by (simp add: zs_def drop_map)
qed simp

text \<open>
  C8: the descrambler undoes the scrambler with the same polynomial and length, whatever the two
  32-bit registers hold: after 32 bits at the latest it gives the low bits of what was
  scrambled, late by one more than the length of the register.  When the two registers (so the seeds they
  were made with) have no bit above their length, it does so from the first bit it can, as soon as the register
  is filled.
\<close>

theorem scrambler_roundtrip:
  fixes l l' xs
  defines "n \<equiv> unat (d_shift_register_length l)"
  defines "out \<equiv> fst (transduce next_bit_descramble (fst (transduce next_bit_scramble xs l)) l')"
  assumes "n \<le> 31" "d_mask l' = d_mask l" "d_shift_register_length l' = d_shift_register_length l"
  shows "drop 32 out = take (length xs - 32) (drop (31 - n) (map (\<lambda>x. x AND 1) xs))
    \<and> (lfsr_ok l \<and> lfsr_ok l' \<longrightarrow> drop (Suc n) out = take (length xs - Suc n) (map (\<lambda>x. x AND 1) xs))"
proof -
  have "excess (31 - n) l'" using excess_start [of l'] assms(5) by (simp add: n_def)
  then have "drop (31 - n + Suc n) out = take (length xs - (31 - n + Suc n)) (drop (31 - n) (map (\<lambda>x. x AND 1) xs))"
    unfolding out_def n_def using assms(3-5) excess_start [of l] by (intro roundtrip_excess) (simp_all add: n_def)
  moreover have "31 - n + Suc n = 32" using assms(3) by simp
  ultimately have "drop 32 out = take (length xs - 32) (drop (31 - n) (map (\<lambda>x. x AND 1) xs))" by (simp only:)
  moreover have "drop (Suc n) out = take (length xs - Suc n) (map (\<lambda>x. x AND 1) xs)" if "lfsr_ok l" "lfsr_ok l'"
    unfolding out_def n_def by (rule roundtrip_within [OF that assms(4,5)])
  ultimately show ?thesis by blast
qed

definition sample_lfsr :: "u32 \<Rightarrow> gri_lfsr" where
  "sample_lfsr r = \<lparr> d_shift_register = r, d_mask = 0x8A, d_seed = r, d_shift_register_length = 7 \<rparr>"

lemma sample_lfsr_ok: "lfsr_ok (sample_lfsr 0x7F)" "lfsr_ok (sample_lfsr 0)"
proof -
  have "bit (0x7F :: u32) i \<Longrightarrow> i \<le> 7" for i
    using bit_mask_iff [of 7 i, where ?'a = u32] by (simp add: mask_numeral)
  then show "lfsr_ok (sample_lfsr 0x7F)" "lfsr_ok (sample_lfsr 0)" by (auto simp: lfsr_ok_def sample_lfsr_def)
qed

theorem scrambler_roundtrip_witness:
  "drop 8 (fst (transduce next_bit_descramble
      (fst (transduce next_bit_scramble [1, 0, 1, 1, 0, 0, 1, 0, 1, 1] (sample_lfsr 0x7F))) (sample_lfsr 0)))
    = [1 AND 1, 0 AND 1]"
  using scrambler_roundtrip [of "sample_lfsr 0x7F" "sample_lfsr 0" "[1, 0, 1, 1, 0, 0, 1, 0, 1, 1]"] sample_lfsr_ok
  by (simp add: sample_lfsr_def)

end
