(* ===== verification/Gr_Items.thy ===== *)
theory Gr_Items
  imports Gr_Tags Gr_Lfsr
begin

text \<open>
  Blocks of \<open>gnuradio-core/src/lib/general\<close> that work item by item, and head, the differential
  decoder and the null sink: their work methods, and that these keep the contract on which the
  executor's refinement rests.
\<close>

declare of_nat_unat [simp del]

section \<open>Work methods\<close>

text \<open>A work method that passes every item of its input through the state of the block.\<close>

definition item_work :: "('a \<Rightarrow> 's \<Rightarrow> 'a \<times> 's) \<Rightarrow> ('a, 's) work" where
  "item_work f noutput_items ins k s =
     (let (out, s) = transduce f (take (nat noutput_items) (ins ! 0)) s in (noutput_items, [out], s))"

definition gr_scrambler_bb_work :: "(u8, gri_lfsr) work" where
  "gr_scrambler_bb_work = item_work next_bit_scramble"

definition gr_descrambler_bb_work :: "(u8, gri_lfsr) work" where
  "gr_descrambler_bb_work = item_work next_bit_descramble"

record additive_scrambler =
  d_lfsr :: gri_lfsr
  d_count :: int
  d_bits :: int

definition make_additive_scrambler :: "u32 \<Rightarrow> u32 \<Rightarrow> u32 \<Rightarrow> int \<Rightarrow> additive_scrambler gr" where
  "make_additive_scrambler msk seed len count =
     gr_bind (make_lfsr msk seed len) (\<lambda>l. Inr \<lparr> d_lfsr = l, d_count = count, d_bits = 0 \<rparr>)"

definition additive_scramble :: "u8 \<Rightarrow> additive_scrambler \<Rightarrow> u8 \<times> additive_scrambler" where
  "additive_scramble x s =
     (let (b, l) = next_bit (d_lfsr s); s = s\<lparr> d_lfsr := l \<rparr>
      in (x XOR b,
          if d_count s > 0
          then (let n = d_bits s + 1
                in if n = d_count s then s\<lparr> d_lfsr := lfsr_reset (d_lfsr s), d_bits := 0 \<rparr> else s\<lparr> d_bits := n \<rparr>)
          else s))"

definition gr_additive_scrambler_bb_work :: "(u8, additive_scrambler) work" where
  "gr_additive_scrambler_bb_work = item_work additive_scramble"

record diff_encoder =
  d_last_out :: u32
  d_modulus :: u32

definition make_diff_encoder :: "u32 \<Rightarrow> diff_encoder" where
  "make_diff_encoder modulus = \<lparr> d_last_out = 0, d_modulus = modulus \<rparr>"

definition diff_encode :: "u8 \<Rightarrow> diff_encoder \<Rightarrow> u8 \<times> diff_encoder" where
  "diff_encode x s =
     (let out = ucast ((ucast x + d_last_out s) mod d_modulus s) in (out, s\<lparr> d_last_out := ucast out \<rparr>))"

definition gr_diff_encoder_bb_work :: "(u8, diff_encoder) work" where
  "gr_diff_encoder_bb_work = item_work diff_encode"

text \<open>The difference of two bytes is an \<open>int\<close>, the remainder is taken of it as an \<open>unsigned\<close>.\<close>

definition diff_decode :: "u32 \<Rightarrow> u8 \<Rightarrow> u8 \<Rightarrow> u8" where
  "diff_decode modulus prev x = ucast (word_of_int (uint x - uint prev) mod modulus)"

definition gr_diff_decoder_bb_work :: "(u8, u32) work" where
  "gr_diff_decoder_bb_work noutput_items ins k modulus =
     (let xs = ins ! 0
      in (noutput_items, [map (\<lambda>i. diff_decode modulus (xs ! i) (xs ! Suc i)) [0..<nat noutput_items]], modulus))"

definition make_map :: "int list \<Rightarrow> u8 list" where
  "make_map m =
     foldl (\<lambda>d i. d[i := word_of_int (m ! i)]) (map word_of_nat [0..<256]) [0..<min 256 (length m)]"

definition map_item :: "u8 \<Rightarrow> u8 list \<Rightarrow> u8 \<times> u8 list" where
  "map_item x d_map = (d_map ! unat x, d_map)"

definition gr_map_bb_work :: "(u8, u8 list) work" where
  "gr_map_bb_work = item_work map_item"

record gr_head =
  d_nitems :: u64
  d_ncopied_items :: u64

definition make_head :: "u64 \<Rightarrow> gr_head" where
  "make_head nitems = \<lparr> d_nitems = nitems, d_ncopied_items = 0 \<rparr>"

definition gr_head_work :: "('a, gr_head) work" where
  "gr_head_work noutput_items ins k s =
     (if d_ncopied_items s \<ge> d_nitems s then (-1, [[]], s)
      else let n = ucast (min (d_nitems s - d_ncopied_items s) (word_of_int noutput_items)) :: u32
           in if n = 0 then (0, [[]], s)
              else (sint n, [take (unat n) (ins ! 0)], s\<lparr> d_ncopied_items := d_ncopied_items s + ucast n \<rparr>))"

definition gr_head_reset :: "gr_head \<Rightarrow> gr_head" where
  "gr_head_reset s = s\<lparr> d_ncopied_items := 0 \<rparr>"

definition gr_null_sink_work :: "('a, 's) work" where
  "gr_null_sink_work noutput_items ins k s = (noutput_items, [], s)"

definition gr_null_source_work :: "(u8, 's) work" where
  "gr_null_source_work noutput_items ins k s = (noutput_items, [replicate (nat noutput_items) 0], s)"

section \<open>The contract\<close>

definition one_to_one :: "nat \<Rightarrow> nat \<Rightarrow> bool" where
  "one_to_one i k \<longleftrightarrow> i = 1 \<and> k = 1"

lemma item_work_ok: "sync_work (item_work f) one_to_one 1"
proof
  fix ins k and n r :: int and s ws s'
  assume a: "one_to_one (length ins) k" "0 < n" "n < 2 ^ 31" "\<forall>xs \<in> set ins. n + 1 - 1 \<le> int (length xs)"
    "item_work f n ins k s = (r, ws, s')"
  then obtain xs where "ins = [xs]" by (cases ins) (auto simp: one_to_one_def)
  then show "-1 \<le> r \<and> r \<le> n \<and> length ws = k \<and> (\<forall>w \<in> set ws. length w = nat r)"
    using a by (auto simp: item_work_def one_to_one_def split_beta Let_def One_nat_def)
qed

interpretation scrambler: sync_work gr_scrambler_bb_work one_to_one 1
  unfolding gr_scrambler_bb_work_def by (rule item_work_ok)

interpretation descrambler: sync_work gr_descrambler_bb_work one_to_one 1
  unfolding gr_descrambler_bb_work_def by (rule item_work_ok)

interpretation additive: sync_work gr_additive_scrambler_bb_work one_to_one 1
  unfolding gr_additive_scrambler_bb_work_def by (rule item_work_ok)

interpretation diff_enc: sync_work gr_diff_encoder_bb_work one_to_one 1
  unfolding gr_diff_encoder_bb_work_def by (rule item_work_ok)

interpretation map_bb: sync_work gr_map_bb_work one_to_one 1
  unfolding gr_map_bb_work_def by (rule item_work_ok)

interpretation diff_dec: sync_work gr_diff_decoder_bb_work one_to_one 2
  by unfold_locales (auto simp: gr_diff_decoder_bb_work_def one_to_one_def Let_def One_nat_def)

interpretation null_sink: sync_work gr_null_sink_work "\<lambda>i k. i = 1 \<and> k = 0" 1
  by unfold_locales (auto simp: gr_null_sink_work_def)

interpretation null_source: sync_work gr_null_source_work "\<lambda>i k. i = 0 \<and> k = 1" 1
  by unfold_locales (auto simp: gr_null_source_work_def)

lemma head_count:
  assumes "0 < n" "n < 2 ^ 31" "d_ncopied_items s < d_nitems s"
  defines "c \<equiv> ucast (min (d_nitems s - d_ncopied_items s) (word_of_int n)) :: u32"
  shows "int (unat c) = min (int (unat (d_nitems s)) - int (unat (d_ncopied_items s))) n" "sint c = int (unat c)"
proof -
  have w: "int (unat (word_of_int n :: u64)) = n" using assms(1,2) by (simp add: unat_eq_nat_uint uint_word_of_int take_bit_eq_mod)
  have d: "int (unat (d_nitems s - d_ncopied_items s)) = int (unat (d_nitems s)) - int (unat (d_ncopied_items s))"
    using assms(3) by (simp add: unat_sub_if' word_less_nat_alt of_nat_diff)
  have m: "int (unat (min (d_nitems s - d_ncopied_items s) (word_of_int n))) = min (int (unat (d_nitems s)) - int (unat (d_ncopied_items s))) n"
    unfolding min_def word_le_nat_alt using w d by auto
  then have "int (unat (min (d_nitems s - d_ncopied_items s) (word_of_int n))) < 2 ^ 31" using assms(2) by linarith
  then have "unat (min (d_nitems s - d_ncopied_items s) (word_of_int n)) < 2 ^ 31" by simp
  then have c: "unat c = unat (min (d_nitems s - d_ncopied_items s) (word_of_int n))" "unat c < 2 ^ 31"
    unfolding c_def by (simp_all add: unsigned_ucast_eq take_bit_nat_eq_self)
  show "int (unat c) = min (int (unat (d_nitems s)) - int (unat (d_ncopied_items s))) n" using c(1) m by simp
  show "sint c = int (unat c)" using c(2) by (rule sint_small)
qed

interpretation head: sync_work gr_head_work one_to_one 1
proof
  fix ins :: "'a list list" and k and n r :: int and s ws s'
  assume a: "one_to_one (length ins) k" "0 < n" "n < 2 ^ 31" "\<forall>xs \<in> set ins. n + 1 - 1 \<le> int (length xs)"
    "gr_head_work n ins k s = (r, ws, s')"
  obtain xs where xs: "ins = [xs]" using a(1) by (cases ins) (auto simp: one_to_one_def)
  let ?c = "ucast (min (d_nitems s - d_ncopied_items s) (word_of_int n)) :: u32"
  show "-1 \<le> r \<and> r \<le> n \<and> length ws = k \<and> (\<forall>w \<in> set ws. length w = nat r)"
  proof (cases "d_ncopied_items s < d_nitems s")
    case True
    note c = head_count [OF a(2,3) True]
    have "int (unat ?c) \<le> n" unfolding c(1) by simp
    then show ?thesis using a xs True c(2) by (auto simp: gr_head_work_def one_to_one_def Let_def split: if_splits)
  next
    case False
    then show ?thesis using a by (auto simp: gr_head_work_def one_to_one_def not_less)
  qed
qed

section \<open>Iterations\<close>

text \<open>
  C1: an iteration of the executor on a synchronous block refines a step of its streams: either the
  work method is called once, on a multiple of the output multiple that all inputs and outputs have
  room for, with everything that the block has not read, and the readers move by what it returns and
  its results are appended to all outputs; or some input is short of the smallest request or some
  output of the room for it, and no stream changes.  Only malformed tags raise exceptions.
\<close>

theorem sync_iteration:
  assumes "sync_work work ports h" "ports (length ins) (length outs)" "synchronous (bs m) work h"
    and "wired rt m ins outs" "streams rt H P (\<lambda>k. [])" "details rt m = Some d" "\<not> d_finished d" "ins \<noteq> [] \<or> outs \<noteq> []"
    and "\<And>k. k < length (buffers rt) \<Longrightarrow> int (unat (d_bufsize (buffers rt ! k))) + h \<le> 2 ^ 31"
  shows "(\<exists>p. run_one_iteration bs m rt = Some (Inl (Pmt_exception p)))
    \<or> (\<exists>st rt'. run_one_iteration bs m rt = Some (Inr (st, rt')) \<and> stepped work (d_output_multiple (bs m)) h rt H P ins outs st rt')"
  using sync_work.iteration_ok [where bs = bs and m = m and ports = ports, OF assms(1,2,4,5,3,9,8,6,7)] unfolding stepped_or_tag_def by metis

text \<open>
  C3: a synchronous block is not held up when every input holds the items of the smallest request
  (the output multiple and the history before it), every output has room for it, its work method
  gives something whenever it is asked for something, and the tags in the buffers name
  their items: the iteration ends in \<open>READY\<close>, it has called the work method for a positive multiple of the output
  multiple, and all readers and all outputs have moved by the same positive number of items that the method gave.
\<close>

theorem ready_block_runs:
  assumes "sync_work work ports h" "ports (length ins) (length outs)" "synchronous (bs m) work h"
    and "wired rt m ins outs" "streams rt H P (\<lambda>k. [])" "details rt m = Some d" "\<not> d_finished d" "ins \<noteq> [] \<or> outs \<noteq> []"
    and "\<And>k. k < length (buffers rt) \<Longrightarrow> int (unat (d_bufsize (buffers rt ! k))) + h \<le> 2 ^ 31"
    and "\<And>i. i \<in> set ins \<Longrightarrow> d_output_multiple (bs m) + h - 1 \<le> int (length (unread H P i))"
    and "\<And>k. k \<in> set outs \<Longrightarrow> roomy (d_output_multiple (bs m)) (buffers rt ! k) (H k) (P k)"
    and "\<And>n xs. 0 < n \<Longrightarrow> 0 < fst (work n xs (length outs) (inner rt))"
    and "\<And>b t. b \<in> set (buffers rt) \<Longrightarrow> t \<in> set (d_item_tags b) \<Longrightarrow> \<exists>x. item_time (heap rt) t = Inr x"
  shows "\<exists>n r ws s' rt'. run_one_iteration bs m rt = Some (Inr (READY, rt'))
    \<and> 0 < n \<and> d_output_multiple (bs m) dvd n \<and> work n (map (unread H P) ins) (length outs) (inner rt) = (r, ws, s')
    \<and> 0 < r \<and> r \<le> n \<and> inner rt' = s' \<and> streams rt' (\<lambda>k. H k @ stored outs ws k) (advance P ins (nat r)) (\<lambda>k. [])
    \<and> (\<forall>k \<in> set outs. length (stored outs ws k) = nat r)"
proof -
  have l: "legible (heap rt) m rt"
    using assms(4,13) by (auto simp: legible_def legible_tags_def wired_def)
  have ready: "\<not> ((\<exists>i \<in> set ins. int (length (unread H P i)) < d_output_multiple (bs m) + h - 1)
      \<or> (\<exists>k \<in> set outs. \<not> roomy (d_output_multiple (bs m)) (buffers rt ! k) (H k) (P k)))"
    using assms(10,11) by fastforce
  obtain res where res: "run_one_iteration bs m rt = Some res" "stepped_or_tag work (d_output_multiple (bs m)) h rt H P ins outs res"
    using sync_work.iteration_ok [where bs = bs and m = m and ports = ports, OF assms(1,2,4,5,3,9,8,6,7)] by blast
  have "\<forall>p. res \<noteq> Inl (Pmt_exception p)"
    using iteration_fine [of "heap rt" m rt bs, OF l synchronous_calm [OF assms(3)] res(1)] by auto
  then obtain st rt' where st: "res = Inr (st, rt')" "stepped work (d_output_multiple (bs m)) h rt H P ins outs st rt'"
    using res(2) unfolding stepped_or_tag_def by blast
  obtain n where n: "d_output_multiple (bs m) dvd n" "0 < n" "\<forall>i \<in> set ins. n + h - 1 \<le> int (length (unread H P i))"
      "\<forall>k \<in> set outs. room (buffers rt ! k) (H k) (P k) (nat n)" "worked work rt H P ins outs n st rt'"
    using st(2) ready unfolding stepped_def by blast
  obtain r ws s' where w: "work n (map (unread H P) ins) (length outs) (inner rt) = (r, ws, s')" by (metis prod_cases3)
  have r: "0 < r" using assms(12) [OF n(2), of "map (unread H P) ins"] w by simp
  have n31: "n < 2 ^ 31"
  proof (rule request_bound [OF assms(4,5,8) _ _ n(2)])
    show "n \<le> int (length (unread H P i))" if "i \<in> set ins" for i using n(3) that synchronousD(9) [OF assms(3)] by fastforce
    show "room (buffers rt ! k) (H k) (P k) (nat n)" if "k \<in> set outs" for k using n(4) that by blast
  qed
  have given: "r \<le> n" "length ws = length outs" "\<And>x. x \<in> set ws \<Longrightarrow> length x = nat r"
    using sync_work.gives [OF assms(1), of "map (unread H P) ins", OF _ n(2) n31 _ w] assms(2) n(3) by auto
  have "length (stored outs ws k) = nat r" if "k \<in> set outs" for k
    by (rule stored_length [OF given(2,3) that])
  moreover have "st = READY" "inner rt' = s'" "streams rt' (\<lambda>k. H k @ stored outs ws k) (advance P ins (nat r)) (\<lambda>k. [])"
    using n(5) w r by (simp_all add: worked_def)
  ultimately show ?thesis using res(1) st(1) n(1,2) w r given(1)
    by (intro exI [of _ n] exI [of _ r] exI [of _ ws] exI [of _ s'] exI [of _ rt']) simp
qed

text \<open>
  C7: however the executor divides the stream, what a block that works item by item has written is a
  function of what it has read: with \<open>consumed\<close> read so far, the output holds the image of \<open>consumed\<close>
  and the block the state after it, and an iteration keeps this.
\<close>

theorem item_block_stream:
  assumes "synchronous (bs m) (item_work f) 1" "wired rt m [(i, r)] [out]" "streams rt H P (\<lambda>k. [])"
    and "H i = before @ consumed @ rest" "P i r = length (before @ consumed)"
    and "H out = base @ fst (transduce f consumed s0)" "inner rt = snd (transduce f consumed s0)"
    and "run_one_iteration bs m rt = Some (Inr (st, rt'))"
  shows "\<exists>H' P' more rest'. streams rt' H' P' (\<lambda>k. []) \<and> wired rt' m [(i, r)] [out] \<and> rest = more @ rest'
    \<and> H' i = H i \<and> P' i r = length (before @ consumed @ more)
    \<and> H' out = base @ fst (transduce f (consumed @ more) s0) \<and> inner rt' = snd (transduce f (consumed @ more) s0)"
proof -
  obtain d where d: "details rt m = Some d" "detail m rt = Inr d" "d_output d = [Some out]" "d_input d = [Some (i, r)]"
    using assms(2) by (auto simp: wired_def detail_def)
  have nf: "\<not> d_finished d"
  proof
    assume "d_finished d"
    then have "run_one_iteration bs m rt = Some (Inl Assertion_failed)" using d by (simp add: run_one_iteration_def Let_def)
    then show False using assms(8) by simp
  qed
  have small: "int (unat (d_bufsize (buffers rt ! k))) + 1 \<le> 2 ^ 31" if "k < length (buffers rt)" for k
  proof -
    have "unat (d_bufsize (buffers rt ! k)) < 2 ^ 31" by (rule buffer_okD(3) [OF streams_ok [OF assms(3) that]])
    then show ?thesis by simp
  qed
  have st: "stepped (item_work f) (d_output_multiple (bs m)) 1 rt H P [(i, r)] [out] st rt'"
    using sync_work.iteration_ok [where bs = bs and m = m and ports = one_to_one, OF item_work_ok _ assms(2,3,1) small _ d(1) nf] assms(8)
    by (auto simp: stepped_or_tag_def one_to_one_def One_nat_def)
  have w: "wired rt' m [(i, r)] [out]" using same_wiring_wired assms(2) st unfolding stepped_def by blast
  have ne: "i \<noteq> out" using assms(2) by (auto simp: wired_def)
  have un: "unread H P (i, r) = rest" using assms(4,5) by (simp add: unread_def)
  from st consider (ran) n where "0 < n" "n \<le> int (length rest)" "worked (item_work f) rt H P [(i, r)] [out] n st rt'"
    | (held) "inner rt' = inner rt" "streams rt' H P (\<lambda>k. [])"
    by (auto simp: stepped_def un)
  then show ?thesis
  proof cases
    case (ran n)
    let ?more = "take (nat n) rest" and ?s = "snd (transduce f consumed s0)"
    obtain ys s' where ys: "transduce f ?more ?s = (ys, s')" by (cases "transduce f ?more ?s")
    have "item_work f n [rest] (length [out]) (inner rt) = (n, [ys], s')" using ys assms(7) by (simp add: item_work_def)
    then have r: "inner rt' = s'" "streams rt' (\<lambda>k. H k @ stored [out] [ys] k) (advance P [(i, r)] (nat n)) (\<lambda>k. [])"
      using ran(3) by (simp_all add: worked_def un)
    have app: "transduce f (consumed @ ?more) s0 = (fst (transduce f consumed s0) @ ys, s')"
      unfolding transduce_append ys by simp
    have "rest = ?more @ drop (nat n) rest" by simp
    moreover have "H i @ stored [out] [ys] i = H i" using ne by (simp add: stored_def)
    moreover have "advance P [(i, r)] (nat n) i r = length (before @ consumed @ ?more)"
      using assms(5) ran(2) by (simp add: advance_def)
    moreover have "H out @ stored [out] [ys] out = base @ fst (transduce f (consumed @ ?more) s0)"
      using assms(6) unfolding app by (simp add: stored_def)
    moreover have "inner rt' = snd (transduce f (consumed @ ?more) s0)" using r(1) unfolding app by simp
    ultimately show ?thesis using r(2) w
      by (intro exI [of _ "\<lambda>k. H k @ stored [out] [ys] k"] exI [of _ "advance P [(i, r)] (nat n)"] exI [of _ ?more] exI [of _ "drop (nat n) rest"]) blast
  next
    case held
    then show ?thesis using assms(4-7) w by (intro exI [of _ H] exI [of _ P] exI [of _ "[]"] exI [of _ rest]) simp
  qed
qed

section \<open>A concrete graph\<close>

definition sample_item_buffers :: "u8 buffer list" where
  "sample_item_buffers =
     [\<lparr> d_base = [1, 0, 0, 0], d_bufsize = 4, d_readers = [(0, \<lparr> d_read_index = 0, d_abs_read_offset = 0 \<rparr>)],
        d_write_index = 1, d_abs_write_offset = 1, d_done = False, d_item_tags = [], d_last_min_items_read = 0 \<rparr>,
      \<lparr> d_base = [0, 0, 0, 0], d_bufsize = 4, d_readers = [], d_write_index = 0, d_abs_write_offset = 0, d_done = False,
        d_item_tags = [], d_last_min_items_read = 0 \<rparr>]"

definition sample_runtime :: "(u8, diff_encoder) runtime" where
  "sample_runtime = \<lparr> buffers = sample_item_buffers,
     details = [5 \<mapsto> \<lparr> d_input = [Some (0, 0)], d_output = [Some 1], d_finished = False, d_produce_or = 0 \<rparr>],
     next_reader = 1, heap = pmt_start, inner = make_diff_encoder 2 \<rparr>"

definition one_byte :: io_signature where
  "one_byte = \<lparr> d_min_streams = 1, d_max_streams = 1, d_sizeof_stream_item = [1] \<rparr>"

definition sample_encoder :: "(u8, diff_encoder) gr_block" where
  "sample_encoder = gr_sync_block one_byte one_byte gr_diff_encoder_bb_work"

definition sample_history :: "nat \<Rightarrow> u8 list" where
  "sample_history k = (if k = 0 then [0, 0, 0, 0, 1] else [0, 0, 0, 0])"

lemma sample_wired: "wired sample_runtime 5 [(0, 0)] [1]"
  by (auto simp: wired_def sample_runtime_def sample_item_buffers_def)

lemma sample_window: "window [1, 0, 0, 0 :: u8] [0, 0, 0, 0, 1]"
proof -
  have "ring_put [0, 0, 0, 0 :: u8] (length [0, 0, 0, 0 :: u8]) [1] = [1, 0, 0, 0]" by code_simp
  then show ?thesis using window_put [OF window_start, of "[0, 0, 0, 0 :: u8]" "[1]"] by simp
qed

lemma sample_streams: "streams sample_runtime sample_history (\<lambda>k r. 4) (\<lambda>k. [])"
proof -
  have "buffer_ok (sample_item_buffers ! 0) (sample_history 0) (\<lambda>r. 4)"
    using sample_window by (simp add: buffer_ok_def sample_item_buffers_def sample_history_def reader_at_def)
  moreover have "buffer_ok (sample_item_buffers ! 1) (sample_history 1) (\<lambda>r. 4)"
    using window_start [of "[0, 0, 0, 0 :: u8]"] by (simp add: buffer_ok_def sample_item_buffers_def sample_history_def One_nat_def)
  ultimately have "buffer_ok (sample_item_buffers ! k) (sample_history k) (\<lambda>r. 4)" if "k < 2" for k
    using that less_2_cases [OF that] by (auto simp only: One_nat_def)
  moreover have "length (buffers sample_runtime) = 2" "buffers sample_runtime = sample_item_buffers"
    by (simp_all add: sample_runtime_def sample_item_buffers_def)
  ultimately show ?thesis by (simp add: streams_def pending_ok)
qed

lemma sample_synchronous: "synchronous sample_encoder gr_diff_encoder_bb_work 1"
  unfolding synchronous_def
  by (intro conjI exI [of _ one_byte] exI [of _ 1]) (simp_all add: sample_encoder_def gr_sync_block_def make_block_def)

lemma sample_sizes: "k < length (buffers sample_runtime) \<Longrightarrow> int (unat (d_bufsize (buffers sample_runtime ! k))) + 1 \<le> 2 ^ 31"
  by (cases "k = 0") (auto simp: sample_runtime_def sample_item_buffers_def less_Suc_eq)

theorem sync_iteration_witness:
  "(\<exists>p. run_one_iteration (\<lambda>m. sample_encoder) 5 sample_runtime = Some (Inl (Pmt_exception p)))
    \<or> (\<exists>st rt'. run_one_iteration (\<lambda>m. sample_encoder) 5 sample_runtime = Some (Inr (st, rt'))
         \<and> stepped gr_diff_encoder_bb_work 1 1 sample_runtime sample_history (\<lambda>k r. 4) [(0, 0)] [1] st rt')"
proof -
  have "d_output_multiple sample_encoder = 1" by (simp add: sample_encoder_def gr_sync_block_def make_block_def)
  then show ?thesis
    using sync_iteration [OF diff_enc.sync_work_axioms _ _ sample_wired sample_streams _ _ _ sample_sizes,
        of "\<lambda>m. sample_encoder" "\<lparr> d_input = [Some (0, 0)], d_output = [Some 1], d_finished = False, d_produce_or = 0 \<rparr>"]
      sample_synchronous
    by (simp add: one_to_one_def sample_runtime_def One_nat_def)
qed

lemma sample_detail:
  "details sample_runtime 5 = Some \<lparr> d_input = [Some (0, 0)], d_output = [Some 1], d_finished = False, d_produce_or = 0 \<rparr>"
  by (simp add: sample_runtime_def)

lemma sample_roomy: "roomy 1 (buffers sample_runtime ! 1) (sample_history 1) (\<lambda>r. 4)"
  by (simp add: roomy_def room_def sample_runtime_def sample_item_buffers_def sample_history_def One_nat_def)

theorem ready_block_runs_witness:
  "\<exists>n r ws s' rt'. run_one_iteration (\<lambda>m. sample_encoder) 5 sample_runtime = Some (Inr (READY, rt'))
    \<and> 0 < n \<and> d_output_multiple sample_encoder dvd n
    \<and> gr_diff_encoder_bb_work n (map (unread sample_history (\<lambda>k r. 4)) [(0, 0)]) (length [1 :: nat]) (inner sample_runtime) = (r, ws, s')
    \<and> 0 < r \<and> r \<le> n \<and> inner rt' = s'
    \<and> streams rt' (\<lambda>k. sample_history k @ stored [1] ws k) (advance (\<lambda>k r. 4) [(0, 0)] (nat r)) (\<lambda>k. [])
    \<and> (\<forall>k \<in> set [1]. length (stored [1] ws k) = nat r)"
proof -
  have om: "d_output_multiple sample_encoder = 1" by (simp add: sample_encoder_def gr_sync_block_def make_block_def)
  show ?thesis
  proof (rule ready_block_runs [OF diff_enc.sync_work_axioms _ _ sample_wired sample_streams sample_detail _ _ sample_sizes])
    show "d_output_multiple sample_encoder + 1 - 1 \<le> int (length (unread sample_history (\<lambda>k r. 4) i))" if "i \<in> set [(0, 0)]" for i
      using that om by (simp add: unread_def sample_history_def)
    show "roomy (d_output_multiple sample_encoder) (buffers sample_runtime ! k) (sample_history k) (\<lambda>r. 4)" if "k \<in> set [1]" for k
      using that om sample_roomy by simp
    show "0 < fst (gr_diff_encoder_bb_work n xs (length [1 :: nat]) (inner sample_runtime))" if "0 < n" for n and xs :: "u8 list list"
      using that by (simp add: gr_diff_encoder_bb_work_def item_work_def split_beta)
    show "\<exists>x. item_time (heap sample_runtime) t = Inr x" if "b \<in> set (buffers sample_runtime)" "t \<in> set (d_item_tags b)" for b t
      using that by (auto simp: sample_runtime_def sample_item_buffers_def)
  qed (simp_all add: one_to_one_def sample_synchronous One_nat_def)
qed

theorem item_block_stream_witness:
  "case run_one_iteration (\<lambda>m. sample_encoder) 5 sample_runtime of Some (Inr (st, rt')) \<Rightarrow>
     (\<exists>H' P' more rest'. streams rt' H' P' (\<lambda>k. []) \<and> wired rt' 5 [(0, 0)] [1] \<and> [1] = more @ rest'
       \<and> H' 0 = sample_history 0 \<and> P' 0 0 = length ([0, 0, 0, 0 :: u8] @ [] @ more)
       \<and> H' 1 = [0, 0, 0, 0] @ fst (transduce diff_encode ([] @ more) (make_diff_encoder 2))
       \<and> inner rt' = snd (transduce diff_encode ([] @ more) (make_diff_encoder 2)))
   | _ \<Rightarrow> True"
proof -
  have s: "synchronous ((\<lambda>m. sample_encoder) 5) (item_work diff_encode) 1"
    using sample_synchronous by (simp add: gr_diff_encoder_bb_work_def)
  have "\<exists>H' P' more rest'. streams rt' H' P' (\<lambda>k. []) \<and> wired rt' 5 [(0, 0)] [1] \<and> [1] = more @ rest'
       \<and> H' 0 = sample_history 0 \<and> P' 0 0 = length ([0, 0, 0, 0 :: u8] @ [] @ more)
       \<and> H' 1 = [0, 0, 0, 0] @ fst (transduce diff_encode ([] @ more) (make_diff_encoder 2))
       \<and> inner rt' = snd (transduce diff_encode ([] @ more) (make_diff_encoder 2))"
    if "run_one_iteration (\<lambda>m. sample_encoder) 5 sample_runtime = Some (Inr (st, rt'))" for st rt'
    by (rule item_block_stream [OF s sample_wired sample_streams _ _ _ _ that])
      (simp_all add: sample_history_def sample_runtime_def)
  then show ?thesis by (simp split: option.split sum.split prod.split)
qed

section \<open>Differential coding\<close>

fun diff_decode_all :: "u32 \<Rightarrow> u8 \<Rightarrow> u8 list \<Rightarrow> u8 list" where
  "diff_decode_all m prev [] = []"
| "diff_decode_all m prev (x # xs) = diff_decode m prev x # diff_decode_all m x xs"

lemma diff_decoder_all:
  "gr_diff_decoder_bb_work (int (length xs)) [prev # xs] 1 m = (int (length xs), [diff_decode_all m prev xs], m)"
proof -
  have "map (\<lambda>i. diff_decode m ((prev # xs) ! i) ((prev # xs) ! Suc i)) [0..<length xs] = diff_decode_all m prev xs"
  proof (induction xs arbitrary: prev)
    case (Cons x xs)
    show ?case using Cons.IH [of x] by (simp add: map_upt_Suc del: upt_Suc)
  qed simp
  then show ?thesis by (simp add: gr_diff_decoder_bb_work_def)
qed

lemma unat_mod_u8:
  assumes "0 < unat m" "unat m \<le> 256"
  shows "unat (ucast (w mod m) :: u8) = unat w mod unat (m :: u32)"
proof -
  have "unat w mod unat m < 256" using mod_less_divisor [OF assms(1), of "unat w"] assms(2) by linarith
  then show ?thesis by (simp add: unsigned_ucast_eq take_bit_nat_eq_self unat_mod)
qed

lemma unat_sum_u32: "unat (ucast (x :: u8) + ucast (y :: u8) :: u32) = unat x + unat y"
proof -
  have "unat (ucast x :: u32) = unat x" "unat (ucast y :: u32) = unat y" by (simp_all add: unsigned_ucast_eq take_bit_nat_eq_self unat_u8_less [THEN less_trans])
  moreover have "unat x + unat y < 512" using unat_u8_less [of x] unat_u8_less [of y] by linarith
  ultimately show ?thesis by (simp add: unat_plus_if')
qed

lemma int_unat_of_int: "int (unat (word_of_int k :: u32)) = k mod 2 ^ 32"
proof -
  have "int (unat (word_of_int k :: u32)) = uint (word_of_int k :: u32)" by (rule uint_nat [symmetric])
  then show ?thesis by (simp add: uint_word_of_int)
qed

text \<open>Decoding one item: exact if the modulus divides the range of an unsigned.\<close>

lemma diff_decode_encode:
  assumes "0 < unat m" "unat m \<le> 256" "unat m dvd 2 ^ 32" "unat x < unat m"
  shows "diff_decode m prev (ucast ((ucast x + ucast prev) mod m)) = x"
proof -
  let ?M = "unat m"
  define y where "y = (ucast ((ucast x + ucast prev) mod m) :: u8)"
  have y: "unat y = (unat x + unat prev) mod ?M" unfolding y_def unat_mod_u8 [OF assms(1,2)] unat_sum_u32 ..
  have "int ?M dvd 2 ^ 32" using assms(3) by (metis of_nat_dvd_iff of_nat_numeral of_nat_power)
  then have "int (unat (word_of_int (uint y - uint prev) :: u32)) mod int ?M = (uint y - uint prev) mod int ?M"
    unfolding int_unat_of_int by (rule mod_mod_cancel)
  also have "\<dots> = ((int (unat x) + int (unat prev)) mod int ?M - int (unat prev)) mod int ?M"
    using y by (simp add: uint_nat zmod_int)
  also have "\<dots> = int (unat x) mod int ?M" by (simp add: mod_simps)
  also have "\<dots> = int (unat x)" using assms(4) by simp
  finally have "unat (word_of_int (uint y - uint prev) :: u32) mod ?M = unat x" by (simp flip: zmod_int)
  then have "unat (diff_decode m prev y) = unat x" unfolding diff_decode_def unat_mod_u8 [OF assms(1,2)] .
  then show ?thesis unfolding y_def by (simp add: word_unat_eq_iff)
qed

lemma diff_roundtrip_all:
  assumes "0 < unat m" "unat m \<le> 256" "unat m dvd 2 ^ 32"
  shows "\<forall>x \<in> set xs. unat x < unat m \<Longrightarrow>
    diff_decode_all m prev (fst (transduce diff_encode xs \<lparr> d_last_out = ucast prev, d_modulus = m \<rparr>)) = xs"
proof (induction xs arbitrary: prev)
  case (Cons x xs)
  let ?y = "ucast ((ucast x + ucast prev) mod m) :: u8"
  have "diff_decode m prev ?y = x" using diff_decode_encode [OF assms] Cons.prems by simp
  then show ?case using Cons.IH [of ?y] Cons.prems by (simp add: diff_encode_def split_beta Let_def)
qed simp

text \<open>
  C13: the differential decoder recovers every stream of symbols from the differential encoder's
  output exactly for the moduli that divide the range of an \<open>unsigned int\<close>, the powers of two; for
  any other modulus there is a stream that it does not recover.
\<close>

theorem diff_roundtrip:
  assumes "2 \<le> unat m" "unat m \<le> 256"
  shows "(\<forall>xs. (\<forall>x \<in> set xs. unat x < unat m) \<longrightarrow>
      diff_decode_all m 0 (fst (transduce diff_encode xs (make_diff_encoder m))) = xs) \<longleftrightarrow> unat m dvd 2 ^ 32"
proof
  have pos: "0 < unat m" using assms(1) by simp
  assume "unat m dvd 2 ^ 32"
  from diff_roundtrip_all [OF pos assms(2) this, of _ 0]
  show "\<forall>xs. (\<forall>x \<in> set xs. unat x < unat m) \<longrightarrow> diff_decode_all m 0 (fst (transduce diff_encode xs (make_diff_encoder m))) = xs"
    by (simp add: make_diff_encoder_def)
next
  let ?M = "unat m"
  have pos: "0 < ?M" using assms(1) by simp
  assume all: "\<forall>xs. (\<forall>x \<in> set xs. unat x < ?M) \<longrightarrow> diff_decode_all m 0 (fst (transduce diff_encode xs (make_diff_encoder m))) = xs"
  define a where "a = (word_of_nat (?M - 1) :: u8)"
  have a: "unat a = ?M - 1" using assms(2) unfolding a_def by (simp add: unat_of_nat take_bit_nat_eq_self)
  have e1: "ucast ((ucast a + 0) mod m) = a"
    using a pos unat_mod_u8 [OF pos assms(2), of "ucast a + 0"] unat_sum_u32 [of a 0] by (simp add: word_unat_eq_iff)
  have e2: "ucast ((ucast (1 :: u8) + ucast a) mod m) = (0 :: u8)"
    using a assms(1) unat_mod_u8 [OF pos assms(2), of "ucast (1 :: u8) + ucast a"] unat_sum_u32 [of 1 a] by (simp add: word_unat_eq_iff)
  have "\<forall>x \<in> set [a, 1]. unat x < ?M" using assms(1) a by simp
  then have "diff_decode_all m 0 (fst (transduce diff_encode [a, 1] (make_diff_encoder m))) = [a, 1]"
    using all by blast
  then have "diff_decode m a 0 = 1"
    using e1 e2 by (simp add: make_diff_encoder_def diff_encode_def Let_def)
  then have one: "unat (word_of_int (0 - uint a) :: u32) mod ?M = 1"
    unfolding diff_decode_def using unat_mod_u8 [OF pos assms(2), of "word_of_int (uint (0 :: u8) - uint a)"] by simp
  have "int (unat (word_of_int (0 - uint a) :: u32)) = (0 - uint a) mod 2 ^ 32" by (rule int_unat_of_int)
  also have "(0 - uint a) mod 2 ^ 32 = (0 - int (?M - 1)) mod 2 ^ 32" unfolding uint_nat a ..
  also have "(0 - int (?M - 1)) mod 2 ^ 32 = 2 ^ 32 - int (?M - 1)"
  proof -
    have "(0 - v) mod 2 ^ 32 = 2 ^ 32 - v" if "1 \<le> v" "v < 2 ^ 32" for v :: int
      using that by (simp add: zmod_zminus1_eq_if)
    note neg = this
    have "1 \<le> int (?M - 1)" "int (?M - 1) \<le> 256" using assms by linarith+
    then show ?thesis by (intro neg) auto
  qed
  also have "2 ^ 32 - int (?M - 1) = int (2 ^ 32 - (?M - 1))" using assms by (simp add: of_nat_diff)
  finally have "unat (word_of_int (0 - uint a) :: u32) = 2 ^ 32 - (?M - 1)" by (simp only: of_nat_eq_iff)
  then have "(2 ^ 32 - (?M - 1)) mod ?M = 1" using one by simp
  then have "((2 ^ 32 - (?M - 1)) + (?M - 1)) mod ?M = (1 + (?M - 1)) mod ?M" by (metis mod_add_left_eq)
  then have "2 ^ 32 mod ?M = 0" using assms by simp
  then show "?M dvd 2 ^ 32" by (simp add: mod_eq_0_iff_dvd)
qed

theorem diff_roundtrip_witness:
  "diff_decode_all 4 0 (fst (transduce diff_encode [3, 1, 2] (make_diff_encoder 4))) = [3, 1, 2]"
proof -
  have "\<forall>xs. (\<forall>x \<in> set xs. unat x < unat (4 :: u32)) \<longrightarrow>
      diff_decode_all 4 0 (fst (transduce diff_encode xs (make_diff_encoder 4))) = xs"
    using diff_roundtrip [of 4] by simp
  moreover have "\<forall>x \<in> set [3, 1, 2 :: u8]. unat x < unat (4 :: u32)" by simp
  ultimately show ?thesis by blast
qed

end
