(* ===== verification/Gr_Framer.thy ===== *)
theory Gr_Framer
  imports Gr_Items
begin

text \<open>
  Packets in a stream of bits: \<open>gr_correlate_access_code_bb\<close> marks the bit that follows an access
  code, \<open>gr_framer_sink_1\<close> assembles the packet that starts there and puts it into a queue of
  messages.
\<close>

declare of_nat_unat [simp del]

section \<open>The correlator\<close>

record correlate_access_code =
  d_access_code :: u64
  d_data_reg :: u64
  d_flag_reg :: u64
  d_flag_bit :: u64
  d_code_mask :: u64
  d_threshold :: u32

definition access_code_word :: "u8 list \<Rightarrow> u64" where
  "access_code_word code =
     foldl (\<lambda>c i. let c = push_bit 1 c in if i < length code then c OR ucast (code ! i AND 1) else c) 0 [0..<64]"

definition set_access_code :: "u8 list \<Rightarrow> correlate_access_code \<Rightarrow> correlate_access_code option" where
  "set_access_code code s =
     (let len = length code
      in if len > 64 then None
         else Some (s\<lparr> d_code_mask := push_bit (64 - len) (drop_bit (64 - len) (NOT 0)),
                       d_flag_bit := push_bit (64 - len) 1, d_access_code := access_code_word code \<rparr>))"

text \<open>The constructor; \<open>None\<close> is the exception \<open>out_of_range\<close>.\<close>

definition make_correlate_access_code :: "u8 list \<Rightarrow> u32 \<Rightarrow> correlate_access_code option" where
  "make_correlate_access_code code threshold =
     set_access_code code \<lparr> d_access_code = 0, d_data_reg = 0, d_flag_reg = 0, d_flag_bit = 0, d_code_mask = 0,
       d_threshold = threshold \<rparr>"

definition correlate_item :: "u8 \<Rightarrow> correlate_access_code \<Rightarrow> u8 \<times> correlate_access_code" where
  "correlate_item x s =
     (let t = (drop_bit 63 (d_data_reg s) AND 1) OR push_bit 1 (drop_bit 63 (d_flag_reg s) AND 1);
          wrong_bits = (d_data_reg s XOR d_access_code s) AND d_code_mask s;
          nwrong = gr_count_bits64 wrong_bits;
          flags = push_bit 1 (d_flag_reg s)
      in (ucast t, s\<lparr> d_data_reg := push_bit 1 (d_data_reg s) OR ucast (x AND 1),
                      d_flag_reg := if nwrong \<le> d_threshold s then flags OR d_flag_bit s else flags \<rparr>))"

definition gr_correlate_access_code_bb_work :: "(u8, correlate_access_code) work" where
  "gr_correlate_access_code_bb_work = item_work correlate_item"

section \<open>The framer\<close>

datatype framer_state = STATE_SYNC_SEARCH | STATE_HAVE_SYNC | STATE_HAVE_HEADER

record gr_message =
  d_type :: int
  d_arg1 :: int
  d_arg2 :: int
  d_msg :: "u8 list"

record framer_sink_1 =
  d_target_queue :: "gr_message list"
  d_state :: framer_state
  d_header :: u32
  d_headerbitlen_cnt :: int
  d_packet :: "u8 list"
  d_packet_byte :: u8
  d_packet_byte_index :: int
  d_packetlen :: int
  d_packet_whitener_offset :: int
  d_packetlen_cnt :: int

definition HEADERBITLEN :: int where "HEADERBITLEN = 32"
definition MAX_PKT_LEN :: nat where "MAX_PKT_LEN = 4096"

definition insert_tail :: "gr_message \<Rightarrow> framer_sink_1 \<Rightarrow> framer_sink_1" where
  "insert_tail msg s = s\<lparr> d_target_queue := d_target_queue s @ [msg] \<rparr>"

definition enter_search :: "framer_sink_1 \<Rightarrow> framer_sink_1" where
  "enter_search s = s\<lparr> d_state := STATE_SYNC_SEARCH \<rparr>"

definition enter_have_sync :: "framer_sink_1 \<Rightarrow> framer_sink_1" where
  "enter_have_sync s = s\<lparr> d_state := STATE_HAVE_SYNC, d_header := 0, d_headerbitlen_cnt := 0 \<rparr>"

definition enter_have_header :: "int \<Rightarrow> int \<Rightarrow> framer_sink_1 \<Rightarrow> framer_sink_1" where
  "enter_have_header payload_len whitener_offset s =
     s\<lparr> d_state := STATE_HAVE_HEADER, d_packetlen := payload_len, d_packet_whitener_offset := whitener_offset,
        d_packetlen_cnt := 0, d_packet_byte := 0, d_packet_byte_index := 0 \<rparr>"

text \<open>The constructor sets the state only: \<open>s\<close> is what the memory of the object holds.\<close>

definition make_framer_sink_1 :: "gr_message list \<Rightarrow> framer_sink_1 \<Rightarrow> framer_sink_1" where
  "make_framer_sink_1 target_queue s = enter_search (s\<lparr> d_target_queue := target_queue \<rparr>)"

definition header_ok :: "framer_sink_1 \<Rightarrow> bool" where
  "header_ok s \<longleftrightarrow> drop_bit 16 (d_header s) XOR (d_header s AND 0xffff) = 0"

definition header_payload :: "framer_sink_1 \<Rightarrow> int \<times> int" where
  "header_payload s = (uint (drop_bit 16 (d_header s) AND 0x0fff), uint (drop_bit 28 (d_header s) AND 0x000f))"

definition header_bit :: "u8 \<Rightarrow> framer_sink_1 \<Rightarrow> framer_sink_1" where
  "header_bit x s =
     (let s = s\<lparr> d_header := push_bit 1 (d_header s) OR ucast (x AND 1), d_headerbitlen_cnt := d_headerbitlen_cnt s + 1 \<rparr>
      in if d_headerbitlen_cnt s = HEADERBITLEN
         then if header_ok s
              then let (payload_len, whitener_offset) = header_payload s;
                       s = enter_have_header payload_len whitener_offset s
                   in if d_packetlen s = 0
                      then enter_search (insert_tail \<lparr> d_type = 0, d_arg1 = d_packet_whitener_offset s, d_arg2 = 0, d_msg = [] \<rparr> s)
                      else s
              else enter_search s
         else s)"

definition payload_bit :: "u8 \<Rightarrow> framer_sink_1 \<Rightarrow> framer_sink_1" where
  "payload_bit x s =
     (let s = s\<lparr> d_packet_byte := push_bit 1 (d_packet_byte s) OR (x AND 1), d_packet_byte_index := d_packet_byte_index s + 1 \<rparr>
      in if d_packet_byte_index s - 1 = 7
         then let s = s\<lparr> d_packet := (d_packet s)[nat (d_packetlen_cnt s) := d_packet_byte s],
                         d_packetlen_cnt := d_packetlen_cnt s + 1, d_packet_byte_index := 0 \<rparr>
              in if d_packetlen_cnt s = d_packetlen s
                 then enter_search (insert_tail
                        \<lparr> d_type = 0, d_arg1 = d_packet_whitener_offset s, d_arg2 = 0, d_msg = take (nat (d_packetlen_cnt s)) (d_packet s) \<rparr> s)
                 else s
         else s)"

text \<open>The loop of \<open>work\<close>: the item at which a packet is found is read again as its first bit.\<close>

function (sequential) framer_loop :: "u8 list \<Rightarrow> framer_sink_1 \<Rightarrow> framer_sink_1" where
  "framer_loop [] s = s"
| "framer_loop (x # xs) s =
     (case d_state s of
        STATE_SYNC_SEARCH \<Rightarrow> if x AND 2 \<noteq> 0 then framer_loop (x # xs) (enter_have_sync s) else framer_loop xs s
      | STATE_HAVE_SYNC \<Rightarrow> framer_loop xs (header_bit x s)
      | STATE_HAVE_HEADER \<Rightarrow> framer_loop xs (payload_bit x s))"
  by pat_completeness auto
termination
  by (relation "measure (\<lambda>(xs, s). 2 * length xs + (if d_state s = STATE_SYNC_SEARCH then 1 else 0))")
    (auto simp: enter_have_sync_def)

declare framer_loop.simps(2) [simp del]

lemma enter_have_sync_state [simp]: "d_state (enter_have_sync s) = STATE_HAVE_SYNC"
  by (simp add: enter_have_sync_def)

lemma framer_steps [simp]:
  "d_state s = STATE_HAVE_SYNC \<Longrightarrow> framer_loop (x # xs) s = framer_loop xs (header_bit x s)"
  "d_state s = STATE_HAVE_HEADER \<Longrightarrow> framer_loop (x # xs) s = framer_loop xs (payload_bit x s)"
  by (simp_all add: framer_loop.simps(2))

lemma framer_searches [simp]:
  "d_state s = STATE_SYNC_SEARCH \<Longrightarrow>
     framer_loop (x # xs) s = framer_loop xs (if x AND 2 \<noteq> 0 then header_bit x (enter_have_sync s) else s)"
  by (simp add: framer_loop.simps(2) [of x xs s])

definition gr_framer_sink_1_work :: "(u8, framer_sink_1) work" where
  "gr_framer_sink_1_work noutput_items ins k s = (noutput_items, [], framer_loop (take (nat noutput_items) (ins ! 0)) s)"

section \<open>The contract\<close>

interpretation correlator: sync_work gr_correlate_access_code_bb_work one_to_one 1
  unfolding gr_correlate_access_code_bb_work_def by (rule item_work_ok)

interpretation framer: sync_work gr_framer_sink_1_work "\<lambda>i k. i = 1 \<and> k = 0" 1
  by unfold_locales (auto simp: gr_framer_sink_1_work_def)

section \<open>The framer's memory\<close>

definition framer_ok :: "framer_sink_1 \<Rightarrow> bool" where
  "framer_ok s \<longleftrightarrow> length (d_packet s) = MAX_PKT_LEN
     \<and> (d_state s = STATE_HAVE_SYNC \<longrightarrow> 0 \<le> d_headerbitlen_cnt s \<and> d_headerbitlen_cnt s < HEADERBITLEN)
     \<and> (d_state s = STATE_HAVE_HEADER \<longrightarrow>
          0 \<le> d_packet_byte_index s \<and> d_packet_byte_index s \<le> 7
          \<and> 0 \<le> d_packetlen_cnt s \<and> d_packetlen_cnt s < d_packetlen s \<and> d_packetlen s < int MAX_PKT_LEN)"

lemma header_len: "uint (w AND 0x0fff :: u32) < 4096"
proof -
  have "w AND 0x0fff = take_bit 12 w" by (simp add: take_bit_eq_mask mask_numeral)
  then show ?thesis using take_bit_int_less_exp [of 12 "uint w"] by (simp add: unsigned_take_bit_eq)
qed

lemma uint_pos: "uint (w :: u32) \<noteq> 0 \<Longrightarrow> 0 < uint w"
  by (metis order_le_less uint_nonnegative)

lemma header_bit_ok: "framer_ok s \<Longrightarrow> d_state s = STATE_HAVE_SYNC \<Longrightarrow> framer_ok (header_bit x s)"
  using header_len [of "drop_bit 16 (push_bit 1 (d_header s) OR ucast (x AND 1))"]
  by (auto simp: framer_ok_def header_bit_def enter_search_def enter_have_header_def insert_tail_def header_payload_def
      HEADERBITLEN_def MAX_PKT_LEN_def Let_def intro: uint_pos)

lemma payload_bit_ok: "framer_ok s \<Longrightarrow> d_state s = STATE_HAVE_HEADER \<Longrightarrow> framer_ok (payload_bit x s)"
  by (auto simp: framer_ok_def payload_bit_def enter_search_def insert_tail_def MAX_PKT_LEN_def Let_def)

lemma framer_loop_ok: "framer_ok s \<Longrightarrow> framer_ok (framer_loop xs s)"
proof (induction xs arbitrary: s)
  case (Cons x xs)
  have "framer_ok (enter_have_sync s)" "d_state (enter_have_sync s) = STATE_HAVE_SYNC"
    using Cons.prems by (simp_all add: framer_ok_def enter_have_sync_def HEADERBITLEN_def)
  then show ?case using Cons header_bit_ok payload_bit_ok by (cases "d_state s") auto
qed simp

text \<open>The items can be split anywhere.\<close>

lemma framer_loop_append: "framer_loop (xs @ ys) s = framer_loop ys (framer_loop xs s)"
proof (induction xs arbitrary: s)
  case (Cons x xs)
  then show ?case by (cases "d_state s") simp_all
qed simp

section \<open>A packet\<close>

text \<open>The bits of a number, most significant first, and of a packet.\<close>

definition msb_bits :: "nat \<Rightarrow> nat \<Rightarrow> bool list" where
  "msb_bits w n = map (\<lambda>i. bit n (w - Suc i)) [0..<w]"

definition header_value :: "nat \<Rightarrow> nat \<Rightarrow> nat" where
  "header_value len offset = (offset * 4096 + len) * 65536 + (offset * 4096 + len)"

definition packet_bits :: "nat \<Rightarrow> u8 list \<Rightarrow> bool list" where
  "packet_bits offset payload =
     msb_bits 32 (header_value (length payload) offset) @ concat (map (\<lambda>b. msb_bits 8 (unat b)) payload)"

definition shifted_in :: "bool list \<Rightarrow> 'a::len word \<Rightarrow> 'a word" where
  "shifted_in bs h = foldl (\<lambda>h b. push_bit 1 h OR of_bool b) h bs"

definition data_bit :: "u8 \<Rightarrow> bool" where
  "data_bit x \<longleftrightarrow> bit x 0"

lemma ucast_and_1: "ucast (x AND 1 :: u8) = (of_bool (data_bit x) :: u32)" "x AND 1 = of_bool (data_bit x)"
  by (simp_all add: data_bit_def and_one_eq mod_2_eq_odd bit_0)

lemma shift_header:
  assumes "d_state s = STATE_HAVE_SYNC" "d_headerbitlen_cnt s + int (length xs) < HEADERBITLEN"
  shows "framer_loop xs s = s\<lparr> d_header := shifted_in (map data_bit xs) (d_header s),
    d_headerbitlen_cnt := d_headerbitlen_cnt s + int (length xs) \<rparr>"
  using assms
proof (induction xs arbitrary: s)
  case Nil
  then show ?case by (simp add: shifted_in_def)
next
  case (Cons x xs)
  let ?s = "s\<lparr> d_header := push_bit 1 (d_header s) OR of_bool (data_bit x), d_headerbitlen_cnt := d_headerbitlen_cnt s + 1 \<rparr>"
  have "header_bit x s = ?s"
    using Cons.prems(2) by (simp add: header_bit_def Let_def ucast_and_1)
  then have "framer_loop (x # xs) s = framer_loop xs ?s" using Cons.prems(1) by simp
  then show ?case using Cons.IH [of ?s] Cons.prems by (simp add: shifted_in_def)
qed

lemma bit_push_1: "bit (push_bit 1 (x :: 'a::len word)) j \<longleftrightarrow> 1 \<le> j \<and> j < LENGTH('a) \<and> bit x (j - 1)"
  by (simp only: bit_push_bit_iff possible_bit_word)

lemma bit_shifted_in:
  "bit (shifted_in bs (h :: 'a::len word)) j \<longleftrightarrow> j < LENGTH('a) \<and> (if j < length bs then bs ! (length bs - Suc j) else bit h (j - length bs))"
proof (induction bs arbitrary: h j rule: rev_induct)
  case Nil
  then show ?case by (auto simp: shifted_in_def dest: bit_imp_le_length)
next
  case (snoc b bs)
  have "shifted_in (bs @ [b]) h = push_bit 1 (shifted_in bs h) OR of_bool b" by (simp add: shifted_in_def)
  then have step: "bit (shifted_in (bs @ [b]) h) j \<longleftrightarrow> (1 \<le> j \<and> j < LENGTH('a) \<and> bit (shifted_in bs h) (j - 1)) \<or> (j = 0 \<and> b)"
    by (simp only: bit_or_iff bit_push_1 bit_of_bool_iff)
  show ?case
  proof (cases j)
    case (Suc i)
    then show ?thesis unfolding step snoc.IH by (auto simp: nth_append)
  qed (use step in simp)
qed

lemma length_msb_bits [simp]: "length (msb_bits w n) = w"
  by (simp add: msb_bits_def)

lemma shifted_in_number: "shifted_in (msb_bits LENGTH('a) n) (h :: 'a::len word) = word_of_nat n"
  by (rule bit_word_eqI) (simp add: bit_shifted_in bit_of_nat_iff msb_bits_def nth_append)

lemma shift_payload:
  assumes "d_state s = STATE_HAVE_HEADER" "0 \<le> d_packet_byte_index s" "d_packet_byte_index s + int (length xs) \<le> 7"
  shows "framer_loop xs s = s\<lparr> d_packet_byte := shifted_in (map data_bit xs) (d_packet_byte s),
    d_packet_byte_index := d_packet_byte_index s + int (length xs) \<rparr>"
  using assms
proof (induction xs arbitrary: s)
  case Nil
  then show ?case by (simp add: shifted_in_def)
next
  case (Cons x xs)
  let ?s = "s\<lparr> d_packet_byte := push_bit 1 (d_packet_byte s) OR of_bool (data_bit x), d_packet_byte_index := d_packet_byte_index s + 1 \<rparr>"
  have "payload_bit x s = ?s"
    using Cons.prems(3) by (simp add: payload_bit_def Let_def ucast_and_1)
  then have "framer_loop (x # xs) s = framer_loop xs ?s" using Cons.prems(1) by simp
  then show ?case using Cons.IH [of ?s] Cons.prems by (simp add: shifted_in_def)
qed

definition byte_stored :: "u8 \<Rightarrow> framer_sink_1 \<Rightarrow> framer_sink_1" where
  "byte_stored b s =
     s\<lparr> d_packet_byte := b, d_packet := (d_packet s)[nat (d_packetlen_cnt s) := b],
        d_packetlen_cnt := d_packetlen_cnt s + 1, d_packet_byte_index := 0 \<rparr>"

lemma payload_byte:
  assumes "d_state s = STATE_HAVE_HEADER" "d_packet_byte_index s = 0" "map data_bit xs = msb_bits 8 (unat b)"
  shows "framer_loop xs s = (let t = byte_stored b s in
    if d_packetlen_cnt t = d_packetlen t
    then enter_search (insert_tail \<lparr> d_type = 0, d_arg1 = d_packet_whitener_offset t, d_arg2 = 0, d_msg = take (nat (d_packetlen_cnt t)) (d_packet t) \<rparr> t)
    else t)"
proof -
  have "length xs = 8" using arg_cong [OF assms(3), of length] by simp
  then obtain ys x where xs: "xs = ys @ [x]" "length ys = 7" by (cases xs rule: rev_cases) auto
  let ?t = "s\<lparr> d_packet_byte := shifted_in (map data_bit ys) (d_packet_byte s), d_packet_byte_index := 7 \<rparr>"
  have t: "framer_loop ys s = ?t" using shift_payload [of s ys] assms(1,2) xs(2) by simp
  have "push_bit 1 (shifted_in (map data_bit ys) (d_packet_byte s)) OR of_bool (data_bit x) = shifted_in (map data_bit xs) (d_packet_byte s)"
    by (simp add: xs(1) shifted_in_def)
  also have "\<dots> = word_of_nat (unat b)" unfolding assms(3) using shifted_in_number [where ?'a = 8] by simp
  also have "\<dots> = b" by (simp add: of_nat_unat)
  finally have b: "push_bit 1 (shifted_in (map data_bit ys) (d_packet_byte s)) OR of_bool (data_bit x) = b" .
  have "framer_loop xs s = payload_bit x ?t" using assms(1) unfolding xs(1) framer_loop_append t by simp
  also have "\<dots> = (let t = byte_stored b s in
    if d_packetlen_cnt t = d_packetlen t
    then enter_search (insert_tail \<lparr> d_type = 0, d_arg1 = d_packet_whitener_offset t, d_arg2 = 0, d_msg = take (nat (d_packetlen_cnt t)) (d_packet t) \<rparr> t)
    else t)"
    using b by (simp add: payload_bit_def byte_stored_def Let_def ucast_and_1)
  finally show ?thesis .
qed

lemma payload_all:
  assumes "payload \<noteq> []"
  shows "d_state s = STATE_HAVE_HEADER \<Longrightarrow> d_packet_byte_index s = 0 \<Longrightarrow> d_packetlen_cnt s = int c
    \<Longrightarrow> d_packetlen s = int (c + length payload) \<Longrightarrow> c + length payload \<le> length (d_packet s)
    \<Longrightarrow> map data_bit xs = concat (map (\<lambda>b. msb_bits 8 (unat b)) payload)
    \<Longrightarrow> d_state (framer_loop xs s) = STATE_SYNC_SEARCH \<and> d_target_queue (framer_loop xs s) = d_target_queue s @
      [\<lparr> d_type = 0, d_arg1 = d_packet_whitener_offset s, d_arg2 = 0, d_msg = take c (d_packet s) @ payload \<rparr>]"
  using assms
proof (induction payload arbitrary: s c xs rule: list_nonempty_induct)
  case (single b)
  have take: "take (Suc c) ((d_packet s)[c := b]) = take c (d_packet s) @ [b]"
    using single.prems(5) by (simp add: take_Suc_conv_app_nth)
  have "nat (int c + 1) = Suc c" by simp
  then show ?case
    using payload_byte [of s xs b] single.prems take by (simp add: byte_stored_def Let_def enter_search_def insert_tail_def)
next
  case (cons b payload)
  define ys zs where "ys = take 8 xs" and "zs = drop 8 xs"
  have xs: "xs = ys @ zs" by (simp add: ys_def zs_def)
  have "length ys = 8" using arg_cong [OF cons.prems(6), of length] by (simp add: ys_def)
  have ys: "map data_bit ys = msb_bits 8 (unat b)" and zs: "map data_bit zs = concat (map (\<lambda>b. msb_bits 8 (unat b)) payload)"
    using arg_cong [OF cons.prems(6), of "take 8"] arg_cong [OF cons.prems(6), of "drop 8"]
    by (simp_all add: ys_def zs_def take_map drop_map)
  let ?t = "byte_stored b s"
  have t: "framer_loop ys s = ?t"
    using payload_byte [OF cons.prems(1,2) ys] cons.prems(3,4) cons.hyps(1) by (simp add: byte_stored_def Let_def)
  have take: "take (Suc c) ((d_packet s)[c := b]) = take c (d_packet s) @ [b]"
    using cons.prems(5) by (simp add: take_Suc_conv_app_nth)
  have "d_state (framer_loop zs ?t) = STATE_SYNC_SEARCH \<and> d_target_queue (framer_loop zs ?t) = d_target_queue ?t @
      [\<lparr> d_type = 0, d_arg1 = d_packet_whitener_offset ?t, d_arg2 = 0, d_msg = take (Suc c) (d_packet ?t) @ payload \<rparr>]"
    by (rule cons.IH) (use cons.prems zs in \<open>simp_all add: byte_stored_def\<close>)
  then show ?case using cons.prems(3) take unfolding xs framer_loop_append t by (simp add: byte_stored_def)
qed

lemma header_numbers:
  fixes n :: nat
  assumes "n < 2 ^ 32"
  shows "unat (drop_bit 16 (word_of_nat n :: u32) AND 0x0fff) = n div 65536 mod 4096"
    "unat (drop_bit 28 (word_of_nat n :: u32) AND 0x000f) = n div 268435456 mod 16"
    "unat (drop_bit 16 (word_of_nat n :: u32)) = n div 65536" "unat (word_of_nat n AND 0xffff :: u32) = n mod 65536"
proof -
  have n: "unat (word_of_nat n :: u32) = n" using assms by (simp add: unat_of_nat_id)
  have m: "(0x0fff :: u32) = mask 12" "(0x000f :: u32) = mask 4" "(0xffff :: u32) = mask 16" by (simp_all add: mask_numeral)
  have d: "unat (drop_bit k (word_of_nat n :: u32)) = n div 2 ^ k" for k
  proof -
    have "unat (drop_bit k (word_of_nat n :: u32)) = drop_bit k (take_bit 32 n)" by (simp add: unsigned_drop_bit_eq n del: drop_bit_eq_div)
    then show ?thesis using assms by (simp add: take_bit_nat_eq_self drop_bit_eq_div)
  qed
  show "unat (drop_bit 16 (word_of_nat n :: u32)) = n div 65536" by (simp add: d)
  show "unat (drop_bit 16 (word_of_nat n :: u32) AND 0x0fff) = n div 65536 mod 4096"
    unfolding m take_bit_eq_mask [symmetric] unsigned_take_bit_eq d by (simp add: take_bit_eq_mod)
  show "unat (drop_bit 28 (word_of_nat n :: u32) AND 0x000f) = n div 268435456 mod 16"
    unfolding m take_bit_eq_mask [symmetric] unsigned_take_bit_eq d by (simp add: take_bit_eq_mod)
  show "unat (word_of_nat n AND 0xffff :: u32) = n mod 65536"
    unfolding m take_bit_eq_mask [symmetric] unsigned_take_bit_eq n by (simp add: take_bit_eq_mod)
qed

lemma header_read:
  assumes "len < 4096" "offset < 16" "d_header s = word_of_nat (header_value len offset)"
  shows "header_ok s" "header_payload s = (int len, int offset)"
proof -
  let ?n = "header_value len offset"
  have n: "?n < 2 ^ 32" using assms(1,2) by (simp add: header_value_def)
  note nums = header_numbers [OF n]
  have "(w * 65536 + w) div 65536 = w" "(w * 65536 + w) mod 65536 = w" if "w < 65536" for w :: nat
    using that by (simp_all only: div_mult_self3 mod_mult_self3 mod_less div_less)
  note split = this
  have "offset * 4096 + len < 65536" using assms(1,2) by simp
  then have parts: "?n div 65536 = offset * 4096 + len" "?n mod 65536 = offset * 4096 + len"
    unfolding header_value_def by (rule split)+
  have eq: "drop_bit 16 (word_of_nat ?n :: u32) = word_of_nat ?n AND 0xffff" using nums(3,4) parts by (simp add: word_unat_eq_iff)
  then show "header_ok s" by (simp add: header_ok_def assms(3))
  have "?n div 65536 mod 4096 = len" unfolding parts using assms(1) by simp
  moreover have "?n div 268435456 mod 16 = offset"
  proof -
    have "?n div 268435456 = ?n div 65536 div 4096" by (simp flip: div_mult2_eq)
    also have "\<dots> = offset" unfolding parts using assms(1) by simp
    finally show ?thesis using assms(2) by simp
  qed
  ultimately show "header_payload s = (int len, int offset)"
    unfolding header_payload_def assms(3) uint_nat nums(1,2) by simp
qed

lemma header_full:
  assumes "d_headerbitlen_cnt s = 31" "push_bit 1 (d_header s) OR ucast (x AND 1) = w"
  shows "header_bit x s = (let s = s\<lparr> d_header := w, d_headerbitlen_cnt := 32 \<rparr>
      in if header_ok s
         then let (payload_len, whitener_offset) = header_payload s;
                  s = enter_have_header payload_len whitener_offset s
              in if d_packetlen s = 0
                 then enter_search (insert_tail \<lparr> d_type = 0, d_arg1 = d_packet_whitener_offset s, d_arg2 = 0, d_msg = [] \<rparr> s)
                 else s
         else enter_search s)"
  using assms by (simp add: header_bit_def HEADERBITLEN_def Let_def)

lemma searching: "d_state s = STATE_SYNC_SEARCH \<Longrightarrow> \<forall>x \<in> set xs. x AND 2 = 0 \<Longrightarrow> framer_loop xs s = s"
  by (induction xs) simp_all

lemma packet_received:
  assumes "d_state s = STATE_SYNC_SEARCH" "length (d_packet s) = MAX_PKT_LEN" "length payload < 4096" "offset < 16"
    and "hd xs AND 2 \<noteq> 0" "map data_bit xs = packet_bits offset payload"
  shows "d_state (framer_loop xs s) = STATE_SYNC_SEARCH \<and> d_target_queue (framer_loop xs s) = d_target_queue s @
      [\<lparr> d_type = 0, d_arg1 = int offset, d_arg2 = 0, d_msg = payload \<rparr>]"
proof -
  let ?n = "header_value (length payload) offset"
  define hs body where "hs = take 32 xs" and "body = drop 32 xs"
  have len: "length xs = 32 + length (concat (map (\<lambda>b. msb_bits 8 (unat b)) payload))"
    using arg_cong [OF assms(6), of length] by (simp add: packet_bits_def)
  have xs: "xs = hs @ body" "length hs = 32" by (simp_all add: hs_def body_def len)
  have bits: "map data_bit hs = msb_bits 32 ?n" "map data_bit body = concat (map (\<lambda>b. msb_bits 8 (unat b)) payload)"
    using arg_cong [OF assms(6), of "take 32"] arg_cong [OF assms(6), of "drop 32"]
    by (simp_all add: hs_def body_def take_map drop_map packet_bits_def)
  obtain x mid y where hs: "hs = x # mid @ [y]" "length mid = 30"
  proof -
    obtain x t where x: "hs = x # t" using xs(2) by (cases hs) auto
    then obtain mid y where "t = mid @ [y]" using xs(2) by (cases t rule: rev_cases) auto
    then show thesis using that x xs(2) by simp
  qed
  have flag: "x AND 2 \<noteq> 0" using assms(5) xs(1) hs(1) by simp
  let ?s = "enter_have_sync s"
  let ?h = "shifted_in (map data_bit (x # mid)) 0 :: u32"
  have st: "d_state ?s = STATE_HAVE_SYNC" "d_header ?s = 0" "d_headerbitlen_cnt ?s = 0" by (simp_all add: enter_have_sync_def)
  have "framer_loop (x # mid) s = framer_loop (x # mid) ?s" using assms(1) flag by simp
  also have "\<dots> = ?s\<lparr> d_header := ?h, d_headerbitlen_cnt := 31 \<rparr>"
    using shift_header [of ?s "x # mid"] st hs(2) by (simp add: HEADERBITLEN_def)
  finally have before: "framer_loop (x # mid) s = ?s\<lparr> d_header := ?h, d_headerbitlen_cnt := 31 \<rparr>" .
  have h: "push_bit 1 ?h OR of_bool (data_bit y) = word_of_nat ?n"
  proof -
    have "push_bit 1 ?h OR of_bool (data_bit y) = (shifted_in (map data_bit hs) 0 :: u32)" by (simp add: hs(1) shifted_in_def)
    then show ?thesis unfolding bits(1) using shifted_in_number [where ?'a = 32, of ?n 0] by simp
  qed
  let ?t = "?s\<lparr> d_header := word_of_nat ?n, d_headerbitlen_cnt := 32 \<rparr>"
  have ok: "header_ok ?t" "header_payload ?t = (int (length payload), int offset)"
    using header_read [OF assms(3,4), of ?t] by simp_all
  let ?u = "enter_have_header (int (length payload)) (int offset) ?t"
  have after: "framer_loop hs s = (if payload = [] then enter_search (insert_tail \<lparr> d_type = 0, d_arg1 = int offset, d_arg2 = 0, d_msg = [] \<rparr> ?u) else ?u)"
  proof -
    have "framer_loop hs s = header_bit y (?s\<lparr> d_header := ?h, d_headerbitlen_cnt := 31 \<rparr>)"
      using framer_loop_append [of "x # mid" "[y]" s] unfolding before hs(1) by (simp add: enter_have_sync_def)
    also have "\<dots> = (if payload = [] then enter_search (insert_tail \<lparr> d_type = 0, d_arg1 = int offset, d_arg2 = 0, d_msg = [] \<rparr> ?u) else ?u)"
    proof -
      let ?v = "?s\<lparr> d_header := ?h, d_headerbitlen_cnt := 31 \<rparr>"
      have sel: "d_headerbitlen_cnt ?v = 31" "d_header ?v = ?h" by simp_all
      have "push_bit 1 (d_header ?v) OR ucast (y AND 1) = word_of_nat ?n" unfolding sel ucast_and_1(1) by (rule h)
      note full = header_full [OF sel(1) this]
      show ?thesis unfolding full using ok by (simp add: Let_def enter_have_header_def)
    qed
    finally show ?thesis .
  qed
  show ?thesis
  proof (cases "payload = []")
    case True
    then have "body = []" using bits(2) by simp
    then show ?thesis using after True xs(1)
      by (simp add: enter_search_def insert_tail_def enter_have_header_def enter_have_sync_def)
  next
    case False
    have "d_state (framer_loop body ?u) = STATE_SYNC_SEARCH \<and> d_target_queue (framer_loop body ?u) = d_target_queue ?u @
      [\<lparr> d_type = 0, d_arg1 = d_packet_whitener_offset ?u, d_arg2 = 0, d_msg = take 0 (d_packet ?u) @ payload \<rparr>]"
      by (rule payload_all [OF False])
        (use bits(2) assms(2,3) in \<open>simp_all add: enter_have_header_def enter_have_sync_def MAX_PKT_LEN_def\<close>)
    then show ?thesis using after False unfolding xs(1) framer_loop_append
      by (simp add: enter_have_header_def enter_have_sync_def)
  qed
qed

section \<open>The access code\<close>

text \<open>
  The data bits behind 64 zeros, the flags: an access code with at most \<open>threshold\<close> wrong bits starts
  at \<open>t\<close>.
\<close>

definition delayed :: "u8 list \<Rightarrow> nat \<Rightarrow> bool" where
  "delayed xs t \<longleftrightarrow> 64 \<le> t \<and> t - 64 < length xs \<and> data_bit (xs ! (t - 64))"

definition code_at :: "u8 list \<Rightarrow> u32 \<Rightarrow> (nat \<Rightarrow> bool) \<Rightarrow> nat \<Rightarrow> bool" where
  "code_at code threshold D t \<longleftrightarrow> (\<Sum>p<length code. of_bool (D (t + p) \<noteq> data_bit (code ! p))) \<le> unat threshold"

lemma bit_double_u64: "bit (push_bit 1 (x :: u64)) j \<longleftrightarrow> 1 \<le> j \<and> j < 64 \<and> bit x (j - 1)"
proof -
  have "LENGTH(64) = 64" by simp
  then show ?thesis unfolding bit_push_1 by (simp only:)
qed

lemma access_code_bits:
  assumes "length code \<le> 64" "p < 64"
  shows "bit (access_code_word code) (63 - p) \<longleftrightarrow> p < length code \<and> data_bit (code ! p)"
proof -
  let ?f = "\<lambda>c i. let c = push_bit 1 c in if i < length code then c OR ucast (code ! i AND 1) else c :: u64"
  have "bit (foldl ?f 0 [0..<n]) b \<longleftrightarrow> b < n \<and> n - Suc b < length code \<and> data_bit (code ! (n - Suc b))" if "n \<le> 64" for n b
    using that
  proof (induction n arbitrary: b)
    case (Suc n)
    have u: "ucast (x AND 1 :: u8) = (of_bool (data_bit x) :: u64)" for x
      by (simp add: data_bit_def and_one_eq mod_2_eq_odd bit_0)
    have step: "bit (?f c n) b \<longleftrightarrow> (1 \<le> b \<and> b < 64 \<and> bit c (b - 1)) \<or> (b = 0 \<and> n < length code \<and> data_bit (code ! n))" for c
      unfolding Let_def u by (cases "n < length code") (simp_all only: if_True if_False bit_or_iff bit_double_u64 bit_of_bool_iff, auto)
    have "foldl ?f 0 [0..<Suc n] = ?f (foldl ?f 0 [0..<n]) n" by (simp only: upt_Suc_append foldl_append foldl.simps le0)
    then have nxt: "bit (foldl ?f 0 [0..<Suc n]) b \<longleftrightarrow>
        (1 \<le> b \<and> b < 64 \<and> bit (foldl ?f 0 [0..<n]) (b - 1)) \<or> (b = 0 \<and> n < length code \<and> data_bit (code ! n))"
      by (simp only: step)
    have IH: "bit (foldl ?f 0 [0..<n]) (b - 1) \<longleftrightarrow> b - 1 < n \<and> n - Suc (b - 1) < length code \<and> data_bit (code ! (n - Suc (b - 1)))"
      using Suc.prems by (intro Suc.IH) simp
    show ?case unfolding nxt IH using Suc.prems by (cases b) auto
  qed simp
  from this [of 64 "63 - p"] show ?thesis using assms unfolding access_code_word_def by (auto simp: Suc_diff_Suc)
qed

definition correlator_at :: "u8 list \<Rightarrow> u32 \<Rightarrow> (nat \<Rightarrow> bool) \<Rightarrow> nat \<Rightarrow> correlate_access_code \<Rightarrow> bool" where
  "correlator_at code threshold D i s \<longleftrightarrow>
     (\<forall>p < 64. bit (d_data_reg s) (63 - p) = D (i + p))
     \<and> (\<forall>p < 64. bit (d_flag_reg s) (63 - p) = (p < length code \<and> length code \<le> i + p \<and> code_at code threshold D (i + p - length code)))
     \<and> d_access_code s = access_code_word code \<and> d_threshold s = threshold
     \<and> d_flag_bit s = push_bit (64 - length code) 1
     \<and> d_code_mask s = push_bit (64 - length code) (drop_bit (64 - length code) (NOT 0))"

lemma code_mask_bits:
  assumes "1 \<le> n" "n \<le> 64"
  shows "bit (push_bit (64 - n) (drop_bit (64 - n) (NOT 0)) :: u64) b \<longleftrightarrow> 64 - n \<le> b \<and> b < 64"
  using assms by (auto simp: bit_push_bit_iff bit_drop_bit_eq bit_not_iff bit_mask_iff)

lemma wrong_bits_sum:
  assumes "1 \<le> length code" "length code \<le> 64" "correlator_at code threshold D i s"
  shows "(gr_count_bits64 ((d_data_reg s XOR d_access_code s) AND d_code_mask s) \<le> d_threshold s) = code_at code threshold D i"
proof -
  let ?w = "(d_data_reg s XOR d_access_code s) AND d_code_mask s"
  have w: "bit ?w (63 - p) \<longleftrightarrow> p < length code \<and> D (i + p) \<noteq> data_bit (code ! p)" if "p < 64" for p
    using assms that access_code_bits [OF assms(2) that] code_mask_bits [OF assms(1,2), of "63 - p"]
    by (auto simp: correlator_at_def bit_and_iff bit_xor_iff)
  have "unat (gr_count_bits64 ?w) = (\<Sum>b<64. of_bool (bit ?w b))" by (rule count_bits_sums(2))
  also have "\<dots> = (\<Sum>p<64. of_bool (bit ?w (64 - Suc p)))" by (rule sum.nat_diff_reindex [symmetric])
  also have "\<dots> = (\<Sum>p<64. of_bool (p < length code \<and> D (i + p) \<noteq> data_bit (code ! p)))"
    by (rule sum.cong) (use w in simp_all)
  also have "\<dots> = (\<Sum>p<length code. of_bool (p < length code \<and> D (i + p) \<noteq> data_bit (code ! p)))"
    by (rule sum.mono_neutral_right) (use assms(2) in auto)
  also have "\<dots> = (\<Sum>p<length code. of_bool (D (i + p) \<noteq> data_bit (code ! p)))"
    by (rule sum.cong) simp_all
  finally show ?thesis using assms(3) by (simp add: word_le_nat_alt code_at_def correlator_at_def)
qed

lemma correlate_step:
  assumes "1 \<le> length code" "length code \<le> 64" "correlator_at code threshold D i s" "D (i + 64) = data_bit x"
  shows "data_bit (fst (correlate_item x s)) = D i"
    "fst (correlate_item x s) AND 2 \<noteq> 0 \<longleftrightarrow> length code \<le> i \<and> code_at code threshold D (i - length code)"
    "correlator_at code threshold D (Suc i) (snd (correlate_item x s))"
proof -
  let ?s = "snd (correlate_item x s)" and ?n = "length code"
  note inv = assms(3) [unfolded correlator_at_def]
  have top: "bit (d_data_reg s) 63 = D i" "bit (d_flag_reg s) 63 = (?n \<le> i \<and> code_at code threshold D (i - ?n))"
    using inv assms(1) by (auto dest!: spec [of _ 0])
  have bits: "bit (w AND 1) j \<longleftrightarrow> j = 0 \<and> bit w 0" for w :: u64 and j by (auto simp: bit_and_iff bit_1_iff)
  have out: "bit (fst (correlate_item x s)) j \<longleftrightarrow> (j = 0 \<and> bit (d_data_reg s) 63) \<or> (j = 1 \<and> bit (d_flag_reg s) 63)" for j
    unfolding correlate_item_def Let_def fst_conv
    by (simp only: bit_unsigned_iff bit_or_iff bits bit_double_u64 bit_drop_bit_eq possible_bit_word) (auto simp: One_nat_def)
  show "data_bit (fst (correlate_item x s)) = D i" unfolding data_bit_def out top by simp
  have "fst (correlate_item x s) AND 2 \<noteq> 0 \<longleftrightarrow> bit (fst (correlate_item x s)) 1"
    using bit_iff_and_push_bit_not_eq_0 [of "fst (correlate_item x s)" 1] by simp
  then show "fst (correlate_item x s) AND 2 \<noteq> 0 \<longleftrightarrow> ?n \<le> i \<and> code_at code threshold D (i - ?n)"
    unfolding out top by simp
  have u: "ucast (x AND 1) = (of_bool (data_bit x) :: u64)" by (simp add: data_bit_def and_one_eq mod_2_eq_odd bit_0)
  have data: "bit (d_data_reg ?s) (63 - p) = D (Suc i + p)" if "p < 64" for p
  proof -
    have "bit (d_data_reg ?s) (63 - p) \<longleftrightarrow> (1 \<le> 63 - p \<and> bit (d_data_reg s) (63 - p - 1)) \<or> (63 - p = 0 \<and> data_bit x)"
    proof -
      have "d_data_reg ?s = push_bit 1 (d_data_reg s) OR of_bool (data_bit x)" unfolding correlate_item_def Let_def u by simp
      then show ?thesis by (simp only: bit_or_iff bit_double_u64 bit_of_bool_iff) auto
    qed
    note b = this
    show ?thesis
    proof (cases "p = 63")
      case True
      then show ?thesis unfolding b using assms(4) by (simp add: add.commute)
    next
      case False
      then have "bit (d_data_reg s) (63 - Suc p) = D (i + Suc p)" using inv [THEN conjunct1, rule_format, of "Suc p"] that by simp
      moreover have "1 \<le> 63 - p" "63 - p - 1 = 63 - Suc p" "\<not> 63 - p = 0" using False that by linarith+
      ultimately show ?thesis unfolding b by (simp only: simp_thms) (simp add: add.commute add.left_commute)
    qed
  qed
  have flag: "bit (d_flag_reg ?s) (63 - p) = (p < ?n \<and> ?n \<le> Suc i + p \<and> code_at code threshold D (Suc i + p - ?n))" if "p < 64" for p
  proof -
    let ?hit = "code_at code threshold D i"
    have new: "bit (push_bit (64 - ?n) 1 :: u64) (63 - p) \<longleftrightarrow> p = ?n - 1"
      using assms(1,2) that by (simp only: bit_push_bit_iff bit_1_iff possible_bit_word) auto
    have "d_flag_reg ?s = (if ?hit then push_bit 1 (d_flag_reg s) OR push_bit (64 - ?n) 1 else push_bit 1 (d_flag_reg s))"
      unfolding correlate_item_def Let_def using wrong_bits_sum [OF assms(1-3)] inv by simp
    then have "bit (d_flag_reg ?s) (63 - p) \<longleftrightarrow> (1 \<le> 63 - p \<and> bit (d_flag_reg s) (63 - p - 1)) \<or> (?hit \<and> p = ?n - 1)"
      by (cases ?hit) (simp_all only: if_True if_False bit_or_iff bit_double_u64 new, auto)
    also have "(1 \<le> 63 - p \<and> bit (d_flag_reg s) (63 - p - 1)) \<longleftrightarrow> p < 63 \<and> Suc p < ?n \<and> ?n \<le> i + Suc p \<and> code_at code threshold D (i + Suc p - ?n)"
    proof (cases "p = 63")
      case False
      then have "bit (d_flag_reg s) (63 - Suc p) = (Suc p < ?n \<and> ?n \<le> i + Suc p \<and> code_at code threshold D (i + Suc p - ?n))"
        using inv [THEN conjunct2, THEN conjunct1, rule_format, of "Suc p"] that by simp
      moreover have "1 \<le> 63 - p" "63 - p - 1 = 63 - Suc p" "p < 63" using False that by linarith+
      ultimately show ?thesis by simp
    qed simp
    also have "\<dots> \<or> (?hit \<and> p = ?n - 1) \<longleftrightarrow> p < ?n \<and> ?n \<le> Suc i + p \<and> code_at code threshold D (Suc i + p - ?n)"
    proof (cases "Suc p = ?n")
      case True
      then have "Suc i + p - ?n = i" "p = ?n - 1" "p < ?n" "?n \<le> Suc i + p" "\<not> Suc p < ?n" by linarith+
      then show ?thesis by simp
    next
      case False
      then have "p < ?n \<longleftrightarrow> Suc p < ?n" "p \<noteq> ?n - 1" using assms(1) by linarith+
      then show ?thesis using assms(2) by auto
    qed
    finally show ?thesis .
  qed
  show "correlator_at code threshold D (Suc i) ?s"
    unfolding correlator_at_def using data flag inv by (simp add: correlate_item_def Let_def)
qed

lemma correlate_run:
  assumes "1 \<le> length code" "length code \<le> 64" "correlator_at code threshold D i s"
    and "\<And>j. j < length xs \<Longrightarrow> D (i + j + 64) = data_bit (xs ! j)"
  shows "k < length xs \<Longrightarrow> data_bit (fst (transduce correlate_item xs s) ! k) = D (i + k)
    \<and> (fst (transduce correlate_item xs s) ! k AND 2 \<noteq> 0
        \<longleftrightarrow> length code \<le> i + k \<and> code_at code threshold D (i + k - length code))"
  using assms(3,4)
proof (induction xs arbitrary: i s k)
  case (Cons x xs)
  have x: "D (i + 64) = data_bit x" using Cons.prems(3) [of 0] by simp
  note step = correlate_step [OF assms(1,2) Cons.prems(2) x]
  have rest: "D (Suc i + j + 64) = data_bit (xs ! j)" if "j < length xs" for j using Cons.prems(3) [of "Suc j"] that by simp
  show ?case
  proof (cases k)
    case 0
    then show ?thesis using step(1,2) by (simp add: split_beta)
  next
    case (Suc k')
    then have "k' < length xs" using Cons.prems(1) by simp
    from Cons.IH [OF this step(3) rest] show ?thesis unfolding Suc by (simp add: split_beta)
  qed
qed simp

lemma fresh_correlator:
  assumes "make_correlate_access_code code threshold = Some s" "1 \<le> length code"
  shows "length code \<le> 64" "correlator_at code threshold (delayed xs) 0 s"
proof -
  show len: "length code \<le> 64" using assms(1) by (auto simp: make_correlate_access_code_def set_access_code_def Let_def split: if_splits)
  show "correlator_at code threshold (delayed xs) 0 s"
    using assms len by (auto simp: make_correlate_access_code_def set_access_code_def Let_def correlator_at_def delayed_def)
qed

lemma fresh_run:
  assumes "make_correlate_access_code code threshold = Some s" "1 \<le> length code" "k < length xs"
  shows "data_bit (fst (transduce correlate_item xs s) ! k) = delayed xs k
    \<and> (fst (transduce correlate_item xs s) ! k AND 2 \<noteq> 0
        \<longleftrightarrow> length code \<le> k \<and> code_at code threshold (delayed xs) (k - length code))"
proof -
  have "delayed xs (0 + j + 64) = data_bit (xs ! j)" if "j < length xs" for j using that by (simp add: delayed_def)
  from correlate_run [OF assms(2) fresh_correlator [OF assms(1,2)] this assms(3)] show ?thesis by simp
qed

text \<open>
  The correlator passes its bits on with a delay of 64 and sets the flag on exactly those that
  follow an access code: the preceding bits agree with it but for at most as many errors as the
  threshold allows.
\<close>

theorem access_code_flags:
  assumes "make_correlate_access_code code threshold = Some s" "1 \<le> length code" "k < length xs"
  shows "data_bit (fst (transduce correlate_item xs s) ! k) = delayed xs k
    \<and> (fst (transduce correlate_item xs s) ! k AND 2 \<noteq> 0
        \<longleftrightarrow> length code \<le> k \<and> code_at code threshold (delayed xs) (k - length code))"
  using assms by (rule fresh_run)

theorem access_code_flags_witness:
  "\<exists>s. make_correlate_access_code [1, 0, 1] 0 = Some s
    \<and> data_bit (fst (transduce correlate_item (replicate 70 1) s) ! 66) = delayed (replicate 70 1) 66
    \<and> (fst (transduce correlate_item (replicate 70 1) s) ! 66 AND 2 \<noteq> 0
        \<longleftrightarrow> length [1, 0, 1 :: u8] \<le> 66 \<and> code_at [1, 0, 1] 0 (delayed (replicate 70 1)) (66 - length [1, 0, 1 :: u8]))"
proof -
  obtain s where s: "make_correlate_access_code [1, 0, 1] 0 = Some s"
    by (simp add: make_correlate_access_code_def set_access_code_def Let_def)
  then show ?thesis using access_code_flags [OF s, of 66 "replicate 70 1"] by simp
qed

definition sample_framer :: framer_sink_1 where
  "sample_framer = \<lparr> d_target_queue = [], d_state = STATE_SYNC_SEARCH, d_header = 0, d_headerbitlen_cnt = 0,
     d_packet = replicate MAX_PKT_LEN 0, d_packet_byte = 0, d_packet_byte_index = 0, d_packetlen = 0,
     d_packet_whitener_offset = 0, d_packetlen_cnt = 0 \<rparr>"

text \<open>
  C12: the framer never writes outside its packet buffer, whatever it is given: the invariant that
  bounds its counters is kept by the loop, from the constructor on.
\<close>

theorem framer_bounds:
  assumes "length (d_packet m) = MAX_PKT_LEN"
  shows "framer_ok (framer_loop xs (make_framer_sink_1 q m))
    \<and> (d_state (framer_loop xs (make_framer_sink_1 q m)) = STATE_HAVE_HEADER \<longrightarrow>
        nat (d_packetlen_cnt (framer_loop xs (make_framer_sink_1 q m))) < length (d_packet (framer_loop xs (make_framer_sink_1 q m))))"
proof -
  have "framer_ok (make_framer_sink_1 q m)" using assms by (simp add: framer_ok_def make_framer_sink_1_def enter_search_def)
  then have "framer_ok (framer_loop xs (make_framer_sink_1 q m))" by (rule framer_loop_ok)
  then show ?thesis by (auto simp: framer_ok_def MAX_PKT_LEN_def)
qed

theorem framer_bounds_witness: "framer_ok (framer_loop [2, 0, 1] (make_framer_sink_1 [] sample_framer))"
  using framer_bounds [of sample_framer "[2, 0, 1]" "[]"] by (simp add: sample_framer_def)

text \<open>
  C6: correlator and framer together: if the bits after the first access code in the stream are those
  of a packet, the framer puts exactly its payload and its offset into the queue, and searches again.
\<close>

theorem packet_delivered:
  assumes "make_correlate_access_code code threshold = Some c" "1 \<le> length code"
    and "code_at code threshold (delayed xs) t" "\<And>u. u < t \<Longrightarrow> \<not> code_at code threshold (delayed xs) u"
    and "map (delayed xs) [t + length code..<length xs] = packet_bits offset payload" "length payload < 4096" "offset < 16"
    and "d_state s = STATE_SYNC_SEARCH" "length (d_packet s) = MAX_PKT_LEN"
  shows "d_target_queue (framer_loop (fst (transduce correlate_item xs c)) s)
      = d_target_queue s @ [\<lparr> d_type = 0, d_arg1 = int offset, d_arg2 = 0, d_msg = payload \<rparr>]
    \<and> d_state (framer_loop (fst (transduce correlate_item xs c)) s) = STATE_SYNC_SEARCH"
proof -
  let ?j = "t + length code" and ?out = "fst (transduce correlate_item xs c)"
  have run: "data_bit (?out ! k) = delayed xs k"
      "?out ! k AND 2 \<noteq> 0 \<longleftrightarrow> length code \<le> k \<and> code_at code threshold (delayed xs) (k - length code)" if "k < length xs" for k
    using fresh_run [OF assms(1,2) that] by blast+
  have "length (packet_bits offset payload) \<ge> 32" by (simp add: packet_bits_def)
  then have j: "?j < length xs" using arg_cong [OF assms(5), of length] by simp
  have quiet: "\<forall>x \<in> set (take ?j ?out). x AND 2 = 0"
  proof
    fix x
    assume "x \<in> set (take ?j ?out)"
    then obtain k where k: "k < ?j" "x = ?out ! k" using j by (auto simp: in_set_conv_nth)
    show "x AND 2 = 0"
    proof (rule ccontr)
      assume "x AND 2 \<noteq> 0"
      then have "length code \<le> k" "code_at code threshold (delayed xs) (k - length code)" using run(2) [of k] k j by auto
      moreover from this(1) have "k - length code < t" using k(1) by linarith
      ultimately show False using assms(4) by blast
    qed
  qed
  have flag: "hd (drop ?j ?out) AND 2 \<noteq> 0"
    using run(2) [OF j] assms(3) j by (simp add: hd_drop_conv_nth)
  have body: "map data_bit (drop ?j ?out) = packet_bits offset payload"
  proof -
    have "map data_bit (drop ?j ?out) = map (delayed xs) [?j..<length xs]"
      by (rule nth_equalityI) (use run(1) in simp_all)
    then show ?thesis using assms(5) by simp
  qed
  have "framer_loop ?out s = framer_loop (drop ?j ?out) (framer_loop (take ?j ?out) s)"
    using framer_loop_append [of "take ?j ?out" "drop ?j ?out" s] by simp
  then have "framer_loop ?out s = framer_loop (drop ?j ?out) s" using searching [OF assms(8) quiet] by simp
  then show ?thesis using packet_received [OF assms(8,9,6,7) flag body] by simp
qed

definition sample_bits :: "u8 list" where
  "sample_bits = 1 # map of_bool (packet_bits 2 [0x5A]) @ replicate 64 0"

lemma sample_delayed:
  "delayed sample_bits 64" "u < 64 \<Longrightarrow> \<not> delayed sample_bits u"
  "map (delayed sample_bits) [65..<length sample_bits] = packet_bits 2 [0x5A]"
proof -
  have b: "data_bit (of_bool b) = b" for b by (cases b) (simp_all add: data_bit_def)
  have len: "length (packet_bits 2 [0x5A]) = 40" by (simp add: packet_bits_def)
  show "delayed sample_bits 64" by (simp add: delayed_def sample_bits_def data_bit_def)
  show "u < 64 \<Longrightarrow> \<not> delayed sample_bits u" by (simp add: delayed_def)
  show "map (delayed sample_bits) [65..<length sample_bits] = packet_bits 2 [0x5A]"
  proof (rule nth_equalityI)
    fix i
    assume "i < length (map (delayed sample_bits) [65..<length sample_bits])"
    then have i: "i < 40" "i < length sample_bits - 65" by (simp_all add: sample_bits_def len)
    have "65 + i - 64 = Suc i" by simp
    then have "delayed sample_bits (65 + i) = packet_bits 2 [0x5A] ! i"
      using i(1) by (simp add: delayed_def sample_bits_def nth_append len b)
    then show "map (delayed sample_bits) [65..<length sample_bits] ! i = packet_bits 2 [0x5A] ! i"
      unfolding nth_map_upt [OF i(2)] .
  qed (simp add: sample_bits_def len)
qed

theorem packet_delivered_witness:
  "\<exists>c. make_correlate_access_code [1] 0 = Some c
    \<and> d_target_queue (framer_loop (fst (transduce correlate_item sample_bits c)) sample_framer)
      = [\<lparr> d_type = 0, d_arg1 = 2, d_arg2 = 0, d_msg = [0x5A] \<rparr>]"
proof -
  obtain c where c: "make_correlate_access_code [1] 0 = Some c"
    by (simp add: make_correlate_access_code_def set_access_code_def Let_def)
  have at: "code_at [1] 0 (delayed sample_bits) u \<longleftrightarrow> delayed sample_bits u" for u
    by (simp add: code_at_def data_bit_def)
  have "map (delayed sample_bits) [64 + length [1 :: u8]..<length sample_bits] = packet_bits 2 [0x5A]"
    using sample_delayed(3) by simp
  note p = packet_delivered [OF c _ _ _ this, of sample_framer]
  show ?thesis using p c sample_delayed(1,2) by (simp add: at sample_framer_def)
qed

end
