(* ===== verification/Gr_Network.thy ===== *)
theory Gr_Network
  imports Gr_Framer "HOL-Library.Sublist"
begin

text \<open>
  Whole flow graphs: the blocks of a graph run by the executor in any order.  What has been written
  to every stream depends on the graph alone, not on the order.
\<close>

declare of_nat_unat [simp del]

section \<open>Functions of items\<close>

text \<open>
  One item of every output for each window of \<open>h\<close> items of the inputs, with a state: what a
  synchronous block computes when it is asked for \<open>n\<close> items.
\<close>

type_synonym ('a, 't) item_function = "'a list list \<Rightarrow> 't \<Rightarrow> 'a list \<times> 't"

fun item_run :: "nat \<Rightarrow> ('a, 't) item_function \<Rightarrow> nat \<Rightarrow> 'a list list \<Rightarrow> 't \<Rightarrow> 'a list list \<times> 't" where
  "item_run h f 0 ins s = ([], s)"
| "item_run h f (Suc n) ins s =
     (let (y, s) = f (map (take h) ins) s; (ys, s) = item_run h f n (map tl ins) s in (y # ys, s))"

definition column :: "nat \<Rightarrow> 'a list list \<Rightarrow> 'a list" where
  "column j rows = map (\<lambda>row. row ! j) rows"

lemma column_simps [simp]: "column j [] = []" "column j (xs @ ys) = column j xs @ column j ys"
  "column j (x # xs) = (x ! j) # column j xs" "length (column j xs) = length xs"
  by (simp_all add: column_def)

lemma item_run_length [simp]: "length (fst (item_run h f n ins s)) = n"
  by (induction n arbitrary: ins s) (simp_all add: split_beta Let_def)

lemma item_run_add:
  "item_run h f (m + n) ins s =
    (case item_run h f m ins s of (xs, s') \<Rightarrow> case item_run h f n (map (drop m) ins) s' of (ys, s'') \<Rightarrow> (xs @ ys, s''))"
proof (induction m arbitrary: ins s)
  case (Suc m)
  have d: "drop m \<circ> tl = drop (Suc m)" by (rule ext) (simp add: drop_Suc)
  show ?case using Suc by (simp add: split_beta Let_def d)
qed simp

text \<open>No more of the inputs matters than the windows.\<close>

lemma item_run_take:
  assumes "1 \<le> h" "n + h - 1 \<le> N"
  shows "item_run h f n (map (take N) ins) s = item_run h f n ins s"
  using assms(2)
proof (induction n arbitrary: ins s N)
  case (Suc n)
  have a: "map (take h) (map (take N) ins) = map (take h) ins" using Suc.prems by (simp add: min_def)
  have b: "map tl (map (take N) ins) = map (take (N - 1)) (map tl ins)" by (simp add: tl_take)
  have "item_run h f n (map (take (N - 1)) (map tl ins)) s' = item_run h f n (map tl ins) s'" for s'
    by (rule Suc.IH) (use Suc.prems assms(1) in linarith)
  then show ?case unfolding item_run.simps a b by (simp add: split_beta Let_def)
qed simp

lemma item_run_cong:
  assumes "1 \<le> h" "map (take (n + h - 1)) ins = map (take (n + h - 1)) ins'"
  shows "item_run h f n ins s = item_run h f n ins' s"
  using item_run_take [OF assms(1) order_refl, of f n ins s] item_run_take [OF assms(1) order_refl, of f n ins' s] assms(2) by simp

lemma item_run_prefix:
  "m \<le> n \<Longrightarrow> fst (item_run h f m ins s) = take m (fst (item_run h f n ins s))"
  using item_run_add [of h f m "n - m" ins s] by (simp add: split_beta)

text \<open>The contract of a work method that computes such a function.\<close>

locale stream_work = sync_work +
  fixes f :: "('a, 't) item_function"
  assumes history: "1 \<le> h"
    and computes: "ports (length ins) k \<Longrightarrow> 0 < n \<Longrightarrow> n < 2 ^ 31 \<Longrightarrow> \<forall>xs \<in> set ins. n + h - 1 \<le> int (length xs) \<Longrightarrow> work n ins k s = (r, ws, s')
      \<Longrightarrow> ws = map (\<lambda>j. column j (fst (item_run (nat h) f (nat r) ins s))) [0..<k] \<and> s' = snd (item_run (nat h) f (nat r) ins s)"


section \<open>The blocks\<close>

text \<open>Blocks that work item by item.\<close>

definition per_item :: "('a \<Rightarrow> 't \<Rightarrow> 'a \<times> 't) \<Rightarrow> ('a, 't) item_function" where
  "per_item f ins s = (let (y, s) = f (hd (hd ins)) s in ([y], s))"

lemma per_item_run:
  "n \<le> length xs \<Longrightarrow> item_run 1 (per_item f) n [xs] s = (let (ys, s) = transduce f (take n xs) s in (map (\<lambda>y. [y]) ys, s))"
proof (induction n arbitrary: xs s)
  case (Suc n)
  then obtain x xs' where "xs = x # xs'" by (cases xs) auto
  then show ?case using Suc by (simp add: per_item_def split_beta Let_def)
qed simp

lemma column_singles [simp]: "column 0 (map (\<lambda>y. [y]) ys) = ys"
  by (induction ys) simp_all

lemma one_to_one_ins: "one_to_one (length ins) k \<Longrightarrow> \<exists>xs. ins = [xs] \<and> k = 1"
  by (cases ins) (auto simp: one_to_one_def)

lemma item_stream: "stream_work (item_work f) one_to_one 1 (per_item f)"
proof (intro stream_work.intro item_work_ok stream_work_axioms.intro)
  fix ins k and n r :: int and s ws s'
  assume a: "one_to_one (length ins) k" "\<forall>xs \<in> set ins. n + 1 - 1 \<le> int (length xs)" "item_work f n ins k s = (r, ws, s')"
  obtain xs where xs: "ins = [xs]" "k = 1" using one_to_one_ins [OF a(1)] by blast
  then have r: "r = n" "nat n \<le> length xs" using a(2,3) by (auto simp: item_work_def split_beta Let_def)
  then show "ws = map (\<lambda>j. column j (fst (item_run (nat 1) (per_item f) (nat r) ins s))) [0..<k]
      \<and> s' = snd (item_run (nat 1) (per_item f) (nat r) ins s)"
    using a(3) xs per_item_run [OF r(2), of f s] by (auto simp: item_work_def split_beta Let_def One_nat_def)
qed simp

interpretation scrambler: stream_work gr_scrambler_bb_work one_to_one 1 "per_item next_bit_scramble"
  unfolding gr_scrambler_bb_work_def by (rule item_stream)

interpretation descrambler: stream_work gr_descrambler_bb_work one_to_one 1 "per_item next_bit_descramble"
  unfolding gr_descrambler_bb_work_def by (rule item_stream)

interpretation additive: stream_work gr_additive_scrambler_bb_work one_to_one 1 "per_item additive_scramble"
  unfolding gr_additive_scrambler_bb_work_def by (rule item_stream)

interpretation diff_enc: stream_work gr_diff_encoder_bb_work one_to_one 1 "per_item diff_encode"
  unfolding gr_diff_encoder_bb_work_def by (rule item_stream)

interpretation map_bb: stream_work gr_map_bb_work one_to_one 1 "per_item map_item"
  unfolding gr_map_bb_work_def by (rule item_stream)

interpretation correlator: stream_work gr_correlate_access_code_bb_work one_to_one 1 "per_item correlate_item"
  unfolding gr_correlate_access_code_bb_work_def by (rule item_stream)

text \<open>The differential decoder looks at two items.\<close>

definition diff_decode_pair :: "(u8, u32) item_function" where
  "diff_decode_pair ins m = ([diff_decode m (hd ins ! 0) (hd ins ! 1)], m)"

lemma diff_decode_run:
  "n < length xs \<Longrightarrow> item_run 2 diff_decode_pair n [xs] m = (map (\<lambda>i. [diff_decode m (xs ! i) (xs ! Suc i)]) [0..<n], m)"
proof (induction n arbitrary: xs)
  case (Suc n)
  then obtain x y xs' where "xs = x # y # xs'" by (cases xs; cases "tl xs") auto
  then show ?case using Suc by (simp add: diff_decode_pair_def map_upt_Suc del: upt_Suc)
qed simp

interpretation diff_dec: stream_work gr_diff_decoder_bb_work one_to_one 2 diff_decode_pair
proof
  fix ins :: "u8 list list" and k and n r :: int and s ws s'
  assume a: "one_to_one (length ins) k" "0 < n" "\<forall>xs \<in> set ins. n + 2 - 1 \<le> int (length xs)" "gr_diff_decoder_bb_work n ins k s = (r, ws, s')"
  obtain xs where xs: "ins = [xs]" "k = 1" using one_to_one_ins [OF a(1)] by blast
  then have r: "r = n" "nat n < length xs" using a(2-4) by (auto simp: gr_diff_decoder_bb_work_def split_beta Let_def)
  then show "ws = map (\<lambda>j. column j (fst (item_run (nat 2) diff_decode_pair (nat r) ins s))) [0..<k]
      \<and> s' = snd (item_run (nat 2) diff_decode_pair (nat r) ins s)"
    using a(4) xs diff_decode_run [OF r(2)] by (auto simp: gr_diff_decoder_bb_work_def column_def Let_def One_nat_def)
qed simp

text \<open>The sinks.\<close>

lemma idle_run: "snd (item_run h (\<lambda>ins s. ([], s)) n ins s) = s"
  by (induction n arbitrary: ins) (simp_all add: split_beta Let_def)

interpretation null_sink: stream_work gr_null_sink_work "\<lambda>i k. i = 1 \<and> k = 0" 1 "\<lambda>ins s. ([], s)"
  by unfold_locales (auto simp: gr_null_sink_work_def idle_run)

lemma constant_run: "item_run h (\<lambda>ins s. (y, s)) n ins s = (replicate n y, s)"
  by (induction n arbitrary: ins) (simp_all add: Let_def)

interpretation null_source: stream_work gr_null_source_work "\<lambda>i k. i = 0 \<and> k = 1" 1 "\<lambda>ins s. ([0], s)"
  by unfold_locales (auto simp: gr_null_source_work_def constant_run column_def)

definition framer_item :: "(u8, framer_sink_1) item_function" where
  "framer_item ins s = ([], framer_loop (hd ins) s)"

lemma framer_item_one: "framer_item [[x]] s = ([], framer_loop [x] s)"
  by (simp add: framer_item_def)

lemma framer_run:
  "n \<le> length xs \<Longrightarrow> snd (item_run 1 framer_item n [xs] s) = framer_loop (take n xs) s"
proof (induction n arbitrary: xs s)
  case (Suc n)
  then obtain x xs' where x: "xs = x # xs'" by (cases xs) auto
  have "map (take 1) [xs] = [[x]]" "map tl [xs] = [xs']" by (simp_all add: x)
  then have "snd (item_run 1 framer_item (Suc n) [xs] s) = snd (item_run 1 framer_item n [xs'] (framer_loop [x] s))"
    by (simp only: item_run.simps framer_item_one split_beta Let_def snd_conv)
  also have "\<dots> = framer_loop (take n xs') (framer_loop [x] s)" by (rule Suc.IH) (use Suc.prems x in simp)
  also have "\<dots> = framer_loop ([x] @ take n xs') s" by (rule framer_loop_append [symmetric])
  finally show ?case unfolding x by (simp only: append.simps take_Suc_Cons)
qed simp

interpretation framer: stream_work gr_framer_sink_1_work "\<lambda>i k. i = 1 \<and> k = 0" 1 framer_item
proof
  show "ws = map (\<lambda>j. column j (fst (item_run (nat 1) framer_item (nat r) ins s))) [0..<k]
      \<and> s' = snd (item_run (nat 1) framer_item (nat r) ins s)"
    if "length ins = 1 \<and> k = 0" "\<forall>xs \<in> set ins. n + 1 - 1 \<le> int (length xs)" "gr_framer_sink_1_work n ins k s = (r, ws, s')"
    for ins k and n r :: int and s ws s'
  proof -
    have "\<exists>xs. ins = [xs]" using that(1) by (cases ins) auto
    then obtain xs where "ins = [xs]" ..
    then show ?thesis using that framer_run [of "nat n" xs s] by (auto simp: gr_framer_sink_1_work_def One_nat_def)
  qed
qed simp

text \<open>The head block copies its items while it counts them.\<close>

definition head_item :: "('a, gr_head) item_function" where
  "head_item ins s = ([hd (hd ins)], s\<lparr> d_ncopied_items := d_ncopied_items s + 1 \<rparr>)"

lemma head_run:
  "n \<le> length xs \<Longrightarrow> item_run 1 head_item n [xs] s
    = (map (\<lambda>y. [y]) (take n xs), s\<lparr> d_ncopied_items := d_ncopied_items s + word_of_nat n \<rparr>)"
proof (induction n arbitrary: xs s)
  case (Suc n)
  then obtain x xs' where x: "xs = x # xs'" by (cases xs) auto
  then show ?case using Suc by (simp add: head_item_def add.assoc)
qed simp


interpretation head: stream_work gr_head_work one_to_one 1 head_item
proof
  fix ins :: "'a list list" and k and n r :: int and s ws s'
  assume a: "one_to_one (length ins) k" "0 < n" "n < 2 ^ 31" "\<forall>xs \<in> set ins. n + 1 - 1 \<le> int (length xs)"
    "gr_head_work n ins k s = (r, ws, s')"
  obtain xs where xs: "ins = [xs]" "k = 1" using one_to_one_ins [OF a(1)] by blast
  let ?c = "ucast (min (d_nitems s - d_ncopied_items s) (word_of_int n)) :: u32"
  show "ws = map (\<lambda>j. column j (fst (item_run (nat 1) head_item (nat r) ins s))) [0..<k]
      \<and> s' = snd (item_run (nat 1) head_item (nat r) ins s)"
  proof (cases "d_ncopied_items s < d_nitems s")
    case True
    note c = head_count [OF a(2,3) True]
    have len: "unat ?c \<le> length xs" using c(1) a(4) xs by simp
    have "(ucast ?c :: u64) = word_of_nat (unat ?c)" by (rule of_nat_unat [symmetric])
    moreover have "nat (sint ?c) = unat ?c" using c(2) by simp
    ultimately show ?thesis using a(5) xs True head_run [OF len, of s] by (auto simp: gr_head_work_def Let_def One_nat_def split: if_splits)
  next
    case False
    then show ?thesis using a xs by (auto simp: gr_head_work_def not_less One_nat_def)
  qed
qed simp

section \<open>Networks\<close>

text \<open>
  A block of a graph: its work method, on a state of its own, what it computes, and its place.
\<close>

definition at_block :: "block \<Rightarrow> ('a, 't) work \<Rightarrow> ('a, block \<Rightarrow> 't) work" where
  "at_block m work n ins k s = (case work n ins k (s m) of (r, ws, t) \<Rightarrow> (r, ws, s(m := t)))"

record ('a, 't) node =
  n_work :: "('a, 't) work"
  n_ports :: "nat \<Rightarrow> nat \<Rightarrow> bool"
  n_history :: int
  n_item :: "('a, 't) item_function"
  n_ins :: "(nat \<times> nat) list"
  n_outs :: "nat list"

type_synonym ('a, 't) graph = "block \<Rightarrow> ('a, 't) node option"
type_synonym 'a histories = "nat \<Rightarrow> 'a list"
type_synonym positions = "nat \<Rightarrow> nat \<Rightarrow> nat"

definition node_ok :: "('a, block \<Rightarrow> 't) gr_block \<Rightarrow> block \<Rightarrow> ('a, 't) node \<Rightarrow> bool" where
  "node_ok blk m N \<longleftrightarrow> stream_work (n_work N) (n_ports N) (n_history N) (n_item N)
     \<and> n_ports N (length (n_ins N)) (length (n_outs N)) \<and> (n_ins N \<noteq> [] \<or> n_outs N \<noteq> [])
     \<and> synchronous blk (at_block m (n_work N)) (n_history N)"

definition network :: "(block \<Rightarrow> ('a, block \<Rightarrow> 't) gr_block) \<Rightarrow> ('a, 't) graph \<Rightarrow> ('a, block \<Rightarrow> 't) runtime \<Rightarrow> bool" where
  "network bs net rt \<longleftrightarrow>
     (\<forall>m N. net m = Some N \<longrightarrow> node_ok (bs m) m N \<and> wired rt m (n_ins N) (n_outs N)
        \<and> (\<forall>k < length (buffers rt). int (unat (d_bufsize (buffers rt ! k))) + n_history N \<le> 2 ^ 31))
     \<and> (\<forall>m m' N N'. net m = Some N \<longrightarrow> net m' = Some N' \<longrightarrow> m \<noteq> m' \<longrightarrow>
          set (n_ins N) \<inter> set (n_ins N') = {} \<and> set (n_outs N) \<inter> set (n_outs N') = {})"

text \<open>Iterations of any blocks in any order.\<close>

inductive scheduled ::
  "(block \<Rightarrow> ('a, 's) gr_block) \<Rightarrow> block set \<Rightarrow> ('a, 's) runtime \<Rightarrow> ('a, 's) runtime \<Rightarrow> bool"
  for bs M rt0 where
  start: "scheduled bs M rt0 rt0"
| iterate: "scheduled bs M rt0 rt \<Longrightarrow> m \<in> M \<Longrightarrow> run_one_iteration bs m rt = Some (Inr (st, rt')) \<Longrightarrow> scheduled bs M rt0 rt'"

text \<open>
  What a block has computed since the start, where it was in the state \<open>s0\<close>: \<open>c\<close> items of each
  output, from as many of each input, its function of them, and no others.
\<close>

definition computed ::
  "('a, 't) node \<Rightarrow> 'a histories \<Rightarrow> positions \<Rightarrow> 't \<Rightarrow> 'a histories \<Rightarrow> positions \<Rightarrow> 't \<Rightarrow> bool" where
  "computed N H0 P0 s0 H P s \<longleftrightarrow>
     (\<exists>c rows. item_run (nat (n_history N)) (n_item N) c (map (unread H P0) (n_ins N)) s0 = (rows, s)
        \<and> (\<forall>(k, r) \<in> set (n_ins N). P k r = P0 k r + c \<and> (0 < c \<longrightarrow> c + nat (n_history N) - 1 \<le> length (unread H P0 (k, r))))
        \<and> (\<forall>j < length (n_outs N). H (n_outs N ! j) = H0 (n_outs N ! j) @ column j rows))"

definition flows ::
  "('a, 't) graph \<Rightarrow> 'a histories \<Rightarrow> positions \<Rightarrow> ('a, block \<Rightarrow> 't) runtime \<Rightarrow> 'a histories \<Rightarrow> positions \<Rightarrow> ('a, block \<Rightarrow> 't) runtime \<Rightarrow> bool" where
  "flows net H0 P0 rt0 H P rt \<longleftrightarrow> streams rt H P (\<lambda>k. [])
     \<and> (\<forall>m N. net m = Some N \<longrightarrow> computed N H0 P0 (inner rt0 m) H P (inner rt m))
     \<and> (\<forall>k. (\<forall>m N. net m = Some N \<longrightarrow> k \<notin> set (n_outs N)) \<longrightarrow> H k = H0 k)"

lemma network_start:
  assumes "streams rt H P (\<lambda>k. [])"
  shows "flows net H P rt H P rt"
  using assms by (auto simp: flows_def computed_def intro!: exI [of _ 0])

lemma at_block_ok:
  assumes "sync_work work ports h"
  shows "sync_work (at_block m work) ports h"
proof (rule sync_work.intro)
  fix ins k and n r :: int and s ws s'
  assume a: "ports (length ins) k" "0 < n" "n < 2 ^ 31" "\<forall>xs \<in> set ins. n + h - 1 \<le> int (length xs)" "at_block m work n ins k s = (r, ws, s')"
  obtain r0 ws0 t where w: "work n ins k (s m) = (r0, ws0, t)" by (cases "work n ins k (s m)")
  then show "-1 \<le> r \<and> r \<le> n \<and> length ws = k \<and> (\<forall>w \<in> set ws. length w = nat r)"
    using a(5) sync_work.gives [OF assms a(1-4) w] by (simp add: at_block_def)
qed

lemma network_same:
  assumes "same_wiring rt rt'" "network bs net rt"
  shows "network bs net rt'"
proof -
  have len: "length (buffers rt') = length (buffers rt)" using assms(1) by (simp add: same_wiring_def)
  have size: "d_bufsize (buffers rt' ! k) = d_bufsize (buffers rt ! k)" if "k < length (buffers rt)" for k
    using assms(1) that by (simp add: same_wiring_def)
  have "node_ok (bs m) m N \<and> wired rt' m (n_ins N) (n_outs N)
      \<and> (\<forall>k < length (buffers rt'). int (unat (d_bufsize (buffers rt' ! k))) + n_history N \<le> 2 ^ 31)" if "net m = Some N" for m N
    using assms(2) that same_wiring_wired [OF assms(1)] unfolding network_def len by (simp add: size)
  then show ?thesis using assms(2) unfolding network_def by blast
qed

lemma network_history: "network bs net rt \<Longrightarrow> net m = Some N \<Longrightarrow> 1 \<le> n_history N"
  unfolding network_def node_ok_def using stream_work.history by blast

text \<open>One step of one block.\<close>

lemma unread_append: "\<exists>ys. unread (\<lambda>k. H k @ W k) P i = unread H P i @ ys"
  by (simp add: unread_def)

lemma stored_nth: "distinct ks \<Longrightarrow> length ws = length ks \<Longrightarrow> j < length ks \<Longrightarrow> stored ks ws (ks ! j) = ws ! j"
  by (simp add: stored_def map_of_zip_nth)

lemma computed_others:
  assumes "computed N H0 P0 s0 H P s" "1 \<le> n_history N"
    and "set (n_ins N) \<inter> set ins = {}" "set (n_outs N) \<inter> set outs = {}"
  shows "computed N H0 P0 s0 (\<lambda>k. H k @ stored outs ws k) (advance P ins n) s"
proof -
  let ?H = "\<lambda>k. H k @ stored outs ws k" and ?h = "nat (n_history N)"
  obtain c rows where c: "item_run ?h (n_item N) c (map (unread H P0) (n_ins N)) s0 = (rows, s)"
      "\<And>k r. (k, r) \<in> set (n_ins N) \<Longrightarrow> P k r = P0 k r + c \<and> (0 < c \<longrightarrow> c + ?h - 1 \<le> length (unread H P0 (k, r)))"
      "\<And>j. j < length (n_outs N) \<Longrightarrow> H (n_outs N ! j) = H0 (n_outs N ! j) @ column j rows"
    using assms(1) unfolding computed_def by blast
  have len: "0 < c \<longrightarrow> c + ?h - 1 \<le> length (unread ?H P0 (k, r))"
    and take: "0 < c \<Longrightarrow> take (c + ?h - 1) (unread ?H P0 (k, r)) = take (c + ?h - 1) (unread H P0 (k, r))"
    if "(k, r) \<in> set (n_ins N)" for k r
    using c(2) [OF that] unread_append [of H "stored outs ws" P0 "(k, r)"] by auto
  have h: "1 \<le> ?h" using assms(2) by simp
  have "item_run ?h (n_item N) c (map (unread ?H P0) (n_ins N)) s0 = item_run ?h (n_item N) c (map (unread H P0) (n_ins N)) s0"
  proof (cases "c = 0")
    case False
    then show ?thesis using take by (intro item_run_cong [OF h]) auto
  qed simp
  moreover have "advance P ins n k r = P0 k r + c" if "(k, r) \<in> set (n_ins N)" for k r
    using c(2) [OF that] that assms(3) by (auto simp: advance_def)
  moreover have "?H (n_outs N ! j) = H0 (n_outs N ! j) @ column j rows" if "j < length (n_outs N)" for j
  proof -
    have "n_outs N ! j \<notin> set outs" using that assms(4) nth_mem by blast
    then show ?thesis using c(3) [OF that] by (simp add: stored_notin)
  qed
  ultimately show ?thesis using c(1) len unfolding computed_def
    by (intro exI [of _ c] exI [of _ rows]) auto
qed

lemma computed_own:
  assumes "computed N H0 P0 s0 H P s" "stream_work (n_work N) (n_ports N) (n_history N) (n_item N)"
    and "n_ports N (length (n_ins N)) (length (n_outs N))" "distinct (n_outs N)" "fst ` set (n_ins N) \<inter> set (n_outs N) = {}"
    and n: "0 < n" "n < 2 ^ 31" "\<And>i. i \<in> set (n_ins N) \<Longrightarrow> n + n_history N - 1 \<le> int (length (unread H P i))"
    and work: "n_work N n (map (unread H P) (n_ins N)) (length (n_outs N)) s = (r, ws, s')"
  shows "computed N H0 P0 s0 (\<lambda>k. H k @ stored (n_outs N) ws k) (advance P (n_ins N) (nat r)) s'"
proof -
  let ?H = "\<lambda>k. H k @ stored (n_outs N) ws k" and ?h = "nat (n_history N)" and ?f = "n_item N"
  obtain c rows where c: "item_run ?h ?f c (map (unread H P0) (n_ins N)) s0 = (rows, s)"
      "\<And>k r. (k, r) \<in> set (n_ins N) \<Longrightarrow> P k r = P0 k r + c \<and> (0 < c \<longrightarrow> c + ?h - 1 \<le> length (unread H P0 (k, r)))"
      "\<And>j. j < length (n_outs N) \<Longrightarrow> H (n_outs N ! j) = H0 (n_outs N ! j) @ column j rows"
    using assms(1) unfolding computed_def by blast
  have ins: "n_ports N (length (map (unread H P) (n_ins N))) (length (n_outs N))"
    "\<forall>xs \<in> set (map (unread H P) (n_ins N)). n + n_history N - 1 \<le> int (length xs)" using assms(3) n(3) by auto
  have sw: "sync_work (n_work N) (n_ports N) (n_history N)" by (rule stream_work.axioms(1) [OF assms(2)])
  note g = sync_work.gives [OF sw ins(1) n(1,2) ins(2) work]
  note f = stream_work.computes [OF assms(2) ins(1) n(1,2) ins(2) work]
  obtain rows2 where rows2: "item_run ?h ?f (nat r) (map (unread H P) (n_ins N)) s = (rows2, s')"
      "ws = map (\<lambda>j. column j rows2) [0..<length (n_outs N)]" using f by (cases "item_run ?h ?f (nat r) (map (unread H P) (n_ins N)) s") simp
  have same: "unread ?H P' i = unread H P' i" if "i \<in> set (n_ins N)" for P' i
  proof -
    have "fst i \<notin> set (n_outs N)" using assms(5) that by blast
    then show ?thesis by (simp add: unread_def stored_notin)
  qed
  have drop: "map (drop c) (map (unread H P0) (n_ins N)) = map (unread H P) (n_ins N)"
    using c(2) by (auto simp: unread_def add.commute)
  have "item_run ?h ?f (c + nat r) (map (unread ?H P0) (n_ins N)) s0 = (rows @ rows2, s')"
    using c(1) rows2(1) same unfolding item_run_add by (simp add: drop [simplified] cong: map_cong)
  moreover have "advance P (n_ins N) (nat r) k q = P0 k q + (c + nat r)
      \<and> (0 < c + nat r \<longrightarrow> c + nat r + ?h - 1 \<le> length (unread ?H P0 (k, q)))" if "(k, q) \<in> set (n_ins N)" for k q
  proof -
    have "unread H P (k, q) = drop c (unread H P0 (k, q))" using c(2) [OF that] by (simp add: unread_def add.commute)
    then have "int (length (unread H P0 (k, q)) - c) \<ge> n + n_history N - 1" using n(3) [OF that] by simp
    moreover have "r \<le> n" "1 \<le> n_history N" using g stream_work.history [OF assms(2)] by auto
    ultimately have "c + nat r + ?h - 1 \<le> length (unread H P0 (k, q)) \<or> c + nat r = 0" using n(1) by (auto simp: nat_le_iff)
    then show ?thesis using c(2) [OF that] that same [OF that] by (auto simp: advance_def)
  qed
  moreover have "?H (n_outs N ! j) = H0 (n_outs N ! j) @ column j (rows @ rows2)" if "j < length (n_outs N)" for j
    using c(3) [OF that] stored_nth [OF assms(4) _ that, of ws] rows2(2) that by simp
  ultimately show ?thesis unfolding computed_def
    by (intro exI [of _ "c + nat r"] exI [of _ "rows @ rows2"]) auto
qed

lemma network_step:
  assumes "network bs net rt" "flows net H0 P0 rt0 H P rt" "net m = Some N" "run_one_iteration bs m rt = Some (Inr (st, rt'))"
  shows "\<exists>H' P'. network bs net rt' \<and> flows net H0 P0 rt0 H' P' rt'"
proof -
  have N: "node_ok (bs m) m N" "wired rt m (n_ins N) (n_outs N)"
      "\<And>k. k < length (buffers rt) \<Longrightarrow> int (unat (d_bufsize (buffers rt ! k))) + n_history N \<le> 2 ^ 31"
    using assms(1,3) by (auto simp: network_def)
  have sw: "stream_work (n_work N) (n_ports N) (n_history N) (n_item N)" and ports: "n_ports N (length (n_ins N)) (length (n_outs N))"
    and io: "n_ins N \<noteq> [] \<or> n_outs N \<noteq> []" and sy: "synchronous (bs m) (at_block m (n_work N)) (n_history N)"
    using N(1) by (auto simp: node_ok_def)
  have s: "streams rt H P (\<lambda>k. [])" and cs: "\<And>m N. net m = Some N \<Longrightarrow> computed N H0 P0 (inner rt0 m) H P (inner rt m)"
    and rest: "\<And>k. (\<And>m N. net m = Some N \<Longrightarrow> k \<notin> set (n_outs N)) \<Longrightarrow> H k = H0 k"
    using assms(2) by (auto simp: flows_def)
  obtain d where d: "details rt m = Some d" using N(2) by (auto simp: wired_def)
  have nf: "\<not> d_finished d"
  proof
    assume "d_finished d"
    then have "run_one_iteration bs m rt = Some (Inl Assertion_failed)" using d by (simp add: run_one_iteration_def detail_def Let_def)
    then show False using assms(4) by simp
  qed
  have "stepped (at_block m (n_work N)) (d_output_multiple (bs m)) (n_history N) rt H P (n_ins N) (n_outs N) st rt'"
    using sync_work.iteration_ok [where bs = bs and m = m, OF at_block_ok [OF stream_work.axioms(1) [OF sw]] ports N(2) s sy N(3) io d nf]
      assms(4) by (auto simp: stepped_or_tag_def)
  then consider (ran) n where "same_wiring rt rt'" "0 < n" "\<And>i. i \<in> set (n_ins N) \<Longrightarrow> n + n_history N - 1 \<le> int (length (unread H P i))"
      "\<And>k. k \<in> set (n_outs N) \<Longrightarrow> room (buffers rt ! k) (H k) (P k) (nat n)"
      "worked (at_block m (n_work N)) rt H P (n_ins N) (n_outs N) n st rt'"
    | (held) "same_wiring rt rt'" "inner rt' = inner rt" "streams rt' H P (\<lambda>k. [])"
    unfolding stepped_def by blast
  then show ?thesis
  proof cases
    case (ran n)
    have n: "n < 2 ^ 31"
    proof (cases "n_outs N")
      case Nil
      then obtain i where i: "i \<in> set (n_ins N)" using io by (cases "n_ins N") auto
      then obtain rd where "(snd i, rd) \<in> set (d_readers (buffers rt ! fst i))" "fst i < length (buffers rt)"
        using N(2) wired_reader [of rt m "n_ins N" "n_outs N" "fst i" "snd i"] by auto
      note ok = streams_ok [OF s this(2)]
      have "length (unread H P i) < unat (d_bufsize (buffers rt ! fst i))"
        using buffer_okD(8) [OF ok \<open>(snd i, rd) \<in> _\<close>] by (auto simp: reader_at_def unread_def)
      moreover have "unat (d_bufsize (buffers rt ! fst i)) < 2 ^ 31" by (rule buffer_okD(3) [OF ok])
      ultimately have "length (unread H P i) < 2 ^ 31" by linarith
      then have "int (length (unread H P i)) < 2 ^ 31" by simp
      then show ?thesis using ran(3) [OF i] stream_work.history [OF sw] by linarith
    next
      case (Cons k ks)
      then have "k \<in> set (n_outs N)" "k < length (buffers rt)" using N(2) by (auto simp: wired_def)
      then show ?thesis using ran(4) [of k] buffer_okD(3) [OF streams_ok [OF s]] by (fastforce simp: room_def)
    qed
    obtain r ws t where w: "n_work N n (map (unread H P) (n_ins N)) (length (n_outs N)) (inner rt m) = (r, ws, t)"
      by (cases "n_work N n (map (unread H P) (n_ins N)) (length (n_outs N)) (inner rt m)")
    let ?H = "\<lambda>k. H k @ stored (n_outs N) ws k" and ?P = "advance P (n_ins N) (nat r)"
    have i: "inner rt' = (inner rt)(m := t)" and s': "streams rt' ?H ?P (\<lambda>k. [])"
      using ran(5) w by (simp_all add: worked_def at_block_def)
    have "computed N' H0 P0 (inner rt0 m') ?H ?P (inner rt' m')" if N': "net m' = Some N'" for m' N'
    proof (cases "m' = m")
      case True
      have "computed N H0 P0 (inner rt0 m) ?H ?P t"
        using N(2) ran(3) by (intro computed_own [OF cs [OF assms(3)] sw ports _ _ ran(2) n _ w]) (auto simp: wired_def)
      then show ?thesis using True N' assms(3) i by simp
    next
      case False
      have "1 \<le> n_history N'" by (rule network_history [OF assms(1) N'])
      then show ?thesis using computed_others [OF cs [OF N']] False assms(1,3) N' i by (auto simp: network_def)
    qed
    moreover have "?H k = H0 k" if "\<And>m N. net m = Some N \<Longrightarrow> k \<notin> set (n_outs N)" for k
      using rest [OF that] that [OF assms(3)] by (simp add: stored_notin)
    ultimately show ?thesis using s' network_same [OF ran(1) assms(1)] unfolding flows_def by blast
  next
    case held
    then show ?thesis using assms(2) network_same [OF held(1) assms(1)] unfolding flows_def by auto
  qed
qed

lemma network_run:
  assumes "scheduled bs (dom net) rt0 rt" "network bs net rt0" "streams rt0 H0 P0 (\<lambda>k. [])"
  shows "\<exists>H P. network bs net rt \<and> flows net H0 P0 rt0 H P rt"
  using assms(1)
proof induction
  case start
  then show ?case using assms(2) network_start [OF assms(3)] by blast
next
  case (iterate rt m st rt')
  then obtain N where "net m = Some N" by auto
  then show ?case using iterate network_step by blast
qed

section \<open>The order does not matter\<close>

text \<open>Streams of which one continues the other.\<close>

definition agree :: "'a list \<Rightarrow> 'a list \<Rightarrow> bool" where
  "agree xs ys \<longleftrightarrow> prefix xs ys \<or> prefix ys xs"

lemma agree_take: "agree xs ys \<Longrightarrow> n \<le> length xs \<Longrightarrow> n \<le> length ys \<Longrightarrow> take n xs = take n ys"
  by (auto simp: agree_def prefix_def)

lemma agree_drop: "agree xs ys \<Longrightarrow> agree (drop n xs) (drop n ys)"
  by (auto simp: agree_def prefix_def)

lemma agree_computed:
  assumes "computed N H0 P0 s0 H P s" "computed N H0 P0 s0 H' P' s'" "1 \<le> n_history N"
    and "\<And>i. i \<in> set (n_ins N) \<Longrightarrow> agree (H (fst i)) (H' (fst i))" "k \<in> set (n_outs N)"
  shows "agree (H k) (H' k)"
proof -
  let ?h = "nat (n_history N)"
  have h: "1 \<le> ?h" using assms(3) by simp
  obtain c rows where c: "item_run ?h (n_item N) c (map (unread H P0) (n_ins N)) s0 = (rows, s)"
      "\<And>k r. (k, r) \<in> set (n_ins N) \<Longrightarrow> 0 < c \<longrightarrow> c + ?h - 1 \<le> length (unread H P0 (k, r))"
      "\<And>j. j < length (n_outs N) \<Longrightarrow> H (n_outs N ! j) = H0 (n_outs N ! j) @ column j rows"
    using assms(1) unfolding computed_def by blast
  obtain c' rows' where c': "item_run ?h (n_item N) c' (map (unread H' P0) (n_ins N)) s0 = (rows', s')"
      "\<And>k r. (k, r) \<in> set (n_ins N) \<Longrightarrow> 0 < c' \<longrightarrow> c' + ?h - 1 \<le> length (unread H' P0 (k, r))"
      "\<And>j. j < length (n_outs N) \<Longrightarrow> H' (n_outs N ! j) = H0 (n_outs N ! j) @ column j rows'"
    using assms(2) unfolding computed_def by blast
  let ?n = "min c c'"
  have same: "item_run ?h (n_item N) ?n (map (unread H P0) (n_ins N)) s0 = item_run ?h (n_item N) ?n (map (unread H' P0) (n_ins N)) s0"
  proof (cases "?n = 0")
    case False
    have "take (?n + ?h - 1) (unread H P0 (a, b)) = take (?n + ?h - 1) (unread H' P0 (a, b))" if "(a, b) \<in> set (n_ins N)" for a b
    proof (rule agree_take)
      show "agree (unread H P0 (a, b)) (unread H' P0 (a, b))"
        using assms(4) [OF that] agree_drop by (simp add: unread_def)
      show "?n + ?h - 1 \<le> length (unread H P0 (a, b))" "?n + ?h - 1 \<le> length (unread H' P0 (a, b))"
        using c(2) [OF that] c'(2) [OF that] False by auto
    qed
    then show ?thesis by (intro item_run_cong [OF h]) auto
  qed simp
  have "take ?n rows = take ?n rows'"
    using item_run_prefix [of ?n c ?h "n_item N" "map (unread H P0) (n_ins N)" s0]
      item_run_prefix [of ?n c' ?h "n_item N" "map (unread H' P0) (n_ins N)" s0] same c(1) c'(1) by simp
  moreover have "length rows = c" "length rows' = c'"
    using item_run_length [of ?h "n_item N" c "map (unread H P0) (n_ins N)" s0]
      item_run_length [of ?h "n_item N" c' "map (unread H' P0) (n_ins N)" s0] c(1) c'(1) by simp_all
  ultimately have "rows' = rows @ drop c rows' \<or> rows = rows' @ drop c' rows"
    by (metis append_take_drop_id min.cobounded1 min_def take_all_iff)
  then have "agree (column j rows) (column j rows')" for j
    unfolding agree_def by (metis column_simps(2) prefixI)
  moreover obtain j where "j < length (n_outs N)" "k = n_outs N ! j" using assms(5) by (auto simp: in_set_conv_nth)
  ultimately show ?thesis using c(3) c'(3) by (simp add: agree_def)
qed

lemma network_agrees:
  assumes "network bs net rt1" "flows net H0 P0 rt0 H1 P1 rt1" "flows net H0 P0 rt0 H2 P2 rt2"
    and rank: "\<And>m N i k. net m = Some N \<Longrightarrow> i \<in> set (n_ins N) \<Longrightarrow> k \<in> set (n_outs N) \<Longrightarrow> rank (fst i) < (rank k :: nat)"
  shows "agree (H1 k) (H2 k)"
proof (induction "rank k" arbitrary: k rule: less_induct)
  case less
  show ?case
  proof (cases "\<exists>m N. net m = Some N \<and> k \<in> set (n_outs N)")
    case True
    then obtain m N where N: "net m = Some N" "k \<in> set (n_outs N)" by blast
    have h: "1 \<le> n_history N" by (rule network_history [OF assms(1) N(1)])
    have c: "computed N H0 P0 (inner rt0 m) H1 P1 (inner rt1 m)" "computed N H0 P0 (inner rt0 m) H2 P2 (inner rt2 m)"
      using assms(2,3) N(1) by (auto simp: flows_def)
    show ?thesis by (rule agree_computed [OF c h less [OF rank [OF N(1) _ N(2)]] N(2)])
  next
    case False
    then have "H1 k = H0 k" "H2 k = H0 k" using assms(2,3) unfolding flows_def by blast+
    then show ?thesis by (simp add: agree_def)
  qed
qed

end
