(* ===== verification/Gr_Wiring.thy ===== *)
theory Gr_Wiring
  imports Gr_Flat Gr_Network
begin

text \<open>
  What the flat flow graph sets up: every used output has a buffer of its own, every edge a reader of
  the buffer at its source, and all streams are empty but for the history of their readers.
\<close>

declare of_nat_unat [simp del]

lemma gr_fold_append: "gr_fold f (xs @ ys) s = gr_bind (gr_fold f xs s) (gr_fold f ys)"
proof (induction xs arbitrary: s)
  case (Cons x xs)
  then show ?case by (cases "f x s") simp_all
qed simp

section \<open>Sizes\<close>

definition block_need :: "('a, 's) gr_block \<Rightarrow> int" where
  "block_need b = input_need b (d_output_multiple b) (d_history b)"

lemma foldl_max:
  "n \<le> foldl (\<lambda>n p. max n (f p)) n ps \<and> (\<forall>p \<in> set ps. f p \<le> foldl (\<lambda>n p. max n (f p)) n ps)
    \<and> ((n :: int) \<le> B \<and> (\<forall>p \<in> set ps. f p \<le> B) \<longrightarrow> foldl (\<lambda>n p. max n (f p)) n ps \<le> B)"
proof (induction ps arbitrary: n)
  case (Cons p ps)
  show ?case using Cons [of "max n (f p)"] by auto
qed simp

lemma buffer_items_bounds:
  assumes "1 \<le> sz" "sz < 2 ^ 31" "65536 \<le> B" "2 * d_output_multiple (bs m) \<le> B"
    "\<And>q. q \<in> set (calc_downstream_port g m port) \<Longrightarrow> block_need (bs q) \<le> B" "1 \<le> d_output_multiple (bs m)"
  shows "0 < buffer_items bs g m port sz \<and> 2 * d_output_multiple (bs m) \<le> buffer_items bs g m port sz
    \<and> buffer_items bs g m port sz \<le> B \<and> (\<forall>q \<in> set (calc_downstream_port g m port). block_need (bs q) \<le> buffer_items bs g m port sz)"
proof -
  let ?w = "GR_FIXED_BUFFER_SIZE * 2 div word_of_int sz :: u32"
  have "unat ?w = 65536 div unat (word_of_int sz :: u32)" by (simp add: GR_FIXED_BUFFER_SIZE_def unat_div)
  then have w: "unat ?w \<le> 65536" by simp
  then have "sint ?w = int (unat ?w)" by (intro sint_small) simp
  then have s: "sint ?w \<le> B" "0 \<le> sint ?w" using w assms(3) by simp_all
  let ?n = "if sint ?w < 2 * d_output_multiple (bs m) then 2 * d_output_multiple (bs m) else sint ?w"
  have n: "2 * d_output_multiple (bs m) \<le> ?n" "?n \<le> B" using s assms(4) by auto
  show ?thesis
    using foldl_max [of ?n "\<lambda>p. input_need (bs p) (d_output_multiple (bs p)) (d_history (bs p))" "calc_downstream_port g m port" B] n assms(5,6)
    unfolding buffer_items_def Let_def block_need_def by fastforce
qed

text \<open>A new buffer, with any positions for the readers it does not have.\<close>

definition fresh :: "'a buffer \<Rightarrow> bool" where
  "fresh b \<longleftrightarrow> d_readers b = [] \<and> (\<forall>pos. buffer_ok b (d_base b) pos)"

lemma make_buffer_ok:
  assumes "0 < n" "n \<le> B" "0 < sz" "0 < page" "B + page < 2 ^ 31"
    and "\<And>k. \<exists>xs. mem k = Some xs \<and> length xs = unat k"
  shows "\<exists>b. gr_make_buffer page n sz mem = Some b \<and> fresh b \<and> n \<le> int (unat (d_bufsize b)) \<and> int (unat (d_bufsize b)) < B + page"
proof -
  let ?m = "minimum_buffer_items sz page"
  let ?n = "round_up_items n ?m"
  have g: "gcd sz page dvd page" "0 < gcd sz page" using assms(3,4) by auto
  then have m: "0 < ?m" using assms(4) by (simp add: minimum_buffer_items_def pos_imp_zdiv_pos_iff zdvd_imp_le)
  have "?m dvd page" unfolding minimum_buffer_items_def by (rule dvdI [of _ _ "gcd sz page"]) simp
  then have m_le: "?m \<le> page" using assms(4) by (rule zdvd_imp_le)
  have r: "n \<le> ?n" "?n < n + ?m" using round_up_items_ok [OF less_imp_le [OF assms(1)] m] by auto
  have u: "unat (word_of_int ?n :: u32) = nat ?n" using r m_le assms(1,2,5) by (intro unat_word_of_int) auto
  obtain xs where xs: "mem (word_of_int ?n) = Some xs" "length xs = nat ?n" using assms(6) [of "word_of_int ?n"] u by auto
  have "nat ?n < 2 ^ 31" "0 < nat ?n" using r m_le assms(1,2,5) by (auto simp: nat_less_iff)
  then show ?thesis using xs u r m_le assms(1,2)
    by (auto simp: gr_make_buffer_def Let_def fresh_def buffer_ok_def window_start)
qed

section \<open>What is given\<close>

abbreviation nin :: "flowgraph \<Rightarrow> block \<Rightarrow> nat" where "nin g m \<equiv> length (calc_used_ports g m True)"
abbreviation nout :: "flowgraph \<Rightarrow> block \<Rightarrow> nat" where "nout g m \<equiv> length (calc_used_ports g m False)"

definition allocatable :: "int \<Rightarrow> (nat \<Rightarrow> u32 \<Rightarrow> 'a list option) \<Rightarrow> (block \<Rightarrow> ('a, 's) gr_block) \<Rightarrow> flowgraph \<Rightarrow> int \<Rightarrow> bool" where
  "allocatable page mem bs g B \<longleftrightarrow> 0 < page \<and> 65536 \<le> B \<and> B + page < 2 ^ 31 \<and> (\<forall>k n. \<exists>xs. mem k n = Some xs \<and> length xs = unat n)
     \<and> (\<forall>m \<in> set (calc_used_blocks g). 1 \<le> d_output_multiple (bs m) \<and> 2 * d_output_multiple (bs m) \<le> B
          \<and> block_need (bs m) \<le> B \<and> 1 \<le> uint (d_history (bs m)) \<and> uint (d_history (bs m)) < block_need (bs m)
          \<and> (nout g m \<noteq> 0 \<longrightarrow> d_sizeof_stream_item (d_output_signature (bs m)) \<noteq> []
                \<and> (\<forall>x \<in> set (d_sizeof_stream_item (d_output_signature (bs m))). 1 \<le> x \<and> x < 2 ^ 31)))"

lemma downstream_used: "set (calc_downstream_port g m port) \<subseteq> set (calc_used_blocks g)"
  by (auto simp: calc_downstream_port_def edges_of_def Field_def)

text \<open>The buffer of an output: large enough for its writer and its readers.\<close>

definition fits :: "(block \<Rightarrow> ('a, 's) gr_block) \<Rightarrow> flowgraph \<Rightarrow> int \<Rightarrow> block \<Rightarrow> nat \<Rightarrow> 'a buffer \<Rightarrow> bool" where
  "fits bs g B m i b \<longleftrightarrow> 2 * d_output_multiple (bs m) \<le> int (unat (d_bufsize b)) \<and> int (unat (d_bufsize b)) < B
     \<and> (\<forall>q \<in> set (calc_downstream_port g m (int i)). block_need (bs q) \<le> int (unat (d_bufsize b)))"

section \<open>Allocation\<close>

lemma allocate_buffer_ok:
  assumes "allocatable page mem bs g B" "m \<in> set (calc_used_blocks g)" "nout g m \<noteq> 0"
  shows "\<exists>b. allocate_buffer page mem bs g m (int i) rt = Inr (length (buffers rt), rt\<lparr> buffers := buffers rt @ [b] \<rparr>)
    \<and> fresh b \<and> fits bs g (B + page) m i b"
proof -
  let ?sig = "d_output_signature (bs m)"
  have m: "1 \<le> d_output_multiple (bs m)" "2 * d_output_multiple (bs m) \<le> B" "d_sizeof_stream_item ?sig \<noteq> []"
      "\<And>x. x \<in> set (d_sizeof_stream_item ?sig) \<Longrightarrow> 1 \<le> x \<and> x < 2 ^ 31"
    and p: "0 < page" "65536 \<le> B" "B + page < 2 ^ 31" and mem: "\<And>k n. \<exists>xs. mem k n = Some xs \<and> length xs = unat n"
    using assms by (auto simp: allocatable_def)
  obtain sz where sz: "sizeof_stream_item ?sig (int i) = Inr sz" "1 \<le> sz" "sz < 2 ^ 31"
  proof -
    have "min i (length (d_sizeof_stream_item ?sig) - 1) < length (d_sizeof_stream_item ?sig)" using m(3) by (cases "d_sizeof_stream_item ?sig") auto
    then show ?thesis using m(4) nth_mem that by (fastforce simp: sizeof_stream_item_def)
  qed
  have need: "block_need (bs q) \<le> B" if "q \<in> set (calc_downstream_port g m (int i))" for q
    using downstream_used [of g m "int i"] that assms(1) by (auto simp: allocatable_def)
  note n = buffer_items_bounds [where bs = bs and m = m and port = "int i" and g = g, OF sz(2,3) p(2) m(2) need m(1)]
  obtain b where "gr_make_buffer page (buffer_items bs g m (int i) sz) sz (mem (length (buffers rt))) = Some b" "fresh b"
      "buffer_items bs g m (int i) sz \<le> int (unat (d_bufsize b))" "int (unat (d_bufsize b)) < B + page"
    using make_buffer_ok [of "buffer_items bs g m (int i) sz" B sz page "mem (length (buffers rt))"] n sz(2) p(1,3) mem by auto
  then show ?thesis using sz(1) n by (intro exI [of _ b]) (fastforce simp: allocate_buffer_def fits_def)
qed

lemma allocate_outputs_ok:
  assumes "allocatable page mem bs g B" "m \<in> set (calc_used_blocks g)" "N \<le> nout g m" "n \<le> N"
  shows "\<exists>new. gr_fold (allocate_output page mem bs g m) [0..<n] (gr_make_block_detail M N, rt)
      = Inr (\<lparr> d_input = replicate M None, d_output = map Some [length (buffers rt)..<length (buffers rt) + n] @ replicate (N - n) None,
               d_finished = False, d_produce_or = 0 \<rparr>, rt\<lparr> buffers := buffers rt @ new \<rparr>)
    \<and> length new = n \<and> (\<forall>i < n. fresh (new ! i) \<and> fits bs g (B + page) m i (new ! i))"
  using assms(4)
proof (induction n)
  case 0
  then show ?case by (simp add: gr_make_block_detail_def)
next
  case (Suc n)
  then obtain new where new: "gr_fold (allocate_output page mem bs g m) [0..<n] (gr_make_block_detail M N, rt)
      = Inr (\<lparr> d_input = replicate M None, d_output = map Some [length (buffers rt)..<length (buffers rt) + n] @ replicate (N - n) None,
               d_finished = False, d_produce_or = 0 \<rparr>, rt\<lparr> buffers := buffers rt @ new \<rparr>)"
      "length new = n" "\<And>i. i < n \<Longrightarrow> fresh (new ! i) \<and> fits bs g (B + page) m i (new ! i)" by auto
  let ?rt = "rt\<lparr> buffers := buffers rt @ new \<rparr>"
  obtain b where b: "allocate_buffer page mem bs g m (int n) ?rt = Inr (length (buffers ?rt), ?rt\<lparr> buffers := buffers ?rt @ [b] \<rparr>)"
      "fresh b" "fits bs g (B + page) m n b"
    using allocate_buffer_ok [OF assms(1,2), of n ?rt] assms(3) Suc.prems by (metis le_zero_eq not_less_eq_eq zero_le)
  have "N - n = Suc (N - Suc n)" using Suc.prems by simp
  then have "(map Some [length (buffers rt)..<length (buffers rt) + n] @ replicate (N - n) None)[n := Some (length (buffers rt) + n)]
      = map Some [length (buffers rt)..<length (buffers rt) + Suc n] @ replicate (N - Suc n) None"
    by (simp add: list_update_append)
  then have "gr_fold (allocate_output page mem bs g m) [0..<Suc n] (gr_make_block_detail M N, rt)
      = Inr (\<lparr> d_input = replicate M None, d_output = map Some [length (buffers rt)..<length (buffers rt) + Suc n] @ replicate (N - Suc n) None,
               d_finished = False, d_produce_or = 0 \<rparr>, rt\<lparr> buffers := buffers rt @ new @ [b] \<rparr>)"
    using new(1,2) b(1) Suc.prems by (simp add: gr_fold_append allocate_output_def set_output_def)
  moreover have "fresh ((new @ [b]) ! i) \<and> fits bs g (B + page) m i ((new @ [b]) ! i)" if "i < Suc n" for i
    using that new(2,3) b(2,3) by (cases "i = n") (auto simp: nth_append)
  ultimately show ?case using new(2) by (intro exI [of _ "new @ [b]"]) simp
qed

text \<open>All blocks: every output gets a buffer of its own.\<close>

definition fresh_below :: "int \<Rightarrow> 'a buffer \<Rightarrow> bool" where
  "fresh_below B b \<longleftrightarrow> fresh b \<and> int (unat (d_bufsize b)) < B"

definition allocated ::
  "(block \<Rightarrow> ('a, 's) gr_block) \<Rightarrow> flowgraph \<Rightarrow> int \<Rightarrow> block set \<Rightarrow> ('a, 's) runtime \<Rightarrow> (block \<Rightarrow> nat list) \<Rightarrow> ('a, 's) runtime \<Rightarrow> bool" where
  "allocated bs g B ms rt outs rt' \<longleftrightarrow>
     next_reader rt' = next_reader rt \<and> inner rt' = inner rt \<and> heap rt' = heap rt \<and> (\<exists>new. buffers rt' = buffers rt @ new \<and> list_all (fresh_below B) new)
     \<and> (\<forall>m \<in> ms. details rt' m = Some \<lparr> d_input = replicate (nin g m) None, d_output = map Some (outs m), d_finished = False, d_produce_or = 0 \<rparr>
          \<and> length (outs m) = nout g m \<and> distinct (outs m) \<and> set (outs m) \<subseteq> {length (buffers rt)..<length (buffers rt')}
          \<and> (\<forall>i < nout g m. fits bs g B m i (buffers rt' ! (outs m ! i)))
          \<and> (\<forall>m' \<in> ms. m \<noteq> m' \<longrightarrow> set (outs m) \<inter> set (outs m') = {}))"

lemma allocate_detail_ok:
  assumes "allocatable page mem bs g B" "m \<in> set (calc_used_blocks g)"
  shows "\<exists>rt' new. allocate_block_detail page mem bs g m rt = Inr rt' \<and> buffers rt' = buffers rt @ new \<and> list_all (fresh_below (B + page)) new
    \<and> next_reader rt' = next_reader rt \<and> inner rt' = inner rt \<and> heap rt' = heap rt
    \<and> details rt' = (details rt)(m := Some \<lparr> d_input = replicate (nin g m) None,
        d_output = map Some [length (buffers rt)..<length (buffers rt) + nout g m], d_finished = False, d_produce_or = 0 \<rparr>)
    \<and> length new = nout g m \<and> (\<forall>i < nout g m. fits bs g (B + page) m i (new ! i))"
proof -
  obtain new where "gr_fold (allocate_output page mem bs g m) [0..<nout g m] (gr_make_block_detail (nin g m) (nout g m), rt)
      = Inr (\<lparr> d_input = replicate (nin g m) None, d_output = map Some [length (buffers rt)..<length (buffers rt) + nout g m]
               @ replicate (nout g m - nout g m) None, d_finished = False, d_produce_or = 0 \<rparr>, rt\<lparr> buffers := buffers rt @ new \<rparr>)"
      "length new = nout g m" "\<forall>i < nout g m. fresh (new ! i) \<and> fits bs g (B + page) m i (new ! i)"
    using allocate_outputs_ok [OF assms order_refl order_refl] by blast
  then show ?thesis by (auto simp: allocate_block_detail_def Let_def set_detail_def list_all_length fresh_below_def fits_def)
qed

lemma allocate_all:
  assumes "allocatable page mem bs g B"
  shows "set ms \<subseteq> set (calc_used_blocks g) \<Longrightarrow> distinct ms \<Longrightarrow>
    \<exists>rt' outs. gr_fold (allocate_block_detail page mem bs g) ms rt = Inr rt' \<and> allocated bs g (B + page) (set ms) rt outs rt'"
proof (induction ms rule: rev_induct)
  case Nil
  then show ?case by (auto simp: allocated_def intro!: exI [of _ "[]"])
next
  case (snoc m ms)
  then obtain rt1 outs where rt1: "gr_fold (allocate_block_detail page mem bs g) ms rt = Inr rt1" "allocated bs g (B + page) (set ms) rt outs rt1"
    by auto
  have m: "m \<in> set (calc_used_blocks g)" "m \<notin> set ms" using snoc.prems by auto
  obtain rt2 new where rt2: "allocate_block_detail page mem bs g m rt1 = Inr rt2" "buffers rt2 = buffers rt1 @ new" "list_all (fresh_below (B + page)) new"
      "next_reader rt2 = next_reader rt1" "inner rt2 = inner rt1" "heap rt2 = heap rt1"
      "details rt2 = (details rt1)(m := Some \<lparr> d_input = replicate (nin g m) None,
        d_output = map Some [length (buffers rt1)..<length (buffers rt1) + nout g m], d_finished = False, d_produce_or = 0 \<rparr>)"
      "length new = nout g m" "\<forall>i < nout g m. fits bs g (B + page) m i (new ! i)"
    using allocate_detail_ok [OF assms m(1)] by metis
  define outs' where "outs' = outs(m := [length (buffers rt1)..<length (buffers rt1) + nout g m])"
  obtain old where old: "buffers rt1 = buffers rt @ old" "list_all (fresh_below (B + page)) old" using rt1(2) by (auto simp: allocated_def)
  have prev: "details rt1 p = Some \<lparr> d_input = replicate (nin g p) None, d_output = map Some (outs p), d_finished = False, d_produce_or = 0 \<rparr>"
      "length (outs p) = nout g p" "distinct (outs p)" "set (outs p) \<subseteq> {length (buffers rt)..<length (buffers rt1)}"
      "\<forall>i < nout g p. fits bs g (B + page) p i (buffers rt1 ! (outs p ! i))"
      "\<forall>q \<in> set ms. p \<noteq> q \<longrightarrow> set (outs p) \<inter> set (outs q) = {}" if "p \<in> set ms" for p
    using rt1(2) that unfolding allocated_def by blast+
  have "fits bs g (B + page) p i (buffers rt2 ! (outs' p ! i))" if "p \<in> set (ms @ [m])" "i < nout g p" for p i
  proof (cases "p = m")
    case True
    then show ?thesis using that rt2(2,8,9) by (simp add: outs'_def nth_append)
  next
    case False
    then have p: "p \<in> set ms" using that by simp
    have "outs p ! i \<in> set (outs p)" using prev(2) [OF p] that(2) by simp
    then have "outs p ! i < length (buffers rt1)" using prev(4) [OF p] by fastforce
    then show ?thesis using prev(5) [OF p] that(2) False rt2(2) by (simp add: outs'_def nth_append)
  qed
  moreover have "set (outs' p) \<inter> set (outs' q) = {}" if "p \<in> set (ms @ [m])" "q \<in> set (ms @ [m])" "p \<noteq> q" for p q
  proof -
    have new: "set (outs p) \<inter> {length (buffers rt1)..<length (buffers rt1) + nout g m} = {}" if "p \<in> set ms" for p
      using prev(4) [OF that] by auto
    note pq = that
    consider "p \<in> set ms" "q \<in> set ms" "p \<noteq> m" "q \<noteq> m" | "p = m" "q \<in> set ms" "q \<noteq> m" | "p \<in> set ms" "q = m" "p \<noteq> m"
      using pq m(2) by auto
    then show ?thesis
    proof cases
      case 1
      then show ?thesis using prev(6) [OF 1(1)] pq(3) by (simp add: outs'_def)
    qed (use new in \<open>auto simp: outs'_def\<close>)
  qed
  moreover have "set (outs' p) \<subseteq> {length (buffers rt)..<length (buffers rt2)}" if "p \<in> set (ms @ [m])" for p
  proof (cases "p = m")
    case True
    then show ?thesis using rt2(2,8) old(1) by (auto simp: outs'_def)
  next
    case False
    then have "set (outs p) \<subseteq> {length (buffers rt)..<length (buffers rt1)}" using prev(4) that by simp
    then have "set (outs p) \<subseteq> {length (buffers rt)..<length (buffers rt2)}"
      by (rule order_trans) (simp add: rt2(2) ivl_subset)
    then show ?thesis using False by (simp add: outs'_def)
  qed
  ultimately have "allocated bs g (B + page) (set (ms @ [m])) rt outs' rt2"
    using prev(1-3) rt1(2) rt2(2-8) old m(2) unfolding allocated_def
    by (auto simp: outs'_def)
  then show ?case using rt1(1) rt2(1) by (auto simp: gr_fold_append)
qed

section \<open>Connection\<close>

text \<open>Graphs whose ports are numbered without gaps, and whose input ports are used once.\<close>

definition ports_good :: "flowgraph \<Rightarrow> bool" where
  "ports_good g \<longleftrightarrow> distinct (map e_dst (d_edges g))
     \<and> (\<forall>e \<in> set (d_edges g). 0 \<le> ep_port (e_src e) \<and> ep_port (e_src e) < 2 ^ 31 \<and> 0 \<le> ep_port (e_dst e) \<and> ep_port (e_dst e) < 2 ^ 31)
     \<and> (\<forall>m \<in> set (calc_used_blocks g). ports_of g m True = {0..<int (nin g m)} \<and> ports_of g m False = {0..<int (nout g m)})"

definition source_of :: "(block \<Rightarrow> nat list) \<Rightarrow> gr_edge \<Rightarrow> nat" where
  "source_of outs e = outs (ep_block (e_src e)) ! nat (ep_port (e_src e))"

text \<open>The readers of the edges \<open>es\<close> are in place, behind as many zeros as their block looks back.\<close>

definition attached ::
  "(block \<Rightarrow> ('a, 's) gr_block) \<Rightarrow> flowgraph \<Rightarrow> (block \<Rightarrow> nat list) \<Rightarrow> ('a, 's) runtime \<Rightarrow> gr_edge set
    \<Rightarrow> (gr_edge \<Rightarrow> nat) \<Rightarrow> ('a, 's) runtime \<Rightarrow> bool" where
  "attached bs g outs rt0 es rd rt \<longleftrightarrow>
     inner rt = inner rt0 \<and> length (buffers rt) = length (buffers rt0) \<and> inj_on rd es \<and> (\<forall>e \<in> es. rd e < next_reader rt)
     \<and> (\<forall>k < length (buffers rt0). d_bufsize (buffers rt ! k) = d_bufsize (buffers rt0 ! k)
          \<and> fst ` set (d_readers (buffers rt ! k)) = rd ` {e \<in> es. source_of outs e = k})
     \<and> (\<forall>m \<in> set (calc_used_blocks g). \<exists>d. details rt m = Some d \<and> d_output d = map Some (outs m) \<and> length (d_input d) = nin g m
          \<and> \<not> d_finished d
          \<and> (\<forall>e \<in> es. ep_block (e_dst e) = m \<longrightarrow> d_input d ! nat (ep_port (e_dst e)) = Some (source_of outs e, rd e))
          \<and> (\<forall>i < nin g m. (\<forall>e \<in> es. e_dst e \<noteq> \<lparr> ep_block = m, ep_port = int i \<rparr>) \<longrightarrow> d_input d ! i = None))
     \<and> (\<exists>P. streams rt (\<lambda>k. d_base (buffers rt0 ! k)) P (\<lambda>k. [])
          \<and> (\<forall>e \<in> es. P (source_of outs e) (rd e)
                = length (d_base (buffers rt0 ! source_of outs e)) - nat (uint (d_history (bs (ep_block (e_dst e)))) - 1)))"

lemma attachedD:
  assumes "attached bs g outs rt0 es rd rt" "m \<in> set (calc_used_blocks g)"
  shows "\<exists>d. details rt m = Some d \<and> d_output d = map Some (outs m) \<and> length (d_input d) = nin g m \<and> \<not> d_finished d
          \<and> (\<forall>e \<in> es. ep_block (e_dst e) = m \<longrightarrow> d_input d ! nat (ep_port (e_dst e)) = Some (source_of outs e, rd e))
          \<and> (\<forall>i < nin g m. (\<forall>e \<in> es. e_dst e \<noteq> \<lparr> ep_block = m, ep_port = int i \<rparr>) \<longrightarrow> d_input d ! i = None)"
  using assms by (simp add: attached_def)

lemma port_index: "0 \<le> p \<Longrightarrow> p < 2 ^ 31 \<Longrightarrow> port_index p = nat p"
  unfolding port_index_def by (rule unat_word_of_int) auto

lemma edge_used: "e \<in> set (d_edges g) \<Longrightarrow> ep_block (e_src e) \<in> set (calc_used_blocks g) \<and> ep_block (e_dst e) \<in> set (calc_used_blocks g)"
  by (auto simp: edges_of_def Field_def)

lemma ports_goodD:
  assumes "ports_good g" "e \<in> set (d_edges g)"
  shows "port_index (ep_port (e_src e)) = nat (ep_port (e_src e))" "port_index (ep_port (e_dst e)) = nat (ep_port (e_dst e))"
    "nat (ep_port (e_src e)) < nout g (ep_block (e_src e))" "nat (ep_port (e_dst e)) < nin g (ep_block (e_dst e))"
    "0 \<le> ep_port (e_src e)" "0 \<le> ep_port (e_dst e)"
proof -
  have p: "0 \<le> ep_port (e_src e)" "ep_port (e_src e) < 2 ^ 31" "0 \<le> ep_port (e_dst e)" "ep_port (e_dst e) < 2 ^ 31"
    using assms by (auto simp: ports_good_def)
  then show "port_index (ep_port (e_src e)) = nat (ep_port (e_src e))" "port_index (ep_port (e_dst e)) = nat (ep_port (e_dst e))"
    "0 \<le> ep_port (e_src e)" "0 \<le> ep_port (e_dst e)"
    by (simp_all add: port_index)
  have "ep_port (e_src e) \<in> ports_of g (ep_block (e_src e)) False" "ep_port (e_dst e) \<in> ports_of g (ep_block (e_dst e)) True"
    using assms(2) by (auto simp: ports_of_def)
  then have "ep_port (e_src e) < int (nout g (ep_block (e_src e)))" "ep_port (e_dst e) < int (nin g (ep_block (e_dst e)))"
    using assms(1) edge_used [OF assms(2)] by (auto simp: ports_good_def)
  then show "nat (ep_port (e_src e)) < nout g (ep_block (e_src e))" "nat (ep_port (e_dst e)) < nin g (ep_block (e_dst e))"
    using p by (simp_all add: nat_less_iff)
qed

lemma attached_start:
  assumes "allocated bs g B (set (calc_used_blocks g)) rt outs rt0"
    and "\<And>k. k < length (buffers rt0) \<Longrightarrow> fresh (buffers rt0 ! k)"
  shows "attached bs g outs rt0 {} rd rt0"
proof -
  have "\<exists>P. streams rt0 (\<lambda>k. d_base (buffers rt0 ! k)) P (\<lambda>k. [])"
    unfolding streams_def pending_ok using assms(2) unfolding fresh_def by blast
  moreover have "d_readers (buffers rt0 ! k) = []" if "k < length (buffers rt0)" for k
    using assms(2) [OF that] by (simp add: fresh_def)
  moreover have "details rt0 m = Some \<lparr> d_input = replicate (nin g m) None, d_output = map Some (outs m), d_finished = False, d_produce_or = 0 \<rparr>"
    if "m \<in> set (calc_used_blocks g)" for m using assms(1) that by (simp add: allocated_def)
  ultimately show ?thesis unfolding attached_def by simp
qed

lemma history_minus_one:
  assumes "1 \<le> uint h" "uint h < 2 ^ 31"
  shows "sint (h - 1 :: u32) = int (nat (uint h - 1))"
proof -
  have h: "int (unat h) = uint h" by (rule uint_nat [symmetric])
  have one: "unat (1 :: u32) = 1" by simp
  have "unat (1 :: u32) \<le> unat h" using assms(1) h one by linarith
  then have "unat (h - 1) = unat h - 1" unfolding unat_sub_if' one by simp
  then have u: "unat (h - 1) = nat (uint h - 1)" using h by linarith
  moreover have "nat (uint h - 1) < 2 ^ 31" using assms by (simp add: nat_less_iff)
  ultimately show ?thesis by (simp add: sint_small)
qed

lemma connect_edge_ok:
  assumes al: "allocatable page mem bs g B" and good: "ports_good g" and all: "allocated bs g B' (set (calc_used_blocks g)) rt00 outs rt0"
    and att: "attached bs g outs rt0 es rd rt" and e: "e \<in> set (d_edges g)" "es \<subseteq> set (d_edges g)" "e \<notin> es"
  shows "\<exists>rt' rd'. connect_edge bs (ep_block (e_dst e)) e rt = Inr rt' \<and> attached bs g outs rt0 (insert e es) rd' rt'"
proof -
  let ?p = "ep_block (e_src e)" and ?q = "ep_block (e_dst e)" and ?i = "nat (ep_port (e_dst e))" and ?k = "source_of outs e" and ?r = "next_reader rt"
  let ?h = "d_history (bs ?q)"
  let ?z = "nat (uint ?h - 1)"
  note ports = ports_goodD [OF good e(1)]
  have used: "?p \<in> set (calc_used_blocks g)" "?q \<in> set (calc_used_blocks g)" using edge_used [OF e(1)] by auto
  have outs: "length (outs ?p) = nout g ?p" "set (outs ?p) \<subseteq> {length (buffers rt00)..<length (buffers rt0)}"
      "fits bs g B' ?p (nat (ep_port (e_src e))) (buffers rt0 ! ?k)"
    using all used(1) ports(3) by (auto simp: allocated_def source_of_def)
  have k: "?k < length (buffers rt0)"
  proof -
    have "?k \<in> set (outs ?p)" using outs(1) ports(3) by (simp add: source_of_def)
    then show ?thesis using outs(2) by fastforce
  qed
  have a: "inner rt = inner rt0" "length (buffers rt) = length (buffers rt0)" "inj_on rd es" "\<And>e. e \<in> es \<Longrightarrow> rd e < ?r"
      "\<And>k. k < length (buffers rt0) \<Longrightarrow> d_bufsize (buffers rt ! k) = d_bufsize (buffers rt0 ! k)"
      "\<And>k. k < length (buffers rt0) \<Longrightarrow> fst ` set (d_readers (buffers rt ! k)) = rd ` {e \<in> es. source_of outs e = k}"
    using att by (auto simp: attached_def)
  note det = attachedD [OF att]
  obtain P where P: "streams rt (\<lambda>k. d_base (buffers rt0 ! k)) P (\<lambda>k. [])"
      "\<And>e. e \<in> es \<Longrightarrow> P (source_of outs e) (rd e)
         = length (d_base (buffers rt0 ! source_of outs e)) - nat (uint (d_history (bs (ep_block (e_dst e)))) - 1)"
    using att by (auto simp: attached_def)
  obtain dp where dp: "details rt ?p = Some dp" "d_output dp = map Some (outs ?p)" using det [OF used(1)] by blast
  have src: "source_buffer e rt = Inr ?k"
    using dp outs(1) ports(1,3) by (simp add: source_buffer_def detail_def output_at_def source_of_def)
  have "?q \<in> set (calc_downstream_port g ?p (int (nat (ep_port (e_src e)))))"
  proof -
    have "e_src e = \<lparr> ep_block = ?p, ep_port = int (nat (ep_port (e_src e))) \<rparr>" using ports(5) by simp
    then have "e \<in> set (filter (\<lambda>p. e_src p = \<lparr> ep_block = ?p, ep_port = int (nat (ep_port (e_src e))) \<rparr>) (d_edges g))"
      using e(1) by simp
    then show ?thesis unfolding calc_downstream_port_def unique_vector(1) by (metis comp_apply image_eqI list.set_map)
  qed
  then have "block_need (bs ?q) \<le> int (unat (d_bufsize (buffers rt0 ! ?k)))" using outs(3) by (simp add: fits_def)
  moreover have h: "1 \<le> uint ?h" "uint ?h < block_need (bs ?q)" "block_need (bs ?q) < 2 ^ 31"
    using al used(2) by (auto simp: allocatable_def)
  ultimately have z: "?z < unat (d_bufsize (buffers rt ! ?k))" "sint (?h - 1) = int ?z"
    using a(5) [OF k] history_minus_one [of ?h] by auto
  have new: "?r \<notin> fst ` set (d_readers (buffers rt ! ?k))" using a(4) unfolding a(6) [OF k] by fastforce
  obtain b where b: "gr_buffer_add_reader ?r (int ?z) (buffers rt ! ?k) = Inr b"
      "buffer_ok b (d_base (buffers rt0 ! ?k)) ((P ?k)(?r := length (d_base (buffers rt0 ! ?k)) - ?z))"
      "d_bufsize b = d_bufsize (buffers rt ! ?k)" "map fst (d_readers b) = map fst (d_readers (buffers rt ! ?k)) @ [?r]"
    using attach_ok [OF streams_ok [OF P(1)] new z(1)] k a(2) by auto
  obtain dq where dq: "details rt ?q = Some dq" "d_output dq = map Some (outs ?q)" "length (d_input dq) = nin g ?q" "\<not> d_finished dq"
      "\<And>e. e \<in> es \<Longrightarrow> ep_block (e_dst e) = ?q \<Longrightarrow> d_input dq ! nat (ep_port (e_dst e)) = Some (source_of outs e, rd e)"
      "\<And>i. i < nin g ?q \<Longrightarrow> (\<And>e. e \<in> es \<Longrightarrow> e_dst e \<noteq> \<lparr> ep_block = ?q, ep_port = int i \<rparr>) \<Longrightarrow> d_input dq ! i = None"
    using det [OF used(2)] by metis
  have other: "e_dst x \<noteq> e_dst e" if "x \<in> es" for x
    using that e good by (auto simp: ports_good_def distinct_map inj_on_def)
  have dst: "e_dst e = \<lparr> ep_block = ?q, ep_port = int ?i \<rparr>" using ports(6) by simp
  have none: "d_input dq ! ?i = None" using dq(6) [OF ports(4)] other dst by metis
  let ?rt1 = "rt\<lparr> buffers := (buffers rt)[?k := b], next_reader := Suc ?r \<rparr>"
  let ?rt' = "set_detail ?q (dq\<lparr> d_input := (d_input dq)[?i := Some (?k, ?r)] \<rparr>) ?rt1"
  let ?rd = "rd(e := ?r)"
  have "connect_edge bs ?q e rt = Inr ?rt'"
    using b(1) z(2) dq(1,3) none ports(2,4)
    by (simp add: connect_edge_def src attach_reader_def on_buffer_def set_input_def detail_def)
  moreover have "attached bs g outs rt0 (insert e es) ?rd ?rt'"
    unfolding attached_def
  proof (intro conjI ballI allI impI)
    have ne: "x \<noteq> e" "rd x \<noteq> ?r" if "x \<in> es" for x using that e(3) a(4) [OF that] by auto
    show "inner ?rt' = inner rt0" "length (buffers ?rt') = length (buffers rt0)" using a(1,2) by simp_all
    have "?r \<notin> rd ` es" using ne(2) by fastforce
    then show "inj_on ?rd (insert e es)" using inj_on_fun_updI [OF a(3)] e(3) by (auto simp: inj_on_insert)
    show "?rd x < next_reader ?rt'" if "x \<in> insert e es" for x
      using that a(4) [of x] by (auto simp: set_detail_def)
    show "d_bufsize (buffers ?rt' ! j) = d_bufsize (buffers rt0 ! j)" if "j < length (buffers rt0)" for j
      using a(2) a(5) [OF that] b(3) that by (cases "j = ?k") simp_all
    show "fst ` set (d_readers (buffers ?rt' ! j)) = ?rd ` {x \<in> insert e es. source_of outs x = j}" if "j < length (buffers rt0)" for j
    proof (cases "j = ?k")
      case True
      have "fst ` set (d_readers b) = insert ?r (fst ` set (d_readers (buffers rt ! ?k)))"
        using arg_cong [OF b(4), of set] by simp
      also have "\<dots> = insert ?r (rd ` {x \<in> es. source_of outs x = ?k})" unfolding a(6) [OF k] ..
      also have "rd ` {x \<in> es. source_of outs x = ?k} = ?rd ` {x \<in> es. source_of outs x = ?k}"
        using e(3) by (intro image_cong) auto
      also have "insert ?r \<dots> = ?rd ` insert e {x \<in> es. source_of outs x = ?k}" by (simp only: image_insert fun_upd_same)
      also have "insert e {x \<in> es. source_of outs x = ?k} = {x \<in> insert e es. source_of outs x = ?k}" by auto
      finally show ?thesis using True k a(2) by simp
    next
      case False
      have "?rd ` {x \<in> insert e es. source_of outs x = j} = rd ` {x \<in> es. source_of outs x = j}"
        using e(3) False by (intro image_cong) auto
      then show ?thesis using a(6) [OF that] False by simp
    qed
    show "\<exists>d. details ?rt' m = Some d \<and> d_output d = map Some (outs m) \<and> length (d_input d) = nin g m \<and> \<not> d_finished d
          \<and> (\<forall>x \<in> insert e es. ep_block (e_dst x) = m \<longrightarrow> d_input d ! nat (ep_port (e_dst x)) = Some (source_of outs x, ?rd x))
          \<and> (\<forall>i < nin g m. (\<forall>x \<in> insert e es. e_dst x \<noteq> \<lparr> ep_block = m, ep_port = int i \<rparr>) \<longrightarrow> d_input d ! i = None)"
      if m: "m \<in> set (calc_used_blocks g)" for m
    proof (cases "m = ?q")
      case False
      obtain d where d: "details rt m = Some d" "d_output d = map Some (outs m)" "length (d_input d) = nin g m" "\<not> d_finished d"
          "\<And>x. x \<in> es \<Longrightarrow> ep_block (e_dst x) = m \<Longrightarrow> d_input d ! nat (ep_port (e_dst x)) = Some (source_of outs x, rd x)"
          "\<And>i. i < nin g m \<Longrightarrow> (\<And>x. x \<in> es \<Longrightarrow> e_dst x \<noteq> \<lparr> ep_block = m, ep_port = int i \<rparr>) \<Longrightarrow> d_input d ! i = None"
        using det [OF m] by metis
      have "details ?rt' m = Some d" using False d(1) by (simp add: set_detail_def)
      moreover have "?rd x = rd x" if "x \<in> insert e es" "ep_block (e_dst x) = m" for x using that False by auto
      ultimately show ?thesis using d False by (intro exI [of _ d]) auto
    next
      case True
      let ?d = "dq\<lparr> d_input := (d_input dq)[?i := Some (?k, ?r)] \<rparr>"
      have "d_input ?d ! nat (ep_port (e_dst x)) = Some (source_of outs x, ?rd x)" if x: "x \<in> insert e es" "ep_block (e_dst x) = m" for x
      proof (cases "x = e")
        case True
        then show ?thesis using dq(3) ports(4) by simp
      next
        case False
        then have xs: "x \<in> es" using x by simp
        have "0 \<le> ep_port (e_dst x)" using ports_goodD(6) [OF good] xs e(2) by blast
        moreover have "ep_port (e_dst x) \<noteq> ep_port (e_dst e)"
          using other [OF xs] x(2) \<open>m = ?q\<close> by (cases "e_dst x"; cases "e_dst e") simp
        ultimately have "nat (ep_port (e_dst x)) \<noteq> ?i" using ports(6) by (simp add: nat_eq_iff2)
        then show ?thesis using dq(5) [OF xs] x(2) \<open>m = ?q\<close> False by simp
      qed
      moreover have "d_input ?d ! i = None" if i: "i < nin g m" "\<forall>x \<in> insert e es. e_dst x \<noteq> \<lparr> ep_block = m, ep_port = int i \<rparr>" for i
      proof -
        have "e_dst e \<noteq> \<lparr> ep_block = m, ep_port = int i \<rparr>" using i(2) by simp
        then have "i \<noteq> ?i" using dst True by auto
        then show ?thesis using dq(6) [of i] i True by simp
      qed
      ultimately show ?thesis using dq(2-4) True by (intro exI [of _ ?d]) simp
    qed
    show "\<exists>P. streams ?rt' (\<lambda>k. d_base (buffers rt0 ! k)) P (\<lambda>k. [])
          \<and> (\<forall>x \<in> insert e es. P (source_of outs x) (?rd x)
                = length (d_base (buffers rt0 ! source_of outs x)) - nat (uint (d_history (bs (ep_block (e_dst x)))) - 1))"
    proof (intro exI conjI ballI)
      let ?P = "P(?k := (P ?k)(?r := length (d_base (buffers rt0 ! ?k)) - ?z))"
      have "streams (rt\<lparr> buffers := (buffers rt)[?k := b] \<rparr>) (\<lambda>k. d_base (buffers rt0 ! k)) ?P (\<lambda>k. [])"
        by (rule streams_update [OF P(1)]) (use b(2) pending_ok in auto)
      then show "streams ?rt' (\<lambda>k. d_base (buffers rt0 ! k)) ?P (\<lambda>k. [])" by (simp add: streams_def)
      show "?P (source_of outs x) (?rd x)
          = length (d_base (buffers rt0 ! source_of outs x)) - nat (uint (d_history (bs (ep_block (e_dst x)))) - 1)" if "x \<in> insert e es" for x
      proof (cases "x = e")
        case False
        then have "x \<in> es" using that by simp
        then show ?thesis using P(2) ne False by (auto simp: P(2) [symmetric])
      qed simp
    qed
  qed
  ultimately show ?thesis by blast
qed

lemma connect_edges:
  assumes "allocatable page mem bs g B" "ports_good g" "allocated bs g B' (set (calc_used_blocks g)) rt00 outs rt0"
  shows "attached bs g outs rt0 es rd rt \<Longrightarrow> es \<subseteq> set (d_edges g) \<Longrightarrow> set xs \<subseteq> set (d_edges g) \<Longrightarrow> distinct xs \<Longrightarrow> set xs \<inter> es = {}
    \<Longrightarrow> (\<And>x. x \<in> set xs \<Longrightarrow> ep_block (e_dst x) = m)
    \<Longrightarrow> \<exists>rt' rd'. gr_fold (connect_edge bs m) xs rt = Inr rt' \<and> attached bs g outs rt0 (es \<union> set xs) rd' rt'"
proof (induction xs arbitrary: es rd rt)
  case (Cons x xs)
  have x: "x \<in> set (d_edges g)" "x \<notin> es" "ep_block (e_dst x) = m" using Cons.prems by auto
  obtain rt1 rd1 where rt1: "connect_edge bs m x rt = Inr rt1" "attached bs g outs rt0 (insert x es) rd1 rt1"
    using connect_edge_ok [OF assms Cons.prems(1) x(1) Cons.prems(2) x(2)] x(3) by metis
  obtain rt2 rd2 where "gr_fold (connect_edge bs m) xs rt1 = Inr rt2" "attached bs g outs rt0 (insert x es \<union> set xs) rd2 rt2"
    using Cons.IH [OF rt1(2)] Cons.prems by auto
  then show ?case using rt1(1) by auto
qed auto

lemma connect_blocks:
  assumes "allocatable page mem bs g B" "ports_good g" "allocated bs g B' (set (calc_used_blocks g)) rt00 outs rt0"
  shows "attached bs g outs rt0 es rd rt \<Longrightarrow> es \<subseteq> set (d_edges g) \<Longrightarrow> distinct ms \<Longrightarrow> ep_block ` e_dst ` es \<inter> set ms = {}
    \<Longrightarrow> \<exists>rt' rd'. gr_fold (connect_block_inputs bs g) ms rt = Inr rt'
          \<and> attached bs g outs rt0 (es \<union> {e \<in> set (d_edges g). ep_block (e_dst e) \<in> set ms}) rd' rt'"
proof (induction ms arbitrary: es rd rt)
  case (Cons m ms)
  have dist: "distinct (calc_upstream_edges g m)" using assms(2) by (simp add: ports_good_def calc_upstream_edges_def distinct_map)
  have up: "set (calc_upstream_edges g m) = {e \<in> set (d_edges g). ep_block (e_dst e) = m}" by (auto simp: calc_upstream_edges_def)
  have sub: "set (calc_upstream_edges g m) \<subseteq> set (d_edges g)" and disj: "set (calc_upstream_edges g m) \<inter> es = {}"
    and dst: "\<And>x. x \<in> set (calc_upstream_edges g m) \<Longrightarrow> ep_block (e_dst x) = m"
    using Cons.prems(4) unfolding up by auto
  obtain rt1 rd1 where rt1: "gr_fold (connect_edge bs m) (calc_upstream_edges g m) rt = Inr rt1"
      "attached bs g outs rt0 (es \<union> {e \<in> set (d_edges g). ep_block (e_dst e) = m}) rd1 rt1"
    using connect_edges [OF assms Cons.prems(1,2) sub dist disj dst] unfolding up by blast
  have sub1: "es \<union> {e \<in> set (d_edges g). ep_block (e_dst e) = m} \<subseteq> set (d_edges g)" using Cons.prems(2) by auto
  have dist1: "distinct ms" using Cons.prems(3) by simp
  have disj1: "ep_block ` e_dst ` (es \<union> {e \<in> set (d_edges g). ep_block (e_dst e) = m}) \<inter> set ms = {}" using Cons.prems(3,4) by auto
  obtain rt2 rd2 where rt2: "gr_fold (connect_block_inputs bs g) ms rt1 = Inr rt2"
      "attached bs g outs rt0 (es \<union> {e \<in> set (d_edges g). ep_block (e_dst e) = m} \<union> {e \<in> set (d_edges g). ep_block (e_dst e) \<in> set ms}) rd2 rt2"
    using Cons.IH [OF rt1(2) sub1 dist1 disj1] by blast
  have "es \<union> {e \<in> set (d_edges g). ep_block (e_dst e) = m} \<union> {e \<in> set (d_edges g). ep_block (e_dst e) \<in> set ms}
      = es \<union> {e \<in> set (d_edges g). ep_block (e_dst e) \<in> set (m # ms)}" by auto
  moreover have "gr_fold (connect_block_inputs bs g) (m # ms) rt = Inr rt2"
    using rt1(1) rt2(1) by (simp add: connect_block_inputs_def [of bs g m])
  ultimately show ?case using rt2(2) by metis
qed auto

section \<open>The result\<close>

text \<open>Every block has as many readers and buffers as it uses ports, and every edge joins its ports.\<close>

definition wired_up ::
  "(block \<Rightarrow> ('a, 's) gr_block) \<Rightarrow> flowgraph \<Rightarrow> int \<Rightarrow> (block \<Rightarrow> (nat \<times> nat) list) \<Rightarrow> (block \<Rightarrow> nat list)
    \<Rightarrow> 'a histories \<Rightarrow> positions \<Rightarrow> ('a, 's) runtime \<Rightarrow> bool" where
  "wired_up bs g B ins outs H P rt \<longleftrightarrow> streams rt H P (\<lambda>k. [])
     \<and> (\<forall>k < length (buffers rt). length (H k) = unat (d_bufsize (buffers rt ! k)) \<and> int (unat (d_bufsize (buffers rt ! k))) < B)
     \<and> (\<forall>m \<in> set (calc_used_blocks g). wired rt m (ins m) (outs m) \<and> length (ins m) = nin g m \<and> length (outs m) = nout g m
          \<and> (\<forall>m' \<in> set (calc_used_blocks g). m \<noteq> m' \<longrightarrow> set (ins m) \<inter> set (ins m') = {} \<and> set (outs m) \<inter> set (outs m') = {}))
     \<and> (\<forall>e \<in> set (d_edges g). fst (ins (ep_block (e_dst e)) ! nat (ep_port (e_dst e))) = source_of outs e
          \<and> P (source_of outs e) (snd (ins (ep_block (e_dst e)) ! nat (ep_port (e_dst e))))
              = length (H (source_of outs e)) - nat (uint (d_history (bs (ep_block (e_dst e)))) - 1))"

lemma input_edge:
  assumes "ports_good g" "m \<in> set (calc_used_blocks g)" "i < nin g m"
  obtains e where "e \<in> set (d_edges g)" "e_dst e = \<lparr> ep_block = m, ep_port = int i \<rparr>"
proof -
  have "int i \<in> ports_of g m True" using assms by (auto simp: ports_good_def)
  then obtain e where "e \<in> set (d_edges g)" "ep_block (e_dst e) = m" "ep_port (e_dst e) = int i" by (auto simp: ports_of_def)
  then show ?thesis using that by (cases "e_dst e") auto
qed

lemma attached_wired:
  assumes good: "ports_good g" and all: "allocated bs g B (set (calc_used_blocks g)) rt00 outs rt0"
    and att: "attached bs g outs rt0 (set (d_edges g)) rd rt" and loops: "\<And>e. e \<in> set (d_edges g) \<Longrightarrow> ep_block (e_src e) \<noteq> ep_block (e_dst e)"
    and bufs: "buffers rt00 = []"
  shows "\<exists>ins H P. wired_up bs g B ins outs H P rt"
proof -
  let ?U = "set (calc_used_blocks g)" and ?E = "set (d_edges g)"
  have a: "length (buffers rt) = length (buffers rt0)" "inj_on rd ?E"
      "\<And>k. k < length (buffers rt0) \<Longrightarrow> d_bufsize (buffers rt ! k) = d_bufsize (buffers rt0 ! k)"
      "\<And>k. k < length (buffers rt0) \<Longrightarrow> fst ` set (d_readers (buffers rt ! k)) = rd ` {e \<in> ?E. source_of outs e = k}"
    using att by (auto simp: attached_def)
  obtain P where P: "streams rt (\<lambda>k. d_base (buffers rt0 ! k)) P (\<lambda>k. [])"
      "\<And>e. e \<in> ?E \<Longrightarrow> P (source_of outs e) (rd e)
         = length (d_base (buffers rt0 ! source_of outs e)) - nat (uint (d_history (bs (ep_block (e_dst e)))) - 1)"
    using att by (auto simp: attached_def)
  let ?edge = "\<lambda>m i. THE e. e \<in> ?E \<and> e_dst e = \<lparr> ep_block = m, ep_port = int i \<rparr>"
  define ins where "ins m = map (\<lambda>i. (source_of outs (?edge m i), rd (?edge m i))) [0..<nin g m]" for m
  have edge: "?edge m i = e" if "e \<in> ?E" "e_dst e = \<lparr> ep_block = m, ep_port = int i \<rparr>" for m i e
  proof (rule the_equality)
    fix x
    assume "x \<in> ?E \<and> e_dst x = \<lparr> ep_block = m, ep_port = int i \<rparr>"
    then show "x = e" using that good by (auto simp: ports_good_def distinct_map inj_on_def)
  qed (use that in simp)
  have elem: "\<exists>e \<in> ?E. ep_block (e_dst e) = m \<and> x = (source_of outs e, rd e)" if "m \<in> ?U" "x \<in> set (ins m)" for m x
  proof -
    note mx = that
    obtain i where i: "i < nin g m" "x = (source_of outs (?edge m i), rd (?edge m i))" using mx(2) by (auto simp: ins_def)
    obtain e where e: "e \<in> ?E" "e_dst e = \<lparr> ep_block = m, ep_port = int i \<rparr>" by (rule input_edge [OF good mx(1) i(1)])
    then show ?thesis using i(2) edge [OF e] by (intro bexI [of _ e]) simp_all
  qed
  have src: "source_of outs e \<in> set (outs (ep_block (e_src e)))" "ep_block (e_src e) \<in> ?U" "source_of outs e < length (buffers rt)" if "e \<in> ?E" for e
  proof -
    show u: "ep_block (e_src e) \<in> ?U" using edge_used [OF that] by simp
    then have o: "length (outs (ep_block (e_src e))) = nout g (ep_block (e_src e))"
        "set (outs (ep_block (e_src e))) \<subseteq> {length (buffers rt00)..<length (buffers rt0)}"
      using all by (auto simp: allocated_def)
    show s: "source_of outs e \<in> set (outs (ep_block (e_src e)))" using o(1) ports_goodD(3) [OF good that] by (simp add: source_of_def)
    show "source_of outs e < length (buffers rt)" using s o(2) a(1) by fastforce
  qed
  have outs: "distinct (outs m)" "length (outs m) = nout g m" "\<And>k. k \<in> set (outs m) \<Longrightarrow> k < length (buffers rt)"
      "\<And>m'. m' \<in> ?U \<Longrightarrow> m \<noteq> m' \<Longrightarrow> set (outs m) \<inter> set (outs m') = {}" if "m \<in> ?U" for m
  proof -
    have all': "distinct (outs m)" "length (outs m) = nout g m" "set (outs m) \<subseteq> {length (buffers rt00)..<length (buffers rt0)}"
      "\<forall>m' \<in> ?U. m \<noteq> m' \<longrightarrow> set (outs m) \<inter> set (outs m') = {}"
      using all that unfolding allocated_def by blast+
    then show "distinct (outs m)" "length (outs m) = nout g m"
      "\<And>m'. m' \<in> ?U \<Longrightarrow> m \<noteq> m' \<Longrightarrow> set (outs m) \<inter> set (outs m') = {}" by blast+
    show "k < length (buffers rt)" if "k \<in> set (outs m)" for k
      using all'(3) that a(1) by fastforce
  qed
  have wired: "wired rt m (ins m) (outs m)" if m: "m \<in> ?U" for m
  proof -
    obtain d where d: "details rt m = Some d" "d_output d = map Some (outs m)" "length (d_input d) = nin g m"
        "\<And>e. e \<in> ?E \<Longrightarrow> ep_block (e_dst e) = m \<Longrightarrow> d_input d ! nat (ep_port (e_dst e)) = Some (source_of outs e, rd e)"
      using attachedD [OF att m] by metis
    have "d_input d = map Some (ins m)"
    proof (rule nth_equalityI)
      show "length (d_input d) = length (map Some (ins m))" using d(3) by (simp add: ins_def)
      show "d_input d ! i = map Some (ins m) ! i" if "i < length (d_input d)" for i
      proof -
        have i: "i < nin g m" using that d(3) by simp
        obtain e where e: "e \<in> ?E" "e_dst e = \<lparr> ep_block = m, ep_port = int i \<rparr>" by (rule input_edge [OF good m i])
        show ?thesis using d(4) [OF e(1)] e(2) edge [OF e] i by (simp add: ins_def)
      qed
    qed
    moreover have "distinct (ins m)"
    proof -
      have "i = j" if "i < nin g m" "j < nin g m" "rd (?edge m i) = rd (?edge m j)" for i j
      proof -
        note ij = that
        obtain e where e: "e \<in> ?E" "e_dst e = \<lparr> ep_block = m, ep_port = int i \<rparr>" by (rule input_edge [OF good m ij(1)])
        obtain e' where e': "e' \<in> ?E" "e_dst e' = \<lparr> ep_block = m, ep_port = int j \<rparr>" by (rule input_edge [OF good m ij(2)])
        have "e = e'" using ij(3) a(2) e(1) e'(1) unfolding edge [OF e] edge [OF e'] by (auto dest: inj_onD)
        then show ?thesis using e(2) e'(2) by simp
      qed
      then show ?thesis by (auto simp: ins_def distinct_map inj_on_def)
    qed
    moreover have "fst ` set (ins m) \<inter> set (outs m) = {}"
    proof -
      have "fst x \<notin> set (outs m)" if "x \<in> set (ins m)" for x
      proof -
        obtain e where e: "e \<in> ?E" "ep_block (e_dst e) = m" "x = (source_of outs e, rd e)" using elem [OF m \<open>x \<in> _\<close>] by blast
        have "ep_block (e_src e) \<noteq> m" using loops [OF e(1)] e(2) by simp
        then have "set (outs (ep_block (e_src e))) \<inter> set (outs m) = {}" by (rule outs(4) [OF src(2) [OF e(1)] m])
        moreover have "fst x = source_of outs e" using e(3) by simp
        ultimately show ?thesis using src(1) [OF e(1)] by (metis disjoint_iff)
      qed
      then show ?thesis by blast
    qed
    moreover have "k < length (buffers rt) \<and> r \<in> fst ` set (d_readers (buffers rt ! k))" if "(k, r) \<in> set (ins m)" for k r
    proof -
      note kr = that
      obtain e where e: "e \<in> ?E" "k = source_of outs e" "r = rd e" using elem [OF m kr] by blast
      then show ?thesis using src(3) [OF e(1)] a(1,4) by auto
    qed
    moreover have "\<exists>d. details rt m = Some d \<and> d_input d = map Some (ins m) \<and> d_output d = map Some (outs m)"
      using d(1,2) calculation(1) by blast
    moreover have "\<forall>k \<in> set (outs m). k < length (buffers rt)" using outs(3) [OF m] by blast
    ultimately show ?thesis using outs(1) [OF m] unfolding wired_def by blast
  qed
  have "set (ins m) \<inter> set (ins m') = {}" if "m \<in> ?U" "m' \<in> ?U" "m \<noteq> m'" for m m'
  proof -
    have "x \<notin> set (ins m')" if x: "x \<in> set (ins m)" for x
    proof
      assume x': "x \<in> set (ins m')"
      obtain e where e: "e \<in> ?E" "ep_block (e_dst e) = m" "x = (source_of outs e, rd e)" using elem [OF \<open>m \<in> ?U\<close> x] by blast
      obtain e' where e': "e' \<in> ?E" "ep_block (e_dst e') = m'" "x = (source_of outs e', rd e')" using elem [OF \<open>m' \<in> ?U\<close> x'] by blast
      have "e = e'" using e(1,3) e'(1,3) a(2) by (auto dest: inj_onD)
      then show False using e(2) e'(2) \<open>m \<noteq> m'\<close> by simp
    qed
    then show ?thesis by blast
  qed
  moreover have "length (ins m) = nin g m" for m by (simp add: ins_def)
  moreover have "ins (ep_block (e_dst e)) ! nat (ep_port (e_dst e)) = (source_of outs e, rd e)" if "e \<in> ?E" for e
  proof -
    have "e_dst e = \<lparr> ep_block = ep_block (e_dst e), ep_port = int (nat (ep_port (e_dst e))) \<rparr>"
      using ports_goodD(6) [OF good that] by simp
    note found = edge [OF that this]
    have "ins m ! i = (source_of outs (?edge m i), rd (?edge m i))" if "i < nin g m" for m i using that by (simp add: ins_def)
    from this [OF ports_goodD(4) [OF good that]] show ?thesis unfolding found .
  qed
  moreover have "length (d_base (buffers rt0 ! k)) = unat (d_bufsize (buffers rt ! k)) \<and> int (unat (d_bufsize (buffers rt ! k))) < B"
    if k: "k < length (buffers rt)" for k
  proof -
    have k0: "k < length (buffers rt0)" using k a(1) by simp
    obtain new where "buffers rt0 = new" "list_all (fresh_below B) new" using all bufs by (auto simp: allocated_def)
    then have "fresh_below B (buffers rt0 ! k)" using k0 by (simp add: list_all_length)
    then have f: "fresh (buffers rt0 ! k)" "int (unat (d_bufsize (buffers rt0 ! k))) < B" by (simp_all add: fresh_below_def)
    have "length (d_base (buffers rt0 ! k)) = unat (d_bufsize (buffers rt0 ! k))" using f(1) buffer_okD(1) unfolding fresh_def by blast
    then show ?thesis using f(2) a(3) [OF k0] by simp
  qed
  ultimately have "wired_up bs g B ins outs (\<lambda>k. d_base (buffers rt0 ! k)) P rt"
    using P wired outs unfolding wired_up_def by simp
  then show ?thesis by blast
qed

section \<open>From the graph to the streams\<close>

text \<open>A validated graph has no gaps in the numbers of its ports.\<close>

lemma validated_ports:
  assumes "graph_ok bs g" "snd (validate bs g) = Inr ()"
    and "\<And>m. sig_ok (d_input_signature (bs m)) \<and> sig_ok (d_output_signature (bs m))"
    and "\<And>e. e \<in> set (d_edges g) \<Longrightarrow> ep_port (e_src e) < 2 ^ 31 \<and> ep_port (e_dst e) < 2 ^ 31"
  shows "ports_good g"
proof -
  have pos: "0 \<le> ep_port (e_src e) \<and> 0 \<le> ep_port (e_dst e)" if "e \<in> set (d_edges g)" for e
    using assms(1) that by (auto simp: graph_ok_def edge_ok_def port_ok_def Let_def)
  have ok: "block_ok bs g m" if "m \<in> set (calc_used_blocks g)" for m
    using validate_iff [of g bs] assms(2,3) pos that by (auto split: if_splits)
  have "ports_of g m True = {0..<int (nin g m)} \<and> ports_of g m False = {0..<int (nout g m)}" if "m \<in> set (calc_used_blocks g)" for m
  proof -
    note used = that
    obtain a b where ab: "ports_ok (d_input_signature (bs m)) (ports_of g m True) a" "ports_ok (d_output_signature (bs m)) (ports_of g m False) b"
      using ok [OF used] by (auto simp: block_ok_def)
    moreover have "a = int (nin g m)" "b = int (nout g m)" using ports_ok_length ab assms(3) by blast+
    ultimately show ?thesis by (simp add: ports_ok_def)
  qed
  then show ?thesis using assms(1,4) pos unfolding ports_good_def graph_ok_def by blast
qed

text \<open>A graph without loops can be numbered in the direction of its edges.\<close>

lemma graph_rank:
  assumes "acyclic (edges_of g)"
  obtains rk :: "block \<Rightarrow> nat" where "\<And>a b. (a, b) \<in> edges_of g \<Longrightarrow> rk a < rk b"
proof
  let ?before = "\<lambda>b. {a. (a, b) \<in> (edges_of g)\<^sup>+}"
  show "card (?before a) < card (?before b)" if "(a, b) \<in> edges_of g" for a b
  proof (rule psubset_card_mono)
    have "?before b = Domain ((edges_of g)\<^sup>+ \<inter> UNIV \<times> {b})" by auto
    then show "finite (?before b)" by (simp add: finite_Domain)
    have "a \<notin> ?before a" using assms by (auto simp: acyclic_def)
    then show "?before a \<subset> ?before b" using that by (auto intro: trancl.intros)
  qed
qed

text \<open>A buffer has one writer.\<close>

lemma buffer_rank:
  assumes "\<And>m m'. m \<in> U \<Longrightarrow> m' \<in> U \<Longrightarrow> m \<noteq> m' \<Longrightarrow> set (outs m) \<inter> set (outs m') = {}"
  obtains rank :: "nat \<Rightarrow> nat" where "\<And>m k. m \<in> U \<Longrightarrow> k \<in> set (outs m) \<Longrightarrow> rank k = rk (m :: block)"
proof
  let ?rank = "\<lambda>k. rk (SOME m. m \<in> U \<and> k \<in> set (outs m))"
  show "?rank k = rk m" if "m \<in> U" "k \<in> set (outs m)" for m k
  proof -
    have "(SOME m. m \<in> U \<and> k \<in> set (outs m)) = m"
      by (rule some_equality) (use that assms in blast)+
    then show ?thesis by simp
  qed
qed

text \<open>The blocks at their places, and what they have to be for it.\<close>

definition placed :: "(block \<Rightarrow> ('a, 't) node) \<Rightarrow> flowgraph \<Rightarrow> (block \<Rightarrow> (nat \<times> nat) list) \<Rightarrow> (block \<Rightarrow> nat list) \<Rightarrow> ('a, 't) graph" where
  "placed parts g ins outs m =
     (if m \<in> set (calc_used_blocks g) then Some ((parts m)\<lparr> n_ins := ins m, n_outs := outs m \<rparr>) else None)"

definition part_ok :: "int \<Rightarrow> flowgraph \<Rightarrow> ('a, block \<Rightarrow> 't) gr_block \<Rightarrow> block \<Rightarrow> ('a, 't) node \<Rightarrow> bool" where
  "part_ok B g blk m N \<longleftrightarrow> stream_work (n_work N) (n_ports N) (n_history N) (n_item N) \<and> n_ports N (nin g m) (nout g m)
     \<and> synchronous blk (at_block m (n_work N)) (n_history N) \<and> B + n_history N \<le> 2 ^ 31"

lemma placed_network:
  assumes "wired_up bs g B ins outs H P rt" "\<And>m. m \<in> set (calc_used_blocks g) \<Longrightarrow> part_ok B g (bs m) m (parts m)"
  shows "network bs (placed parts g ins outs) rt"
proof -
  have u: "nin g m \<noteq> 0 \<or> nout g m \<noteq> 0" if "m \<in> set (calc_used_blocks g)" for m
  proof -
    have "ports_of g m True \<noteq> {} \<or> ports_of g m False \<noteq> {}" using that by (auto simp: ports_of_def edges_of_def Field_def)
    then show ?thesis by (metis length_0_conv set_empty used_ports)
  qed
  have w: "wired rt m (ins m) (outs m)" "length (ins m) = nin g m" "length (outs m) = nout g m"
      "\<And>m'. m' \<in> set (calc_used_blocks g) \<Longrightarrow> m \<noteq> m' \<Longrightarrow> set (ins m) \<inter> set (ins m') = {} \<and> set (outs m) \<inter> set (outs m') = {}"
    if "m \<in> set (calc_used_blocks g)" for m
    using assms(1) that unfolding wired_up_def by blast+
  have size: "int (unat (d_bufsize (buffers rt ! k))) < B" if "k < length (buffers rt)" for k
    using assms(1) that unfolding wired_up_def by blast
  have "node_ok (bs m) m N \<and> wired rt m (n_ins N) (n_outs N)
      \<and> (\<forall>k < length (buffers rt). int (unat (d_bufsize (buffers rt ! k))) + n_history N \<le> 2 ^ 31)"
    if N: "placed parts g ins outs m = Some N" for m N
  proof -
    have m: "m \<in> set (calc_used_blocks g)" "N = (parts m)\<lparr> n_ins := ins m, n_outs := outs m \<rparr>"
      using N by (auto simp: placed_def split: if_splits)
    have p: "part_ok B g (bs m) m (parts m)" by (rule assms(2) [OF m(1)])
    have "ins m \<noteq> [] \<or> outs m \<noteq> []" using u [OF m(1)] w(2,3) [OF m(1)] by auto
    then have "node_ok (bs m) m N" using p w(2,3) [OF m(1)] by (simp add: node_ok_def part_ok_def m(2))
    then show ?thesis using p w(1) [OF m(1)] size by (force simp: part_ok_def m(2))
  qed
  moreover have "set (n_ins N) \<inter> set (n_ins N') = {} \<and> set (n_outs N) \<inter> set (n_outs N') = {}"
    if "placed parts g ins outs m = Some N" "placed parts g ins outs m' = Some N'" "m \<noteq> m'" for m m' N N'
  proof -
    have "m \<in> set (calc_used_blocks g)" "m' \<in> set (calc_used_blocks g)" "N = (parts m)\<lparr> n_ins := ins m, n_outs := outs m \<rparr>"
      "N' = (parts m')\<lparr> n_ins := ins m', n_outs := outs m' \<rparr>"
      using that(1,2) by (auto simp: placed_def split: if_splits)
    then show ?thesis using w(4) [OF _ _ that(3)] by simp
  qed
  ultimately show ?thesis unfolding network_def by blast
qed

text \<open>Set up and run: whatever the order, no two runs disagree.\<close>

lemma placed_agree:
  assumes good: "ports_good g" "acyclic (edges_of g)" and w: "wired_up bs g B ins outs H0 P0 rt0" and net: "network bs (placed parts g ins outs) rt1"
    and runs: "flows (placed parts g ins outs) H0 P0 rt0 H1 P1 rt1" "flows (placed parts g ins outs) H0 P0 rt0 H2 P2 rt2"
  shows "agree (H1 k) (H2 k)"
proof -
  let ?U = "set (calc_used_blocks g)"
  obtain rk :: "block \<Rightarrow> nat" where rk: "\<And>a b. (a, b) \<in> edges_of g \<Longrightarrow> rk a < rk b" using graph_rank [OF good(2)] by blast
  have up: "length (ins m) = nin g m" "length (outs m) = nout g m"
      "\<And>m'. m' \<in> ?U \<Longrightarrow> m \<noteq> m' \<Longrightarrow> set (outs m) \<inter> set (outs m') = {}" if "m \<in> ?U" for m
    using w that unfolding wired_up_def by blast+
  obtain rank :: "nat \<Rightarrow> nat" where rank: "\<And>m k. m \<in> ?U \<Longrightarrow> k \<in> set (outs m) \<Longrightarrow> rank k = rk m"
    by (rule buffer_rank [of ?U outs rk]) (use up(3) in auto)
  have "rank (fst i) < rank k" if "placed parts g ins outs m = Some N" "i \<in> set (n_ins N)" "k \<in> set (n_outs N)" for m N i k
  proof -
    have m: "m \<in> ?U" "i \<in> set (ins m)" "k \<in> set (outs m)" using that by (auto simp: placed_def split: if_splits)
    then obtain j where j: "j < nin g m" "i = ins m ! j" using up(1) [OF m(1)] by (auto simp: in_set_conv_nth)
    obtain e where e: "e \<in> set (d_edges g)" "e_dst e = \<lparr> ep_block = m, ep_port = int j \<rparr>" by (rule input_edge [OF good(1) m(1) j(1)])
    have "fst (ins (ep_block (e_dst e)) ! nat (ep_port (e_dst e))) = source_of outs e" using w e(1) unfolding wired_up_def by blast
    then have i: "fst i = source_of outs e" using e(2) j(2) by simp
    have p: "ep_block (e_src e) \<in> ?U" using edge_used [OF e(1)] by simp
    have "source_of outs e \<in> set (outs (ep_block (e_src e)))"
      using ports_goodD(3) [OF good(1) e(1)] up(2) [OF p] by (simp add: source_of_def)
    then have "rank (fst i) = rk (ep_block (e_src e))" unfolding i by (rule rank [OF p])
    moreover have "(ep_block (e_src e), m) \<in> edges_of g" using e by (force simp: edges_of_def)
    ultimately show ?thesis using rank [OF m(1,3)] rk by simp
  qed
  then show ?thesis by (rule network_agrees [OF net runs])
qed

lemma setup_wired:
  assumes good: "ports_good g" "acyclic (edges_of g)" and al: "allocatable page mem bs g B" and start: "buffers rt = []"
  shows "\<exists>rt0 ins outs H0 P0. setup_connections page mem bs g rt = Inr rt0 \<and> wired_up bs g (B + page) ins outs H0 P0 rt0 \<and> inner rt0 = inner rt"
proof -
  have dist: "distinct (calc_used_blocks g)" by (simp add: distinct_used)
  obtain rt1 outs where rt1: "gr_fold (allocate_block_detail page mem bs g) (calc_used_blocks g) rt = Inr rt1"
      "allocated bs g (B + page) (set (calc_used_blocks g)) rt outs rt1"
    using allocate_all [OF al subset_refl dist] by blast
  have "list_all (fresh_below (B + page)) (buffers rt1)" using rt1(2) start by (auto simp: allocated_def)
  then have fresh: "fresh (buffers rt1 ! k)" if "k < length (buffers rt1)" for k
    using that by (simp add: list_all_length fresh_below_def)
  obtain rt0 rd where rt0: "gr_fold (connect_block_inputs bs g) (calc_used_blocks g) rt1 = Inr rt0"
      "attached bs g outs rt1 ({} \<union> {e \<in> set (d_edges g). ep_block (e_dst e) \<in> set (calc_used_blocks g)}) rd rt0"
    using connect_blocks [OF al good(1) rt1(2) attached_start [OF rt1(2) fresh] empty_subsetI dist] by blast
  have "{} \<union> {e \<in> set (d_edges g). ep_block (e_dst e) \<in> set (calc_used_blocks g)} = set (d_edges g)"
    using edge_used by auto
  then have att: "attached bs g outs rt1 (set (d_edges g)) rd rt0" using rt0(2) by simp
  have "ep_block (e_src e) \<noteq> ep_block (e_dst e)" if "e \<in> set (d_edges g)" for e
  proof -
    have "(ep_block (e_src e), ep_block (e_dst e)) \<in> edges_of g" using that by (simp add: edges_of_def)
    then show ?thesis using good(2) by (metis acyclic_def r_into_trancl')
  qed
  then obtain ins H0 P0 where "wired_up bs g (B + page) ins outs H0 P0 rt0"
    using attached_wired [OF good(1) rt1(2) att _ start] by blast
  moreover have "inner rt0 = inner rt" using att rt1(2) by (simp add: attached_def allocated_def)
  ultimately show ?thesis using rt0(1) rt1(1) by (auto simp: setup_connections_def Let_def)
qed

text \<open>
  C32: a graph that was validated and has no loop can be set up and run, and the order does not matter: setting up the
  connections succeeds and gives every output a buffer of its own and every edge a reader of the buffer at its
  source, behind as many zeros as the block at its end looks back; and in any two runs from there,
  with the iterations of the blocks in any orders and numbers, every stream is what its block computes from the streams
  at its inputs (a function of windows of items, with the state of the block), so that of the two contents of a stream one
  continues the other.  The blocks are synchronous ones with such a function, of a size that the
  buffers allow; \<open>B\<close> is a bound of the items that are requested for a buffer, and \<open>mem\<close> the memory given for it.
\<close>

theorem flowgraph_streams:
  assumes "graph_ok (basic_block.truncate \<circ> bs) g" "snd (validate (basic_block.truncate \<circ> bs) g) = Inr ()" "acyclic (edges_of g)"
    and "\<And>m. sig_ok (d_input_signature (bs m)) \<and> sig_ok (d_output_signature (bs m))"
    and "\<And>e. e \<in> set (d_edges g) \<Longrightarrow> ep_port (e_src e) < 2 ^ 31 \<and> ep_port (e_dst e) < 2 ^ 31"
    and "allocatable page mem bs g B" "buffers rt = []"
    and "\<And>m. m \<in> set (calc_used_blocks g) \<Longrightarrow> part_ok (B + page) g (bs m) m (parts m)"
  shows "\<exists>rt0 ins outs H0 P0. setup_connections page mem bs g rt = Inr rt0 \<and> wired_up bs g (B + page) ins outs H0 P0 rt0
    \<and> (\<forall>rt1 rt2. scheduled bs (set (calc_used_blocks g)) rt0 rt1 \<and> scheduled bs (set (calc_used_blocks g)) rt0 rt2 \<longrightarrow>
         (\<exists>H1 P1 H2 P2. flows (placed parts g ins outs) H0 P0 rt0 H1 P1 rt1 \<and> flows (placed parts g ins outs) H0 P0 rt0 H2 P2 rt2
            \<and> (\<forall>k. agree (H1 k) (H2 k))))"
proof -
  have good: "ports_good g" by (rule validated_ports [OF assms(1,2)]) (use assms(4,5) in \<open>simp_all add: basic_block.truncate_def\<close>)
  obtain rt0 ins outs H0 P0 where up: "setup_connections page mem bs g rt = Inr rt0" "wired_up bs g (B + page) ins outs H0 P0 rt0"
    using setup_wired [OF good assms(3,6,7)] by blast
  let ?net = "placed parts g ins outs"
  have net: "network bs ?net rt0" by (rule placed_network [OF up(2) assms(8)])
  have s: "streams rt0 H0 P0 (\<lambda>k. [])" using up(2) by (simp add: wired_up_def)
  have dom: "dom ?net = set (calc_used_blocks g)" by (auto simp: placed_def split: if_splits)
  have "\<exists>H1 P1 H2 P2. flows ?net H0 P0 rt0 H1 P1 rt1 \<and> flows ?net H0 P0 rt0 H2 P2 rt2 \<and> (\<forall>k. agree (H1 k) (H2 k))"
    if "scheduled bs (set (calc_used_blocks g)) rt0 rt1" "scheduled bs (set (calc_used_blocks g)) rt0 rt2" for rt1 rt2
  proof -
    note runs = that [folded dom]
    obtain H1 P1 where r1: "network bs ?net rt1" "flows ?net H0 P0 rt0 H1 P1 rt1"
      using network_run [OF runs(1) net s] by blast
    obtain H2 P2 where r2: "flows ?net H0 P0 rt0 H2 P2 rt2" using network_run [OF runs(2) net s] by blast
    show ?thesis using placed_agree [OF good assms(3) up(2) r1 r2] r1(2) r2 by blast
  qed
  then show ?thesis using up by blast
qed

section \<open>A graph, set up\<close>

text \<open>Zeros, scrambled and thrown away.\<close>

definition chain_part :: "block \<Rightarrow> (u8, gri_lfsr) node" where
  "chain_part m =
     (if m = 1 then \<lparr> n_work = gr_null_source_work, n_ports = (\<lambda>i k. i = 0 \<and> k = 1), n_history = 1, n_item = (\<lambda>ins s. ([0], s)), n_ins = [], n_outs = [] \<rparr>
      else if m = 2 then \<lparr> n_work = gr_scrambler_bb_work, n_ports = one_to_one, n_history = 1, n_item = per_item next_bit_scramble, n_ins = [], n_outs = [] \<rparr>
      else \<lparr> n_work = gr_null_sink_work, n_ports = (\<lambda>i k. i = 1 \<and> k = 0), n_history = 1, n_item = (\<lambda>ins s. ([], s)), n_ins = [], n_outs = [] \<rparr>)"

definition chain_block :: "block \<Rightarrow> (u8, block \<Rightarrow> gri_lfsr) gr_block" where
  "chain_block m =
     gr_sync_block \<lparr> d_min_streams = of_bool (m \<noteq> 1), d_max_streams = of_bool (m \<noteq> 1), d_sizeof_stream_item = [of_bool (m \<noteq> 1)] \<rparr>
       \<lparr> d_min_streams = of_bool (m \<noteq> 3), d_max_streams = of_bool (m \<noteq> 3), d_sizeof_stream_item = [of_bool (m \<noteq> 3)] \<rparr>
       (at_block m (n_work (chain_part m)))"

definition chain_graph :: flowgraph where
  "chain_graph = \<lparr> d_blocks = [], d_edges = [sample_edge 1 2 0, sample_edge 2 3 0] \<rparr>"

definition chain_start :: "(u8, block \<Rightarrow> gri_lfsr) runtime" where
  "chain_start = \<lparr> buffers = [], details = (\<lambda>m. None), next_reader = 0, heap = pmt_start, inner = (\<lambda>m. sample_lfsr 0x7F) \<rparr>"

definition chain_memory :: "nat \<Rightarrow> u32 \<Rightarrow> u8 list option" where
  "chain_memory k n = Some (replicate (unat n) 0)"

lemma chain_uses: "calc_used_blocks chain_graph = [1, 2, 3]"
  "calc_used_ports chain_graph 1 True = []" "calc_used_ports chain_graph 1 False = [0]"
  "calc_used_ports chain_graph 2 True = [0]" "calc_used_ports chain_graph 2 False = [0]"
  "calc_used_ports chain_graph 3 True = [0]" "calc_used_ports chain_graph 3 False = []"
  by code_simp+

lemma chain_fields [simp]:
  "d_output_multiple (chain_block m) = 1" "d_history (chain_block m) = 1" "block_need (chain_block m) = 4"
  "d_input_signature (chain_block m) = \<lparr> d_min_streams = of_bool (m \<noteq> 1), d_max_streams = of_bool (m \<noteq> 1), d_sizeof_stream_item = [of_bool (m \<noteq> 1)] \<rparr>"
  "d_output_signature (chain_block m) = \<lparr> d_min_streams = of_bool (m \<noteq> 3), d_max_streams = of_bool (m \<noteq> 3), d_sizeof_stream_item = [of_bool (m \<noteq> 3)] \<rparr>"
  "check_topology (chain_block m) = (\<lambda>n k. True)"
  by (simp_all add: chain_block_def gr_sync_block_def make_block_def block_need_def)

lemma chain_edges: "edges_of chain_graph = {(1, 2), (2, 3)}"
  by (auto simp: edges_of_def chain_graph_def sample_edge_def)

definition chain_basic :: "block \<Rightarrow> basic_block" where
  "chain_basic m =
    \<lparr> d_input_signature = \<lparr> d_min_streams = of_bool (m \<noteq> 1), d_max_streams = of_bool (m \<noteq> 1), d_sizeof_stream_item = [of_bool (m \<noteq> 1)] \<rparr>,
      d_output_signature = \<lparr> d_min_streams = of_bool (m \<noteq> 3), d_max_streams = of_bool (m \<noteq> 3), d_sizeof_stream_item = [of_bool (m \<noteq> 3)] \<rparr>,
      check_topology = (\<lambda>n k. True) \<rparr>"

lemma chain_truncate: "basic_block.truncate \<circ> chain_block = chain_basic"
  by (rule ext) (simp add: basic_block.truncate_def chain_basic_def)

lemma chain_graph_ok: "graph_ok (basic_block.truncate \<circ> chain_block) chain_graph"
  unfolding chain_truncate by (simp add: graph_ok_def chain_graph_def chain_basic_def sample_edge_def edge_ok_def port_ok_def item_size_def Let_def)

lemma chain_valid: "snd (validate (basic_block.truncate \<circ> chain_block) chain_graph) = Inr ()"
  unfolding chain_truncate by code_simp

lemma chain_acyclic: "acyclic (edges_of chain_graph)"
  unfolding chain_edges by (rule acyclicI_order [of _ "\<lambda>m. - int m"]) auto

lemma chain_allocatable: "allocatable 4096 chain_memory chain_block chain_graph 65536"
  unfolding allocatable_def chain_uses
  by (auto simp: chain_uses chain_memory_def)

lemma chain_synchronous: "synchronous (chain_block m) (at_block m (n_work (chain_part m))) 1"
  unfolding synchronous_def chain_block_def
  by (intro conjI exI [of _ 1] exI) (auto simp: gr_sync_block_def make_block_def)

lemma chain_parts: "m \<in> set (calc_used_blocks chain_graph) \<Longrightarrow> part_ok (65536 + 4096) chain_graph (chain_block m) m (chain_part m)"
  using chain_synchronous [of m] null_source.stream_work_axioms scrambler.stream_work_axioms null_sink.stream_work_axioms
  unfolding chain_uses part_ok_def by (auto simp: chain_part_def chain_uses [unfolded One_nat_def] chain_uses one_to_one_def)

theorem flowgraph_streams_witness:
  "\<exists>rt0 ins outs H0 P0 H1 P1. setup_connections 4096 chain_memory chain_block chain_graph chain_start = Inr rt0
    \<and> wired_up chain_block chain_graph (65536 + 4096) ins outs H0 P0 rt0
    \<and> flows (placed chain_part chain_graph ins outs) H0 P0 rt0 H1 P1 rt0"
proof -
  have ports: "ep_port (e_src e) < 2 ^ 31 \<and> ep_port (e_dst e) < 2 ^ 31" if "e \<in> set (d_edges chain_graph)" for e
    using that by (auto simp: chain_graph_def sample_edge_def)
  have sigs: "sig_ok (d_input_signature (chain_block m)) \<and> sig_ok (d_output_signature (chain_block m))" for m
    by (simp add: sig_ok_def)
  show ?thesis
    using flowgraph_streams [OF chain_graph_ok chain_valid chain_acyclic sigs ports chain_allocatable _ chain_parts, of chain_start] scheduled.start
    by (fastforce simp: chain_start_def)
qed

end
