(* ===== verification/Spec2Isabelle.thy ===== *)
theory Spec2Isabelle
  imports RS_CCSDS Viterbi G711 G72x_Codecs Usrp2_Main Pmt_Lists Pmt_Serialize Gr_Fifo Gr_Topology Gr_Wiring
begin

text \<open>
  \<^bold>\<open>A verification library for GNU Radio\<close>

  GNU Radio is a signal processing toolkit: a C++ run time that moves samples between blocks, blocks
  and codecs, and the firmware and drivers of the radios.  This library models, from the sources,
  the parts of it that are discrete programs with an exact meaning, and proves what makes them
  correct.

  \<^bold>\<open>Parts and theories\<close>

  \<^item> Channel and speech codecs, under \<open>gnuradio-core/src/lib\<close>.  \<open>RS_Char\<close>, \<open>RS_Field\<close>, \<open>RS_Init\<close>,
    \<open>RS_Encode\<close>, \<open>RS_Decode\<close>, \<open>RS_CCSDS\<close>: the Reed-Solomon codec of \<open>reed-solomon/\<close> (control block
    and field tables, the shift register encoder, the decoder, the dual-basis wrappers of CCSDS).
    \<open>Viterbi\<close>: the K=7 rate 1/2 codec of \<open>viterbi/\<close>.  \<open>G711\<close>, \<open>G72x\<close>, \<open>G72x_Codecs\<close>: companding
    and the three ADPCM coders of \<open>g72x/\<close>.
  \<^item> The USRP2 firmware, under \<open>usrp2/firmware\<close>.  \<open>Dbsm\<close> and \<open>Dbsm_Fifo\<close>: the buffer pool and the
    double buffering state machine (\<open>lib/buffer_pool.c\<close>, \<open>lib/dbsm.c\<close>).  \<open>Usrp2_Hal\<close>: pins and LEDs
    (\<open>lib/hal_io.c\<close>).  \<open>Usrp2_Db\<close>: daughterboards and tuning (\<open>lib/db_init.c\<close>).  \<open>Usrp2_Stream\<close>:
    received samples to the host (\<open>apps/txrx.c\<close>).  \<open>Usrp2_Control\<close>: the control channel
    (\<open>apps/app_common_v2.c\<close>).  \<open>Usrp2_Main\<close>: \<open>main\<close> and its loop (\<open>apps/txrx.c\<close>).
  \<^item> Polymorphic types, under \<open>gruel/src/lib/pmt\<close>: the objects of messages and tags.  \<open>Pmt\<close>: objects in a
    store, with their identity, symbols, numbers, pairs, vectors and the three equalities.
    \<open>Pmt_Lists\<close>: lists and dictionaries.  \<open>Pmt_Tree\<close>: the invariant of the symbol table, and the trees
    that objects stand for.  \<open>Pmt_Serialize\<close>: objects as bytes (\<open>pmt_serialize.cc\<close>).
  \<^item> The run time, under \<open>gnuradio-core/src/lib/runtime\<close>.  \<open>Gr_Buffer\<close> and \<open>Gr_Fifo\<close>: the buffers between
    blocks (\<open>gr_buffer.cc\<close>).  \<open>Gr_Flowgraph\<close> and \<open>Gr_Topology\<close>: flow graphs, their validation, partition
    and order (\<open>gr_flowgraph.cc\<close>, \<open>gr_io_signature.cc\<close>).  \<open>Gr_Flat\<close> and \<open>Gr_Wiring\<close>: allocation and connection of
    the buffers of a graph (\<open>gr_flat_flowgraph.cc\<close>).  \<open>Gr_Network\<close>: whole graphs, run in any order.  \<open>Gr_Block\<close>: blocks, what the run time keeps
    about them, and the synchronous kinds (\<open>gr_block.cc\<close>, \<open>gr_block_detail.cc\<close>, \<open>gr_sync_block.cc\<close>,
    \<open>gr_sync_decimator.cc\<close>, \<open>gr_sync_interpolator.cc\<close>).  \<open>Gr_Executor\<close>: one iteration of a block
    (\<open>gr_block_executor.cc\<close>), with its lemmas in \<open>Gr_Running\<close>, \<open>Gr_Streams\<close>, \<open>Gr_Steps\<close>,
    \<open>Gr_Sync\<close> and \<open>Gr_Tags\<close>.
  \<^item> Blocks, under \<open>gnuradio-core/src/lib/general\<close>.  \<open>Gr_Bits\<close>: checksums and bit counts
    (\<open>gr_crc32.cc\<close>, \<open>gr_count_bits.cc\<close>).  \<open>Gr_Lfsr\<close>: shift registers (\<open>gri_lfsr.h\<close>).  \<open>Gr_Items\<close>: blocks
    that work item by item (scramblers, differential coding, \<open>gr_map_bb\<close>, \<open>gr_head\<close>, \<open>gr_null_sink\<close>, \<open>gr_null_source\<close>).
    \<open>Gr_Framer\<close>: reception of packets (\<open>gr_correlate_access_code_bb.cc\<close>, \<open>gr_framer_sink_1.cc\<close>).
  \<^item> \<open>GR_Prelude\<close>: types of words, C arithmetic (\<open>c_int\<close>, \<open>c_short\<close>, shifts), generic lemmas.

  \<^bold>\<open>How the firmware fits together\<close>

  The state of the firmware is the record \<open>fw\<close> of \<open>Dbsm\<close>: the table \<open>buffer_state\<close> of \<open>dbsm.c\<close>, the
  words written to the buffer pool control register (\<open>ctrl_log\<close>), the other outputs in order
  (\<open>io_log\<close>, with the calls of daughterboard drivers) and an environment.  The environment grows by
  record extension: \<open>hal\<close> (registers that are read back), \<open>boards\<close> (board table, EEPROMs), \<open>app\<close>
  (buffer memory, streaming variables, both state machines, what status reads return).  A state
  machine \<open>dbsm\<close> gets its inspector as a parameter; the locale \<open>packet_inspector\<close> is the contract it
  must keep, and it is interpreted on the three inspectors of the code: \<open>nop\<close> on
  \<open>dbsm_nop_inspector\<close>, \<open>seqno\<close> on \<open>fw_sets_seqno_inspector\<close> and \<open>eth\<close> on \<open>eth_inspect\<close>, which is
  \<open>eth_pkt_inspector\<close> with the whole control channel behind it.  \<open>Usrp2_Main\<close> composes them.

  \<^bold>\<open>How the run time fits together\<close>

  The state of a running flow graph is the record \<open>runtime\<close> of \<open>Gr_Block\<close>: the buffers, what is kept
  about each block (\<open>block_detail\<close>, its readers and its buffers), the heap of polymorphic objects for
  the tags and the state of the blocks themselves.  A block is a record of its numbers and its
  virtual methods; \<open>run_one_iteration\<close> of \<open>Gr_Executor\<close> is a function on this state, with exceptions
  and failed assertions as errors.  Its abstract view is in \<open>Gr_Streams\<close>: \<open>streams rt H P\<close> says that
  every buffer stands for the stream \<open>H\<close> written to it and every reader for a position \<open>P\<close> in it.
  The locale \<open>sync_work\<close> of \<open>Gr_Sync\<close> is the contract between the executor and the work method of a
  synchronous block: how much it may return and that it fills every output with as much.  It is
  interpreted on all work methods of \<open>Gr_Items\<close> and \<open>Gr_Framer\<close>.  The locale \<open>stream_work\<close> of \<open>Gr_Network\<close> extends it
  with the function of windows of items that the method computes.

  \<^bold>\<open>What the lemmas show\<close>

  \<^item> Reed-Solomon: which arguments \<open>init_rs\<close> accepts, that it always returns, and that its \<open>iprim\<close> is an
    inverse exactly when \<open>prim\<close> is coprime to the period; that the tables describe a field and a code with the given roots; that the encoder makes code words; the minimum
    distance; that the decoder accepts code words and detects up to \<open>nroots\<close> errors; that the dual
    basis tables are inverse to each other.
  \<^item> Viterbi: eight add-compare-select steps compute the best path into every state, against the
    specification over all input sequences; encoding and decoding without noise round-trip, but for
    the low bits of the last byte, a repeated byte in some lengths and an undefined shift in others.
  \<^item> G.711 and G.72x: round trips and error bounds of the companding; the ranges of the ADPCM state
    and the synchronisation of encoder and decoder.
  \<^item> Polymorphic types: interning gives one object per name; equality of objects is equality of trees,
    but for uniform vectors; dictionaries are maps; reading bytes always returns, and reads back
    what was written, with reals rounded to floats and complex numbers lost.
  \<^item> Buffers: over any interleaving of one writer and many readers every reader gets what was written,
    in order and without loss, and no assertion fails; tags stay until every reader has passed them,
    unless it was attached after the others had moved on;
    the allocation fills whole pages.
  \<^item> Flow graphs: connecting keeps well-formed graphs so, validation accepts exactly the good ones, and
    the partition gives each connected component in topological order, or an exception for a loop.
  \<^item> The executor: the search for a feasible request ends; an iteration refines a step of the block's
    work function on the streams, and nothing else moves; a block that has its smallest request, room
    for it and readable tags runs; and so a block
    that works item by item computes its function of the whole stream, however it is scheduled.
  \<^item> Whole graphs: a validated graph without loops can be set up, and its streams are the functions of its blocks,
    the same for any order of iterations.  The blocks run one at a time; that an iteration is not interleaved with another
    one is what the locks on the buffers are for, which are not modelled.
  \<^item> Blocks: the checksum finds every error within four bytes and has a constant residue; the fast bit
    counts are right; the descrambler recovers the stream and the differential decoder does so for
    powers of two only; the correlator flags exactly the access codes, and packets after one reach
    the message queue; the framer stays inside its buffer.
  \<^item> Double buffering: the machine refines a queue of two packets over every sequence of status
    words and underruns (a ghost trace of accepted and gone packets); the table agrees with the
    hardware; an overrun of the receiver stalls it.
  \<^item> Control channel: the loop over well-formed commands equals running each once in order; answers
    fit the reply whatever the frame holds; the inputs that make it hang or exit; nothing it does disturbs the
    double buffer that calls it, except a poke to the buffer pool, which sets the ghost \<open>astray\<close>.
  \<^item> Pins, boards, tuning and streaming: masked updates, board selection, two-stage tuning to the
    target, bounds of the control word, the credit of receive commands and the numbers of the packets.
  \<^item> \<open>main\<close>: as long as \<open>astray\<close> is not set the loop refines the runs of the transmit double buffer.

  \<^bold>\<open>Bounds, fuel and parameters\<close>

  The loop for \<open>iprim\<close> in \<open>init_rs\<close> is a \<open>partial_function\<close> on 32-bit words, and that it ends for every
  argument, if only because it wraps around, is proved; the loop over the commands of a frame is a \<open>partial_function\<close> into options, and that it
  returns, or does not, is proved; the busy waits consume a list of register values.  Allocation
  failures, the EEPROM contents, daughterboard drivers and the register values that the hardware
  returns are parameters.  C integers keep their width where the code can overflow them; a
  signed counter that overflows (\<open>fw_seqno\<close>) is taken to wrap around, as it does on the machine.

  Peek and poke of the control channel use the address map of \<open>memory_map.h\<close>.  Its buffer memory and control
  register, pins, switching registers and DSP chains are the state of the model; the other devices are a map of what loads
  return and a log of stores.  The main memory below \<open>0x8000\<close>, with the program and its variables, is
  not modelled byte by byte: a store there is taken as the end of the firmware.

  \<^bold>\<open>Not modelled\<close>

  The filters and the blocks on floating point samples compute with numbers for which HOL has no
  machine model here; the relative rate of a block is a pair of functions for the same reason.  The
  run time's threads, locks, shared memory and message queues, hierarchical blocks, the Python and
  Guile bindings, the graphical tools, the build system, FPGA sources and test programs are left
  out; so are the chip drivers of the firmware (clocks, converters, SPI, I2C, Ethernet MAC), the
  other firmware applications, the USRP1 firmware, the host drivers and the Cell libraries.
  The refinement of the executor is for blocks that use and make as many items on each port; the
  decimating and interpolating kinds are modelled but not proved.  Correction of errors
  by the Reed-Solomon decoder (\<open>berlekamp_massey\<close>, \<open>chien_search\<close>, \<open>apply_errors\<close>) is modelled but only
  its behaviour on code words and the detection of errors are proved.
\<close>

end
